(* ===== verification/Prelude.thy ===== *)
theory Prelude
  imports Main "HOL-Library.Word"
begin

text \<open>
  Shared ground of the development: the Python values every component handles (octet strings,
  text, exceptions), the parts of the Python standard library the package calls
  (\<open>bytes.fromhex\<close>, \<open>bytes.hex\<close>, \<open>int.to_bytes\<close>, \<open>int.from_bytes\<close>), a small result type for
  code that raises, and the list and arithmetic lemmas the component proofs share.

  Python \<open>bytes\<close> is a list of 8-bit words. Python \<open>str\<close> is a \<open>string\<close> holding the UTF-8
  octets of the text, so \<open>s.encode()\<close> is \<open>utf8_encode\<close> below and two texts are equal exactly
  when their octets are. Python \<open>int\<close> is \<open>int\<close>.
\<close>

section \<open>Types\<close>

type_synonym byte = "8 word"
type_synonym bytes = "byte list"

text \<open>The exceptions of the standard library that the package lets through or catches.\<close>

datatype py_exn = ValueError | IndexError | TypeError | KeyError | OverflowError

named_theorems raise_simps \<open>rewriting of results that may be an exception\<close>
named_theorems hash_lengths \<open>lengths of digests and of the lists built from them\<close>

section \<open>Results that may be an exception\<close>

text \<open>\<open>Inl e\<close> is a raised exception, \<open>Inr x\<close> a returned value; \<open>rbind\<close> runs the rest of a
  function unless an exception was raised.\<close>

fun rbind :: "'e + 'a \<Rightarrow> ('a \<Rightarrow> 'e + 'b) \<Rightarrow> 'e + 'b" where
  "rbind (Inl e) f = Inl e"
| "rbind (Inr x) f = f x"

fun rmap :: "('a \<Rightarrow> 'b) \<Rightarrow> 'e + 'a \<Rightarrow> 'e + 'b" where
  "rmap f (Inl e) = Inl e"
| "rmap f (Inr x) = Inr (f x)"

text \<open>A comprehension whose element expression may raise: the first exception ends it.\<close>

fun rmapM :: "('a \<Rightarrow> 'e + 'b) \<Rightarrow> 'a list \<Rightarrow> 'e + 'b list" where
  "rmapM f [] = Inr []"
| "rmapM f (x # xs) = rbind (f x) (\<lambda>y. rmap (Cons y) (rmapM f xs))"

lemma rbind_Inr_iff [raise_simps]: "rbind r f = Inr y \<longleftrightarrow> (\<exists>x. r = Inr x \<and> f x = Inr y)"
  by (cases r) auto

lemma rmap_Inr_iff [raise_simps]: "rmap f r = Inr y \<longleftrightarrow> (\<exists>x. r = Inr x \<and> f x = y)"
  by (cases r) auto

lemma rmap_Inl_iff [raise_simps]: "rmap f r = Inl e \<longleftrightarrow> r = Inl e"
  by (cases r) auto

lemma rmapM_Inr_map [simp]: "rmapM (\<lambda>x. Inr (f x)) xs = Inr (map f xs)"
  by (induction xs) auto

lemma rmapM_length: "rmapM f xs = Inr ys \<Longrightarrow> length ys = length xs"
  by (induction xs arbitrary: ys) (auto simp: raise_simps)

lemma rmapM_nth: "rmapM f xs = Inr ys \<Longrightarrow> i < length xs \<Longrightarrow> f (xs ! i) = Inr (ys ! i)"
  by (induction xs arbitrary: ys i) (auto simp: raise_simps nth_Cons split: nat.splits)

lemma rmapM_map: "rmapM f (map g xs) = rmapM (\<lambda>x. f (g x)) xs"
  by (induction xs) auto

lemma rmapM_append:
  "rmapM f (xs @ ys) = rbind (rmapM f xs) (\<lambda>us. rmap (append us) (rmapM f ys))"
proof (induction xs)
  case (Cons x xs)
  then show ?case by (cases "f x"; cases "rmapM f xs"; cases "rmapM f ys") auto
qed (cases "rmapM f ys"; simp)

lemma rmapM_snoc:
  "rmapM f (xs @ [x]) = rbind (rmapM f xs) (\<lambda>us. rmap (\<lambda>u. us @ [u]) (f x))"
  by (cases "f x") (auto simp: rmapM_append)

lemma rmapM_take: "rmapM f xs = Inr ys \<Longrightarrow> rmapM f (take n xs) = Inr (take n ys)"
proof (induction xs arbitrary: n ys)
  case (Cons x xs)
  then show ?case by (cases n) (auto simp: raise_simps)
qed simp

lemma rmapM_cong_Inr: "(\<And>x. x \<in> set xs \<Longrightarrow> f x = Inr (g x)) \<Longrightarrow> rmapM f xs = Inr (map g xs)"
  by (induction xs) auto

section \<open>Text and hexadecimal\<close>

lemma byte_bound: "unat (w :: byte) < 256"
  using unsigned_less [of w] by simp

definition byte_of_char :: "char \<Rightarrow> byte" where
  "byte_of_char c = of_nat (of_char c)"

definition char_of_byte :: "byte \<Rightarrow> char" where
  "char_of_byte w = char_of (unat w)"

definition utf8_encode :: "string \<Rightarrow> bytes" where
  "utf8_encode s = map byte_of_char s"

definition utf8_text :: "bytes \<Rightarrow> string" where
  "utf8_text b = map char_of_byte b"

lemma of_char_bound: "(of_char c :: nat) < 256"
  by (metis of_char_mod_256 mod_less_divisor zero_less_numeral)

lemma char_of_byte_of_char [simp]: "char_of_byte (byte_of_char c) = c"
  by (simp add: char_of_byte_def byte_of_char_def unat_of_nat of_char_bound)

lemma byte_of_char_of_byte [simp]: "byte_of_char (char_of_byte w) = w"
proof -
  have "unat w < 256" by (rule byte_bound)
  then show ?thesis by (simp add: char_of_byte_def byte_of_char_def)
qed

lemma utf8_text_encode [simp]: "utf8_text (utf8_encode s) = s"
  by (simp add: utf8_text_def utf8_encode_def comp_def)

lemma utf8_encode_text [simp]: "utf8_encode (utf8_text b) = b"
  by (simp add: utf8_text_def utf8_encode_def comp_def)

lemma utf8_encode_inject [simp]: "utf8_encode s = utf8_encode t \<longleftrightarrow> s = t"
  by (metis utf8_text_encode)

text \<open>\<open>bytes.hex()\<close>: two lower-case digits per octet.\<close>

definition hex_digit :: "nat \<Rightarrow> char" where
  "hex_digit n = ''0123456789abcdef'' ! n"

definition hex_byte :: "byte \<Rightarrow> string" where
  "hex_byte w = [hex_digit (unat w div 16), hex_digit (unat w mod 16)]"

definition to_hex :: "bytes \<Rightarrow> string" where
  "to_hex b = concat (map hex_byte b)"

text \<open>\<open>bytes.fromhex(s)\<close>: pairs of digits of either case; ASCII white space is skipped before a
  pair and never inside one; anything else, and an odd digit, is a \<open>ValueError\<close>.\<close>

definition hex_value :: "char \<Rightarrow> nat option" where
  "hex_value c =
     (let n = of_char c in
      if 48 \<le> n \<and> n \<le> 57 then Some (n - 48)
      else if 97 \<le> n \<and> n \<le> 102 then Some (n - 87)
      else if 65 \<le> n \<and> n \<le> 70 then Some (n - 55)
      else None)"

definition ascii_space :: "char \<Rightarrow> bool" where
  "ascii_space c \<longleftrightarrow> (let n = of_char c :: nat in n = 32 \<or> (9 \<le> n \<and> n \<le> 13))"

fun fromhex_digits :: "string \<Rightarrow> bytes option" where
  "fromhex_digits [] = Some []"
| "fromhex_digits (c # cs) =
     (if ascii_space c then fromhex_digits cs
      else (case cs of
              [] \<Rightarrow> None
            | d # ds \<Rightarrow>
                (case (hex_value c, hex_value d) of
                   (Some hi, Some lo) \<Rightarrow>
                     map_option (Cons (of_nat (16 * hi + lo))) (fromhex_digits ds)
                 | _ \<Rightarrow> None)))"

definition fromhex :: "string \<Rightarrow> py_exn + bytes" where
  "fromhex s = (case fromhex_digits s of None \<Rightarrow> Inl ValueError | Some b \<Rightarrow> Inr b)"

lemmas fromhex_eval = fromhex_def ascii_space_def hex_value_def

lemma hex_value_digit [simp]: "n < 16 \<Longrightarrow> hex_value (hex_digit n) = Some n"
  by (auto simp: hex_value_def hex_digit_def less_Suc_eq numeral_eq_Suc nth_Cons split: nat.splits)

lemma hex_digit_not_space [simp]: "n < 16 \<Longrightarrow> \<not> ascii_space (hex_digit n)"
  by (auto simp: ascii_space_def hex_digit_def less_Suc_eq numeral_eq_Suc nth_Cons split: nat.splits)

lemma fromhex_digits_to_hex [simp]: "fromhex_digits (to_hex b) = Some b"
proof (induction b)
  case (Cons w b)
  have "unat w < 256" by (rule byte_bound)
  then have "unat w div 16 < 16" by simp
  moreover have "unat w mod 16 < 16" by simp
  ultimately show ?case using Cons.IH by (simp add: to_hex_def hex_byte_def)
qed (simp add: to_hex_def)

lemma fromhex_to_hex [simp]: "fromhex (to_hex b) = Inr b"
  by (simp add: fromhex_def fromhex_digits_to_hex)

lemma to_hex_inject [simp]: "to_hex a = to_hex b \<longleftrightarrow> a = b"
  by (metis fromhex_to_hex sum.inject(2))

text \<open>\<open>bytes.hex\<close> writes lower-case digits.\<close>

definition lower_hex :: "string \<Rightarrow> bool" where
  "lower_hex s \<longleftrightarrow> list_all (\<lambda>c. c \<in> set ''0123456789abcdef'') s"

lemma hex_digit_lower: "n < 16 \<Longrightarrow> lower_hex [hex_digit n]"
  using nth_mem [of n "''0123456789abcdef''"] by (simp only: lower_hex_def hex_digit_def list.pred_inject) simp

lemma lower_hex_append: "lower_hex (s @ u) \<longleftrightarrow> lower_hex s \<and> lower_hex u"
  by (simp only: lower_hex_def list_all_append)

lemma hex_byte_lower: "lower_hex (hex_byte w)"
proof -
  have "lower_hex ([hex_digit (unat w div 16)] @ [hex_digit (unat w mod 16)])"
    unfolding lower_hex_append using byte_bound [of w] by (intro conjI hex_digit_lower) simp_all
  then show ?thesis by (simp add: hex_byte_def)
qed

lemma lower_hex_to_hex [simp]: "lower_hex (to_hex b)"
proof (induction b)
  case (Cons w b)
  then show ?case using hex_byte_lower [of w] by (simp add: to_hex_def lower_hex_append)
qed (simp add: to_hex_def lower_hex_def)

lemma length_to_hex [simp]: "length (to_hex b) = 2 * length b"
  by (induction b) (auto simp: to_hex_def hex_byte_def)

section \<open>Big-endian integers\<close>

text \<open>\<open>int.from_bytes(b, "big")\<close> and \<open>n.to_bytes(width, "big")\<close>; the latter raises
  \<open>OverflowError\<close> when \<open>n\<close> does not fit.\<close>

definition be_nat :: "bytes \<Rightarrow> nat" where
  "be_nat b = foldl (\<lambda>a w. 256 * a + unat w) 0 b"

fun be_bytes :: "nat \<Rightarrow> nat \<Rightarrow> bytes" where
  "be_bytes 0 n = []"
| "be_bytes (Suc w) n = be_bytes w (n div 256) @ [of_nat n]"

definition to_bytes_be :: "nat \<Rightarrow> nat \<Rightarrow> py_exn + bytes" where
  "to_bytes_be w n = (if n < 256 ^ w then Inr (be_bytes w n) else Inl OverflowError)"

lemma length_be_bytes [simp]: "length (be_bytes w n) = w"
  by (induction w arbitrary: n) auto

lemma be_nat_Nil [simp]: "be_nat [] = 0"
  by (simp add: be_nat_def)

lemma be_nat_snoc [simp]: "be_nat (b @ [w]) = 256 * be_nat b + unat w"
  by (simp add: be_nat_def)

lemma be_nat_bound: "be_nat b < 256 ^ length b"
proof (induction b rule: rev_induct)
  case (snoc w b)
  have "unat w < 256" by (rule byte_bound)
  with snoc have "256 * be_nat b + unat w < 256 * (be_nat b + 1)" by simp
  also have "\<dots> \<le> 256 * 256 ^ length b" using snoc by (intro mult_le_mono2) simp
  finally show ?case by simp
qed simp

lemma be_nat_be_bytes: "n < 256 ^ w \<Longrightarrow> be_nat (be_bytes w n) = n"
proof (induction w arbitrary: n)
  case (Suc w)
  then have "n div 256 < 256 ^ w" by (simp add: less_mult_imp_div_less mult.commute)
  with Suc.IH show ?case by (simp add: unat_of_nat)
qed simp

lemma be_bytes_be_nat: "be_bytes (length b) (be_nat b) = b"
proof (induction b rule: rev_induct)
  case (snoc w b)
  have "unat w < 256" by (rule byte_bound)
  then have "(256 * be_nat b + unat w) div 256 = be_nat b" by simp
  moreover have "(of_nat (256 * be_nat b + unat w) :: byte) = w"
  proof -
    have "(256 :: byte) = 0" by simp
    then show ?thesis by (simp only: of_nat_add of_nat_mult of_nat_numeral) simp
  qed
  ultimately show ?case using snoc by simp
qed simp

lemma be_bytes_inject: "m < 256 ^ w \<Longrightarrow> n < 256 ^ w \<Longrightarrow> be_bytes w m = be_bytes w n \<longleftrightarrow> m = n"
  by (metis be_nat_be_bytes)

end
