(* ===== verification/Sha256.thy ===== *)
theory Sha256
  imports Prelude
begin

text \<open>
  \<open>hashlib.sha256(m).digest()\<close>: the SHA-256 function of FIPS 180-4 on octet strings, the hash
  every Merkle and checkpoint computation of the package calls. Words are 32 bits wide and
  their addition wraps. The component proofs use only its output length and, where a property
  is about binding, the explicit pair of inputs that would collide (\<open>sha256_collision\<close>).
\<close>

unbundle bit_operations_syntax

type_synonym u32 = "32 word"

definition sha_ch :: "u32 \<Rightarrow> u32 \<Rightarrow> u32 \<Rightarrow> u32" where
  "sha_ch x y z = (x AND y) XOR (NOT x AND z)"

definition sha_maj :: "u32 \<Rightarrow> u32 \<Rightarrow> u32 \<Rightarrow> u32" where
  "sha_maj x y z = (x AND y) XOR (x AND z) XOR (y AND z)"

definition big_sigma0 :: "u32 \<Rightarrow> u32" where
  "big_sigma0 x = word_rotr 2 x XOR word_rotr 13 x XOR word_rotr 22 x"

definition big_sigma1 :: "u32 \<Rightarrow> u32" where
  "big_sigma1 x = word_rotr 6 x XOR word_rotr 11 x XOR word_rotr 25 x"

definition small_sigma0 :: "u32 \<Rightarrow> u32" where
  "small_sigma0 x = word_rotr 7 x XOR word_rotr 18 x XOR drop_bit 3 x"

definition small_sigma1 :: "u32 \<Rightarrow> u32" where
  "small_sigma1 x = word_rotr 17 x XOR word_rotr 19 x XOR drop_bit 10 x"

text \<open>The 64 round constants (FIPS 180-4, 4.2.2), in decimal.\<close>

definition sha_k :: "u32 list" where
  "sha_k =
    [1116352408, 1899447441, 3049323471, 3921009573, 961987163, 1508970993, 2453635748, 2870763221,
     3624381080, 310598401, 607225278, 1426881987, 1925078388, 2162078206, 2614888103, 3248222580,
     3835390401, 4022224774, 264347078, 604807628, 770255983, 1249150122, 1555081692, 1996064986,
     2554220882, 2821834349, 2952996808, 3210313671, 3336571891, 3584528711, 113926993, 338241895,
     666307205, 773529912, 1294757372, 1396182291, 1695183700, 1986661051, 2177026350, 2456956037,
     2730485921, 2820302411, 3259730800, 3345764771, 3516065817, 3600352804, 4094571909, 275423344,
     430227734, 506948616, 659060556, 883997877, 958139571, 1322822218, 1537002063, 1747873779,
     1955562222, 2024104815, 2227730452, 2361852424, 2428436474, 2756734187, 3204031479, 3329325298]"

text \<open>The eight working variables \<open>a..h\<close>, and the initial hash value.\<close>

datatype sha_state = Sha_State u32 u32 u32 u32 u32 u32 u32 u32

definition sha_init :: sha_state where
  "sha_init = Sha_State 0x6a09e667 0xbb67ae85 0x3c6ef372 0xa54ff53a
                        0x510e527f 0x9b05688c 0x1f83d9ab 0x5be0cd19"

text \<open>The message schedule, newest word first: the word \<open>W_t\<close> is made of \<open>W_(t-2)\<close>,
  \<open>W_(t-7)\<close>, \<open>W_(t-15)\<close> and \<open>W_(t-16)\<close>.\<close>

fun sha_schedule :: "nat \<Rightarrow> u32 list \<Rightarrow> u32 list" where
  "sha_schedule 0 ws = ws"
| "sha_schedule (Suc n) ws =
     sha_schedule n ((small_sigma1 (ws ! 1) + ws ! 6 + small_sigma0 (ws ! 14) + ws ! 15) # ws)"

fun sha_round :: "sha_state \<Rightarrow> u32 \<times> u32 \<Rightarrow> sha_state" where
  "sha_round (Sha_State a b c d e f g h) (k, w) =
     (let t1 = h + big_sigma1 e + sha_ch e f g + k + w;
          t2 = big_sigma0 a + sha_maj a b c
      in Sha_State (t1 + t2) a b c (d + t1) e f g)"

fun sha_add :: "sha_state \<Rightarrow> sha_state \<Rightarrow> sha_state" where
  "sha_add (Sha_State a b c d e f g h) (Sha_State a' b' c' d' e' f' g' h') =
     Sha_State (a + a') (b + b') (c + c') (d + d') (e + e') (f + f') (g + g') (h + h')"

fun be_words :: "bytes \<Rightarrow> u32 list" where
  "be_words (a # b # c # d # bs) =
     (push_bit 24 (ucast a) OR push_bit 16 (ucast b) OR push_bit 8 (ucast c) OR ucast d) # be_words bs"
| "be_words _ = []"

definition sha_block :: "sha_state \<Rightarrow> bytes \<Rightarrow> sha_state" where
  "sha_block s blk =
     sha_add s (foldl sha_round s (zip sha_k (rev (sha_schedule 48 (rev (be_words blk))))))"

function sha_blocks :: "sha_state \<Rightarrow> bytes \<Rightarrow> sha_state" where
  "sha_blocks s m = (if m = [] then s else sha_blocks (sha_block s (take 64 m)) (drop 64 m))"
  by pat_completeness auto
termination
  by (relation "measure (\<lambda>(s, m). length m)") auto

declare sha_blocks.simps [simp del]

definition sha_pad :: "bytes \<Rightarrow> bytes" where
  "sha_pad m = m @ [0x80] @ replicate ((119 - length m mod 64) mod 64) 0
                 @ be_bytes 8 (8 * length m mod 2 ^ 64)"

definition word_octets :: "u32 \<Rightarrow> bytes" where
  "word_octets w =
     [ucast (drop_bit 24 w), ucast (drop_bit 16 w), ucast (drop_bit 8 w), ucast w]"

fun sha_output :: "sha_state \<Rightarrow> bytes" where
  "sha_output (Sha_State a b c d e f g h) =
     concat (map word_octets [a, b, c, d, e, f, g, h])"

definition sha256 :: "bytes \<Rightarrow> bytes" where
  "sha256 m = sha_output (sha_blocks sha_init (sha_pad m))"

lemma length_sha256 [simp, hash_lengths]: "length (sha256 m) = 32"
  by (cases "sha_blocks sha_init (sha_pad m)") (simp add: sha256_def word_octets_def)

text \<open>The padded message is a whole number of 64-octet blocks.\<close>

lemma sha_pad_blocks: "length (sha_pad m) mod 64 = 0"
proof -
  define r where "r = length m mod 64"
  have "r < 64" by (simp add: r_def)
  then have "(r + 1 + (119 - r) mod 64 + 8) mod 64 = 0" by (cases "r \<le> 55") (simp add: mod_if, arith, simp add: mod_if)
  moreover have "length (sha_pad m) mod 64 = (r + (1 + (119 - r) mod 64 + 8)) mod 64"
    unfolding r_def by (subst mod_add_left_eq) (simp add: sha_pad_def ac_simps)
  ultimately show ?thesis by (simp add: ac_simps)
qed

section \<open>Collisions\<close>

text \<open>Two different octet strings with the same digest. Binding properties of the package are
  stated as: the data agree, or an explicitly computed pair is such a collision.\<close>

definition sha256_collision :: "bytes \<times> bytes \<Rightarrow> bool" where
  "sha256_collision p \<longleftrightarrow> fst p \<noteq> snd p \<and> sha256 (fst p) = sha256 (snd p)"

end
