(* ===== verification/Hash_Path.thy ===== *)
theory Hash_Path
  imports Sha256
begin

text \<open>
  Walking from a digest up a list of sibling digests, hashing at each step. The RFC 9162
  tree, the CCF tree and the Merkle mountain range of the package all verify this way and
  differ only in the octets they hash at a step. The locale \<open>step_preimage\<close> states what a
  step must promise; its client lemma says that two walks with the same shape and the same
  end are the same walk, or that one of the octet strings hashed by the first collides with
  one hashed by the second.
\<close>

text \<open>A step: a label (a node position, where the tree commits to one), whether the current
  node is the right child, and the sibling.\<close>

type_synonym 'p hop = "'p \<times> bool \<times> bytes"

fun hop_input :: "('p \<Rightarrow> bytes \<Rightarrow> bytes \<Rightarrow> bytes) \<Rightarrow> bytes \<Rightarrow> 'p hop \<Rightarrow> bytes" where
  "hop_input pre acc (p, right, sib) = (if right then pre p sib acc else pre p acc sib)"

fun climb :: "('p \<Rightarrow> bytes \<Rightarrow> bytes \<Rightarrow> bytes) \<Rightarrow> bytes \<Rightarrow> 'p hop list \<Rightarrow> bytes" where
  "climb pre acc [] = acc"
| "climb pre acc (h # hs) = climb pre (sha256 (hop_input pre acc h)) hs"

fun climb_inputs :: "('p \<Rightarrow> bytes \<Rightarrow> bytes \<Rightarrow> bytes) \<Rightarrow> bytes \<Rightarrow> 'p hop list \<Rightarrow> bytes list" where
  "climb_inputs pre acc [] = []"
| "climb_inputs pre acc (h # hs) = hop_input pre acc h # climb_inputs pre (sha256 (hop_input pre acc h)) hs"

lemma climb_append [simp]: "climb pre acc (hs @ hs') = climb pre (climb pre acc hs) hs'"
  by (induction hs arbitrary: acc) auto

lemma climb_inputs_append [simp]:
  "climb_inputs pre acc (hs @ hs') = climb_inputs pre acc hs @ climb_inputs pre (climb pre acc hs) hs'"
  by (induction hs arbitrary: acc) auto

lemma length_climb [hash_lengths]: "length acc = 32 \<Longrightarrow> length (climb pre acc hs) = 32"
  by (induction hs arbitrary: acc) auto

text \<open>Two lists of octet strings share a collision.\<close>

definition collide :: "bytes list \<Rightarrow> bytes list \<Rightarrow> bool" where
  "collide xs ys \<longleftrightarrow> list_ex (\<lambda>x. list_ex (\<lambda>y. sha256_collision (x, y)) ys) xs"

lemma collide_iff: "collide xs ys \<longleftrightarrow> (\<exists>x\<in>set xs. \<exists>y\<in>set ys. sha256_collision (x, y))"
  by (simp add: collide_def list_ex_iff)

lemma collide_mono: "collide xs ys \<Longrightarrow> set xs \<subseteq> set xs' \<Longrightarrow> set ys \<subseteq> set ys' \<Longrightarrow> collide xs' ys'"
  by (auto simp: collide_iff)

lemma sha256_eq_or_collide:
  "sha256 x = sha256 y \<Longrightarrow> x \<in> set xs \<Longrightarrow> y \<in> set ys \<Longrightarrow> x = y \<or> collide xs ys"
  by (auto simp: collide_iff sha256_collision_def)

definition hop_shape :: "'p hop \<Rightarrow> 'p \<times> bool" where
  "hop_shape h = (fst h, fst (snd h))"

text \<open>The promise of a step: the octets determine both children as soon as the lengths of one
  side agree.\<close>

locale step_preimage =
  fixes pre :: "'p \<Rightarrow> bytes \<Rightarrow> bytes \<Rightarrow> bytes"
  assumes pre_inject:
    "pre p l r = pre p l' r' \<Longrightarrow> length l = length l' \<or> length r = length r' \<Longrightarrow> l = l' \<and> r = r'"
begin

lemma hop_input_inject:
  assumes "hop_input pre a h = hop_input pre b k" "length a = length b" "hop_shape h = hop_shape k"
  shows "a = b \<and> h = k"
  using assms by (cases h; cases k) (auto simp: hop_shape_def dest!: pre_inject split: if_splits)

theorem climb_binding:
  assumes "map hop_shape hs = map hop_shape ks" "length a = 32" "length b = 32"
    and "climb pre a hs = climb pre b ks"
  shows "a = b \<and> hs = ks \<or> collide (climb_inputs pre a hs) (climb_inputs pre b ks)"
  using assms
proof (induction hs arbitrary: ks rule: rev_induct)
  case Nil
  then show ?case by simp
next
  case (snoc h hs)
  then obtain k ks' where ks: "ks = ks' @ [k]" "map hop_shape hs = map hop_shape ks'" "hop_shape h = hop_shape k"
    by (cases ks rule: rev_cases) auto
  let ?x = "hop_input pre (climb pre a hs) h" and ?y = "hop_input pre (climb pre b ks') k"
  have eq: "sha256 ?x = sha256 ?y" using snoc.prems(4) ks by simp
  show ?case
  proof (cases "?x = ?y")
    case True
    then have "climb pre a hs = climb pre b ks' \<and> h = k"
      using ks(3) snoc.prems(2,3) by (intro hop_input_inject) (simp_all add: hash_lengths)
    with snoc.IH [OF ks(2)] snoc.prems(2,3) ks(1) show ?thesis
      by (auto intro: collide_mono)
  next
    case False
    then have "collide [?x] [?y]" using eq by (simp add: collide_iff sha256_collision_def)
    then show ?thesis using ks(1) by (auto intro: collide_mono)
  qed
qed

end

end
