(* ===== verification/Merkle.thy ===== *)
theory Merkle
  imports Hash_Path
begin

text \<open>
  The RFC 6962 / RFC 9162 Merkle tree of \<open>src/scitt_cose/merkle.py\<close>: the tree hash, inclusion
  proofs and their verification (consistency proofs are in \<open>Merkle_Consistency\<close>). Entries,
  proof nodes and roots cross the interface as hexadecimal text, as in the source; sizes and
  indices are unbounded integers. Inner helpers that the source only calls after its range
  checks work on natural numbers.
\<close>

section \<open>Hashing\<close>

definition LEAF_PREFIX :: bytes where
  "LEAF_PREFIX = [0]"

definition NODE_PREFIX :: bytes where
  "NODE_PREFIX = [1]"

definition MAX_TREE_SIZE :: int where
  "MAX_TREE_SIZE = 2 ^ 62"

definition leaf_hash_bytes :: "bytes \<Rightarrow> bytes" where
  "leaf_hash_bytes entry = sha256 (LEAF_PREFIX @ entry)"

definition node_hash :: "bytes \<Rightarrow> bytes \<Rightarrow> bytes" where
  "node_hash left right = sha256 (NODE_PREFIX @ left @ right)"

text \<open>\<open>while k * 2 < n: k *= 2\<close>, started at \<open>k = 1\<close>; the guard \<open>0 < k\<close> is part of the
  recursion only to make it terminate on every argument.\<close>

function pow2_loop :: "nat \<Rightarrow> nat \<Rightarrow> nat" where
  "pow2_loop n k = (if 0 < k \<and> k * 2 < n then pow2_loop n (k * 2) else k)"
  by pat_completeness auto
termination
  by (relation "measure (\<lambda>(n, k). n - k)") auto

declare pow2_loop.simps [simp del]

definition largest_pow2_below :: "nat \<Rightarrow> nat" where
  "largest_pow2_below n = pow2_loop n 1"

lemma pow2_loop_spec:
  assumes "k = 2 ^ j" and "k < n"
  shows "\<exists>i. pow2_loop n k = 2 ^ i \<and> 2 ^ i < n \<and> n \<le> 2 * 2 ^ i"
  using assms
proof (induction n k arbitrary: j rule: pow2_loop.induct)
  case (1 n k)
  show ?case
  proof (cases "k * 2 < n")
    case True
    have "\<exists>i. pow2_loop n (k * 2) = 2 ^ i \<and> 2 ^ i < n \<and> n \<le> 2 * 2 ^ i"
      by (rule "1.IH" [of "Suc j"]) (use 1(2) True in auto)
    moreover have "0 < k" using 1(2) by simp
    ultimately show ?thesis using True by (simp add: pow2_loop.simps [of n k])
  next
    case False
    with 1(2,3) show ?thesis
      by (intro exI [of _ j]) (simp add: pow2_loop.simps [of n "2 ^ j"])
  qed
qed

lemma largest_pow2_below_spec:
  assumes "1 < n"
  obtains j where "largest_pow2_below n = 2 ^ j" "2 ^ j < n" "n \<le> 2 * 2 ^ j"
  using pow2_loop_spec [of 1 0 n] assms by (auto simp: largest_pow2_below_def)

lemma largest_pow2_below_bounds:
  assumes "1 < n"
  shows "0 < largest_pow2_below n" "largest_pow2_below n < n" "n \<le> 2 * largest_pow2_below n"
  by (rule largest_pow2_below_spec [OF assms]; simp)+

lemma lp2_shrinks [simp]:
  assumes "\<not> n \<le> Suc 0"
  shows "largest_pow2_below n < n" "n - largest_pow2_below n < n" "min n (largest_pow2_below n) < n"
  using largest_pow2_below_bounds [of n] assms by (auto simp: min_def)

text \<open>The power of two in the interval is unique, so any candidate that fits is the one.\<close>

lemma pow2_interval_unique:
  fixes n :: nat
  assumes "2 ^ i < n" "n \<le> 2 * 2 ^ i" "2 ^ j < n" "n \<le> 2 * 2 ^ j"
  shows "i = j"
proof (rule ccontr)
  assume "i \<noteq> j"
  then consider "Suc i \<le> j" | "Suc j \<le> i" by linarith
  then show False
  proof cases
    case 1
    then have "(2::nat) ^ Suc i \<le> 2 ^ j" by (rule power_increasing) simp
    with assms show False by simp
  next
    case 2
    then have "(2::nat) ^ Suc j \<le> 2 ^ i" by (rule power_increasing) simp
    with assms show False by simp
  qed
qed

lemma largest_pow2_below_eqI: "2 ^ j < n \<Longrightarrow> n \<le> 2 * 2 ^ j \<Longrightarrow> largest_pow2_below n = 2 ^ j"
proof -
  assume a: "2 ^ j < n" "n \<le> 2 * 2 ^ j"
  then have "1 < n" by (metis less_one linorder_neqE_nat not_less_iff_gr_or_eq one_le_numeral one_le_power order.strict_trans1)
  then obtain i where "largest_pow2_below n = 2 ^ i" "2 ^ i < n" "n \<le> 2 * 2 ^ i"
    by (rule largest_pow2_below_spec)
  with a show ?thesis by (metis pow2_interval_unique)
qed

text \<open>The RFC 6962 Merkle tree hash over leaf hashes.\<close>

function mth :: "bytes list \<Rightarrow> bytes" where
  "mth leaves =
     (let n = length leaves in
      if n = 0 then sha256 []
      else if n = 1 then leaves ! 0
      else let k = largest_pow2_below n in node_hash (mth (take k leaves)) (mth (drop k leaves)))"
  by pat_completeness auto
termination
  by (relation "measure length") (auto simp: le_Suc_eq)

declare mth.simps [simp del]

lemma mth_Nil: "mth [] = sha256 []"
  by (simp add: mth.simps)

lemma mth_single [simp]: "mth [x] = x"
  by (simp add: mth.simps)

lemma mth_split:
  "1 < length leaves \<Longrightarrow>
   mth leaves = node_hash (mth (take (largest_pow2_below (length leaves)) leaves))
                          (mth (drop (largest_pow2_below (length leaves)) leaves))"
  by (subst mth.simps) (auto simp: Let_def)

section \<open>Entries, roots and inclusion proofs\<close>

definition leaf_hash :: "string \<Rightarrow> py_exn + string" where
  "leaf_hash entry_hex = rmap (\<lambda>b. to_hex (leaf_hash_bytes b)) (fromhex entry_hex)"

definition entry_leaves :: "string list \<Rightarrow> py_exn + bytes list" where
  "entry_leaves entries_hex = rmapM (\<lambda>e. rmap leaf_hash_bytes (fromhex e)) entries_hex"

definition merkle_root :: "string list \<Rightarrow> py_exn + string" where
  "merkle_root entries_hex = rmap (\<lambda>leaves. to_hex (mth leaves)) (entry_leaves entries_hex)"

text \<open>The inner function \<open>path\<close> of \<open>inclusion_proof\<close>; the source never calls it on an empty
  list.\<close>

function incl_path :: "bytes list \<Rightarrow> nat \<Rightarrow> bytes list" where
  "incl_path sub m =
     (if length sub \<le> 1 then []
      else let k = largest_pow2_below (length sub) in
        if m < k then incl_path (take k sub) m @ [mth (drop k sub)]
        else incl_path (drop k sub) (m - k) @ [mth (take k sub)])"
  by pat_completeness auto
termination
  by (relation "measure (\<lambda>(sub, m). length sub)") auto

declare incl_path.simps [simp del]

definition inclusion_proof :: "string list \<Rightarrow> int \<Rightarrow> py_exn + string list" where
  "inclusion_proof entries_hex index =
     (if \<not> (0 \<le> index \<and> index < int (length entries_hex)) then Inl IndexError
      else rmap (\<lambda>leaves. map to_hex (incl_path leaves (nat index))) (entry_leaves entries_hex))"

text \<open>\<open>while size > 1\<close>, counting the levels.\<close>

function expected_inclusion_path_len :: "nat \<Rightarrow> nat \<Rightarrow> nat" where
  "expected_inclusion_path_len sz m =
     (if 1 < sz
      then let k = largest_pow2_below sz in
           Suc (if m < k then expected_inclusion_path_len k m
                else expected_inclusion_path_len (sz - k) (m - k))
      else 0)"
  by pat_completeness auto
termination
  by (relation "measure (\<lambda>(sz, m). sz)") auto

declare expected_inclusion_path_len.simps [simp del]

text \<open>The inner function \<open>fold\<close> of \<open>root_from_inclusion_proof\<close>. The mutable list
  \<open>siblings\<close> is passed along and returned; \<open>siblings.pop()\<close> takes its last element, before
  the recursive call. The source calls it with \<open>size \<ge> 1\<close> only.\<close>

function fold_siblings :: "bytes \<Rightarrow> nat \<Rightarrow> nat \<Rightarrow> string list \<Rightarrow> py_exn + (bytes option \<times> string list)" where
  "fold_siblings target sz m siblings =
     (if sz \<le> 1 then Inr (Some target, siblings)
      else if siblings = [] then Inr (None, siblings)
      else let k = largest_pow2_below sz in
        rbind (fromhex (last siblings)) (\<lambda>sibling.
          if m < k then
            rmap (\<lambda>(child, rest). (map_option (\<lambda>c. node_hash c sibling) child, rest))
              (fold_siblings target k m (butlast siblings))
          else
            rmap (\<lambda>(child, rest). (map_option (\<lambda>c. node_hash sibling c) child, rest))
              (fold_siblings target (sz - k) (m - k) (butlast siblings))))"
  by pat_completeness auto
termination
  by (relation "measure (\<lambda>(target, sz, m, siblings). sz)") auto

declare fold_siblings.simps [simp del]

definition root_from_inclusion_proof ::
  "string \<Rightarrow> int \<Rightarrow> int \<Rightarrow> string list \<Rightarrow> py_exn + string option" where
  "root_from_inclusion_proof leaf_entry_hex index tree_size audit_path_hex =
     (if \<not> (0 \<le> index \<and> index < tree_size) \<or> tree_size > MAX_TREE_SIZE then Inr None
      else if length audit_path_hex \<noteq> expected_inclusion_path_len (nat tree_size) (nat index)
      then Inr None
      else rbind (fromhex leaf_entry_hex) (\<lambda>entry.
        rmap (\<lambda>(computed, siblings).
               if computed = None \<or> siblings \<noteq> [] then None else map_option to_hex computed)
          (fold_siblings (leaf_hash_bytes entry) (nat tree_size) (nat index) audit_path_hex)))"

definition verify_inclusion ::
  "string \<Rightarrow> int \<Rightarrow> int \<Rightarrow> string list \<Rightarrow> string \<Rightarrow> py_exn + bool" where
  "verify_inclusion leaf_entry_hex index tree_size audit_path_hex root_hex =
     rmap (\<lambda>computed. computed = Some root_hex)
       (root_from_inclusion_proof leaf_entry_hex index tree_size audit_path_hex)"

section \<open>The shape of the tree\<close>

text \<open>The sides of a leaf's ancestors, from the leaf up: \<open>True\<close> where the node is a right
  child.\<close>

function incl_dirs :: "nat \<Rightarrow> nat \<Rightarrow> bool list" where
  "incl_dirs sz m =
     (if sz \<le> 1 then []
      else let k = largest_pow2_below sz in
        if m < k then incl_dirs k m @ [False] else incl_dirs (sz - k) (m - k) @ [True])"
  by pat_completeness auto
termination
  by (relation "measure (\<lambda>(sz, m). sz)") auto

declare incl_dirs.simps [simp del]

definition node_input :: "unit \<Rightarrow> bytes \<Rightarrow> bytes \<Rightarrow> bytes" where
  "node_input u left right = NODE_PREFIX @ left @ right"

interpretation merkle_step: step_preimage node_input
  by unfold_locales (auto simp: node_input_def)

definition hops :: "bool list \<Rightarrow> bytes list \<Rightarrow> unit hop list" where
  "hops dirs sibs = map2 (\<lambda>d s. ((), d, s)) dirs sibs"

lemma hops_snoc [simp]:
  "length ds = length ss \<Longrightarrow> hops (ds @ [d]) (ss @ [s]) = hops ds ss @ [((), d, s)]"
  by (simp add: hops_def)

lemma hops_Nil [simp]: "hops [] ss = []" "hops ds [] = []"
  by (simp_all add: hops_def)

lemma map_shape_hops: "length ds = length ss \<Longrightarrow> map hop_shape (hops ds ss) = map (Pair ()) ds"
  by (induction ds ss rule: list_induct2) (auto simp: hops_def hop_shape_def)

lemma hops_inject:
  "length ss = length ds \<Longrightarrow> length ts = length ds \<Longrightarrow> hops ds ss = hops ds ts \<Longrightarrow> ss = ts"
proof (induction ds arbitrary: ss ts)
  case (Cons d ds)
  then show ?case by (cases ss; cases ts) (auto simp: hops_def)
qed simp

lemma length_mth [hash_lengths]: "\<forall>x \<in> set leaves. length x = 32 \<Longrightarrow> length (mth leaves) = 32"
proof (induction leaves rule: mth.induct)
  case (1 leaves)
  show ?case
  proof (cases "1 < length leaves")
    case True
    then show ?thesis by (simp add: mth_split node_hash_def)
  next
    case False
    then show ?thesis using 1(3) by (cases leaves) (auto simp: mth_Nil)
  qed
qed

lemma length_incl_dirs: "length (incl_dirs sz m) = expected_inclusion_path_len sz m"
  by (induction sz m rule: incl_dirs.induct)
     (subst incl_dirs.simps, subst expected_inclusion_path_len.simps, auto simp: Let_def)

lemma length_incl_path: "m < length sub \<Longrightarrow> length (incl_path sub m) = expected_inclusion_path_len (length sub) m"
proof (induction sub m rule: incl_path.induct)
  case (1 sub m)
  then show ?case
    by (subst incl_path.simps, subst expected_inclusion_path_len.simps)
       (auto simp: Let_def min_absorb2 less_imp_le)
qed

text \<open>A tree of at most \<open>2 ^ j\<close> leaves has depth at most \<open>j\<close>.\<close>

lemma expected_len_le: "sz \<le> 2 ^ j \<Longrightarrow> expected_inclusion_path_len sz m \<le> j"
proof (induction sz m arbitrary: j rule: expected_inclusion_path_len.induct)
  case (1 sz m)
  show ?case
  proof (cases "1 < sz")
    case False
    then show ?thesis by (simp add: expected_inclusion_path_len.simps)
  next
    case True
    then obtain i where i: "largest_pow2_below sz = 2 ^ i" "2 ^ i < sz" "sz \<le> 2 * 2 ^ i"
      by (rule largest_pow2_below_spec)
    with "1.prems" have "(2::nat) ^ i < 2 ^ j" by linarith
    then have ij: "i < j" by simp
    then have "(2::nat) ^ i \<le> 2 ^ (j - 1)" by (intro power_increasing) auto
    then have "2 ^ i \<le> (2::nat) ^ (j - 1)" "sz - 2 ^ i \<le> 2 ^ (j - 1)" using i(3) by linarith+
    then show ?thesis using "1.IH" [OF True refl, of "j - 1"] ij True i(1)
      by (subst expected_inclusion_path_len.simps) (auto simp: Let_def)
  qed
qed

text \<open>The source's \<open>path\<close> computes the siblings of a walk from the leaf to the tree hash.\<close>

lemma mth_climb:
  "m < length sub \<Longrightarrow> mth sub = climb node_input (sub ! m) (hops (incl_dirs (length sub) m) (incl_path sub m))"
proof (induction sub m rule: incl_path.induct)
  case (1 sub m)
  show ?case
  proof (cases "length sub \<le> 1")
    case True
    with 1(3) obtain x where "sub = [x]" by (cases sub) auto
    with 1(3) show ?thesis by (simp add: incl_dirs.simps)
  next
    case False
    let ?k = "largest_pow2_below (length sub)"
    have k: "0 < ?k" "?k < length sub" using largest_pow2_below_bounds [of "length sub"] False by auto
    show ?thesis
    proof (cases "m < ?k")
      case True
      with "1.IH"(1) [OF False refl True] False k show ?thesis
        by (simp add: mth_split incl_dirs.simps [of "length sub"] incl_path.simps [of sub] Let_def
              length_incl_dirs length_incl_path node_hash_def node_input_def)
    next
      case right: False
      with "1.IH"(2) [OF False refl right] False k 1(3) show ?thesis
        by (simp add: mth_split incl_dirs.simps [of "length sub"] incl_path.simps [of sub] Let_def
              length_incl_dirs length_incl_path node_hash_def node_input_def)
    qed
  qed
qed

text \<open>The source's \<open>fold\<close> on decodable siblings is that walk, and it takes exactly as many
  siblings as the tree is deep.\<close>

lemma fold_siblings_climb:
  assumes "length sibs = expected_inclusion_path_len sz m" "rmapM fromhex sibs = Inr nodes"
  shows "fold_siblings target sz m (rest @ sibs) =
           Inr (Some (climb node_input target (hops (incl_dirs sz m) nodes)), rest)"
  using assms
proof (induction sz m arbitrary: rest sibs nodes rule: incl_dirs.induct)
  case (1 sz m)
  show ?case
  proof (cases "sz \<le> 1")
    case True
    with 1(3) show ?thesis
      by (simp add: fold_siblings.simps incl_dirs.simps expected_inclusion_path_len.simps)
  next
    case False
    let ?k = "largest_pow2_below sz"
    let ?sz = "if m < ?k then ?k else sz - ?k" and ?m = "if m < ?k then m else m - ?k"
    have len: "length sibs = Suc (expected_inclusion_path_len ?sz ?m)"
      using 1(3) False by (subst (asm) expected_inclusion_path_len.simps) (auto simp: Let_def)
    then obtain ini s where sibs: "sibs = ini @ [s]" by (cases sibs rule: rev_cases) auto
    with 1(4) obtain nini nd where nodes: "nodes = nini @ [nd]" "rmapM fromhex ini = Inr nini" "fromhex s = Inr nd"
      by (auto simp: rmapM_snoc raise_simps)
    have lens: "length ini = expected_inclusion_path_len ?sz ?m" "length nini = length (incl_dirs ?sz ?m)"
      using len sibs nodes(2) by (auto simp: rmapM_length length_incl_dirs)
    show ?thesis
    proof (cases "m < ?k")
      case True
      with "1.IH"(1) [OF False refl True, of ini nini rest] lens nodes sibs False show ?thesis
        by (simp add: fold_siblings.simps [of target sz] incl_dirs.simps [of sz] Let_def
              node_hash_def node_input_def butlast_append)
    next
      case right: False
      with "1.IH"(2) [OF False refl right, of ini nini rest] lens nodes sibs False show ?thesis
        by (simp add: fold_siblings.simps [of target sz] incl_dirs.simps [of sz] Let_def
              node_hash_def node_input_def butlast_append)
    qed
  qed
qed

lemma fromhex_Inl: "fromhex s = Inl e \<Longrightarrow> e = ValueError"
  by (auto simp: fromhex_def split: option.splits)

lemma rmapM_fromhex_Inl: "rmapM fromhex xs = Inl e \<Longrightarrow> e = ValueError"
proof (induction xs)
  case (Cons x xs)
  then show ?case by (cases "fromhex x") (auto dest: fromhex_Inl simp: raise_simps)
qed simp

lemma fold_siblings_raises:
  assumes "length sibs = expected_inclusion_path_len sz m" "rmapM fromhex sibs = Inl e"
  shows "fold_siblings target sz m sibs = Inl ValueError"
  using assms
proof (induction sz m arbitrary: sibs e rule: incl_dirs.induct)
  case (1 sz m)
  show ?case
  proof (cases "sz \<le> 1")
    case True
    with 1(3,4) show ?thesis by (simp add: expected_inclusion_path_len.simps)
  next
    case False
    let ?k = "largest_pow2_below sz"
    let ?sz = "if m < ?k then ?k else sz - ?k" and ?m = "if m < ?k then m else m - ?k"
    have len: "length sibs = Suc (expected_inclusion_path_len ?sz ?m)"
      using 1(3) False by (subst (asm) expected_inclusion_path_len.simps) (auto simp: Let_def)
    then obtain ini s where sibs: "sibs = ini @ [s]" by (cases sibs rule: rev_cases) auto
    show ?thesis
    proof (cases "fromhex s")
      case (Inl a)
      then show ?thesis using sibs False
        by (simp add: fold_siblings.simps [of target sz] Let_def fromhex_Inl [OF Inl])
    next
      case (Inr b)
      then obtain e' where "rmapM fromhex ini = Inl e'"
        using 1(4) sibs by (cases "rmapM fromhex ini") (auto simp: rmapM_snoc)
      then show ?thesis
        using "1.IH"(1) [OF False refl, of ini e'] "1.IH"(2) [OF False refl, of ini e'] len sibs Inr False
        by (auto simp: fold_siblings.simps [of target sz] Let_def)
    qed
  qed
qed

text \<open>What \<open>root_from_inclusion_proof\<close> computes, on every branch.\<close>

lemma root_from_inclusion_proof_eq:
  "root_from_inclusion_proof leaf i n path =
     (if \<not> (0 \<le> i \<and> i < n) \<or> n > MAX_TREE_SIZE
         \<or> length path \<noteq> expected_inclusion_path_len (nat n) (nat i) then Inr None
      else rbind (fromhex leaf) (\<lambda>e. rmap (\<lambda>nodes.
             Some (to_hex (climb node_input (leaf_hash_bytes e) (hops (incl_dirs (nat n) (nat i)) nodes))))
           (rmapM fromhex path)))"
proof (cases "\<not> (0 \<le> i \<and> i < n) \<or> n > MAX_TREE_SIZE
              \<or> length path \<noteq> expected_inclusion_path_len (nat n) (nat i)")
  case True
  then show ?thesis by (auto simp: root_from_inclusion_proof_def)
next
  case False
  show ?thesis
  proof (cases "rmapM fromhex path")
    case (Inl e)
    with False fold_siblings_raises [OF _ Inl] show ?thesis
      by (cases "fromhex leaf") (auto simp: root_from_inclusion_proof_def rmapM_fromhex_Inl [OF Inl])
  next
    case (Inr nodes)
    with False fold_siblings_climb [OF _ Inr, where rest = "[]"] show ?thesis
      by (cases "fromhex leaf") (auto simp: root_from_inclusion_proof_def)
  qed
qed

lemma verify_inclusion_iff:
  "verify_inclusion leaf i n path root = Inr True \<longleftrightarrow>
     0 \<le> i \<and> i < n \<and> n \<le> MAX_TREE_SIZE \<and> length path = expected_inclusion_path_len (nat n) (nat i) \<and>
     (\<exists>e nodes. fromhex leaf = Inr e \<and> rmapM fromhex path = Inr nodes \<and>
        root = to_hex (climb node_input (leaf_hash_bytes e) (hops (incl_dirs (nat n) (nat i)) nodes)))"
  by (auto simp: verify_inclusion_def root_from_inclusion_proof_eq raise_simps)

section \<open>Inclusion: completeness, binding, bounds\<close>

lemma length_leaf_hash_bytes [simp, hash_lengths]: "length (leaf_hash_bytes e) = 32"
  by (simp add: leaf_hash_bytes_def)

lemma entry_leaves_eq: "entry_leaves es = rmap (map leaf_hash_bytes) (rmapM fromhex es)"
proof (induction es)
  case (Cons e es)
  then show ?case
    by (cases "fromhex e"; cases "rmapM fromhex es") (simp_all add: entry_leaves_def)
qed (simp add: entry_leaves_def)

text \<open>The octet strings that checking a proof hashes, the leaf's first.\<close>

definition inclusion_inputs :: "string \<Rightarrow> int \<Rightarrow> int \<Rightarrow> string list \<Rightarrow> bytes list" where
  "inclusion_inputs leaf i n path =
     (case (fromhex leaf, rmapM fromhex path) of
        (Inr e, Inr nodes) \<Rightarrow>
          (LEAF_PREFIX @ e) # climb_inputs node_input (leaf_hash_bytes e) (hops (incl_dirs (nat n) (nat i)) nodes)
      | _ \<Rightarrow> [])"

lemma verify_inclusion_complete:
  assumes "merkle_root es = Inr root" "0 \<le> i" "i < int (length es)" "int (length es) \<le> MAX_TREE_SIZE"
  shows "\<exists>path. inclusion_proof es i = Inr path \<and>
           verify_inclusion (es ! nat i) i (int (length es)) path root = Inr True"
proof -
  from assms(1) obtain ents where ents: "rmapM fromhex es = Inr ents"
    and root: "root = to_hex (mth (map leaf_hash_bytes ents))"
    by (auto simp: merkle_root_def entry_leaves_eq raise_simps)
  let ?leaves = "map leaf_hash_bytes ents" and ?m = "nat i"
  have len: "length ents = length es" using rmapM_length [OF ents] .
  have m: "?m < length ents" using assms len by linarith
  let ?path = "incl_path ?leaves ?m"
  have ip: "inclusion_proof es i = Inr (map to_hex ?path)"
    using assms ents by (simp add: inclusion_proof_def entry_leaves_eq)
  have "fromhex (es ! ?m) = Inr (ents ! ?m)" using rmapM_nth [OF ents, of ?m] m len by simp
  moreover have "rmapM fromhex (map to_hex ?path) = Inr ?path" by (simp add: rmapM_map)
  moreover have "root = to_hex (climb node_input (leaf_hash_bytes (ents ! ?m)) (hops (incl_dirs (length es) ?m) ?path))"
    using mth_climb [of ?m ?leaves] m len root by simp
  moreover have "length ?path = expected_inclusion_path_len (length es) ?m"
    using length_incl_path [of ?m ?leaves] m len by simp
  ultimately show ?thesis using assms ip by (auto simp: verify_inclusion_iff)
qed

lemma verify_inclusion_unique:
  assumes "verify_inclusion l1 i n p1 root = Inr True" "verify_inclusion l2 i n p2 root = Inr True"
  shows "fromhex l1 = fromhex l2 \<and> rmapM fromhex p1 = rmapM fromhex p2
         \<or> collide (inclusion_inputs l1 i n p1) (inclusion_inputs l2 i n p2)"
proof -
  let ?d = "incl_dirs (nat n) (nat i)"
  from assms obtain e1 b1 e2 b2 where
    1: "fromhex l1 = Inr e1" "rmapM fromhex p1 = Inr b1" "length p1 = length ?d" and
    2: "fromhex l2 = Inr e2" "rmapM fromhex p2 = Inr b2" "length p2 = length ?d" and
    eq: "climb node_input (leaf_hash_bytes e1) (hops ?d b1) = climb node_input (leaf_hash_bytes e2) (hops ?d b2)"
    by (auto simp: verify_inclusion_iff length_incl_dirs)
  have len: "length b1 = length ?d" "length b2 = length ?d" using 1 2 by (auto simp: rmapM_length)
  from merkle_step.climb_binding [OF _ _ _ eq] len
  consider "leaf_hash_bytes e1 = leaf_hash_bytes e2" "hops ?d b1 = hops ?d b2"
    | "collide (climb_inputs node_input (leaf_hash_bytes e1) (hops ?d b1))
               (climb_inputs node_input (leaf_hash_bytes e2) (hops ?d b2))"
    by (auto simp: map_shape_hops)
  then show ?thesis
  proof cases
    case 1
    then have "LEAF_PREFIX @ e1 = LEAF_PREFIX @ e2
        \<or> collide (inclusion_inputs l1 i n p1) (inclusion_inputs l2 i n p2)"
      using \<open>fromhex l1 = Inr e1\<close> \<open>rmapM fromhex p1 = Inr b1\<close> \<open>fromhex l2 = Inr e2\<close> \<open>rmapM fromhex p2 = Inr b2\<close>
      by (intro sha256_eq_or_collide) (auto simp: leaf_hash_bytes_def inclusion_inputs_def)
    with 1 len hops_inject [of b1 ?d b2] \<open>fromhex l1 = Inr e1\<close> \<open>fromhex l2 = Inr e2\<close>
      \<open>rmapM fromhex p1 = Inr b1\<close> \<open>rmapM fromhex p2 = Inr b2\<close>
    show ?thesis by auto
  next
    case col: 2
    with 1 2 show ?thesis by (auto simp: inclusion_inputs_def intro: collide_mono)
  qed
qed

section \<open>The root commits to the whole list of entries\<close>

text \<open>The octet strings hashed to compute a root over decoded entries.\<close>

function tree_inputs :: "bytes list \<Rightarrow> bytes list" where
  "tree_inputs ents =
     (if ents = [] then [[]]
      else if length ents = 1 then [LEAF_PREFIX @ hd ents]
      else let k = largest_pow2_below (length ents) in
        (NODE_PREFIX @ mth (map leaf_hash_bytes (take k ents)) @ mth (map leaf_hash_bytes (drop k ents)))
        # tree_inputs (take k ents) @ tree_inputs (drop k ents))"
  by pat_completeness auto
termination
  by (relation "measure length") (auto simp: le_Suc_eq)

declare tree_inputs.simps [simp del]

text \<open>The last octet string hashed for a tree, and the tree hash as its digest.\<close>

definition top_input :: "bytes list \<Rightarrow> bytes" where
  "top_input ents = hd (tree_inputs ents)"

lemma top_input_in: "top_input ents \<in> set (tree_inputs ents)"
  by (simp add: top_input_def tree_inputs.simps [of ents] Let_def)

lemma mth_top_input: "mth (map leaf_hash_bytes ents) = sha256 (top_input ents)"
proof -
  consider "ents = []" | e where "ents = [e]" | "1 < length ents"
    by (cases ents) auto
  then show ?thesis
  proof cases
    case 3
    then have "ents \<noteq> []" "length ents \<noteq> 1" by auto
    with 3 show ?thesis
      by (simp add: mth_split node_hash_def top_input_def tree_inputs.simps [of ents] Let_def take_map drop_map)
  qed (simp_all add: mth_Nil leaf_hash_bytes_def top_input_def tree_inputs.simps)
qed

lemma top_input_shape:
  "top_input ents =
     (if ents = [] then [] else if length ents = 1 then LEAF_PREFIX @ hd ents
      else NODE_PREFIX @ mth (map leaf_hash_bytes (take (largest_pow2_below (length ents)) ents))
                       @ mth (map leaf_hash_bytes (drop (largest_pow2_below (length ents)) ents)))"
  by (simp add: top_input_def tree_inputs.simps [of ents] Let_def)

lemma tree_binding:
  assumes "mth (map leaf_hash_bytes xs) = mth (map leaf_hash_bytes ys)"
  shows "xs = ys \<or> collide (tree_inputs xs) (tree_inputs ys)"
  using assms
proof (induction xs arbitrary: ys rule: tree_inputs.induct)
  case (1 xs)
  have "top_input xs = top_input ys \<or> collide (tree_inputs xs) (tree_inputs ys)"
    using "1.prems" by (intro sha256_eq_or_collide) (simp_all add: mth_top_input top_input_in)
  then consider "collide (tree_inputs xs) (tree_inputs ys)" | (top) "top_input xs = top_input ys" by blast
  then show ?case
  proof cases
    case top
    show ?thesis
    proof (cases "1 < length xs")
      case False
      then show ?thesis using top
        by (cases xs; cases ys) (auto simp: top_input_shape LEAF_PREFIX_def NODE_PREFIX_def split: if_splits)
    next
      case True
      then have lys: "1 < length ys" using top
        by (cases ys) (auto simp: top_input_shape LEAF_PREFIX_def NODE_PREFIX_def split: if_splits)
      let ?k = "largest_pow2_below (length xs)" and ?l = "largest_pow2_below (length ys)"
      have neq: "xs \<noteq> []" "length xs \<noteq> 1" "ys \<noteq> []" "length ys \<noteq> 1" using True lys by auto
      have "mth (map leaf_hash_bytes (take ?k xs)) = mth (map leaf_hash_bytes (take ?l ys))"
           "mth (map leaf_hash_bytes (drop ?k xs)) = mth (map leaf_hash_bytes (drop ?l ys))"
        using top neq by (auto simp: top_input_shape hash_lengths)
      from "1.IH"(1) [OF neq(1,2) refl this(1)] "1.IH"(2) [OF neq(1,2) refl this(2)]
      consider "take ?k xs = take ?l ys" "drop ?k xs = drop ?l ys"
        | "collide (tree_inputs (take ?k xs)) (tree_inputs (take ?l ys))
           \<or> collide (tree_inputs (drop ?k xs)) (tree_inputs (drop ?l ys))" by blast
      then show ?thesis
      proof cases
        case 1
        then have "xs = ys" by (metis append_take_drop_id)
        then show ?thesis ..
      next
        case 2
        with neq show ?thesis
          by (auto simp: tree_inputs.simps [of xs] tree_inputs.simps [of ys] Let_def intro: collide_mono)
      qed
    qed
  qed simp
qed

lemma tree_inputs_parts:
  assumes "1 < length ents"
  shows "set (tree_inputs (take (largest_pow2_below (length ents)) ents)) \<subseteq> set (tree_inputs ents)"
    "set (tree_inputs (drop (largest_pow2_below (length ents)) ents)) \<subseteq> set (tree_inputs ents)"
    "NODE_PREFIX @ mth (take (largest_pow2_below (length ents)) (map leaf_hash_bytes ents))
       @ mth (drop (largest_pow2_below (length ents)) (map leaf_hash_bytes ents)) \<in> set (tree_inputs ents)"
proof -
  have "ents \<noteq> []" "length ents \<noteq> 1" using assms by auto
  then show "set (tree_inputs (take (largest_pow2_below (length ents)) ents)) \<subseteq> set (tree_inputs ents)"
    "set (tree_inputs (drop (largest_pow2_below (length ents)) ents)) \<subseteq> set (tree_inputs ents)"
    "NODE_PREFIX @ mth (take (largest_pow2_below (length ents)) (map leaf_hash_bytes ents))
       @ mth (drop (largest_pow2_below (length ents)) (map leaf_hash_bytes ents)) \<in> set (tree_inputs ents)"
    by (auto simp: tree_inputs.simps [of ents] Let_def take_map drop_map)
qed

text \<open>An honest inclusion proof hashes nothing that building the tree does not hash.\<close>

lemma incl_path_inputs:
  assumes "i < length ents"
  shows "set ((LEAF_PREFIX @ ents ! i) # climb_inputs node_input (leaf_hash_bytes (ents ! i))
           (hops (incl_dirs (length ents) i) (incl_path (map leaf_hash_bytes ents) i)))
         \<subseteq> set (tree_inputs ents)"
  using assms
proof (induction "map leaf_hash_bytes ents" i arbitrary: ents rule: incl_path.induct)
  case (1 i)
  let ?D = "map leaf_hash_bytes ents" and ?k = "largest_pow2_below (length ents)"
  show ?case
  proof (cases "length ents \<le> 1")
    case True
    with 1(3) obtain e where "ents = [e]" by (cases ents) auto
    with 1(3) show ?thesis by (simp add: incl_dirs.simps tree_inputs.simps)
  next
    case False
    then have D: "\<not> length ?D \<le> 1" "1 < length ents" by auto
    have k: "0 < ?k" "?k < length ents" using largest_pow2_below_bounds [OF D(2)] by auto
    note parts = tree_inputs_parts [OF D(2)]
    show ?thesis
    proof (cases "i < ?k")
      case True
      have top: "climb node_input (leaf_hash_bytes (ents ! i)) (hops (incl_dirs ?k i) (incl_path (take ?k ?D) i)) = mth (take ?k ?D)"
        using mth_climb [of i "take ?k ?D"] True k by (simp add: min_absorb2)
      have "set ((LEAF_PREFIX @ ents ! i) # climb_inputs node_input (leaf_hash_bytes (ents ! i))
             (hops (incl_dirs ?k i) (incl_path (take ?k ?D) i))) \<subseteq> set (tree_inputs (take ?k ents))"
        using "1.hyps"(1) [OF D(1) refl, where ents = "take ?k ents"] True k by (simp add: take_map min_absorb2)
      then show ?thesis using True D k top parts
        by (auto simp: incl_path.simps [of ?D] incl_dirs.simps [of "length ents"] Let_def
              length_incl_path length_incl_dirs node_input_def)
    next
      case right: False
      have ik: "i - ?k < length ents - ?k" using right 1(3) k by simp
      have top: "climb node_input (leaf_hash_bytes (ents ! i)) (hops (incl_dirs (length ents - ?k) (i - ?k)) (incl_path (drop ?k ?D) (i - ?k))) = mth (drop ?k ?D)"
        using mth_climb [of "i - ?k" "drop ?k ?D"] right ik k by simp
      have "set ((LEAF_PREFIX @ ents ! i) # climb_inputs node_input (leaf_hash_bytes (ents ! i))
             (hops (incl_dirs (length ents - ?k) (i - ?k)) (incl_path (drop ?k ?D) (i - ?k)))) \<subseteq> set (tree_inputs (drop ?k ents))"
        using "1.hyps"(2) [OF D(1) refl, where ents = "drop ?k ents"] right ik k by (simp add: drop_map)
      then show ?thesis using right D k top parts ik
        by (auto simp: incl_path.simps [of ?D] incl_dirs.simps [of "length ents"] Let_def
              length_incl_path length_incl_dirs node_input_def)
    qed
  qed
qed

lemma verify_inclusion_sound:
  assumes acc: "verify_inclusion leaf i (int (length es)) path root = Inr True"
    and ents: "rmapM fromhex es = Inr ents" and root: "merkle_root es = Inr root"
  shows "fromhex leaf = Inr (ents ! nat i) \<or> collide (inclusion_inputs leaf i (int (length es)) path) (tree_inputs ents)"
proof -
  have len: "length ents = length es" using rmapM_length [OF ents] .
  have i: "0 \<le> i" "i < int (length es)" "int (length es) \<le> MAX_TREE_SIZE"
    using acc by (auto simp: verify_inclusion_iff)
  then have m: "nat i < length ents" using len by linarith
  obtain path' where p: "inclusion_proof es i = Inr path'"
    "verify_inclusion (es ! nat i) i (int (length es)) path' root = Inr True"
    using verify_inclusion_complete [OF root i] by blast
  have leaf: "fromhex (es ! nat i) = Inr (ents ! nat i)" using rmapM_nth [OF ents] m len by simp
  have "path' = map to_hex (incl_path (map leaf_hash_bytes ents) (nat i))"
    using p(1) i ents by (simp add: inclusion_proof_def entry_leaves_eq)
  then have "set (inclusion_inputs (es ! nat i) i (int (length es)) path') \<subseteq> set (tree_inputs ents)"
    using incl_path_inputs [OF m] leaf len by (simp add: inclusion_inputs_def rmapM_map)
  then show ?thesis using verify_inclusion_unique [OF acc p(2)] leaf collide_mono by force
qed

section \<open>Properties\<close>

text \<open>
  C1 (round trip). For every list of decodable entries of at most \<open>MAX_TREE_SIZE\<close> elements and
  every index in range, \<open>inclusion_proof\<close> returns a path and \<open>verify_inclusion\<close> accepts it for
  the entry at that index against \<open>merkle_root\<close> of the list.
\<close>

theorem inclusion_complete:
  assumes "merkle_root es = Inr root" "0 \<le> i" "i < int (length es)" "int (length es) \<le> MAX_TREE_SIZE"
  shows "\<exists>path. inclusion_proof es i = Inr path \<and>
           verify_inclusion (es ! nat i) i (int (length es)) path root = Inr True"
  using assms by (rule verify_inclusion_complete)

theorem inclusion_complete_witness:
  "\<exists>path. inclusion_proof [''0a'', ''0B'', ''0c''] 2 = Inr path \<and>
     verify_inclusion ''0c'' 2 3 path (to_hex (mth (map leaf_hash_bytes [[10], [11], [12]]))) = Inr True"
proof -
  have "merkle_root [''0a'', ''0B'', ''0c''] = Inr (to_hex (mth (map leaf_hash_bytes [[10], [11], [12]])))"
    by (simp add: merkle_root_def entry_leaves_def fromhex_eval)
  from inclusion_complete [OF this, of 2] show ?thesis by (simp add: MAX_TREE_SIZE_def)
qed

text \<open>
  C2 (safety). If \<open>verify_inclusion\<close> accepts a leaf at an index against the root of a list of
  entries and its size, the leaf is the entry at that index, unless one of the octet strings
  hashed by the check has the same digest as a different octet string hashed when the tree
  was built. Path elements need not be 32 octets long for this.
\<close>

theorem inclusion_sound:
  assumes "verify_inclusion leaf i (int (length es)) path root = Inr True"
    and "rmapM fromhex es = Inr ents" and "merkle_root es = Inr root"
  shows "fromhex leaf = Inr (ents ! nat i) \<or> collide (inclusion_inputs leaf i (int (length es)) path) (tree_inputs ents)"
  using assms by (rule verify_inclusion_sound)

theorem inclusion_sound_witness:
  "fromhex ''0b'' = Inr ([[10], [11]] ! nat 1) \<or>
   collide (inclusion_inputs ''0b'' 1 2 [to_hex (leaf_hash_bytes [10])]) (tree_inputs [[10], [11]])"
proof -
  have es: "rmapM fromhex [''0a'', ''0b''] = Inr [[10], [11]]"
    by (simp add: fromhex_eval)
  then have r: "merkle_root [''0a'', ''0b''] = Inr (to_hex (mth (map leaf_hash_bytes [[10], [11]])))"
    by (simp add: merkle_root_def entry_leaves_eq)
  have dirs: "incl_dirs 2 1 = [True]" "expected_inclusion_path_len 2 1 = 1"
    using largest_pow2_below_eqI [of 0 2] by (simp_all add: incl_dirs.simps expected_inclusion_path_len.simps)
  have "mth (map leaf_hash_bytes [[10], [11]]) = node_hash (leaf_hash_bytes [10]) (leaf_hash_bytes [11])"
    using largest_pow2_below_eqI [of 0 2] by (simp add: mth_split numeral_2_eq_2)
  then have "verify_inclusion ''0b'' 1 (int (length [''0a'', ''0b''])) [to_hex (leaf_hash_bytes [10])]
        (to_hex (mth (map leaf_hash_bytes [[10], [11]]))) = Inr True"
    using dirs by (simp add: fromhex_eval verify_inclusion_iff MAX_TREE_SIZE_def hops_def node_hash_def node_input_def)
  from inclusion_sound [OF this es r] show ?thesis by simp
qed

text \<open>
  C3 (safety). Two lists of entries, of any lengths, with the same \<open>merkle_root\<close> decode to the
  same entries in the same order, unless an octet string hashed for the one root collides
  with a different one hashed for the other: leaves, inner nodes and the empty tree are
  separated.
\<close>

theorem merkle_root_binding:
  assumes "merkle_root es = Inr r" "merkle_root fs = Inr r"
    and "rmapM fromhex es = Inr xs" "rmapM fromhex fs = Inr ys"
  shows "xs = ys \<or> collide (tree_inputs xs) (tree_inputs ys)"
  using assms by (intro tree_binding) (auto simp: merkle_root_def entry_leaves_eq)

theorem merkle_root_binding_witness:
  "[[10 :: byte]] = [[10]] \<or> collide (tree_inputs [[10]]) (tree_inputs [[10]])"
proof -
  have "rmapM fromhex [''0a''] = Inr [[10]]" "rmapM fromhex [''0A''] = Inr [[10]]"
    by (simp_all add: fromhex_eval)
  moreover from this have "merkle_root [''0a''] = Inr (to_hex (leaf_hash_bytes [10]))"
    "merkle_root [''0A''] = Inr (to_hex (leaf_hash_bytes [10]))"
    by (simp_all add: merkle_root_def entry_leaves_eq)
  ultimately show ?thesis using merkle_root_binding [of "[''0a'']" _ "[''0A'']"] by blast
qed

text \<open>
  C4 (bounds). \<open>root_from_inclusion_proof\<close> hashes only when the index is in range, the tree size
  is at most \<open>2 ^ 62\<close> and the path has exactly the depth of the leaf; that depth is at most
  62, so no hostile proof makes it fold more than 62 siblings, and the root it returns is
  64 hexadecimal digits.
\<close>

theorem inclusion_path_bounded:
  assumes "root_from_inclusion_proof leaf i n path = Inr (Some root)"
  shows "0 \<le> i \<and> i < n \<and> n \<le> 2 ^ 62 \<and> length path = expected_inclusion_path_len (nat n) (nat i)
         \<and> length path \<le> 62 \<and> length root = 64"
proof -
  have i: "0 \<le> i" "i < n" "n \<le> 2 ^ 62" and len: "length path = expected_inclusion_path_len (nat n) (nat i)"
    and root: "length root = 64"
    using assms by (auto simp: root_from_inclusion_proof_eq MAX_TREE_SIZE_def raise_simps length_climb split: if_splits)
  have "int (nat n) \<le> int (2 ^ 62)" using i by simp
  then have "length path \<le> 62" unfolding len by (intro expected_len_le) (simp only: of_nat_le_iff)
  with i len root show ?thesis by blast
qed

theorem inclusion_path_bounded_witness:
  "length ([] :: string list) \<le> 62 \<and> length (to_hex (leaf_hash_bytes [10])) = 64"
proof -
  have "root_from_inclusion_proof ''0a'' 0 1 [] = Inr (Some (to_hex (leaf_hash_bytes [10])))"
    by (simp add: root_from_inclusion_proof_eq MAX_TREE_SIZE_def expected_inclusion_path_len.simps
          fromhex_eval)
  from inclusion_path_bounded [OF this] show ?thesis by simp
qed

end
