(* ===== verification/Merkle_Consistency.thy ===== *)
theory Merkle_Consistency
  imports Merkle
begin

text \<open>
  RFC 6962 consistency proofs of \<open>src/scitt_cose/merkle.py\<close>: \<open>_subproof\<close>,
  \<open>consistency_proof\<close> and the bit-twiddling verifier \<open>verify_consistency\<close>. The verifier's
  loop over \<open>fn\<close> and \<open>sn\<close> is related to the recursive shape of the tree, and from that
  follow completeness and, for proofs whose nodes are digests, soundness.
\<close>

section \<open>Consistency proofs\<close>

text \<open>Called with \<open>0 < m \<le> n\<close> only, so the second branch, which makes the recursion
  terminate on every argument, is never reached.\<close>

function subproof :: "nat \<Rightarrow> bytes list \<Rightarrow> bool \<Rightarrow> bytes list" where
  "subproof m leaves b =
     (if m = length leaves then (if b then [] else [mth leaves])
      else if length leaves \<le> 1 then []
      else let k = largest_pow2_below (length leaves) in
        if m \<le> k then subproof m (take k leaves) b @ [mth (drop k leaves)]
        else subproof (m - k) (drop k leaves) False @ [mth (take k leaves)])"
  by pat_completeness auto
termination
  by (relation "measure (\<lambda>(m, leaves, b). length leaves)") auto

declare subproof.simps [simp del]

definition consistency_proof :: "string list \<Rightarrow> int \<Rightarrow> int \<Rightarrow> py_exn + string list" where
  "consistency_proof entries_hex m n =
     (if \<not> (0 \<le> m \<and> m \<le> n) then Inl ValueError
      else if n > int (length entries_hex) then Inl ValueError
      else if m = 0 \<or> m = n then Inr []
      else rmap (\<lambda>leaves. map to_hex (subproof (nat m) leaves True))
             (entry_leaves (take (nat n) entries_hex)))"

text \<open>The three loops of \<open>verify_consistency\<close>: \<open>while fn & 1\<close>, the inner
  \<open>while not (fn & 1) and fn != 0\<close>, and the loop over the proof nodes, which returns early
  (\<open>None\<close>) when \<open>sn\<close> is already 0.\<close>

function skip_ones :: "nat \<Rightarrow> nat \<Rightarrow> nat \<times> nat" where
  "skip_ones fn sn = (if odd fn then skip_ones (fn div 2) (sn div 2) else (fn, sn))"
  by pat_completeness auto
termination
  by (relation "measure (\<lambda>(fn, sn). fn)") (auto elim: oddE)

function skip_zeros :: "nat \<Rightarrow> nat \<Rightarrow> nat \<times> nat" where
  "skip_zeros fn sn = (if even fn \<and> fn \<noteq> 0 then skip_zeros (fn div 2) (sn div 2) else (fn, sn))"
  by pat_completeness auto
termination
  by (relation "measure (\<lambda>(fn, sn). fn)") auto

declare skip_ones.simps [simp del] skip_zeros.simps [simp del]

fun consistency_loop :: "nat \<Rightarrow> nat \<Rightarrow> bytes \<Rightarrow> bytes \<Rightarrow> bytes list \<Rightarrow> (nat \<times> bytes \<times> bytes) option" where
  "consistency_loop fn sn fr sr [] = Some (sn, fr, sr)"
| "consistency_loop fn sn fr sr (node # nodes) =
     (if sn = 0 then None
      else if odd fn \<or> fn = sn then
        (case skip_zeros fn sn of
           (fn', sn') \<Rightarrow>
             consistency_loop (fn' div 2) (sn' div 2) (node_hash node fr) (node_hash node sr) nodes)
      else consistency_loop (fn div 2) (sn div 2) fr (node_hash sr node) nodes)"

definition verify_consistency ::
  "string \<Rightarrow> string \<Rightarrow> int \<Rightarrow> int \<Rightarrow> string list \<Rightarrow> py_exn + bool" where
  "verify_consistency first_root_hex second_root_hex first_size second_size proof_hex =
     (let m = first_size; n = second_size in
      if m < 0 \<or> n < 0 \<or> m > n then Inr False
      else if m = 0 then Inr (proof_hex = [])
      else if m = n then Inr (proof_hex = [] \<and> first_root_hex = second_root_hex)
      else rbind (rmapM fromhex proof_hex) (\<lambda>nodes.
        rbind (if and m (m - 1) = 0 then rmap (\<lambda>r. r # nodes) (fromhex first_root_hex) else Inr nodes)
          (\<lambda>proof. case proof of
             [] \<Rightarrow> Inr False
           | seed # rest \<Rightarrow>
               (case skip_ones (nat (m - 1)) (nat (n - 1)) of
                  (fn, sn) \<Rightarrow>
                    (case consistency_loop fn sn seed seed rest of
                       None \<Rightarrow> Inr False
                     | Some (sn', fr, sr) \<Rightarrow>
                         Inr (sn' = 0 \<and> to_hex fr = first_root_hex \<and> to_hex sr = second_root_hex))))))"

section \<open>The verifier's bit walk follows the shape of the tree\<close>

text \<open>The sides met from the bottom up by the recursion of \<open>_subproof\<close>.\<close>

function cons_dirs :: "nat \<Rightarrow> nat \<Rightarrow> bool list" where
  "cons_dirs m n =
     (if n \<le> m \<or> n \<le> 1 then []
      else let k = largest_pow2_below n in
        if m \<le> k then cons_dirs m k @ [False] else cons_dirs (m - k) (n - k) @ [True])"
  by pat_completeness auto
termination
  by (relation "measure (\<lambda>(m, n). n)") auto

declare cons_dirs.simps [simp del]

text \<open>Halving: pairing the leaves of a tree of more than two leaves halves its split point.\<close>

lemma lp2_halve:
  assumes "2 < n"
  shows "largest_pow2_below n = 2 * largest_pow2_below ((n + 1) div 2)"
proof -
  from assms have "1 < n" by simp
  then obtain j where j: "largest_pow2_below n = 2 ^ j" "2 ^ j < n" "n \<le> 2 * 2 ^ j"
    by (rule largest_pow2_below_spec)
  have "j \<noteq> 0" using assms j(3) by (cases j) auto
  then obtain i where i: "j = Suc i" by (cases j) auto
  have "largest_pow2_below ((n + 1) div 2) = 2 ^ i"
    by (rule largest_pow2_below_eqI) (use j i in simp_all)
  with j(1) i show ?thesis by simp
qed

lemma lp2_even: "2 < n \<Longrightarrow> even (largest_pow2_below n)"
  by (simp add: lp2_halve)

lemma lp2_two [simp]: "largest_pow2_below 2 = 1"
  using largest_pow2_below_eqI [of 0 2] by simp

definition bottom_dir :: "nat \<Rightarrow> nat \<Rightarrow> bool list" where
  "bottom_dir n i = (if odd i then [True] else if Suc i < n then [False] else [])"

lemma incl_dirs_step:
  "1 < n \<Longrightarrow> incl_dirs n i =
     (if i < largest_pow2_below n then incl_dirs (largest_pow2_below n) i @ [False]
      else incl_dirs (n - largest_pow2_below n) (i - largest_pow2_below n) @ [True])"
  by (subst incl_dirs.simps) (simp add: Let_def)

lemma incl_dirs_one [simp]: "incl_dirs (Suc 0) i = []"
  by (simp add: incl_dirs.simps)

lemma incl_dirs_halve:
  assumes "1 < n" "i < n"
  shows "incl_dirs n i = bottom_dir n i @ incl_dirs ((n + 1) div 2) (i div 2)"
  using assms
proof (induction n i rule: incl_dirs.induct)
  case (1 n i)
  show ?case
  proof (cases "n = 2")
    case True
    with 1(4) show ?thesis by (auto simp: incl_dirs_step bottom_dir_def less_2_cases_iff)
  next
    case False
    with 1(3) have n2: "2 < n" by simp
    let ?k = "largest_pow2_below n" and ?h = "largest_pow2_below ((n + 1) div 2)"
    have k: "?k = 2 * ?h" "0 < ?h" "?k < n" "n \<le> 2 * ?k"
      using lp2_halve [OF n2] largest_pow2_below_bounds [of n] n2 by auto
    have half: "1 < (n + 1) div 2" using n2 by linarith
    have ev: "(?k + 1) div 2 = ?h" using k(1) by simp
    show ?thesis
    proof (cases "i < ?k")
      case True
      have "incl_dirs ?k i = bottom_dir ?k i @ incl_dirs ?h (i div 2)"
        using "1.IH"(1) [OF _ refl True] k n2 True by (simp add: ev)
      moreover have "bottom_dir ?k i = bottom_dir n i"
        using True k by (auto simp: bottom_dir_def)
      moreover have "i div 2 < ?h" using True k(1) by linarith
      ultimately show ?thesis using True n2 half
        by (simp add: incl_dirs_step [of n] incl_dirs_step [of "Suc n div 2"])
    next
      case right: False
      have sub: "i - ?k < n - ?k" "(i - ?k) div 2 = i div 2 - ?h" "(n - ?k + 1) div 2 = (n + 1) div 2 - ?h"
        "\<not> i div 2 < ?h"
        using right 1(4) k by linarith+
      have parity: "odd (i - ?k) = odd i" using right k(1) by simp
      have "incl_dirs (n - ?k) (i - ?k) =
              bottom_dir n i @ incl_dirs ((n + 1) div 2 - ?h) (i div 2 - ?h)"
      proof (cases "1 < n - ?k")
        case True
        then have "incl_dirs (n - ?k) (i - ?k) =
              bottom_dir (n - ?k) (i - ?k) @ incl_dirs ((n - ?k + 1) div 2) ((i - ?k) div 2)"
          using "1.IH"(2) [OF _ refl right] n2 sub(1) by simp
        moreover have "bottom_dir (n - ?k) (i - ?k) = bottom_dir n i"
          using parity right by (auto simp: bottom_dir_def)
        ultimately show ?thesis by (simp only: sub)
      next
        case False
        with k right 1(4) have "n - ?k = 1" "i = ?k" by auto
        moreover from this have "Suc i = n" "even i" "(n + 1) div 2 - ?h = 1" using k by auto
        ultimately show ?thesis using k by (simp add: bottom_dir_def)
      qed
      then show ?thesis using right n2 half sub
        by (simp add: incl_dirs_step [of n] incl_dirs_step [of "Suc n div 2"])
    qed
  qed
qed

lemma cons_dirs_step:
  "m < n \<Longrightarrow> 1 < n \<Longrightarrow> cons_dirs m n =
     (if m \<le> largest_pow2_below n then cons_dirs m (largest_pow2_below n) @ [False]
      else cons_dirs (m - largest_pow2_below n) (n - largest_pow2_below n) @ [True])"
  by (subst cons_dirs.simps) (simp add: Let_def)

lemma cons_dirs_done [simp]: "n \<le> m \<Longrightarrow> cons_dirs m n = []"
  by (simp add: cons_dirs.simps)

text \<open>With an odd old size the walk starts at the last old leaf and follows its path.\<close>

lemma cons_dirs_odd:
  assumes "odd m" "m < n"
  shows "cons_dirs m n = incl_dirs n (m - 1)"
  using assms
proof (induction m n rule: cons_dirs.induct)
  case (1 m n)
  then have n: "1 < n" "\<not> (n \<le> m \<or> n \<le> 1)" by (auto elim: oddE)
  let ?k = "largest_pow2_below n"
  obtain j where j: "?k = 2 ^ j" by (rule largest_pow2_below_spec [OF n(1)])
  show ?case
  proof (cases "m \<le> ?k")
    case True
    have "cons_dirs m ?k = incl_dirs ?k (m - 1)"
    proof (cases "m = ?k")
      case eq: True
      then have "j = 0" using 1(3) j by (cases j) auto
      with eq j show ?thesis by simp
    next
      case False
      with "1.IH"(1) [OF n(2) refl True] 1(3) True show ?thesis by simp
    qed
    moreover have "m - 1 < ?k" using True 1(3) by (auto elim: oddE)
    ultimately show ?thesis using True n 1(4) by (simp add: cons_dirs_step [of m n] incl_dirs_step [of n])
  next
    case False
    have "even ?k"
    proof (cases "2 < n")
      case True then show ?thesis by (rule lp2_even)
    next
      case small: False
      with n have "n = 2" by simp
      with False 1(3,4) show ?thesis by simp
    qed
    then have "odd (m - ?k)" using False 1(3) by simp
    with "1.IH"(2) [OF n(2) refl False] 1(4) False
    have "cons_dirs (m - ?k) (n - ?k) = incl_dirs (n - ?k) (m - ?k - 1)" by simp
    moreover have "m - ?k - 1 = m - 1 - ?k" by simp
    ultimately show ?thesis using False n 1(4) by (simp add: cons_dirs_step [of m n] incl_dirs_step [of n])
  qed
qed

text \<open>With an even old size every subtree met has an even old part, so the walk is that of the
  tree over pairs of leaves.\<close>

lemma cons_dirs_even:
  assumes "even m" "0 < m" "m \<le> n"
  shows "cons_dirs m n = cons_dirs (m div 2) ((n + 1) div 2)"
  using assms
proof (induction m n rule: cons_dirs.induct)
  case (1 m n)
  show ?case
  proof (cases "m = n")
    case True
    with 1(3) show ?thesis by simp
  next
    case False
    with 1(3-5) have n: "2 < n" "m < n" "\<not> (n \<le> m \<or> n \<le> 1)" by (auto elim!: evenE)
    let ?k = "largest_pow2_below n" and ?h = "largest_pow2_below ((n + 1) div 2)"
    have k: "?k = 2 * ?h" "0 < ?h" "?k < n" "n \<le> 2 * ?k"
      using lp2_halve [OF n(1)] largest_pow2_below_bounds [of n] n by auto
    have half: "m div 2 < (n + 1) div 2" "1 < (n + 1) div 2" using n 1(3) by (auto elim!: evenE)
    show ?thesis
    proof (cases "m \<le> ?k")
      case True
      moreover have "(?k + 1) div 2 = ?h" "m div 2 \<le> ?h" using k True by linarith+
      ultimately show ?thesis
        using "1.IH"(1) [OF n(3) refl True] 1(3,4) n half
        by (simp add: cons_dirs_step [of m n] cons_dirs_step [of "m div 2" "Suc n div 2"])
    next
      case False
      have sub: "(m - ?k) div 2 = m div 2 - ?h" "(n - ?k + 1) div 2 = (n + 1) div 2 - ?h" "\<not> m div 2 \<le> ?h"
        using False k dvd_mult_div_cancel [OF 1(3)] by linarith+
      have "even (m - ?k)" using 1(3) lp2_even [OF n(1)] by simp
      moreover have "0 < m - ?k" using False by simp
      moreover have "m - ?k \<le> n - ?k" using 1(5) by (rule diff_le_mono)
      ultimately have "cons_dirs (m - ?k) (n - ?k) = cons_dirs (m div 2 - ?h) ((n + 1) div 2 - ?h)"
        using "1.IH"(2) [OF n(3) refl False] by (simp only: sub)
      then show ?thesis
        using False sub(3) n cons_dirs_step [of m n] cons_dirs_step [OF half] by simp
    qed
  qed
qed

text \<open>After \<open>while fn & 1\<close> the pair \<open>(fn, sn)\<close> names a leaf position and a tree whose
  inclusion path is the walk.\<close>

lemma skip_ones_dirs:
  assumes "skip_ones fn sn = (fn', sn')" "fn < sn"
  shows "even fn' \<and> fn' < sn' \<and> cons_dirs (Suc fn) (Suc sn) = incl_dirs (Suc sn') fn'"
  using assms
proof (induction fn sn rule: skip_ones.induct)
  case (1 fn sn)
  show ?case
  proof (cases "odd fn")
    case True
    have "fn div 2 < sn div 2" using True 1(3) by (auto elim!: oddE)
    with 1(1) [OF True] 1(2) True
    have "even fn' \<and> fn' < sn' \<and> cons_dirs (Suc (fn div 2)) (Suc (sn div 2)) = incl_dirs (Suc sn') fn'"
      by (simp add: skip_ones.simps [of fn])
    moreover have "cons_dirs (Suc fn) (Suc sn) = cons_dirs (Suc (fn div 2)) (Suc (sn div 2))"
      using cons_dirs_even [of "Suc fn" "Suc sn"] True 1(3) by (auto elim!: oddE)
    ultimately show ?thesis by simp
  next
    case False
    with 1(2,3) cons_dirs_odd [of "Suc fn" "Suc sn"] show ?thesis by (auto simp: skip_ones.simps [of fn])
  qed
qed

lemma skip_zeros_dirs:
  assumes "skip_zeros fn fn = (fn', sn')" "fn \<noteq> 0"
  shows "odd fn' \<and> sn' = fn' \<and> incl_dirs (Suc fn) fn = incl_dirs (Suc fn') fn'"
  using assms
proof (induction fn rule: less_induct)
  case (less fn)
  show ?case
  proof (cases "even fn")
    case True
    then have "fn div 2 < fn" "fn div 2 \<noteq> 0" using less.prems by auto
    moreover have "skip_zeros (fn div 2) (fn div 2) = (fn', sn')"
      using less.prems True by (simp add: skip_zeros.simps [of fn])
    ultimately have "odd fn' \<and> sn' = fn' \<and> incl_dirs (Suc (fn div 2)) (fn div 2) = incl_dirs (Suc fn') fn'"
      using less.IH by blast
    moreover have "incl_dirs (Suc fn) fn = incl_dirs (Suc (fn div 2)) (fn div 2)"
      using incl_dirs_halve [of "Suc fn" fn] True less.prems(2) by (simp add: bottom_dir_def)
    ultimately show ?thesis by simp
  next
    case False
    with less.prems show ?thesis by (auto simp: skip_zeros.simps [of fn])
  qed
qed

lemma skip_zeros_odd: "odd fn \<Longrightarrow> skip_zeros fn sn = (fn, sn)"
  by (simp add: skip_zeros.simps)

text \<open>The steps at which the node is a right child: the only ones that change the old root.\<close>

definition right_hops :: "unit hop list \<Rightarrow> unit hop list" where
  "right_hops hs = filter (\<lambda>h. fst (snd h)) hs"

lemma right_hops_simps [simp]:
  "right_hops [] = []"
  "right_hops (h # hs) = (if fst (snd h) then h # right_hops hs else right_hops hs)"
  "right_hops (hs @ hs') = right_hops hs @ right_hops hs'"
  by (simp_all add: right_hops_def)

lemma hops_Cons [simp]: "hops (d # ds) (s # ss) = ((), d, s) # hops ds ss"
  by (simp add: hops_def)

lemma incl_dirs_Nil_iff: "incl_dirs (Suc n) i = [] \<longleftrightarrow> n = 0"
  by (subst incl_dirs.simps) (auto simp: Let_def)

lemma loop_dirs_cases:
  assumes "fn \<le> sn" "sn \<noteq> 0"
  obtains (right) f s where "odd fn \<or> fn = sn" "skip_zeros fn sn = (f, s)" "f div 2 \<le> s div 2"
      "incl_dirs (Suc sn) fn = True # incl_dirs (Suc (s div 2)) (f div 2)"
    | (left) "\<not> (odd fn \<or> fn = sn)" "fn div 2 \<le> sn div 2"
      "incl_dirs (Suc sn) fn = False # incl_dirs (Suc (sn div 2)) (fn div 2)"
proof (cases "odd fn \<or> fn = sn")
  case True
  obtain f s where fs: "skip_zeros fn sn = (f, s)" by (cases "skip_zeros fn sn")
  have "f \<le> s \<and> odd f \<and> s \<noteq> 0 \<and> incl_dirs (Suc sn) fn = incl_dirs (Suc s) f"
  proof (cases "odd fn")
    case True
    with fs assms show ?thesis by (auto simp: skip_zeros_odd)
  next
    case False
    with True fs assms skip_zeros_dirs [of fn f s] show ?thesis by (auto elim: oddE)
  qed
  then have "f div 2 \<le> s div 2" "incl_dirs (Suc sn) fn = True # incl_dirs (Suc (s div 2)) (f div 2)"
    using incl_dirs_halve [of "Suc s" f] by (auto simp: bottom_dir_def div_le_mono)
  then show ?thesis by (rule right [OF True fs])
next
  case False
  then have "incl_dirs (Suc sn) fn = False # incl_dirs (Suc (sn div 2)) (fn div 2)"
    using assms by (subst incl_dirs_halve) (simp_all add: bottom_dir_def)
  with False div_le_mono [OF assms(1)] show ?thesis by (rule left)
qed

lemma consistency_loop_iff:
  assumes "fn \<le> sn"
  shows "consistency_loop fn sn fr sr nodes = Some (0, fr', sr') \<longleftrightarrow>
           length nodes = length (incl_dirs (Suc sn) fn) \<and>
           fr' = climb node_input fr (right_hops (hops (incl_dirs (Suc sn) fn) nodes)) \<and>
           sr' = climb node_input sr (hops (incl_dirs (Suc sn) fn) nodes)"
  using assms
proof (induction nodes arbitrary: fn sn fr sr)
  case Nil
  then show ?case by (auto simp: incl_dirs_Nil_iff)
next
  case (Cons node nodes)
  show ?case
  proof (cases "sn = 0")
    case True
    then show ?thesis by simp
  next
    case False
    with Cons.prems show ?thesis
    proof (cases rule: loop_dirs_cases)
      case (right f s)
      then show ?thesis using False Cons.IH [OF right(3)]
        by (auto simp: node_hash_def node_input_def)
    next
      case left
      then show ?thesis using False Cons.IH [OF left(2)]
        by (auto simp: node_hash_def node_input_def)
    qed
  qed
qed

lemma and_pred_even: "and (2 * a) (2 * a - 1) = 2 * and a (a - 1 :: int)"
proof -
  have "(2 * a - 1) div 2 = a - 1" by linarith
  then show ?thesis by (subst and_int_rec) simp
qed

lemma and_pred_odd: "and (2 * a + 1) (2 * a + 1 - 1) = (2 * a :: int)"
  by (subst and_int_rec) simp

text \<open>The test \<open>m & (m - 1) == 0\<close>.\<close>

lemma pow2_test_iff: "0 < m \<Longrightarrow> and (int m) (int m - 1) = 0 \<longleftrightarrow> (\<exists>j. m = 2 ^ j)"
proof (induction m rule: less_induct)
  case (less m)
  show ?case
  proof (cases "even m")
    case True
    then obtain a where a: "m = 2 * a" by (rule evenE)
    with less have IH: "and (int a) (int a - 1) = 0 \<longleftrightarrow> (\<exists>j. a = 2 ^ j)" by simp
    have "(\<exists>j. a = 2 ^ j) \<longleftrightarrow> (\<exists>j. m = 2 ^ j)"
    proof
      assume "\<exists>j. a = 2 ^ j"
      then obtain j where "a = 2 ^ j" ..
      then have "m = 2 ^ Suc j" using a by simp
      then show "\<exists>j. m = 2 ^ j" ..
    next
      assume "\<exists>j. m = 2 ^ j"
      then obtain j where j: "m = 2 ^ j" ..
      then show "\<exists>j. a = 2 ^ j" using True a by (cases j) auto
    qed
    then show ?thesis using IH and_pred_even [of "int a"] a by simp
  next
    case False
    then obtain a where a: "m = 2 * a + 1" by (rule oddE)
    have "and (int m) (int m - 1) = int (2 * a)" using and_pred_odd [of "int a"] a by (simp add: ac_simps)
    moreover have "a = 0 \<longleftrightarrow> (\<exists>j. m = 2 ^ j)"
    proof
      assume "a = 0"
      then have "m = 2 ^ 0" using a by simp
      then show "\<exists>j. m = 2 ^ j" ..
    next
      assume "\<exists>j. m = 2 ^ j"
      then obtain j where "m = 2 ^ j" ..
      then show "a = 0" using a False by (cases j) auto
    qed
    ultimately show ?thesis by simp
  qed
qed

section \<open>What the verifier accepts\<close>

text \<open>A proof between \<open>0 < m < n\<close> is accepted exactly when its nodes, after the seed, are as
  many as the walk has steps and the two walks end in the two roots.\<close>

definition cons_walk :: "nat \<Rightarrow> nat \<Rightarrow> bytes \<Rightarrow> bytes list \<Rightarrow> bytes \<times> bytes" where
  "cons_walk m n seed nodes =
     (climb node_input seed (right_hops (hops (cons_dirs m n) nodes)),
      climb node_input seed (hops (cons_dirs m n) nodes))"

definition seeded :: "nat \<Rightarrow> string \<Rightarrow> bytes list \<Rightarrow> bytes \<Rightarrow> bytes list \<Rightarrow> bool" where
  "seeded m first nodes seed rest \<longleftrightarrow>
     (if \<exists>j. m = 2 ^ j then fromhex first = Inr seed \<and> rest = nodes else nodes = seed # rest)"

lemma consistency_loop_result:
  assumes "m < n" "0 < m" "skip_ones (m - 1) (n - 1) = (fn, sn)"
  shows "consistency_loop fn sn seed seed nodes = Some (0, fr, sr) \<longleftrightarrow>
     length nodes = length (cons_dirs m n) \<and> (fr, sr) = cons_walk m n seed nodes"
proof -
  have "m - 1 < n - 1" using assms by linarith
  with skip_ones_dirs [OF assms(3)] assms have "fn \<le> sn" "cons_dirs m n = incl_dirs (Suc sn) fn" by auto
  then show ?thesis by (simp add: consistency_loop_iff cons_walk_def)
qed

lemma verify_consistency_iff:
  assumes "0 < m" "m < n"
  shows "verify_consistency first second (int m) (int n) proof_hex = Inr True \<longleftrightarrow>
     (\<exists>nodes seed rest. rmapM fromhex proof_hex = Inr nodes \<and> seeded m first nodes seed rest \<and>
        length rest = length (cons_dirs m n) \<and>
        map_prod to_hex to_hex (cons_walk m n seed rest) = (first, second))"
    (is "?lhs = ?rhs")
proof -
  obtain fn sn where fs: "skip_ones (m - 1) (n - 1) = (fn, sn)" by (cases "skip_ones (m - 1) (n - 1)")
  have nats: "nat (int m - 1) = m - 1" "nat (int n - 1) = n - 1" using assms by auto
  have loop: "(case consistency_loop fn sn seed seed rest of None \<Rightarrow> Inr False
                | Some (sn', fr, sr) \<Rightarrow> Inr (sn' = 0 \<and> to_hex fr = first \<and> to_hex sr = second))
              = (Inr True :: py_exn + bool) \<longleftrightarrow>
              length rest = length (cons_dirs m n) \<and>
              map_prod to_hex to_hex (cons_walk m n seed rest) = (first, second)" for seed rest
  proof (cases "length rest = length (cons_dirs m n)")
    case True
    obtain fr sr where w: "cons_walk m n seed rest = (fr, sr)" by (cases "cons_walk m n seed rest")
    with True have "consistency_loop fn sn seed seed rest = Some (0, fr, sr)"
      by (simp add: consistency_loop_result [OF assms(2,1) fs])
    with True w show ?thesis by auto
  next
    case False
    then have "consistency_loop fn sn seed seed rest \<noteq> Some (0, fr, sr)" for fr sr
      by (simp add: consistency_loop_result [OF assms(2,1) fs])
    with False show ?thesis by (cases "consistency_loop fn sn seed seed rest") auto
  qed
  show ?thesis
  proof (cases "rmapM fromhex proof_hex")
    case (Inl e)
    then show ?thesis using assms by (simp add: verify_consistency_def Let_def)
  next
    case (Inr nodes)
    show ?thesis
    proof (cases "\<exists>j. m = 2 ^ j")
      case True
      then show ?thesis using assms Inr pow2_test_iff [of m] fs loop nats
        by (cases "fromhex first") (auto simp: verify_consistency_def Let_def seeded_def)
    next
      case False
      then show ?thesis using assms Inr pow2_test_iff [of m] fs loop nats
        by (cases nodes) (auto simp: verify_consistency_def Let_def seeded_def)
    qed
  qed
qed

section \<open>Completeness\<close>

lemma subproof_step:
  "0 < m \<Longrightarrow> m < length D \<Longrightarrow> subproof m D b =
     (let k = largest_pow2_below (length D) in
      if m \<le> k then subproof m (take k D) b @ [mth (drop k D)]
      else subproof (m - k) (drop k D) False @ [mth (take k D)])"
  by (subst subproof.simps) (auto simp: Let_def)

lemma subproof_walk:
  assumes "0 < m" "m \<le> length D"
  shows "\<exists>seed rest. subproof m D False = seed # rest \<and> length rest = length (cons_dirs m (length D)) \<and>
           cons_walk m (length D) seed rest = (mth (take m D), mth D)"
  using assms
proof (induction m D "False" rule: subproof.induct)
  case (1 m D)
  show ?case
  proof (cases "m = length D")
    case True
    then show ?thesis by (simp add: subproof.simps cons_walk_def)
  next
    case False
    then have D: "m < length D" "1 < length D" "\<not> length D \<le> 1" using 1(3,4) by auto
    let ?k = "largest_pow2_below (length D)"
    have k: "0 < ?k" "?k < length D" "length D \<le> 2 * ?k" using largest_pow2_below_bounds [OF D(2)] by auto
    show ?thesis
    proof (cases "m \<le> ?k")
      case True
      with "1.hyps"(1) [OF False D(3) refl True] 1(3) k obtain seed rest where
        "subproof m (take ?k D) False = seed # rest" "length rest = length (cons_dirs m ?k)"
        "cons_walk m ?k seed rest = (mth (take m D), mth (take ?k D))"
        by (auto simp: min_absorb2 min_absorb1 less_imp_le)
      then show ?thesis using True D 1(3)
        by (intro exI [of _ seed] exI [of _ "rest @ [mth (drop ?k D)]"])
           (simp add: subproof_step [of m D] cons_dirs_step [of m "length D"] mth_split [of D]
              Let_def cons_walk_def node_hash_def node_input_def)
    next
      case right: False
      then have "0 < m - ?k" "m - ?k \<le> length (drop ?k D)" using D(1) by simp_all
      from "1.hyps"(2) [OF False D(3) refl right this] obtain seed rest where
        sub: "subproof (m - ?k) (drop ?k D) False = seed # rest" "length rest = length (cons_dirs (m - ?k) (length D - ?k))"
        "cons_walk (m - ?k) (length D - ?k) seed rest = (mth (take (m - ?k) (drop ?k D)), mth (drop ?k D))"
        by auto
      obtain j where j: "?k = 2 ^ j" by (rule largest_pow2_below_spec [OF D(2)])
      have "largest_pow2_below m = ?k"
        unfolding j by (rule largest_pow2_below_eqI) (use right D(1) k(3) j in linarith)+
      then have "mth (take m D) = node_hash (mth (take ?k D)) (mth (take (m - ?k) (drop ?k D)))"
        using right D(1) mth_split [of "take m D"] k(1) by (simp add: min_absorb2 take_drop)
      with sub show ?thesis using right D 1(3)
        by (intro exI [of _ seed] exI [of _ "rest @ [mth (take ?k D)]"])
           (simp add: subproof_step [of m D] cons_dirs_step [of m "length D"] mth_split [of D]
              Let_def cons_walk_def node_hash_def node_input_def)
    qed
  qed
qed

text \<open>The call with \<open>b = True\<close> leaves out the seed exactly when the old size is a power of two,
  and then the seed is the old root.\<close>

lemma lp2_not_pow2: "1 < n \<Longrightarrow> largest_pow2_below n < m \<Longrightarrow> m < n \<Longrightarrow> \<nexists>j. m = 2 ^ j"
proof
  assume a: "1 < n" "largest_pow2_below n < m" "m < n" and "\<exists>j. m = 2 ^ j"
  then obtain j where j: "m = 2 ^ j" by blast
  from a(1) obtain i where "largest_pow2_below n = 2 ^ i" "n \<le> 2 * 2 ^ i"
    by (rule largest_pow2_below_spec)
  with a j have "(2::nat) ^ i < 2 ^ j" "(2::nat) ^ j < 2 ^ Suc i" by simp_all
  then have "i < j" "j < Suc i" by (simp_all only: power_strict_increasing_iff one_less_numeral_iff semiring_norm)
  then show False by simp
qed

lemma subproof_True:
  assumes "0 < m" "m \<le> length D"
  shows "subproof m D True =
           (if m = length D \<or> (\<exists>j. m = 2 ^ j) then tl (subproof m D False) else subproof m D False)"
  using assms
proof (induction m D "True" rule: subproof.induct)
  case (1 m D)
  show ?case
  proof (cases "m = length D")
    case True
    then show ?thesis by (simp add: subproof.simps)
  next
    case False
    then have D: "m < length D" "1 < length D" "\<not> length D \<le> 1" using 1(3,4) by auto
    let ?k = "largest_pow2_below (length D)"
    have k: "?k < length D" using largest_pow2_below_bounds [OF D(2)] by auto
    obtain j where j: "?k = 2 ^ j" by (rule largest_pow2_below_spec [OF D(2)])
    show ?thesis
    proof (cases "m \<le> ?k")
      case True
      then have "subproof m (take ?k D) True =
          (if \<exists>j. m = 2 ^ j then tl (subproof m (take ?k D) False) else subproof m (take ?k D) False)"
        using "1.hyps"(1) [OF False D(3) refl True] 1(3) k j by (auto simp: min_absorb2)
      moreover obtain x xs where "subproof m (take ?k D) False = x # xs"
        using subproof_walk [of m "take ?k D"] True 1(3) k by auto
      ultimately show ?thesis using True False D 1(3) by (simp add: subproof_step [of m D] Let_def)
    next
      case right: False
      then have "\<nexists>j. m = 2 ^ j" using lp2_not_pow2 [OF D(2) _ D(1)] by simp
      then show ?thesis using right False D 1(3) by (simp add: subproof_step [of m D] Let_def)
    qed
  qed
qed

lemma cons_dirs_pow2: "0 < m \<Longrightarrow> \<exists>j. m = 2 ^ j \<Longrightarrow> True \<notin> set (cons_dirs m n)"
proof (induction m n rule: cons_dirs.induct)
  case (1 m n)
  show ?case
  proof (cases "n \<le> m \<or> n \<le> 1")
    case True
    then show ?thesis by (auto simp: cons_dirs.simps [of m n])
  next
    case False
    then have le: "m \<le> largest_pow2_below n" using lp2_not_pow2 [of n m] 1(4) by force
    with "1.IH"(1) [OF False refl le] 1(3,4) False show ?thesis by (simp add: cons_dirs_step [of m n])
  qed
qed

lemma right_hops_left_only: "True \<notin> set ds \<Longrightarrow> right_hops (hops ds ss) = []"
  by (auto simp: right_hops_def hops_def filter_empty_conv dest: set_zip_leftD)

lemma subproof_seeded:
  assumes "0 < m" "m < length D" "first = to_hex (mth (take m D))"
  shows "\<exists>seed rest. seeded m first (subproof m D True) seed rest \<and>
           length rest = length (cons_dirs m (length D)) \<and>
           subproof m D False = seed # rest \<and> cons_walk m (length D) seed rest = (mth (take m D), mth D)"
proof -
  from subproof_walk [of m D] assms obtain seed rest where
    sub: "subproof m D False = seed # rest" "length rest = length (cons_dirs m (length D))"
      "cons_walk m (length D) seed rest = (mth (take m D), mth D)" by auto
  have "seeded m first (subproof m D True) seed rest"
  proof (cases "\<exists>j. m = 2 ^ j")
    case True
    with sub(3) cons_dirs_pow2 [OF assms(1)] have "seed = mth (take m D)"
      by (auto simp: cons_walk_def right_hops_left_only)
    with True sub(1) assms subproof_True [of m D] show ?thesis by (auto simp: seeded_def)
  next
    case False
    with sub(1) assms subproof_True [of m D] show ?thesis by (auto simp: seeded_def)
  qed
  with sub show ?thesis by blast
qed

lemma entry_leaves_take: "entry_leaves es = Inr D \<Longrightarrow> entry_leaves (take n es) = Inr (take n D)"
  unfolding entry_leaves_def by (rule rmapM_take)

lemma consistency_complete:
  assumes "merkle_root (take m es) = Inr first" "merkle_root (take n es) = Inr second"
    and "m \<le> n" "n \<le> length es"
  shows "\<exists>proof_hex. consistency_proof es (int m) (int n) = Inr proof_hex \<and>
           verify_consistency first second (int m) (int n) proof_hex = Inr True"
proof -
  from assms(2) obtain D where D: "entry_leaves (take n es) = Inr D" "second = to_hex (mth D)"
    by (auto simp: merkle_root_def raise_simps)
  have len: "length D = n" using D(1) assms(4) by (auto simp: entry_leaves_def dest: rmapM_length)
  have first: "first = to_hex (mth (take m D))"
    using assms(1,3) entry_leaves_take [OF D(1), of m] by (simp add: merkle_root_def min_absorb1)
  consider "m = 0" | "m = n" "0 < m" | "0 < m" "m < n" using assms(3) by linarith
  then show ?thesis
  proof cases
    case 1
    then show ?thesis using assms by (auto simp: consistency_proof_def verify_consistency_def)
  next
    case 2
    then show ?thesis using assms D first len
      by (auto simp: consistency_proof_def verify_consistency_def)
  next
    case 3
    have "consistency_proof es (int m) (int n) = Inr (map to_hex (subproof m D True))"
      using 3 assms(4) D(1) by (simp add: consistency_proof_def)
    moreover obtain seed rest where "seeded m first (subproof m D True) seed rest"
      "length rest = length (cons_dirs m n)" "cons_walk m n seed rest = (mth (take m D), mth D)"
      using subproof_seeded [of m D first] 3 len first by auto
    then have "verify_consistency first second (int m) (int n) (map to_hex (subproof m D True)) = Inr True"
      unfolding verify_consistency_iff [OF 3] using first D(2)
      by (intro exI [of _ "subproof m D True"] exI [of _ seed] exI [of _ rest]) (simp add: rmapM_map)
    ultimately show ?thesis by blast
  qed
qed

section \<open>Soundness\<close>

text \<open>The octet strings hashed on the way to the second root.\<close>

definition consistency_inputs :: "nat \<Rightarrow> nat \<Rightarrow> string \<Rightarrow> string list \<Rightarrow> bytes list" where
  "consistency_inputs m n first proof_hex =
     (case rmapM fromhex proof_hex of
        Inl e \<Rightarrow> []
      | Inr nodes \<Rightarrow>
          if and (int m) (int m - 1) = 0
          then (case fromhex first of Inl e \<Rightarrow> [] | Inr r \<Rightarrow> climb_inputs node_input r (hops (cons_dirs m n) nodes))
          else climb_inputs node_input (hd nodes) (hops (cons_dirs m n) (tl nodes)))"

lemma consistency_inputs_seeded:
  "0 < m \<Longrightarrow> rmapM fromhex proof_hex = Inr nodes \<Longrightarrow> seeded m first nodes seed rest \<Longrightarrow>
   consistency_inputs m n first proof_hex = climb_inputs node_input seed (hops (cons_dirs m n) rest)"
  using pow2_test_iff [of m] by (auto simp: consistency_inputs_def seeded_def split: if_splits)

text \<open>An honest proof hashes nothing that building the tree does not hash.\<close>

lemma subproof_inputs:
  assumes "0 < m" "m \<le> length ents" "subproof m (map leaf_hash_bytes ents) False = seed # rest"
  shows "set (climb_inputs node_input seed (hops (cons_dirs m (length ents)) rest)) \<subseteq> set (tree_inputs ents)"
  using assms
proof (induction m "map leaf_hash_bytes ents" False arbitrary: ents rest rule: subproof.induct)
  case (1 m)
  show ?case
  proof (cases "m = length ents")
    case True
    then show ?thesis by simp
  next
    case False
    let ?D = "map leaf_hash_bytes ents" and ?k = "largest_pow2_below (length ents)"
    have D: "m \<noteq> length ?D" "\<not> length ?D \<le> 1" "m < length ents" "1 < length ents"
      using False 1(3,4) by auto
    have k: "?k < length ents" using largest_pow2_below_bounds [OF D(4)] by auto
    note parts = tree_inputs_parts [OF D(4)]
    show ?thesis
    proof (cases "m \<le> ?k")
      case True
      then obtain ini where sub: "subproof m (take ?k ?D) False = seed # ini" "rest = ini @ [mth (drop ?k ?D)]"
        using 1(3,5) D subproof_walk [of m "take ?k ?D"] k by (auto simp: subproof_step [of m ?D] Let_def min_absorb2)
      have len: "length ini = length (cons_dirs m ?k)" 
        and top: "climb node_input seed (hops (cons_dirs m ?k) ini) = mth (take ?k ?D)"
        using subproof_walk [of m "take ?k ?D"] sub(1) 1(3) True k by (auto simp: cons_walk_def min_absorb2)
      have "set (climb_inputs node_input seed (hops (cons_dirs m ?k) ini)) \<subseteq> set (tree_inputs (take ?k ents))"
        using "1.hyps"(1) [OF D(1,2) refl, where ents = "take ?k ents" and rest = ini] True sub(1) k 1(3)
        by (simp add: take_map min_absorb2)
      then show ?thesis using True D len top parts sub(2)
        by (auto simp: cons_dirs_step [of m "length ents"] node_input_def)
    next
      case right: False
      have pre: "0 < m - ?k" "m - ?k \<le> length (drop ?k ?D)" using right D(3) by simp_all
      note walk = subproof_walk [OF pre]
      obtain ini where sub: "subproof (m - ?k) (drop ?k ?D) False = seed # ini" "rest = ini @ [mth (take ?k ?D)]"
        using right 1(3,5) D walk by (auto simp: subproof_step [of m ?D] Let_def)
      have len: "length ini = length (cons_dirs (m - ?k) (length ents - ?k))" 
        and top: "climb node_input seed (hops (cons_dirs (m - ?k) (length ents - ?k)) ini) = mth (drop ?k ?D)"
        using walk sub(1) by (auto simp: cons_walk_def)
      have "set (climb_inputs node_input seed (hops (cons_dirs (m - ?k) (length ents - ?k)) ini))
              \<subseteq> set (tree_inputs (drop ?k ents))"
        using "1.hyps"(2) [OF D(1,2) refl, where ents = "drop ?k ents" and rest = ini] right sub(1) pre
        by (simp add: drop_map)
      then show ?thesis using right D len top parts sub(2)
        by (auto simp: cons_dirs_step [of m "length ents"] node_input_def)
    qed
  qed
qed

lemma subproof_digest:
  "\<forall>x \<in> set D. length x = 32 \<Longrightarrow> \<forall>x \<in> set (subproof m D b). length x = 32"
proof (induction m D b rule: subproof.induct)
  case (1 m D b)
  then have "\<forall>x \<in> set (take k D). length x = 32" "\<forall>x \<in> set (drop k D). length x = 32" for k
    by (auto dest: in_set_takeD in_set_dropD)
  with 1 show ?case
    by (subst subproof.simps) (auto simp: Let_def hash_lengths)
qed

text \<open>The nodes of a proof are digests, and so is the first root where it seeds the walk.\<close>

definition digest_nodes :: "string \<Rightarrow> string list \<Rightarrow> bool" where
  "digest_nodes first proof_hex \<longleftrightarrow>
     list_all (\<lambda>h. case fromhex h of Inl e \<Rightarrow> False | Inr b \<Rightarrow> length b = 32) (first # proof_hex)"

lemma digest_nodes_seed:
  "digest_nodes first proof_hex \<Longrightarrow> rmapM fromhex proof_hex = Inr nodes \<Longrightarrow> seeded m first nodes seed rest \<Longrightarrow>
   length seed = 32"
  by (cases proof_hex) (auto simp: digest_nodes_def seeded_def raise_simps split: if_splits)

lemma consistency_sound:
  assumes acc: "verify_consistency first second (int m) (int n) proof_hex = Inr True" and mn: "0 < m" "m < n"
    and ents: "rmapM fromhex es = Inr ents" "length es = n" and root: "merkle_root es = Inr second"
    and dig: "digest_nodes first proof_hex"
  shows "merkle_root (take m es) = Inr first \<or> collide (consistency_inputs m n first proof_hex) (tree_inputs ents)"
proof -
  let ?D = "map leaf_hash_bytes ents" and ?ds = "cons_dirs m n"
  have len: "length ents = n" using rmapM_length [OF ents(1)] ents(2) by simp
  from acc obtain nodes seed rest where
    p: "rmapM fromhex proof_hex = Inr nodes" "seeded m first nodes seed rest" "length rest = length ?ds"
      "map_prod to_hex to_hex (cons_walk m n seed rest) = (first, second)"
    unfolding verify_consistency_iff [OF mn] by blast
  from subproof_walk [of m ?D] mn len obtain seed' rest' where
    h: "subproof m ?D False = seed' # rest'" "length rest' = length ?ds"
      "cons_walk m n seed' rest' = (mth (take m ?D), mth ?D)" by auto
  have second: "second = to_hex (mth ?D)" and first: "merkle_root (take m es) = Inr (to_hex (mth (take m ?D)))"
    using root ents(1) rmapM_take [OF ents(1)] by (simp_all add: merkle_root_def entry_leaves_eq take_map)
  have "length seed' = 32" using subproof_digest [of ?D m False] h(1) by (auto simp: hash_lengths)
  moreover have "length seed = 32" using digest_nodes_seed [OF dig p(1,2)] .
  moreover have "climb node_input seed (hops ?ds rest) = climb node_input seed' (hops ?ds rest')"
    using p(4) h(3) second by (auto simp: cons_walk_def)
  ultimately consider "seed = seed'" "hops ?ds rest = hops ?ds rest'"
    | "collide (climb_inputs node_input seed (hops ?ds rest)) (climb_inputs node_input seed' (hops ?ds rest'))"
    using merkle_step.climb_binding [of "hops ?ds rest" "hops ?ds rest'" seed seed'] p(3) h(2)
    by (auto simp: map_shape_hops)
  then show ?thesis
  proof cases
    case 1
    then have "cons_walk m n seed rest = cons_walk m n seed' rest'" by (simp add: cons_walk_def)
    then show ?thesis using first p(4) h(3) by auto
  next
    case 2
    moreover have "consistency_inputs m n first proof_hex = climb_inputs node_input seed (hops ?ds rest)"
      using consistency_inputs_seeded [OF mn(1) p(1,2)] .
    ultimately show ?thesis using subproof_inputs [of m ents seed' rest'] mn len h(1)
      by (metis collide_mono less_imp_le order_refl)
  qed
qed

section \<open>Properties\<close>

text \<open>
  C3 (round trip). For \<open>m \<le> n\<close> within the list, \<open>consistency_proof\<close> returns a proof and
  \<open>verify_consistency\<close>, whose loop works on the bits of \<open>m - 1\<close> and \<open>n - 1\<close>, accepts it
  between the roots of the first \<open>m\<close> and the first \<open>n\<close> entries.
\<close>

theorem consistency_roundtrip:
  assumes "merkle_root (take m es) = Inr first" "merkle_root (take n es) = Inr second"
    and "m \<le> n" "n \<le> length es"
  shows "\<exists>proof_hex. consistency_proof es (int m) (int n) = Inr proof_hex \<and>
           verify_consistency first second (int m) (int n) proof_hex = Inr True"
  using assms by (rule consistency_complete)

theorem consistency_roundtrip_witness:
  "\<exists>proof_hex. consistency_proof [''0a'', ''0b'', ''0c'', ''0d'', ''0e''] 3 5 = Inr proof_hex \<and>
     verify_consistency (to_hex (mth (map leaf_hash_bytes [[10], [11], [12]])))
       (to_hex (mth (map leaf_hash_bytes [[10], [11], [12], [13], [14]]))) 3 5 proof_hex = Inr True"
proof -
  let ?es = "[''0a'', ''0b'', ''0c'', ''0d'', ''0e'']"
  have "merkle_root (take 3 ?es) = Inr (to_hex (mth (map leaf_hash_bytes [[10], [11], [12]])))"
    "merkle_root (take 5 ?es) = Inr (to_hex (mth (map leaf_hash_bytes [[10], [11], [12], [13], [14]])))"
    by (simp_all add: merkle_root_def entry_leaves_def fromhex_eval)
  from consistency_roundtrip [OF this] show ?thesis by simp
qed

text \<open>
  C4 (safety). If \<open>verify_consistency\<close> accepts a proof whose nodes, and first root, are 32-octet
  digests, against the root of the first \<open>n\<close> entries, then the first root is the root of the
  first \<open>m\<close> of those entries, unless an octet string hashed by the check collides with a
  different one hashed for the tree.
\<close>

theorem consistency_prefix:
  assumes "verify_consistency first second (int m) (int n) proof_hex = Inr True" "0 < m" "m < n"
    and "rmapM fromhex es = Inr ents" "length es = n" "merkle_root es = Inr second"
    and "digest_nodes first proof_hex"
  shows "merkle_root (take m es) = Inr first \<or> collide (consistency_inputs m n first proof_hex) (tree_inputs ents)"
  using assms by (rule consistency_sound)

theorem consistency_prefix_witness:
  "merkle_root [''0a''] = Inr (to_hex (leaf_hash_bytes [10])) \<or>
   collide (consistency_inputs 1 2 (to_hex (leaf_hash_bytes [10])) [to_hex (leaf_hash_bytes [11])])
           (tree_inputs [[10], [11]])"
proof -
  let ?a = "leaf_hash_bytes [10]" and ?b = "leaf_hash_bytes [11]"
  have es: "rmapM fromhex [''0a'', ''0b''] = Inr [[10], [11]]" by (simp add: fromhex_eval)
  then have r: "merkle_root [''0a'', ''0b''] = Inr (to_hex (node_hash ?a ?b))"
    by (simp add: merkle_root_def entry_leaves_eq mth_split numeral_2_eq_2 [symmetric])
  have "verify_consistency (to_hex ?a) (to_hex (node_hash ?a ?b)) (int 1) (int 2) [to_hex ?b] = Inr True"
    by (simp add: verify_consistency_def Let_def skip_ones.simps numeral_2_eq_2 [symmetric])
  from consistency_prefix [OF this _ _ es _ r] show ?thesis by (simp add: digest_nodes_def)
qed

text \<open>
  C6 (error behaviour). The hypothesis on node lengths is needed: \<open>verify_consistency\<close> does not
  check them. For every four entries, moving one octet from a node to its neighbour gives a
  proof that is accepted between sizes 3 and 4 for a first root that hashes 33 octets where
  the third leaf hash should be, which is not the root of the first three entries unless
  those two inputs collide.
\<close>

theorem consistency_accepts_split_nodes:
  assumes "entry_leaves es = Inr [a, b, c, d]" "merkle_root es = Inr second"
  shows "verify_consistency (to_hex (node_hash (node_hash a b) (c @ take 1 d))) second 3 4
           [to_hex (c @ take 1 d), to_hex (drop 1 d), to_hex (node_hash a b)] = Inr True
         \<and> (merkle_root (take 3 es) = Inr (to_hex (node_hash (node_hash a b) (c @ take 1 d))) \<longrightarrow>
              sha256_collision (NODE_PREFIX @ node_hash a b @ c, NODE_PREFIX @ node_hash a b @ c @ take 1 d))"
proof -
  have lp: "largest_pow2_below (Suc (Suc (Suc (Suc 0)))) = 2" "largest_pow2_below (Suc (Suc (Suc 0))) = 2"
    using largest_pow2_below_eqI [of 1 4] largest_pow2_below_eqI [of 1 3] by (simp_all add: numeral_eq_Suc)
  have two: "mth [x, y] = node_hash x y" for x y
    by (simp add: mth_split numeral_2_eq_2 [symmetric])
  have "second = to_hex (node_hash (node_hash a b) (node_hash c d))"
    using assms lp by (simp add: merkle_root_def mth_split [of "[a, b, c, d]"] two)
  moreover have "node_hash (c @ take 1 d) (drop 1 d) = node_hash c d" by (simp add: node_hash_def)
  moreover have "and (3::int) 2 \<noteq> 0" by simp
  ultimately have accepted: "verify_consistency (to_hex (node_hash (node_hash a b) (c @ take 1 d))) second 3 4
      [to_hex (c @ take 1 d), to_hex (drop 1 d), to_hex (node_hash a b)] = Inr True"
    by (simp add: verify_consistency_def Let_def skip_ones.simps [of 2] skip_zeros_odd)
  have "length d = 32" using assms(1) by (auto simp: entry_leaves_eq raise_simps)
  then have "d \<noteq> []" by auto
  moreover have "merkle_root (take 3 es) = Inr (to_hex (node_hash (node_hash a b) c))"
    using entry_leaves_take [OF assms(1), of 3] lp by (simp add: merkle_root_def mth_split [of "[a, b, c]"] two)
  ultimately show ?thesis using accepted
    by (auto simp: sha256_collision_def node_hash_def neq_Nil_conv)
qed

theorem consistency_accepts_split_nodes_witness:
  "\<exists>second. merkle_root [''0a'', ''0b'', ''0c'', ''0d''] = Inr second \<and>
     (let a = leaf_hash_bytes [10]; b = leaf_hash_bytes [11]; c = leaf_hash_bytes [12]; d = leaf_hash_bytes [13]
      in verify_consistency (to_hex (node_hash (node_hash a b) (c @ take 1 d))) second 3 4
           [to_hex (c @ take 1 d), to_hex (drop 1 d), to_hex (node_hash a b)] = Inr True)"
proof -
  let ?es = "[''0a'', ''0b'', ''0c'', ''0d'']"
  have l: "entry_leaves ?es =
      Inr [leaf_hash_bytes [10], leaf_hash_bytes [11], leaf_hash_bytes [12], leaf_hash_bytes [13]]"
    by (simp add: entry_leaves_def fromhex_eval)
  then obtain second where "merkle_root ?es = Inr second" by (simp add: merkle_root_def)
  with consistency_accepts_split_nodes [OF l this] show ?thesis by (auto simp: Let_def)
qed

end
