(* ===== verification/Encoding_Rule.thy ===== *)
theory Encoding_Rule
  imports Prelude
begin

text \<open>
  The receipt encoding rule of \<open>src/scitt_cose/_encoding_rule.py\<close>: a walk over raw octets
  that accepts one CBOR item in its strict form. The walk is modelled statement by statement
  (\<open>rule_head\<close>, \<open>rule_item\<close>, \<open>rule_check\<close>). Its specification is declarative: the
  abstract data items of RFC 8949 (\<open>item\<close>), their one shortest-form encoding (\<open>enc\<close>) and the
  items the rule admits (\<open>admits\<close>). The main lemmas say that the walk accepts exactly the
  encodings of admitted items, and that an accepted octet string encodes only one item.
\<close>

section \<open>The walk over octets\<close>

definition MAX_DEPTH :: nat where
  "MAX_DEPTH = 16"

definition COSE_SIGN1_TAG :: nat where
  "COSE_SIGN1_TAG = 18"

text \<open>\<open>_WIDTH\<close>: additional information to (octets that follow, least value they may carry).\<close>

definition width_of :: "nat \<Rightarrow> (nat \<times> nat) option" where
  "width_of info =
     (if info = 24 then Some (1, 24) else if info = 25 then Some (2, 2 ^ 8)
      else if info = 26 then Some (4, 2 ^ 16) else if info = 27 then Some (8, 2 ^ 32) else None)"

definition ALLOWED_SIMPLE :: "nat list" where
  "ALLOWED_SIMPLE = [20, 21, 22]"

text \<open>The reasons of the \<open>CoseError\<close>s raised here, in the order of the source.\<close>

datatype rule_fault =
    Trailing_Octets | Truncated | Indefinite_Length | Reserved_Info | Not_Shortest
  | Too_Deep | Integer_Too_Small | Invalid_Utf8 | Bad_Map_Key | Repeated_Map_Key
  | Other_Tag | Float_Item | Other_Simple

text \<open>\<open>bytes.decode("utf-8")\<close> succeeds: no overlong form, no surrogate, nothing above U+10FFFF.\<close>

definition cont_octet :: "nat \<Rightarrow> bool" where
  "cont_octet n \<longleftrightarrow> 128 \<le> n \<and> n \<le> 191"

fun utf8_ok :: "nat list \<Rightarrow> bool" where
  "utf8_ok [] = True"
| "utf8_ok (a # s) =
     (if a < 128 then utf8_ok s
      else if 194 \<le> a \<and> a \<le> 223 then
        (case s of b # t \<Rightarrow> cont_octet b \<and> utf8_ok t | _ \<Rightarrow> False)
      else if 224 \<le> a \<and> a \<le> 239 then
        (case s of b # c # t \<Rightarrow>
           cont_octet b \<and> cont_octet c \<and> (a = 224 \<longrightarrow> 160 \<le> b) \<and> (a = 237 \<longrightarrow> b \<le> 159) \<and> utf8_ok t
         | _ \<Rightarrow> False)
      else if 240 \<le> a \<and> a \<le> 244 then
        (case s of b # c # d # t \<Rightarrow>
           cont_octet b \<and> cont_octet c \<and> cont_octet d
           \<and> (a = 240 \<longrightarrow> 144 \<le> b) \<and> (a = 244 \<longrightarrow> b \<le> 143) \<and> utf8_ok t
         | _ \<Rightarrow> False)
      else False)"

definition utf8_valid :: "bytes \<Rightarrow> bool" where
  "utf8_valid b = utf8_ok (map unat b)"

definition slice :: "bytes \<Rightarrow> nat \<Rightarrow> nat \<Rightarrow> bytes" where
  "slice octets a b = take (b - a) (drop a octets)"

definition rule_head :: "bytes \<Rightarrow> nat \<Rightarrow> rule_fault + (nat \<times> nat \<times> nat)" where
  "rule_head octets pos =
     (if length octets \<le> pos then Inl Truncated
      else let initial = unat (octets ! pos);
               major = initial div 32; info = initial mod 32; pos = pos + 1 in
        if info < 24 then Inr (major, info, pos)
        else if info = 31 then Inl Indefinite_Length
        else (case width_of info of
                None \<Rightarrow> Inl Reserved_Info
              | Some (width, smallest) \<Rightarrow>
                  if length octets < pos + width then Inl Truncated
                  else let argument = be_nat (slice octets pos (pos + width)) in
                    if major \<noteq> 7 \<and> argument < smallest then Inl Not_Shortest
                    else Inr (major, argument, pos + width)))"

text \<open>\<open>for _ in range(n): pos = step(pos)\<close>, for the elements of an array.\<close>

fun walk_array :: "(nat \<Rightarrow> rule_fault + nat) \<Rightarrow> nat \<Rightarrow> nat \<Rightarrow> rule_fault + nat" where
  "walk_array step 0 pos = Inr pos"
| "walk_array step (Suc n) pos = rbind (step pos) (walk_array step n)"

text \<open>The loop over the pairs of a map, with the octets of the keys seen so far.\<close>

fun walk_map :: "bytes \<Rightarrow> (nat \<Rightarrow> rule_fault + nat) \<Rightarrow> nat \<Rightarrow> bytes list \<Rightarrow> nat \<Rightarrow> rule_fault + nat" where
  "walk_map octets step 0 keys pos = Inr pos"
| "walk_map octets step (Suc n) keys pos =
     (if length octets \<le> pos then Inl Truncated
      else if unat (octets ! pos) div 32 \<notin> {0, 1, 3} then Inl Bad_Map_Key
      else rbind (step pos) (\<lambda>pos1.
        let key = slice octets pos pos1 in
        if key \<in> set keys then Inl Repeated_Map_Key
        else rbind (step pos1) (walk_map octets step n (key # keys))))"

function rule_item :: "bytes \<Rightarrow> nat \<Rightarrow> nat \<Rightarrow> bool \<Rightarrow> rule_fault + nat" where
  "rule_item octets pos depth outer_tag =
     (if MAX_DEPTH < depth then Inl Too_Deep
      else rbind (rule_head octets pos) (\<lambda>(major, argument, next).
        if major = 0 then Inr next
        else if major = 1 then (if 2 ^ 63 \<le> argument then Inl Integer_Too_Small else Inr next)
        else if major = 2 \<or> major = 3 then
          (if length octets - next < argument then Inl Truncated
           else if major = 3 \<and> \<not> utf8_valid (slice octets next (next + argument)) then Inl Invalid_Utf8
           else Inr (next + argument))
        else if major = 4 then
          walk_array (\<lambda>p. rule_item octets p (depth + 1) False) argument next
        else if major = 5 then
          walk_map octets (\<lambda>p. rule_item octets p (depth + 1) False) argument [] next
        else if major = 6 then
          (if \<not> (outer_tag \<and> depth = 0 \<and> argument = COSE_SIGN1_TAG) then Inl Other_Tag
           else rule_item octets next (depth + 1) False)
        else (let info = unat (octets ! pos) mod 32 in
              if info \<in> {25, 26, 27} then Inl Float_Item
              else if argument \<notin> set ALLOWED_SIMPLE \<or> info = 24 then Inl Other_Simple
              else Inr next)))"
  by pat_completeness auto
termination
  by (relation "measure (\<lambda>(octets, pos, depth, outer_tag). Suc MAX_DEPTH - depth)") auto

declare rule_item.simps [simp del]

text \<open>\<open>check(octets, what, outer_tag=...)\<close>; the label \<open>what\<close> is carried into the error.\<close>

definition rule_check :: "bytes \<Rightarrow> string \<Rightarrow> bool \<Rightarrow> (string \<times> rule_fault) + unit" where
  "rule_check octets what outer_tag =
     (case rule_item octets 0 0 outer_tag of
        Inl f \<Rightarrow> Inl (what, f)
      | Inr end_pos \<Rightarrow> if end_pos \<noteq> length octets then Inl (what, Trailing_Octets) else Inr ())"

section \<open>Abstract items and their shortest encoding\<close>

datatype item =
    I_Uint nat | I_Nint nat | I_Bytes bytes | I_Text bytes
  | I_Array "item list" | I_Map "(item \<times> item) list" | I_Tag nat item | I_Simple nat

definition enc_head :: "nat \<Rightarrow> nat \<Rightarrow> bytes" where
  "enc_head major n =
     (if n < 24 then [of_nat (32 * major + n)]
      else if n < 2 ^ 8 then of_nat (32 * major + 24) # be_bytes 1 n
      else if n < 2 ^ 16 then of_nat (32 * major + 25) # be_bytes 2 n
      else if n < 2 ^ 32 then of_nat (32 * major + 26) # be_bytes 4 n
      else of_nat (32 * major + 27) # be_bytes 8 n)"

fun enc :: "item \<Rightarrow> bytes" where
  "enc (I_Uint n) = enc_head 0 n"
| "enc (I_Nint n) = enc_head 1 n"
| "enc (I_Bytes b) = enc_head 2 (length b) @ b"
| "enc (I_Text b) = enc_head 3 (length b) @ b"
| "enc (I_Array xs) = enc_head 4 (length xs) @ concat (map enc xs)"
| "enc (I_Map kvs) = enc_head 5 (length kvs) @ concat (map (\<lambda>(k, v). enc k @ enc v) kvs)"
| "enc (I_Tag t x) = enc_head 6 t @ enc x"
| "enc (I_Simple n) = enc_head 7 n"

fun key_item :: "item \<Rightarrow> bool" where
  "key_item (I_Uint n) = True"
| "key_item (I_Nint n) = True"
| "key_item (I_Text b) = True"
| "key_item _ = False"

text \<open>The items the rule admits at a nesting depth; \<open>outer\<close> admits tag 18 on the top item.\<close>

fun admits :: "nat \<Rightarrow> bool \<Rightarrow> item \<Rightarrow> bool" where
  "admits depth outer (I_Uint n) = (depth \<le> 16 \<and> n < 2 ^ 64)"
| "admits depth outer (I_Nint n) = (depth \<le> 16 \<and> n < 2 ^ 63)"
| "admits depth outer (I_Bytes b) = (depth \<le> 16 \<and> length b < 2 ^ 64)"
| "admits depth outer (I_Text b) = (depth \<le> 16 \<and> length b < 2 ^ 64 \<and> utf8_valid b)"
| "admits depth outer (I_Array xs) =
     (depth \<le> 16 \<and> length xs < 2 ^ 64 \<and> (\<forall>x \<in> set xs. admits (Suc depth) False x))"
| "admits depth outer (I_Map kvs) =
     (depth \<le> 16 \<and> length kvs < 2 ^ 64 \<and> distinct (map fst kvs) \<and>
      (\<forall>(k, v) \<in> set kvs. key_item k \<and> admits (Suc depth) False k \<and> admits (Suc depth) False v))"
| "admits depth outer (I_Tag t x) =
     (depth = 0 \<and> outer \<and> t = 18 \<and> admits (Suc depth) False x)"
| "admits depth outer (I_Simple n) = (depth \<le> 16 \<and> n \<in> {20, 21, 22})"

section \<open>Reading back a head\<close>

definition head_ok :: "nat \<Rightarrow> nat \<Rightarrow> bool" where
  "head_ok major n \<longleftrightarrow> major < 8 \<and> n < 2 ^ 64 \<and> (major = 7 \<longrightarrow> n < 24)"

lemma slice_append [simp]: "drop a octets = x @ rest \<Longrightarrow> slice octets a (a + length x) = x"
  by (simp add: slice_def)

lemma drop_pos_less: "drop a octets = x @ rest \<Longrightarrow> x \<noteq> [] \<Longrightarrow> a < length octets"
  by (metis append_is_Nil_conv drop_all linorder_not_less)

lemma drop_pos_le: "drop a octets = x @ rest \<Longrightarrow> a + length x \<le> length octets \<or> x = []"
  by (metis append_is_Nil_conv drop_pos_less le_add_diff_inverse length_append length_drop less_imp_le nat_add_left_cancel_le le_add1)

lemma drop_shift: "drop a octets = x @ rest \<Longrightarrow> drop (a + length x) octets = rest"
  by (metis add.commute append_eq_conv_conj drop_drop)

lemma octet_split: "n < 256 \<Longrightarrow> unat (of_nat n :: byte) = n"
  by (simp add: unat_of_nat)

lemma drop_Cons_nth: "drop a octets = x # rest \<Longrightarrow> a < length octets \<and> octets ! a = x \<and> drop (Suc a) octets = rest"
  by (metis Cons_nth_drop_Suc drop_all linorder_not_less list.distinct(1) list.inject)

lemma width_of_cases:
  assumes "width_of info = Some (w, small)"
  obtains "info = 24" "w = 1" "small = 24" | "info = 25" "w = 2" "small = 2 ^ 8"
    | "info = 26" "w = 4" "small = 2 ^ 16" | "info = 27" "w = 8" "small = 2 ^ 32"
  using assms by (auto simp: width_of_def split: if_splits)

lemma rule_head_wide:
  assumes "drop pos octets = of_nat (32 * major + info) # be_bytes w n @ rest"
    and "width_of info = Some (w, small)" "small \<le> n" "n < 256 ^ w" "major < 8"
  shows "rule_head octets pos = Inr (major, n, pos + Suc w)"
proof -
  have info: "24 \<le> info" "info < 28" using assms(2) by (auto elim: width_of_cases)
  note d = drop_Cons_nth [OF assms(1)]
  have "octets ! pos = of_nat (32 * major + info)" using d by blast
  then have u: "unat (octets ! pos) = 32 * major + info"
    using info assms(5) by (simp only: octet_split [of "32 * major + info"])
  have s: "slice octets (Suc pos) (Suc pos + w) = be_bytes w n"
    using slice_append [of "Suc pos" octets "be_bytes w n" rest] d by simp
  have "0 < w" using assms(2) by (auto elim: width_of_cases)
  then have "be_bytes w n \<noteq> []" by (metis length_0_conv length_be_bytes less_numeral_extra(3))
  then have le: "Suc pos + w \<le> length octets"
    using drop_pos_le [of "Suc pos" octets "be_bytes w n" rest] d by auto
  show ?thesis using d u s le info assms(2-5)
    by (simp add: rule_head_def Let_def be_nat_be_bytes)
qed

lemma rule_head_enc_head:
  assumes "drop pos octets = enc_head major n @ rest" "head_ok major n"
  shows "rule_head octets pos = Inr (major, n, pos + length (enc_head major n))"
proof -
  have m: "major < 8" "n < 2 ^ 64" using assms(2) by (auto simp: head_ok_def)
  consider "n < 24" | "24 \<le> n" "n < 2 ^ 8" | "2 ^ 8 \<le> n" "n < 2 ^ 16" | "2 ^ 16 \<le> n" "n < 2 ^ 32" | "2 ^ 32 \<le> n"
    by linarith
  then show ?thesis
  proof cases
    case 1
    with assms(1) have "drop pos octets = of_nat (32 * major + n) # rest" by (simp add: enc_head_def)
    note d = drop_Cons_nth [OF this]
    then have "unat (octets ! pos) = 32 * major + n"
      using 1 m by (simp only: octet_split [of "32 * major + n"])
    with d 1 m show ?thesis by (simp add: rule_head_def Let_def enc_head_def)
  next
    case 2
    then show ?thesis using assms(1) m rule_head_wide [of pos octets major 24 1 n rest 24]
      by (simp add: enc_head_def width_of_def)
  next
    case 3
    then show ?thesis using assms(1) m rule_head_wide [of pos octets major 25 2 n rest "2 ^ 8"]
      by (simp add: enc_head_def width_of_def)
  next
    case 4
    then show ?thesis using assms(1) m rule_head_wide [of pos octets major 26 4 n rest "2 ^ 16"]
      by (simp add: enc_head_def width_of_def)
  next
    case 5
    then show ?thesis using assms(1) m rule_head_wide [of pos octets major 27 8 n rest "2 ^ 32"]
      by (simp add: enc_head_def width_of_def)
  qed
qed

lemma slice_split: "pos + w \<le> length octets \<Longrightarrow> drop pos octets = slice octets pos (pos + w) @ drop (pos + w) octets"
  by (metis add.commute add_diff_cancel_left' append_take_drop_id drop_drop slice_def)

lemma rule_head_sound:
  assumes "rule_head octets pos = Inr (major, n, next)"
    and "major \<noteq> 7 \<or> unat (octets ! pos) mod 32 < 24"
  shows "head_ok major n \<and> drop pos octets = enc_head major n @ drop next octets
         \<and> next = pos + length (enc_head major n)"
proof -
  let ?i = "unat (octets ! pos) mod 32"
  have pos: "pos < length octets" using assms(1) by (auto simp: rule_head_def split: if_splits)
  have maj: "major = unat (octets ! pos) div 32"
    using assms(1) by (auto simp: rule_head_def Let_def split: if_splits option.splits prod.splits)
  have m8: "major < 8" using byte_bound [of "octets ! pos"] maj by linarith
  have o: "octets ! pos = of_nat (32 * major + ?i)" unfolding maj by simp
  show ?thesis
  proof (cases "?i < 24")
    case True
    then have "n = ?i" "next = Suc pos" using assms(1) pos by (simp_all add: rule_head_def Let_def)
    then show ?thesis using True m8 o pos Cons_nth_drop_Suc [OF pos]
      by (simp add: enc_head_def head_ok_def)
  next
    case False
    then have m7: "major \<noteq> 7" using assms(2) by simp
    have "width_of ?i \<noteq> None" using assms(1) pos False by (intro notI) (simp add: rule_head_def Let_def split: if_splits)
    then obtain w small where ws: "width_of ?i = Some (w, small)" by auto
    have w: "Suc pos + w \<le> length octets" "small \<le> n"
      "n = be_nat (slice octets (Suc pos) (Suc pos + w))" "next = Suc pos + w"
      using assms(1) pos False m7 unfolding rule_head_def Let_def ws maj
      by (auto simp: ws split: if_splits)
    have len: "length (slice octets (Suc pos) (Suc pos + w)) = w" using w(1) by (simp add: slice_def)
    have n: "n < 256 ^ w" using be_nat_bound [of "slice octets (Suc pos) (Suc pos + w)"] w(3) len by simp
    have be: "be_bytes w n = slice octets (Suc pos) (Suc pos + w)" using be_bytes_be_nat w(3) len by metis
    have "drop pos octets = of_nat (32 * major + ?i) # be_bytes w n @ drop (Suc pos + w) octets"
      using Cons_nth_drop_Suc [OF pos] slice_split [OF w(1)] be o by simp
    moreover have "enc_head major n = of_nat (32 * major + ?i) # be_bytes w n"
      using ws by (cases rule: width_of_cases) (use w(2) n in \<open>simp_all add: enc_head_def\<close>)
    moreover have "n < 2 ^ 64" using ws by (cases rule: width_of_cases) (use n in simp_all)
    ultimately show ?thesis using w(4) m8 m7 by (simp add: head_ok_def)
  qed
qed

section \<open>The walk accepts only encodings of admitted items\<close>

lemma enc_head_nonempty [simp]: "enc_head major n \<noteq> []"
  by (simp add: enc_head_def)

lemma enc_nonempty [simp]: "enc v \<noteq> []"
  by (cases v) auto

text \<open>What a successful step of the walk has read: an item \<open>v\<close> that satisfies \<open>P\<close>.\<close>

definition reads :: "(item \<Rightarrow> bool) \<Rightarrow> bytes \<Rightarrow> nat \<Rightarrow> nat \<Rightarrow> item \<Rightarrow> bool" where
  "reads P octets pos e v \<longleftrightarrow>
     P v \<and> drop pos octets = enc v @ drop e octets \<and> e = pos + length (enc v) \<and> e \<le> length octets"

lemma walk_array_sound:
  assumes "walk_array step n pos = Inr e" "pos \<le> length octets"
    and "\<And>p q. step p = Inr q \<Longrightarrow> p \<le> length octets \<Longrightarrow> \<exists>v. reads P octets p q v"
  shows "\<exists>xs. length xs = n \<and> (\<forall>x \<in> set xs. P x) \<and> drop pos octets = concat (map enc xs) @ drop e octets
           \<and> e = pos + length (concat (map enc xs)) \<and> e \<le> length octets"
  using assms(1,2)
proof (induction n arbitrary: pos)
  case 0
  then show ?case by (intro exI [of _ "[]"]) simp
next
  case (Suc n)
  from Suc.prems obtain q where q: "step pos = Inr q" "walk_array step n q = Inr e"
    by (auto simp: raise_simps)
  from assms(3) [OF q(1) Suc.prems(2)] obtain v where v: "reads P octets pos q v" ..
  then have "q \<le> length octets" by (simp add: reads_def)
  from Suc.IH [OF q(2) this] obtain xs where "length xs = n" "\<forall>x \<in> set xs. P x"
    "drop q octets = concat (map enc xs) @ drop e octets" "e = q + length (concat (map enc xs))" "e \<le> length octets" by auto
  then show ?case using v by (intro exI [of _ "v # xs"]) (simp add: reads_def)
qed

fun major_of :: "item \<Rightarrow> nat" where
  "major_of (I_Uint n) = 0"
| "major_of (I_Nint n) = 1"
| "major_of (I_Bytes b) = 2"
| "major_of (I_Text b) = 3"
| "major_of (I_Array xs) = 4"
| "major_of (I_Map kvs) = 5"
| "major_of (I_Tag t x) = 6"
| "major_of (I_Simple n) = 7"

lemma enc_head_major: "major < 8 \<Longrightarrow> unat (hd (enc_head major n)) div 32 = major"
proof -
  assume m: "major < 8"
  have k: "unat (of_nat (32 * major + i) :: byte) div 32 = major" if "i < 32" for i
    using m that by (subst octet_split) auto
  show ?thesis unfolding enc_head_def using k [of 24] k [of 25] k [of 26] k [of 27] k [of n] by simp
qed

lemma enc_major: "unat (hd (enc v)) div 32 = major_of v"
  by (cases v) (simp_all add: enc_head_major)

lemma key_item_major: "key_item v \<longleftrightarrow> major_of v \<in> {0, 1, 3}"
  by (cases v) simp_all

lemma reads_hd: "reads P octets pos e v \<Longrightarrow> octets ! pos = hd (enc v)"
  by (metis append_is_Nil_conv drop_pos_less enc_nonempty hd_append2 hd_drop_conv_nth reads_def)

definition pair_enc :: "item \<times> item \<Rightarrow> bytes" where
  "pair_enc kv = enc (fst kv) @ enc (snd kv)"

lemma pair_enc_pair [simp]: "pair_enc (k, v) = enc k @ enc v"
  by (simp add: pair_enc_def)

lemma enc_Map: "enc (I_Map kvs) = enc_head 5 (length kvs) @ concat (map pair_enc kvs)"
  by (simp add: pair_enc_def case_prod_beta' cong: map_cong)

lemma walk_map_sound:
  assumes "walk_map octets step n keys pos = Inr e" "pos \<le> length octets"
    and "\<And>p q. step p = Inr q \<Longrightarrow> p \<le> length octets \<Longrightarrow> \<exists>v. reads P octets p q v"
  shows "\<exists>kvs. length kvs = n \<and> (\<forall>(k, v) \<in> set kvs. key_item k \<and> P k \<and> P v)
           \<and> distinct (map (enc \<circ> fst) kvs) \<and> set (map (enc \<circ> fst) kvs) \<inter> set keys = {}
           \<and> drop pos octets = concat (map pair_enc kvs) @ drop e octets
           \<and> e = pos + length (concat (map pair_enc kvs)) \<and> e \<le> length octets"
  using assms(1,2)
proof (induction n arbitrary: pos keys)
  case 0
  then show ?case by (intro exI [of _ "[]"]) simp
next
  case (Suc n)
  from Suc.prems obtain p q where p: "step pos = Inr p" "slice octets pos p \<notin> set keys"
    "unat (octets ! pos) div 32 \<in> {0, 1, 3}" "step p = Inr q"
    "walk_map octets step n (slice octets pos p # keys) q = Inr e"
    by (auto simp: raise_simps Let_def split: if_splits)
  from assms(3) [OF p(1) Suc.prems(2)] obtain k where k: "reads P octets pos p k" ..
  then have kp: "p \<le> length octets" by (simp add: reads_def)
  from assms(3) [OF p(4) kp] obtain v where v: "reads P octets p q v" ..
  then have vq: "q \<le> length octets" by (simp add: reads_def)
  from Suc.IH [OF p(5) vq] obtain kvs where kvs: "length kvs = n" "\<forall>(k, v) \<in> set kvs. key_item k \<and> P k \<and> P v"
    "distinct (map (enc \<circ> fst) kvs)" "set (map (enc \<circ> fst) kvs) \<inter> set (slice octets pos p # keys) = {}"
    "drop q octets = concat (map pair_enc kvs) @ drop e octets"
    "e = q + length (concat (map pair_enc kvs))" "e \<le> length octets" by blast
  have sl: "slice octets pos p = enc k" using k slice_append by (simp add: reads_def)
  have "key_item k" using p(3) reads_hd [OF k] by (simp add: key_item_major enc_major)
  then show ?case using k v kvs p(2) sl
    by (intro exI [of _ "(k, v) # kvs"]) (auto simp: reads_def comp_def)
qed

lemma rule_head_le:
  assumes "rule_head octets pos = Inr (major, n, nxt)" shows "pos < length octets \<and> nxt \<le> length octets"
  using assms by (auto simp: rule_head_def Let_def split: if_splits option.splits)

text \<open>One level of the walk, the recursive calls already read as admitted items.\<close>

lemma rule_item_step_sound:
  assumes "rule_item octets pos depth outer = Inr e"
    and ih: "\<And>p q b. depth < 16 \<Longrightarrow> rule_item octets p (depth + 1) b = Inr q \<Longrightarrow> p \<le> length octets
               \<Longrightarrow> \<exists>v. reads (admits (depth + 1) b) octets p q v"
  shows "\<exists>v. reads (admits depth outer) octets pos e v"
proof -
  have d: "depth \<le> 16"
    using assms(1) by (auto simp: rule_item.simps [of octets pos] MAX_DEPTH_def split: if_splits)
  from assms(1) obtain major n nxt where h: "rule_head octets pos = Inr (major, n, nxt)"
    by (cases "rule_head octets pos") (auto simp: rule_item.simps [of octets pos] split: if_splits)
  note r = assms(1) [unfolded rule_item.simps [of octets pos] h rbind.simps prod.case]
  have ih': "\<exists>v. reads (admits (depth + 1) b) octets p q v"
    if "rule_item octets p (depth + 1) b = Inr q" "p \<le> length octets" for p q b
  proof (cases "depth < 16")
    case False
    with d that(1) show ?thesis by (simp add: rule_item.simps [of octets p] MAX_DEPTH_def)
  qed (rule ih [OF _ that])
  have le: "pos < length octets" "nxt \<le> length octets" using rule_head_le [OF h] by auto
  have maj: "major < 8"
    using h byte_bound [of "octets ! pos"]
    by (auto simp: rule_head_def Let_def split: if_splits option.splits)
  have hd: "head_ok major n \<and> drop pos octets = enc_head major n @ drop nxt octets
         \<and> nxt = pos + length (enc_head major n)" if "major \<noteq> 7 \<or> unat (octets ! pos) mod 32 < 24"
    using rule_head_sound [OF h that] .
  consider "major = 0" | "major = 1" | "major = 2" | "major = 3" | "major = 4" | "major = 5" | "major = 6" | "major = 7"
    using maj by linarith
  then show ?thesis
  proof cases
    case 1
    then show ?thesis using r hd d le
      by (intro exI [of _ "I_Uint n"]) (simp add: reads_def head_ok_def split: if_splits)
  next
    case 2
    then show ?thesis using r hd d le
      by (intro exI [of _ "I_Nint n"]) (simp add: reads_def head_ok_def split: if_splits)
  next
    case 3
    then have e: "e = nxt + n" "n \<le> length octets - nxt" using r by (simp_all add: not_less split: if_splits)
    then have "drop nxt octets = slice octets nxt e @ drop e octets" using slice_split [of nxt n octets] le by simp
    moreover have "length (slice octets nxt e) = n" using e le by (simp add: slice_def)
    ultimately show ?thesis using 3 hd d le e
      by (intro exI [of _ "I_Bytes (slice octets nxt e)"]) (simp add: reads_def head_ok_def)
  next
    case 4
    then have e: "e = nxt + n" "n \<le> length octets - nxt" "utf8_valid (slice octets nxt e)"
      using r by (auto simp add: not_less split: if_splits)
    then have "drop nxt octets = slice octets nxt e @ drop e octets" using slice_split [of nxt n octets] le by simp
    moreover have "length (slice octets nxt e) = n" using e le by (simp add: slice_def)
    ultimately show ?thesis using 4 hd d le e
      by (intro exI [of _ "I_Text (slice octets nxt e)"]) (simp add: reads_def head_ok_def)
  next
    case 5
    then have "walk_array (\<lambda>p. rule_item octets p (depth + 1) False) n nxt = Inr e"
      using r by (simp split: if_splits)
    from walk_array_sound [OF this le(2) ih'] obtain xs where
      "length xs = n" "\<forall>x \<in> set xs. admits (depth + 1) False x"
      "drop nxt octets = concat (map enc xs) @ drop e octets"
      "e = nxt + length (concat (map enc xs))" "e \<le> length octets" by blast
    then show ?thesis using 5 hd d
      by (intro exI [of _ "I_Array xs"]) (simp add: reads_def head_ok_def)
  next
    case 6
    then have "walk_map octets (\<lambda>p. rule_item octets p (depth + 1) False) n [] nxt = Inr e"
      using r by (simp split: if_splits)
    from walk_map_sound [OF this le(2) ih'] obtain kvs where kvs: "length kvs = n"
      "\<forall>(k, v) \<in> set kvs. key_item k \<and> admits (depth + 1) False k \<and> admits (depth + 1) False v"
      "distinct (map (enc \<circ> fst) kvs)"
      "drop nxt octets = concat (map pair_enc kvs) @ drop e octets"
      "e = nxt + length (concat (map pair_enc kvs))" "e \<le> length octets" by blast
    have "distinct (map fst kvs)" using kvs(3) by (metis distinct_map map_map)
    then show ?thesis using 6 hd d kvs
      by (intro exI [of _ "I_Map kvs"]) (simp add: reads_def head_ok_def enc_Map del: enc.simps(6))
  next
    case 7
    then have c: "outer" "depth = 0" "n = 18" "rule_item octets nxt (depth + 1) False = Inr e"
      using r by (auto simp: COSE_SIGN1_TAG_def split: if_splits)
    from ih' [OF c(4) le(2)] obtain v where "reads (admits (depth + 1) False) octets nxt e v" ..
    then show ?thesis using 7 c hd by (intro exI [of _ "I_Tag 18 v"]) (simp add: reads_def)
  next
    case 8
    then have c: "n \<in> {20, 21, 22}" "unat (octets ! pos) mod 32 \<notin> {24, 25, 26, 27}" "e = nxt"
      using r by (auto simp: ALLOWED_SIMPLE_def Let_def split: if_splits)
    have "unat (octets ! pos) mod 32 < 24"
    proof (rule ccontr)
      assume "\<not> unat (octets ! pos) mod 32 < 24"
      with c(2) have "width_of (unat (octets ! pos) mod 32) = None" by (simp add: width_of_def)
      with h \<open>\<not> unat (octets ! pos) mod 32 < 24\<close> show False
        by (simp add: rule_head_def Let_def split: if_splits)
    qed
    then show ?thesis using 8 c hd d le
      by (intro exI [of _ "I_Simple n"]) (simp add: reads_def)
  qed
qed

theorem rule_item_sound:
  "rule_item octets pos depth outer = Inr e \<Longrightarrow> pos \<le> length octets \<Longrightarrow>
     \<exists>v. reads (admits depth outer) octets pos e v"
proof (induction "17 - depth" arbitrary: pos depth outer e rule: less_induct)
  case less
  show ?case
  proof (rule rule_item_step_sound [OF less.prems(1)])
    fix p q b
    assume "depth < 16" "rule_item octets p (depth + 1) b = Inr q" "p \<le> length octets"
    then show "\<exists>v. reads (admits (depth + 1) b) octets p q v" by (intro less.hyps) auto
  qed
qed

section \<open>The encoding determines the item\<close>

text \<open>Every head of the item is encodable.\<close>

fun fits :: "item \<Rightarrow> bool" where
  "fits (I_Uint n) = (n < 2 ^ 64)"
| "fits (I_Nint n) = (n < 2 ^ 64)"
| "fits (I_Bytes b) = (length b < 2 ^ 64)"
| "fits (I_Text b) = (length b < 2 ^ 64)"
| "fits (I_Array xs) = (length xs < 2 ^ 64 \<and> (\<forall>x \<in> set xs. fits x))"
| "fits (I_Map kvs) = (length kvs < 2 ^ 64 \<and> (\<forall>(k, v) \<in> set kvs. fits k \<and> fits v))"
| "fits (I_Tag t x) = (t < 2 ^ 64 \<and> fits x)"
| "fits (I_Simple n) = (n < 24)"

lemma admits_fits: "admits depth outer v \<Longrightarrow> fits v"
proof (induction v arbitrary: depth outer)
  case (I_Map kvs)
  then show ?case by (fastforce simp: case_prod_beta')
next
  case (I_Array xs)
  then show ?case by fastforce
next
  case (I_Tag t x)
  have "fits x" using I_Tag.IH [of "Suc depth" False] I_Tag.prems by (metis admits.simps(7))
  then show ?case using I_Tag.prems by simp
qed auto

lemma enc_head_prefix:
  assumes "enc_head m n @ r = enc_head m' n' @ s" "head_ok m n" "head_ok m' n'"
  shows "m = m' \<and> n = n' \<and> r = s"
proof -
  have "rule_head (enc_head m n @ r) 0 = Inr (m, n, 0 + length (enc_head m n))"
    by (rule rule_head_enc_head [OF _ assms(2)]) simp
  moreover have "rule_head (enc_head m n @ r) 0 = Inr (m', n', 0 + length (enc_head m' n'))"
    by (rule rule_head_enc_head [OF _ assms(3)]) (simp add: assms(1))
  ultimately show ?thesis using assms(1) by simp
qed

lemma concat_prefix_free:
  assumes "\<And>x y r s. x \<in> set xs \<Longrightarrow> y \<in> set ys \<Longrightarrow> f x @ r = f y @ s \<Longrightarrow> x = y \<and> r = s"
    and "concat (map f xs) @ r = concat (map f ys) @ s" "length xs = length ys"
  shows "xs = ys \<and> r = s"
  using assms
proof (induction xs arbitrary: ys)
  case (Cons x xs)
  then obtain y zs where ys: "ys = y # zs" by (cases ys) auto
  have "x = y \<and> concat (map f xs) @ r = concat (map f zs) @ s"
    by (rule Cons.prems(1)) (use Cons.prems(2) ys in auto)
  moreover have "xs = zs \<and> r = s"
    by (rule Cons.IH) (use Cons.prems ys calculation in auto)
  ultimately show ?case by (simp add: ys)
qed simp

text \<open>The argument of an item's head, and what follows the head.\<close>

fun arg_of :: "item \<Rightarrow> nat" where
  "arg_of (I_Uint n) = n"
| "arg_of (I_Nint n) = n"
| "arg_of (I_Bytes b) = length b"
| "arg_of (I_Text b) = length b"
| "arg_of (I_Array xs) = length xs"
| "arg_of (I_Map kvs) = length kvs"
| "arg_of (I_Tag t x) = t"
| "arg_of (I_Simple n) = n"

fun body_of :: "item \<Rightarrow> bytes" where
  "body_of (I_Uint n) = []"
| "body_of (I_Nint n) = []"
| "body_of (I_Bytes b) = b"
| "body_of (I_Text b) = b"
| "body_of (I_Array xs) = concat (map enc xs)"
| "body_of (I_Map kvs) = concat (map pair_enc kvs)"
| "body_of (I_Tag t x) = enc x"
| "body_of (I_Simple n) = []"

lemma enc_split: "enc v = enc_head (major_of v) (arg_of v) @ body_of v"
  by (cases v) (simp_all add: enc_Map del: enc.simps(6))

lemma fits_head_ok: "fits v \<Longrightarrow> head_ok (major_of v) (arg_of v)"
  by (cases v) (simp_all add: head_ok_def)

lemma enc_prefix_split:
  assumes "enc v @ r = enc w @ s" "fits v" "fits w"
  shows "major_of v = major_of w \<and> arg_of v = arg_of w \<and> body_of v @ r = body_of w @ s"
  using enc_head_prefix [OF _ fits_head_ok [OF assms(2)] fits_head_ok [OF assms(3)]] assms(1)
  by (simp add: enc_split)

theorem enc_prefix_free:
  "enc v @ r = enc w @ s \<Longrightarrow> fits v \<Longrightarrow> fits w \<Longrightarrow> v = w \<and> r = s"
proof (induction v arbitrary: w r s)
  case (I_Array xs)
  note p = enc_prefix_split [OF I_Array.prems]
  then obtain ys where w: "w = I_Array ys" by (cases w) auto
  have "xs = ys \<and> r = s"
  proof (rule concat_prefix_free [of xs ys enc r s])
    fix x y r s
    assume "x \<in> set xs" "y \<in> set ys" "enc x @ r = enc y @ s"
    then show "x = y \<and> r = s" using I_Array.IH I_Array.prems(2,3) w by simp
  qed (use p w in auto)
  then show ?case by (simp add: w)
next
  case (I_Map kvs)
  note p = enc_prefix_split [OF I_Map.prems]
  then obtain lws where w: "w = I_Map lws" by (cases w) auto
  have "kvs = lws \<and> r = s"
  proof (rule concat_prefix_free [of kvs lws pair_enc r s])
    fix x y r s
    assume m: "x \<in> set kvs" "y \<in> set lws" and e: "pair_enc x @ r = pair_enc y @ s"
    have f: "fits (fst x)" "fits (snd x)" "fits (fst y)" "fits (snd y)"
      using I_Map.prems(2,3) m w by (auto simp: case_prod_beta')
    have k: "fst x = fst y \<and> enc (snd x) @ r = enc (snd y) @ s"
      by (rule I_Map.IH(1) [OF m(1)]) (use e f in \<open>auto simp: pair_enc_def fsts.simps prod_set_simps\<close>)
    moreover have "snd x = snd y \<and> r = s"
      by (rule I_Map.IH(2) [OF m(1)]) (use k f in \<open>auto simp: snds.simps prod_set_simps\<close>)
    ultimately show "x = y \<and> r = s" by (simp add: prod_eq_iff)
  qed (use p w in auto)
  then show ?case by (simp add: w)
next
  case (I_Tag t x)
  note p = enc_prefix_split [OF I_Tag.prems]
  then obtain y where w: "w = I_Tag t y" by (cases w) auto
  then show ?case using I_Tag.IH [of r y s] I_Tag.prems(2,3) p by simp
next
  case (I_Bytes b)
  then show ?case using enc_prefix_split [OF I_Bytes] by (cases w) auto
next
  case (I_Text b)
  then show ?case using enc_prefix_split [OF I_Text] by (cases w) auto
next
  case (I_Uint n)
  then show ?case using enc_prefix_split [OF I_Uint] by (cases w) auto
next
  case (I_Nint n)
  then show ?case using enc_prefix_split [OF I_Nint] by (cases w) auto
next
  case (I_Simple n)
  then show ?case using enc_prefix_split [OF I_Simple] by (cases w) auto
qed

corollary enc_inject: "fits v \<Longrightarrow> fits w \<Longrightarrow> enc v = enc w \<longleftrightarrow> v = w"
  using enc_prefix_free [of v "[]" w "[]"] by auto

section \<open>The walk accepts every admitted item\<close>

lemma walk_array_complete:
  assumes "\<And>x p rest. x \<in> set xs \<Longrightarrow> drop p octets = enc x @ rest \<Longrightarrow> step p = Inr (p + length (enc x))"
    and "drop pos octets = concat (map enc xs) @ rest"
  shows "walk_array step (length xs) pos = Inr (pos + length (concat (map enc xs)))"
  using assms
proof (induction xs arbitrary: pos)
  case (Cons x xs)
  then have "step pos = Inr (pos + length (enc x))" by simp
  moreover have "walk_array step (length xs) (pos + length (enc x))
    = Inr (pos + length (enc x) + length (concat (map enc xs)))"
    by (rule Cons.IH) (use Cons.prems drop_shift [of pos octets "enc x"] in auto)
  ultimately show ?case by simp
qed simp

lemma walk_map_complete:
  assumes "\<And>kv x p rest. kv \<in> set kvs \<Longrightarrow> x = fst kv \<or> x = snd kv \<Longrightarrow> drop p octets = enc x @ rest
             \<Longrightarrow> step p = Inr (p + length (enc x))"
    and "drop pos octets = concat (map pair_enc kvs) @ rest"
    and "\<forall>kv \<in> set kvs. key_item (fst kv)" "distinct (map (enc \<circ> fst) kvs)"
    and "set keys \<inter> set (map (enc \<circ> fst) kvs) = {}"
  shows "walk_map octets step (length kvs) keys pos = Inr (pos + length (concat (map pair_enc kvs)))"
  using assms
proof (induction kvs arbitrary: pos keys)
  case (Cons kv kvs)
  obtain k v where kv: "kv = (k, v)" by (cases kv)
  let ?p = "pos + length (enc k)"
  have d: "drop pos octets = enc k @ enc v @ concat (map pair_enc kvs) @ rest"
    using Cons.prems(2) kv by simp
  then have p: "pos < length octets" by (rule drop_pos_less) simp
  with d have hd: "octets ! pos = hd (enc k)" by (metis enc_nonempty hd_append2 hd_drop_conv_nth)
  have "unat (octets ! pos) div 32 \<in> {0, 1, 3}"
    using Cons.prems(3) kv by (simp add: hd enc_major key_item_major)
  moreover have sk: "step pos = Inr ?p"
    by (rule Cons.prems(1) [of kv k pos]) (use kv d in auto)
  moreover have dv: "drop ?p octets = enc v @ concat (map pair_enc kvs) @ rest" by (rule drop_shift [OF d])
  moreover have sv: "step ?p = Inr (?p + length (enc v))"
    by (rule Cons.prems(1) [of kv v ?p]) (use kv dv in auto)
  moreover have "slice octets pos ?p = enc k" by (rule slice_append [OF d])
  moreover have "enc k \<notin> set keys" using Cons.prems(5) kv by auto
  moreover have "walk_map octets step (length kvs) (enc k # keys) (?p + length (enc v))
    = Inr (?p + length (enc v) + length (concat (map pair_enc kvs)))"
  proof (rule Cons.IH)
    fix kv' x p rest
    assume "kv' \<in> set kvs" "x = fst kv' \<or> x = snd kv'" "drop p octets = enc x @ rest"
    then show "step p = Inr (p + length (enc x))" by (intro Cons.prems(1) [of kv']) simp_all
  next
    show "drop (?p + length (enc v)) octets = concat (map pair_enc kvs) @ rest" by (rule drop_shift [OF dv])
  qed (use Cons.prems(3-5) kv in auto)
  ultimately show ?case using p kv by (simp add: Let_def)
qed simp

lemma map_key_admits:
  assumes "admits depth outer (I_Map kvs)"
  shows "distinct (map (enc \<circ> fst) kvs)"
proof -
  have "inj_on enc (set (map fst kvs))"
  proof (rule inj_onI)
    fix x y assume "x \<in> set (map fst kvs)" "y \<in> set (map fst kvs)" "enc x = enc y"
    moreover have "fits z" if "z \<in> set (map fst kvs)" for z
      using assms that by (fastforce intro: admits_fits)
    ultimately show "x = y" using enc_inject by blast
  qed
  moreover have "distinct (map fst kvs)" using assms by simp
  ultimately show ?thesis using distinct_map by (metis map_map)
qed

theorem rule_item_complete:
  "admits depth outer v \<Longrightarrow> drop pos octets = enc v @ rest
     \<Longrightarrow> rule_item octets pos depth outer = Inr (pos + length (enc v))"
proof (induction v arbitrary: depth outer pos rest)
  case (I_Array xs)
  have d: "depth \<le> MAX_DEPTH" using I_Array.prems(1) by (simp add: MAX_DEPTH_def)
  let ?next = "pos + length (enc_head 4 (length xs))"
  have dr: "drop pos octets = enc_head 4 (length xs) @ concat (map enc xs) @ rest" using I_Array.prems by simp
  have h: "rule_head octets pos = Inr (4, length xs, ?next)"
    by (rule rule_head_enc_head [OF dr]) (use I_Array.prems(1) in \<open>simp add: head_ok_def\<close>)
  have "walk_array (\<lambda>p. rule_item octets p (depth + 1) False) (length xs) ?next
    = Inr (?next + length (concat (map enc xs)))"
    by (rule walk_array_complete [OF _ drop_shift [OF dr]])
      (use I_Array in auto)
  then show ?case using d h by (simp add: rule_item.simps [of octets pos])
next
  case (I_Map kvs)
  have d: "depth \<le> MAX_DEPTH" using I_Map.prems(1) by (simp add: MAX_DEPTH_def)
  let ?next = "pos + length (enc_head 5 (length kvs))"
  have dr: "drop pos octets = enc_head 5 (length kvs) @ concat (map pair_enc kvs) @ rest"
    using I_Map.prems by (simp add: enc_Map del: enc.simps(6))
  have h: "rule_head octets pos = Inr (5, length kvs, ?next)"
    by (rule rule_head_enc_head [OF dr]) (use I_Map.prems(1) in \<open>simp add: head_ok_def\<close>)
  have "walk_map octets (\<lambda>p. rule_item octets p (depth + 1) False) (length kvs) [] ?next
    = Inr (?next + length (concat (map pair_enc kvs)))"
  proof (rule walk_map_complete [OF _ drop_shift [OF dr]])
    fix kv x p rest
    assume m: "kv \<in> set kvs" and x: "x = fst kv \<or> x = snd kv" and dp: "drop p octets = enc x @ rest"
    have a: "admits (depth + 1) False (fst kv)" "admits (depth + 1) False (snd kv)"
      using I_Map.prems(1) m by auto
    show "rule_item octets p (depth + 1) False = Inr (p + length (enc x))"
    proof (cases "x = fst kv")
      case True
      then show ?thesis using I_Map.IH(1) [OF m _ a(1)] dp by (simp add: fsts.simps prod_set_simps)
    next
      case False
      with x have "x = snd kv" by simp
      then show ?thesis using I_Map.IH(2) [OF m _ a(2)] dp by (simp add: snds.simps prod_set_simps)
    qed
  qed (use I_Map.prems(1) map_key_admits [OF I_Map.prems(1)] in auto)
  then show ?case using d h by (simp add: rule_item.simps [of octets pos] enc_Map del: enc.simps(6))
next
  case (I_Tag t x)
  then have t: "t = 18" "outer" "depth = 0" "admits (depth + 1) False x" by auto
  have dr: "drop pos octets = enc_head 6 18 @ enc x @ rest" using I_Tag.prems t by simp
  have h: "rule_head octets pos = Inr (6, 18, pos + length (enc_head 6 18))"
    by (rule rule_head_enc_head [OF dr]) (simp add: head_ok_def)
  show ?case using I_Tag.IH [OF t(4) drop_shift [OF dr]] h t
    by (simp add: rule_item.simps [of octets pos] MAX_DEPTH_def COSE_SIGN1_TAG_def)
next
  case (I_Bytes b)
  have dr: "drop pos octets = enc_head 2 (length b) @ b @ rest" using I_Bytes by simp
  have h: "rule_head octets pos = Inr (2, length b, pos + length (enc_head 2 (length b)))"
    by (rule rule_head_enc_head [OF dr]) (use I_Bytes in \<open>simp add: head_ok_def\<close>)
  have "length b \<le> length octets - (pos + length (enc_head 2 (length b)))"
    using drop_shift [OF dr] by (metis le_add1 length_append length_drop)
  then show ?case using h I_Bytes by (simp add: rule_item.simps [of octets pos] MAX_DEPTH_def)
next
  case (I_Text b)
  have dr: "drop pos octets = enc_head 3 (length b) @ b @ rest" using I_Text by simp
  have h: "rule_head octets pos = Inr (3, length b, pos + length (enc_head 3 (length b)))"
    by (rule rule_head_enc_head [OF dr]) (use I_Text in \<open>simp add: head_ok_def\<close>)
  have "length b \<le> length octets - (pos + length (enc_head 3 (length b)))"
    using drop_shift [OF dr] by (metis le_add1 length_append length_drop)
  then show ?case using h I_Text slice_append [OF drop_shift [OF dr]]
    by (simp add: rule_item.simps [of octets pos] MAX_DEPTH_def)
next
  case (I_Uint n)
  then show ?case using rule_head_enc_head [of pos octets 0 n rest]
    by (simp add: rule_item.simps [of octets pos] MAX_DEPTH_def head_ok_def)
next
  case (I_Nint n)
  then show ?case using rule_head_enc_head [of pos octets 1 n rest]
    by (simp add: rule_item.simps [of octets pos] MAX_DEPTH_def head_ok_def)
next
  case (I_Simple n)
  have "drop pos octets = of_nat (224 + n) # rest" using I_Simple by (auto simp: enc_head_def)
  note d = drop_Cons_nth [OF this]
  have "unat (octets ! pos) = 224 + n"
    using d I_Simple(1) by (auto simp: unat_of_nat)
  then show ?case using I_Simple rule_head_enc_head [of pos octets 7 n rest]
    by (auto simp: rule_item.simps [of octets pos] MAX_DEPTH_def head_ok_def ALLOWED_SIMPLE_def Let_def)
qed

section \<open>The rule\<close>

theorem rule_check_iff:
  "rule_check octets what outer = Inr () \<longleftrightarrow> (\<exists>v. admits 0 outer v \<and> octets = enc v)"
proof
  assume "rule_check octets what outer = Inr ()"
  then have "rule_item octets 0 0 outer = Inr (length octets)"
    by (auto simp: rule_check_def split: sum.splits if_splits)
  from rule_item_sound [OF this] show "\<exists>v. admits 0 outer v \<and> octets = enc v"
    by (auto simp: reads_def)
next
  assume "\<exists>v. admits 0 outer v \<and> octets = enc v"
  then obtain v where v: "admits 0 outer v" "octets = enc v" by blast
  then have "rule_item octets 0 0 outer = Inr (length octets)"
    using rule_item_complete [OF v(1), of 0 octets "[]"] by simp
  then show "rule_check octets what outer = Inr ()" by (simp add: rule_check_def)
qed

lemma rule_accepts_unique:
  "rule_check octets what outer = Inr () \<longleftrightarrow> (\<exists>!v. admits 0 outer v \<and> octets = enc v)"
  unfolding rule_check_iff using enc_inject admits_fits by metis

lemma rule_no_extension:
  assumes "rule_check octets what outer = Inr ()" "rule_check (octets @ more) what' outer' = Inr ()"
  shows "more = []"
proof -
  obtain v w where "admits 0 outer v" "octets = enc v" "admits 0 outer' w" "octets @ more = enc w"
    using assms unfolding rule_check_iff by blast
  then show ?thesis using enc_prefix_free [of v more w "[]"] admits_fits by auto
qed

text \<open>C5: the encoding rule accepts exactly the octet strings that are the shortest-form encoding
  of one admitted item, and that item is unique: no indefinite length, no longer-than-needed
  argument, no repeated or ill-typed map key, no float, no ill-formed text, no tag but the outer
  18, no nesting below depth 16 and nothing after the item.\<close>

theorem encoding_rule_exact:
  "rule_check octets what outer = Inr () \<longleftrightarrow> (\<exists>!v. admits 0 outer v \<and> octets = enc v)"
  by (rule rule_accepts_unique)

text \<open>C8: no octet string the rule accepts is a proper prefix of another one it accepts, so an
  accepted message cannot be extended or truncated into an accepted one.\<close>

theorem encoding_rule_prefix_free:
  assumes "rule_check octets what outer = Inr ()" "rule_check (octets @ more) what' outer' = Inr ()"
  shows "more = []"
  using assms by (rule rule_no_extension)

theorem encoding_rule_prefix_free_witness:
  "rule_check [130, 1, 32] [] False = Inr () \<and> rule_check ([130, 1, 32] @ []) [] False = Inr ()
     \<and> ([] :: bytes) = []"
proof -
  have r: "rule_check [130, 1, 32] [] False = Inr ()"
    unfolding rule_check_iff
    by (rule exI [of _ "I_Array [I_Uint 1, I_Nint 0]"]) (simp add: enc_head_def)
  show ?thesis using encoding_rule_prefix_free [of "[130, 1, 32]" "[]" False "[]" "[]" False] r by simp
qed

end
