(* ===== verification/Py_Values.thy ===== *)
theory Py_Values
  imports Encoding_Rule
begin

text \<open>
  The Python objects that \<open>cbor2\<close> decodes and encodes, and what the package does with them:
  dictionary lookup and update with Python's key equality (\<open>1 == True == 1.0\<close>), truth values,
  and \<open>_plain\<close> of \<open>cose_sign1.py\<close> and \<open>receipt.py\<close>. The last section relates the objects to the
  abstract data items of \<open>Encoding_Rule\<close>.
\<close>

section \<open>Values\<close>

text \<open>
  Lists and tuples, and dicts and \<open>frozendict\<close>s, are told apart, since the version of \<open>cbor2\<close>
  decides which one is decoded. A dict is its entries in insertion order. \<open>CObj\<close> is every other
  object \<open>cbor2\<close> may return (float, \<open>Decimal\<close>, \<open>datetime\<close>, \<open>undefined\<close>, ...), with what the
  package can observe of it: the integer it compares equal to, its truth value, its identity.
\<close>

datatype pyval =
    CInt int | CBool bool | CNull | CBytes bytes | CText string
  | CList "pyval list" | CTuple "pyval list"
  | CDict "(pyval \<times> pyval) list" | CFrozen "(pyval \<times> pyval) list"
  | CTag int pyval
  | CObj "int option" bool nat

type_synonym pydict = "(pyval \<times> pyval) list"

fun as_bytes :: "pyval \<Rightarrow> bytes option" where
  "as_bytes (CBytes b) = Some b"
| "as_bytes _ = None"

fun as_text :: "pyval \<Rightarrow> string option" where
  "as_text (CText s) = Some s"
| "as_text _ = None"

text \<open>\<open>isinstance(v, (list, tuple))\<close>\<close>

fun as_seq :: "pyval \<Rightarrow> pyval list option" where
  "as_seq (CList xs) = Some xs"
| "as_seq (CTuple xs) = Some xs"
| "as_seq _ = None"

text \<open>\<open>isinstance(v, dict)\<close>: a \<open>frozendict\<close> is not one.\<close>

fun as_dict :: "pyval \<Rightarrow> pydict option" where
  "as_dict (CDict d) = Some d"
| "as_dict _ = None"

text \<open>\<open>type(v) is int\<close>\<close>

fun as_int :: "pyval \<Rightarrow> int option" where
  "as_int (CInt i) = Some i"
| "as_int _ = None"

text \<open>\<open>isinstance(v, int)\<close>, which a bool is too.\<close>

fun is_int :: "pyval \<Rightarrow> bool" where
  "is_int (CInt i) = True"
| "is_int (CBool b) = True"
| "is_int _ = False"

text \<open>\<open>type(v) in (int, str)\<close>: the labels of RFC 9052.\<close>

fun is_label :: "pyval \<Rightarrow> bool" where
  "is_label (CInt i) = True"
| "is_label (CText s) = True"
| "is_label _ = False"

lemma as_bytes_Some [simp]: "as_bytes v = Some b \<longleftrightarrow> v = CBytes b"
  by (cases v) auto

lemma as_text_Some [simp]: "as_text v = Some s \<longleftrightarrow> v = CText s"
  by (cases v) auto

lemma as_dict_Some [simp]: "as_dict v = Some d \<longleftrightarrow> v = CDict d"
  by (cases v) auto

lemma as_int_Some [simp]: "as_int v = Some i \<longleftrightarrow> v = CInt i"
  by (cases v) auto

lemma as_seq_Some: "as_seq v = Some xs \<longleftrightarrow> v = CList xs \<or> v = CTuple xs"
  by (cases v) auto

fun truthy :: "pyval \<Rightarrow> bool" where
  "truthy (CInt i) = (i \<noteq> 0)"
| "truthy (CBool b) = b"
| "truthy CNull = False"
| "truthy (CBytes b) = (b \<noteq> [])"
| "truthy (CText s) = (s \<noteq> [])"
| "truthy (CList xs) = (xs \<noteq> [])"
| "truthy (CTuple xs) = (xs \<noteq> [])"
| "truthy (CDict d) = (d \<noteq> [])"
| "truthy (CFrozen d) = (d \<noteq> [])"
| "truthy (CTag t v) = True"
| "truthy (CObj e t i) = t"

section \<open>Dictionaries\<close>

text \<open>The integer a value compares equal to, and equality of a value with a label.\<close>

fun num_of :: "pyval \<Rightarrow> int option" where
  "num_of (CInt i) = Some i"
| "num_of (CBool b) = Some (if b then 1 else 0)"
| "num_of (CObj e t i) = e"
| "num_of _ = None"

definition py_eq :: "pyval \<Rightarrow> pyval \<Rightarrow> bool" where
  "py_eq a b = (case num_of a of Some i \<Rightarrow> num_of b = Some i | None \<Rightarrow> a = b)"

text \<open>\<open>d.get(k)\<close>, \<open>k in d\<close>, \<open>d[k] = v\<close> and \<open>x in s\<close>.\<close>

fun dict_get :: "pydict \<Rightarrow> pyval \<Rightarrow> pyval option" where
  "dict_get [] k = None"
| "dict_get ((k', v) # d) k = (if py_eq k k' then Some v else dict_get d k)"

definition dict_has :: "pydict \<Rightarrow> pyval \<Rightarrow> bool" where
  "dict_has d k \<longleftrightarrow> dict_get d k \<noteq> None"

fun dict_set :: "pydict \<Rightarrow> pyval \<Rightarrow> pyval \<Rightarrow> pydict" where
  "dict_set [] k v = [(k, v)]"
| "dict_set ((k', v') # d) k v = (if py_eq k k' then (k', v) # d else (k', v') # dict_set d k v)"

definition py_in :: "pyval \<Rightarrow> pyval list \<Rightarrow> bool" where
  "py_in x s \<longleftrightarrow> (\<exists>y \<in> set s. py_eq x y)"

text \<open>\<open>d.get(k)\<close> where the absent value is read as \<open>None\<close>.\<close>

definition get_or_none :: "pydict \<Rightarrow> pyval \<Rightarrow> pyval" where
  "get_or_none d k = (case dict_get d k of None \<Rightarrow> CNull | Some v \<Rightarrow> v)"

definition plain_keys :: "pydict \<Rightarrow> bool" where
  "plain_keys d \<longleftrightarrow> distinct (map fst d) \<and> (\<forall>k \<in> fst ` set d. is_label k)"

lemma py_eq_refl [simp]: "py_eq a a"
  by (auto simp: py_eq_def split: option.splits)

lemma py_eq_label: "is_label a \<Longrightarrow> is_label b \<Longrightarrow> py_eq a b \<longleftrightarrow> a = b"
  by (cases a; cases b) (auto simp: py_eq_def)

lemma py_eq_labels [simp]:
  "py_eq (CInt i) (CInt j) \<longleftrightarrow> i = j" "py_eq (CText s) (CText t) \<longleftrightarrow> s = t"
  "\<not> py_eq (CInt i) (CText s)" "\<not> py_eq (CText s) (CInt i)"
  by (auto simp: py_eq_def)

lemma py_eq_trans: "py_eq a b \<Longrightarrow> py_eq b c \<Longrightarrow> py_eq a c"
  by (auto simp: py_eq_def split: option.splits)

lemma py_eq_sym: "py_eq a b \<Longrightarrow> py_eq b a"
  by (auto simp: py_eq_def split: option.splits)

lemma dict_get_set_same [simp]: "dict_get (dict_set d k v) k = Some v"
  by (induction d) auto

lemma dict_get_set_other: "\<not> py_eq k k' \<Longrightarrow> dict_get (dict_set d k v) k' = dict_get d k'"
  by (induction d) (auto dest: py_eq_trans [OF _ py_eq_sym] py_eq_sym)

lemma dict_get_in: "dict_get d k = Some v \<Longrightarrow> \<exists>k'. (k', v) \<in> set d \<and> py_eq k k'"
  by (induction d) (auto split: if_splits)

lemma dict_get_plain: "plain_keys d \<Longrightarrow> is_label k \<Longrightarrow> dict_get d k = map_of d k"
  by (induction d) (auto simp: plain_keys_def py_eq_label)

lemma dict_set_keys: "fst ` set (dict_set d k v) \<subseteq> insert k (fst ` set d)"
proof (induction d)
  case (Cons kv d)
  then show ?case by (cases kv) (auto split: if_splits simp: image_iff)
qed simp

lemma dict_set_plain: "plain_keys d \<Longrightarrow> is_label k \<Longrightarrow> plain_keys (dict_set d k v)"
proof (induction d)
  case (Cons kv d)
  then show ?case using dict_set_keys [of d k v]
    by (cases kv) (auto simp: plain_keys_def py_eq_label)
qed (simp add: plain_keys_def)

lemma dict_set_nonempty [simp]: "dict_set d k v \<noteq> []"
  by (cases d rule: list.exhaust) (auto split: if_splits prod.splits)

section \<open>Normalisation\<close>

text \<open>\<open>_plain\<close>: mappings become dicts and sequences lists, at every depth outside tags.\<close>

fun plain :: "pyval \<Rightarrow> pyval" where
  "plain (CDict d) = CDict (map (\<lambda>(k, v). (k, plain v)) d)"
| "plain (CFrozen d) = CDict (map (\<lambda>(k, v). (k, plain v)) d)"
| "plain (CList xs) = CList (map plain xs)"
| "plain (CTuple xs) = CList (map plain xs)"
| "plain v = v"

definition plain_dict :: "pydict \<Rightarrow> pydict" where
  "plain_dict d = map (\<lambda>(k, v). (k, plain v)) d"

lemma plain_idem: "plain (plain v) = plain v"
  by (induction v rule: plain.induct) auto

lemma plain_atoms:
  "as_bytes (plain v) = as_bytes v" "as_text (plain v) = as_text v" "as_int (plain v) = as_int v"
  "is_int (plain v) = is_int v" "plain v = CNull \<longleftrightarrow> v = CNull"
  by (cases v; simp)+

lemma plain_CBytes [simp]: "plain v = CBytes b \<longleftrightarrow> v = CBytes b"
  by (cases v) auto

lemma plain_CInt [simp]: "plain v = CInt i \<longleftrightarrow> v = CInt i"
  by (cases v) auto

lemma plain_CNull [simp]: "plain v = CNull \<longleftrightarrow> v = CNull"
  by (cases v) auto

lemma plain_not_tuple [simp]: "plain v \<noteq> CTuple xs" "plain v \<noteq> CFrozen d"
  by (cases v; simp)+

lemma dict_get_plain_dict: "dict_get (plain_dict d) k = map_option plain (dict_get d k)"
  by (induction d) (auto simp: plain_dict_def)

section \<open>Values as data items\<close>

text \<open>The data item a value of the plain types is encoded as; the other types have none here.\<close>

definition pair_opt :: "'a option \<Rightarrow> 'b option \<Rightarrow> ('a \<times> 'b) option" where
  "pair_opt x y = (case (x, y) of (Some a, Some b) \<Rightarrow> Some (a, b) | _ \<Rightarrow> None)"

fun item_of :: "pyval \<Rightarrow> item option" where
  "item_of (CInt i) =
     (if 0 \<le> i \<and> i < 2 ^ 64 then Some (I_Uint (nat i))
      else if - (2 ^ 64) \<le> i \<and> i < 0 then Some (I_Nint (nat (- 1 - i))) else None)"
| "item_of (CBool b) = Some (I_Simple (if b then 21 else 20))"
| "item_of CNull = Some (I_Simple 22)"
| "item_of (CBytes b) = Some (I_Bytes b)"
| "item_of (CText s) = Some (I_Text (utf8_encode s))"
| "item_of (CList xs) = map_option I_Array (those (map item_of xs))"
| "item_of (CTuple xs) = map_option I_Array (those (map item_of xs))"
| "item_of (CDict d) = map_option I_Map (those (map (\<lambda>(k, v). pair_opt (item_of k) (item_of v)) d))"
| "item_of (CFrozen d) = map_option I_Map (those (map (\<lambda>(k, v). pair_opt (item_of k) (item_of v)) d))"
| "item_of (CTag t v) = (if 0 \<le> t then map_option (I_Tag (nat t)) (item_of v) else None)"
| "item_of (CObj e t i) = None"

text \<open>Back: the plain value of an item, as \<open>cbor2\<close> decodes it into lists and dicts.\<close>

fun val_of :: "item \<Rightarrow> pyval" where
  "val_of (I_Uint n) = CInt (int n)"
| "val_of (I_Nint n) = CInt (- 1 - int n)"
| "val_of (I_Bytes b) = CBytes b"
| "val_of (I_Text b) = CText (utf8_text b)"
| "val_of (I_Array xs) = CList (map val_of xs)"
| "val_of (I_Map kvs) = CDict (map (\<lambda>(k, v). (val_of k, val_of v)) kvs)"
| "val_of (I_Tag t x) = CTag (int t) (val_of x)"
| "val_of (I_Simple n) = (if n = 20 then CBool False else if n = 21 then CBool True else CNull)"

lemma those_Some: "those xs = Some ys \<longleftrightarrow> xs = map Some ys"
  by (induction xs arbitrary: ys) (auto split: option.splits simp: Cons_eq_map_conv)

lemma pair_opt_Some [simp]: "pair_opt x y = Some p \<longleftrightarrow> x = Some (fst p) \<and> y = Some (snd p)"
  by (cases p) (auto simp: pair_opt_def split: option.splits)

text \<open>An item is read back from its plain value; text must be text and simple values the three read.\<close>

fun plain_item :: "item \<Rightarrow> bool" where
  "plain_item (I_Uint n) = (n < 2 ^ 64)"
| "plain_item (I_Nint n) = (n < 2 ^ 64)"
| "plain_item (I_Bytes b) = True"
| "plain_item (I_Text b) = True"
| "plain_item (I_Array xs) = (\<forall>x \<in> set xs. plain_item x)"
| "plain_item (I_Map kvs) = (\<forall>(k, v) \<in> set kvs. plain_item k \<and> plain_item v)"
| "plain_item (I_Tag t x) = plain_item x"
| "plain_item (I_Simple n) = (n \<in> {20, 21, 22})"

lemma item_of_val_of: "plain_item v \<Longrightarrow> item_of (val_of v) = Some v"
proof (induction v)
  case (I_Array xs)
  then have "map item_of (map val_of xs) = map Some xs" by simp
  then show ?case by (simp add: those_Some)
next
  case (I_Map kvs)
  have "pair_opt (item_of (val_of k)) (item_of (val_of v)) = Some (k, v)" if "(k, v) \<in> set kvs" for k v
  proof -
    have "plain_item k" "plain_item v" using I_Map.prems that by auto
    then show ?thesis using I_Map.IH [OF that] by (simp add: fsts.simps snds.simps prod_set_simps)
  qed
  then have "map (\<lambda>(k, v). pair_opt (item_of k) (item_of v)) (map (\<lambda>(k, v). (val_of k, val_of v)) kvs) = map Some kvs"
    by auto
  then show ?case by (simp add: those_Some del: map_map)
qed auto

text \<open>\<open>plain\<close> does not change the item.\<close>

lemma item_of_plain: "item_of (plain v) = item_of v"
proof (induction v rule: plain.induct)
  case (1 d)
  then have "map (\<lambda>(k, v). pair_opt (item_of k) (item_of v)) (map (\<lambda>(k, v). (k, plain v)) d)
    = map (\<lambda>(k, v). pair_opt (item_of k) (item_of v)) d" by fastforce
  then show ?case by (simp del: map_map)
next
  case (2 d)
  then have "map (\<lambda>(k, v). pair_opt (item_of k) (item_of v)) (map (\<lambda>(k, v). (k, plain v)) d)
    = map (\<lambda>(k, v). pair_opt (item_of k) (item_of v)) d" by fastforce
  then show ?case by (simp del: map_map)
next
  case (3 xs)
  then have "map item_of (map plain xs) = map item_of xs" by simp
  then show ?case by (simp del: map_map)
next
  case (4 xs)
  then have "map item_of (map plain xs) = map item_of xs" by simp
  then show ?case by (simp del: map_map)
qed simp_all

lemma key_val_of: "item_of k = Some a \<Longrightarrow> key_item a \<Longrightarrow> k = val_of a"
  by (cases k) (auto split: if_splits)

lemma admits_plain_item: "admits depth outer v \<Longrightarrow> plain_item v"
proof (induction v arbitrary: depth outer)
  case (I_Map kvs)
  then show ?case by (fastforce simp: case_prod_beta')
next
  case (I_Array xs)
  then show ?case by fastforce
next
  case (I_Tag t x)
  then show ?case using I_Tag.IH [of "Suc depth" False] by (metis admits.simps(7) plain_item.simps(7))
qed auto

text \<open>An admitted item without the outer tag has one plain value.\<close>

lemma plain_val_of:
  "item_of v = Some it \<Longrightarrow> admits depth False it \<Longrightarrow> plain v = val_of it"
proof (induction it arbitrary: v depth)
  case (I_Array its)
  then obtain xs where v: "v = CList xs \<or> v = CTuple xs" "map item_of xs = map Some its"
    by (cases v) (auto simp: those_Some split: if_splits)
  have "map plain xs = map val_of its"
  proof (rule nth_equalityI)
    show "length (map plain xs) = length (map val_of its)" using v(2) by (metis length_map)
    fix i assume "i < length (map plain xs)"
    then have i: "i < length xs" "i < length its" using v(2) by (simp, metis length_map)
    then have "item_of (xs ! i) = Some (its ! i)" using v(2) by (metis nth_map)
    then show "map plain xs ! i = map val_of its ! i"
      using I_Array.IH [of "its ! i" "xs ! i" "Suc depth"] I_Array.prems(2) i by simp
  qed
  then show ?case using v(1) by auto
next
  case (I_Map kvs)
  let ?f = "\<lambda>(k, v). pair_opt (item_of k) (item_of v)"
  obtain d where v: "v = CDict d \<or> v = CFrozen d" "map ?f d = map Some kvs"
    using I_Map.prems(1) by (cases v) (auto simp: those_Some split: if_splits)
  have "map (\<lambda>(k, v). (k, plain v)) d = map (\<lambda>(k, v). (val_of k, val_of v)) kvs"
  proof (rule nth_equalityI)
    show "length (map (\<lambda>(k, v). (k, plain v)) d) = length (map (\<lambda>(k, v). (val_of k, val_of v)) kvs)"
      using v(2) by (metis length_map)
    fix i assume "i < length (map (\<lambda>(k, v). (k, plain v)) d)"
    then have i: "i < length d" "i < length kvs" using v(2) by (simp, metis length_map)
    obtain k w where kw: "d ! i = (k, w)" by (cases "d ! i")
    obtain a b where ab: "kvs ! i = (a, b)" by (cases "kvs ! i")
    have "?f (d ! i) = Some (kvs ! i)" using v(2) i by (metis nth_map)
    then have e: "item_of k = Some a" "item_of w = Some b" using kw ab by auto
    have m: "(a, b) \<in> set kvs" using ab i by (metis nth_mem)
    then have "key_item a" "admits (Suc depth) False b" using I_Map.prems(2) by auto
    then have "k = val_of a" "plain w = val_of b"
      using key_val_of [OF e(1)] I_Map.IH(2) [OF m _ e(2)] by (auto simp: snds.simps prod_set_simps)
    then show "map (\<lambda>(k, v). (k, plain v)) d ! i = map (\<lambda>(k, v). (val_of k, val_of v)) kvs ! i"
      using i kw ab by simp
  qed
  then show ?case using v(1) by auto
next
  case (I_Uint n)
  then show ?case by (cases v) (auto split: if_splits)
next
  case (I_Nint n)
  then show ?case by (cases v) (auto split: if_splits)
next
  case (I_Bytes b)
  then show ?case by (cases v) (auto split: if_splits)
next
  case (I_Text b)
  then show ?case by (cases v) (auto split: if_splits)
next
  case (I_Tag t x)
  then show ?case by simp
next
  case (I_Simple n)
  then show ?case by (cases v) (auto split: if_splits)
qed

end
