(* ===== verification/Libraries.thy ===== *)
theory Libraries
  imports Py_Values Sha256
begin

text \<open>
  The two third-party packages the code calls, \<open>cbor2\<close> and \<open>cryptography\<close>, as parameters: records
  of the functions called, passed to every definition that calls them. An exception of a library
  is the name of its Python type, which is all the code reads of it.

  What a theorem relies on is a named predicate over such a record: \<open>cbor2_plain\<close> (RFC 8949
  encoding of the plain types) and \<open>key_pair\<close> (a public key verifies what its private key
  signs). The last section builds one concrete instance of each, used only by the witnesses, to
  show that the predicates can hold.
\<close>

section \<open>cbor2\<close>

text \<open>
  \<open>cbor_decode\<close> is \<open>CBORDecoder(stream).decode()\<close>: the value and what is left of the stream.
\<close>

record cbor2_lib =
  cbor_decode :: "bytes \<Rightarrow> string + (pyval \<times> bytes)"
  cbor_loads :: "bytes \<Rightarrow> string + pyval"
  cbor_dumps :: "pyval \<Rightarrow> string + bytes"
  cbor_canonical :: "pyval \<Rightarrow> string + bytes"

text \<open>
  RFC 8949 for the plain types: an admitted item is decoded to a value of that item, and a value
  is encoded in shortest form, \<open>canonical=True\<close> changing only the order of the map entries.
\<close>

definition cbor2_plain :: "cbor2_lib \<Rightarrow> bool" where
  "cbor2_plain L \<longleftrightarrow>
     (\<forall>it. admits 0 True it \<longrightarrow>
        (\<exists>v. cbor_decode L (enc it) = Inr (v, []) \<and> cbor_loads L (enc it) = Inr v \<and> item_of v = Some it)) \<and>
     (\<forall>v it. item_of v = Some it \<and> fits it \<longrightarrow>
        cbor_dumps L v = Inr (enc it) \<and>
        (\<exists>b. cbor_canonical L v = Inr b \<and> length b = length (enc it)))"

lemma cbor2_plain_decode:
  assumes "cbor2_plain L" "admits 0 True it"
  obtains v where "cbor_decode L (enc it) = Inr (v, [])" "cbor_loads L (enc it) = Inr v" "item_of v = Some it"
  using assms unfolding cbor2_plain_def by blast

lemma cbor2_plain_dumps: "cbor2_plain L \<Longrightarrow> item_of v = Some it \<Longrightarrow> fits it \<Longrightarrow> cbor_dumps L v = Inr (enc it)"
  unfolding cbor2_plain_def by blast

lemma cbor2_plain_canonical:
  assumes "cbor2_plain L" "item_of v = Some it" "fits it"
  obtains b where "cbor_canonical L v = Inr b" "length b = length (enc it)"
  using assms unfolding cbor2_plain_def by blast

section \<open>cryptography\<close>

datatype curve = SECP256R1 | SECP384R1 | Other_Curve

datatype ec_hash = EC_SHA256 | EC_SHA384

text \<open>The class of a loaded key object, with the curve of an elliptic-curve key.\<close>

datatype 'k pykey = Ed25519_Key 'k | EC_Key curve 'k | Other_Key

text \<open>\<open>verify\<close> returns, raises \<open>InvalidSignature\<close>, or raises something else.\<close>

datatype sig_check = Valid_Signature | Invalid_Signature | Check_Raises string

record 'k crypto_lib =
  load_private :: "bytes \<Rightarrow> string + 'k pykey"
  load_public :: "bytes \<Rightarrow> string + 'k pykey"
  ed_sign :: "'k \<Rightarrow> bytes \<Rightarrow> bytes"
  ed_verify :: "'k \<Rightarrow> bytes \<Rightarrow> bytes \<Rightarrow> sig_check"
  ec_sign :: "'k \<Rightarrow> bytes \<Rightarrow> ec_hash \<Rightarrow> bytes"
  ec_verify :: "'k \<Rightarrow> bytes \<Rightarrow> bytes \<Rightarrow> ec_hash \<Rightarrow> sig_check"
  dss_decode :: "bytes \<Rightarrow> string + (nat \<times> nat)"
  dss_encode :: "nat \<Rightarrow> nat \<Rightarrow> bytes"

text \<open>
  A key pair of either kind: what the private key signs, the public key verifies. An Ed25519
  signature has 64 octets (RFC 8032), and r and s are below the order of the curve.
\<close>

definition ed_pair :: "'k crypto_lib \<Rightarrow> 'k \<Rightarrow> 'k \<Rightarrow> bool" where
  "ed_pair K sk pk \<longleftrightarrow> (\<forall>m. ed_verify K pk (ed_sign K sk m) m = Valid_Signature \<and> length (ed_sign K sk m) = 64)"

definition ec_pair :: "'k crypto_lib \<Rightarrow> ec_hash \<Rightarrow> nat \<Rightarrow> 'k \<Rightarrow> 'k \<Rightarrow> bool" where
  "ec_pair K h width sk pk \<longleftrightarrow>
     (\<forall>m. \<exists>r s. dss_decode K (ec_sign K sk m h) = Inr (r, s) \<and> r < 256 ^ width \<and> s < 256 ^ width
              \<and> ec_verify K pk (dss_encode K r s) m h = Valid_Signature)"

section \<open>Instances for the witnesses\<close>

text \<open>A decoder of shortest-form items, by recursion on the nesting allowed.\<close>

fun dec_seq :: "(bytes \<Rightarrow> ('a \<times> bytes) option) \<Rightarrow> nat \<Rightarrow> bytes \<Rightarrow> ('a list \<times> bytes) option" where
  "dec_seq f 0 b = Some ([], b)"
| "dec_seq f (Suc n) b =
     (case f b of None \<Rightarrow> None
      | Some (x, r) \<Rightarrow> map_option (\<lambda>(xs, r). (x # xs, r)) (dec_seq f n r))"

definition dec_pair :: "(bytes \<Rightarrow> ('a \<times> bytes) option) \<Rightarrow> bytes \<Rightarrow> (('a \<times> 'a) \<times> bytes) option" where
  "dec_pair f b =
     (case f b of None \<Rightarrow> None
      | Some (k, r) \<Rightarrow> map_option (\<lambda>(v, r). ((k, v), r)) (f r))"

fun dec_item :: "nat \<Rightarrow> bytes \<Rightarrow> (item \<times> bytes) option" where
  "dec_item 0 b = None"
| "dec_item (Suc nest) b =
     (case rule_head b 0 of
        Inl _ \<Rightarrow> None
      | Inr (major, n, next) \<Rightarrow>
          let r = drop next b in
          if major = 0 then Some (I_Uint n, r)
          else if major = 1 then Some (I_Nint n, r)
          else if major = 2 then (if length r < n then None else Some (I_Bytes (take n r), drop n r))
          else if major = 3 then (if length r < n then None else Some (I_Text (take n r), drop n r))
          else if major = 4 then map_option (\<lambda>(xs, r). (I_Array xs, r)) (dec_seq (dec_item nest) n r)
          else if major = 5 then map_option (\<lambda>(kvs, r). (I_Map kvs, r)) (dec_seq (dec_pair (dec_item nest)) n r)
          else if major = 6 then map_option (\<lambda>(x, r). (I_Tag n x, r)) (dec_item nest r)
          else Some (I_Simple n, r))"

lemma dec_seq_map:
  assumes "\<And>x r. x \<in> set xs \<Longrightarrow> f (g x @ r) = Some (x, r)"
  shows "dec_seq f (length xs) (concat (map g xs) @ r) = Some (xs, r)"
  using assms by (induction xs) auto

lemma rule_head_enc0:
  "head_ok major n \<Longrightarrow> rule_head (enc_head major n @ r) 0 = Inr (major, n, length (enc_head major n))"
  using rule_head_enc_head [of 0 "enc_head major n @ r" major n r] by simp

lemma dec_item_enc:
  "admits depth outer v \<Longrightarrow> dec_item (17 - depth) (enc v @ r) = Some (v, r)"
proof (induction v arbitrary: depth outer r)
  case (I_Array xs)
  then obtain nest where n: "17 - depth = Suc nest" "nest = 17 - Suc depth" by (cases "17 - depth") auto
  have "dec_seq (dec_item nest) (length xs) (concat (map enc xs) @ r) = Some (xs, r)"
  proof (rule dec_seq_map)
    fix x r assume m: "x \<in> set xs"
    with I_Array.prems have "admits (Suc depth) False x" by simp
    from I_Array.IH [OF m this] show "dec_item nest (enc x @ r) = Some (x, r)" by (simp add: n(2))
  qed
  then show ?case using n I_Array.prems by (simp add: rule_head_enc0 head_ok_def)
next
  case (I_Map kvs)
  then obtain nest where n: "17 - depth = Suc nest" "nest = 17 - Suc depth" by (cases "17 - depth") auto
  have "dec_seq (dec_pair (dec_item nest)) (length kvs) (concat (map pair_enc kvs) @ r) = Some (kvs, r)"
  proof (rule dec_seq_map)
    fix kv r assume m: "kv \<in> set kvs"
    obtain k v where kv: "kv = (k, v)" by (cases kv)
    have a: "admits (Suc depth) False k" "admits (Suc depth) False v" using I_Map.prems m kv by auto
    have "dec_item nest (enc k @ q) = Some (k, q)" for q
      using I_Map.IH(1) [OF m _ a(1), of q] by (simp add: n(2) kv prod_set_simps)
    moreover have "dec_item nest (enc v @ q) = Some (v, q)" for q
      using I_Map.IH(2) [OF m _ a(2), of q] by (simp add: n(2) kv prod_set_simps)
    ultimately show "dec_pair (dec_item nest) (pair_enc kv @ r) = Some (kv, r)"
      by (simp add: dec_pair_def kv)
  qed
  then show ?case using n I_Map.prems
    by (simp add: rule_head_enc0 head_ok_def enc_Map del: enc.simps(6))
next
  case (I_Tag t x)
  then obtain nest where n: "17 - depth = Suc nest" "nest = 17 - Suc depth" by (cases "17 - depth") auto
  have a: "admits (Suc depth) False x" "t = 18" using I_Tag.prems by (metis admits.simps(7))+
  show ?case using I_Tag.IH [OF a(1)] n a(2) by (simp add: rule_head_enc0 head_ok_def)
next
  case (I_Uint n)
  then show ?case by (cases "17 - depth") (auto simp: rule_head_enc0 head_ok_def)
next
  case (I_Nint n)
  then show ?case by (cases "17 - depth") (auto simp: rule_head_enc0 head_ok_def)
next
  case (I_Bytes b)
  then show ?case by (cases "17 - depth") (auto simp: rule_head_enc0 head_ok_def)
next
  case (I_Text b)
  then show ?case by (cases "17 - depth") (auto simp: rule_head_enc0 head_ok_def)
next
  case (I_Simple n)
  then show ?case by (cases "17 - depth") (auto simp: rule_head_enc0 head_ok_def)
qed

definition ref_decode :: "bytes \<Rightarrow> string + (pyval \<times> bytes)" where
  "ref_decode b = (case dec_item 17 b of None \<Rightarrow> Inl ''CBORDecodeError'' | Some (v, r) \<Rightarrow> Inr (val_of v, r))"

definition ref_encode :: "pyval \<Rightarrow> string + bytes" where
  "ref_encode v = (case item_of v of None \<Rightarrow> Inl ''CBOREncodeError'' | Some it \<Rightarrow> Inr (enc it))"

definition ref_cbor2 :: cbor2_lib where
  "ref_cbor2 =
     \<lparr> cbor_decode = ref_decode, cbor_loads = (\<lambda>b. rmap fst (ref_decode b)),
       cbor_dumps = ref_encode, cbor_canonical = ref_encode \<rparr>"

lemma ref_cbor2_plain: "cbor2_plain ref_cbor2"
proof -
  have "ref_decode (enc it) = Inr (val_of it, []) \<and> item_of (val_of it) = Some it" if "admits 0 True it" for it
    using dec_item_enc [OF that, of "[]"] item_of_val_of [OF admits_plain_item [OF that]]
    by (simp add: ref_decode_def)
  then show ?thesis by (simp add: cbor2_plain_def ref_cbor2_def ref_encode_def)
qed

text \<open>
  Keys that are octet strings, a signature that is a digest of the key and the message. It has the
  functional contract of a signature scheme; everyone who verifies can sign.
\<close>

definition toy_crypto :: "bytes crypto_lib" where
  "toy_crypto =
     \<lparr> load_private = (\<lambda>pem. Inr (if pem = [2] then EC_Key SECP256R1 pem else Ed25519_Key pem)),
       load_public = (\<lambda>pem. Inr (if pem = [2] then EC_Key SECP256R1 pem else Ed25519_Key pem)),
       ed_sign = (\<lambda>k m. sha256 (k @ m) @ sha256 (m @ k)),
       ed_verify = (\<lambda>k s m. if s = sha256 (k @ m) @ sha256 (m @ k) then Valid_Signature else Invalid_Signature),
       ec_sign = (\<lambda>k m h. [1, 2]),
       ec_verify = (\<lambda>k s m h. if s = [1, 2] then Valid_Signature else Invalid_Signature),
       dss_decode = (\<lambda>der. Inr (unat (der ! 0), unat (der ! 1))),
       dss_encode = (\<lambda>r s. [of_nat r, of_nat s]) \<rparr>"

lemma toy_load [simp]:
  "load_private toy_crypto [1] = Inr (Ed25519_Key [1])" "load_public toy_crypto [1] = Inr (Ed25519_Key [1])"
  by (simp_all add: toy_crypto_def)

lemma toy_ed_pair: "ed_pair toy_crypto k k"
  by (simp add: ed_pair_def toy_crypto_def)

lemma toy_ec_pair: "ec_pair toy_crypto EC_SHA256 32 k k"
  by (simp add: ec_pair_def toy_crypto_def)

end
