(* ===== verification/Cose_Sign1.thy ===== *)
theory Cose_Sign1
  imports Libraries
begin

text \<open>
  COSE_Sign1 signing and verification, \<open>src/scitt_cose/cose_sign1.py\<close>: the strict decoder, the
  \<open>Sig_structure\<close>, critical headers, \<open>sign_sign1\<close> and \<open>verify_sign1\<close>. The libraries are the
  parameters \<open>L\<close> (cbor2) and \<open>K\<close> (cryptography). Each \<open>raise CoseError\<close> of the source is a
  constructor of \<open>cose_fault\<close>; an exception the source lets through is a \<open>Lib_Error\<close>.
\<close>

section \<open>Constants and errors\<close>

definition HDR_ALG :: int where "HDR_ALG = 1"
definition HDR_CRIT :: int where "HDR_CRIT = 2"

definition MAX_MESSAGE_BYTES :: nat where
  "MAX_MESSAGE_BYTES = 10 * 1024 * 1024"

definition COSE_ALG_EDDSA :: int where "COSE_ALG_EDDSA = -8"
definition COSE_ALG_ES256 :: int where "COSE_ALG_ES256 = -7"
definition COSE_ALG_ES384 :: int where "COSE_ALG_ES384 = -35"

definition ALG_NAME_TO_CODE :: "(string \<times> int) list" where
  "ALG_NAME_TO_CODE =
     [(''EdDSA'', COSE_ALG_EDDSA), (''ES256'', COSE_ALG_ES256), (''ES384'', COSE_ALG_ES384)]"

definition ALG_CODE_TO_NAME :: "(int \<times> string) list" where
  "ALG_CODE_TO_NAME = map (\<lambda>(k, v). (v, k)) ALG_NAME_TO_CODE"

text \<open>\<open>_ECDSA\<close>: code point to curve, hash and the octets of r and of s.\<close>

definition ecdsa_params :: "int \<Rightarrow> (curve \<times> ec_hash \<times> nat) option" where
  "ecdsa_params code =
     (if code = COSE_ALG_ES256 then Some (SECP256R1, EC_SHA256, 32)
      else if code = COSE_ALG_ES384 then Some (SECP384R1, EC_SHA384, 48) else None)"

datatype cose_fault =
    Unsupported_Alg string | Need_Ed25519_Private | Need_EC_Private string curve
  | Not_Cbor string string | Not_Reencodable string string
  | Trailing_Bytes string nat | Non_Deterministic string
  | Not_Bytes | Too_Large nat | Not_A_Tag | Wrong_Tag int | Not_Four_Elements
  | Crit_Not_Array | Crit_Bad_Label | Crit_Absent pyval | Crit_Not_Understood pyval
  | Protected_Not_Bstr | Protected_Not_Cbor string | Protected_Not_Map | Protected_Bad_Label
  | Unprotected_Not_Map | Payload_Missing | Payload_Not_Bytes | Signature_Not_Bytes | No_Alg
  | Key_Not_Loaded string | Need_Ed25519_Public | Need_EC_Public int | Wrong_Curve int curve
  | Bad_Signature_Length int nat | Unsupported_Code int | Signature_Failed
  | Rule_Broken string rule_fault
  | Not_A_Sign1_Message | Receipt_Not_Bytes | Bad_Claim_Key
  | Leaf_Out_Of_Range int nat | Leaf_Mismatch | Receipt_Must_Detach

datatype cose_exn = Cose_Error cose_fault | Lib_Error string

text \<open>An exception let through, and \<open>except Exception as exc: raise CoseError(...)\<close>.\<close>

definition lib :: "string + 'a \<Rightarrow> cose_exn + 'a" where
  "lib r = (case r of Inl e \<Rightarrow> Inl (Lib_Error e) | Inr x \<Rightarrow> Inr x)"

definition attempt :: "(string \<Rightarrow> cose_fault) \<Rightarrow> string + 'a \<Rightarrow> cose_exn + 'a" where
  "attempt f r = (case r of Inl e \<Rightarrow> Inl (Cose_Error (f e)) | Inr x \<Rightarrow> Inr x)"

definition cose_raise :: "cose_fault \<Rightarrow> cose_exn + 'a" where
  "cose_raise f = Inl (Cose_Error f)"

lemma lib_Inr [raise_simps, simp]: "lib r = Inr x \<longleftrightarrow> r = Inr x"
  by (simp add: lib_def split: sum.splits)

lemma attempt_Inr [raise_simps, simp]: "attempt f r = Inr x \<longleftrightarrow> r = Inr x"
  by (simp add: attempt_def split: sum.splits)

lemma cose_raise_Inr [raise_simps, simp]: "cose_raise f \<noteq> Inr x"
  by (simp add: cose_raise_def)

lemma option_Inr [raise_simps]:
  "(case x of None \<Rightarrow> cose_raise f | Some y \<Rightarrow> g y) = Inr z \<longleftrightarrow> (\<exists>y. x = Some y \<and> g y = Inr z)"
  by (cases x) auto

lemma guard_Inr [raise_simps]: "(if c then cose_raise f else r) = Inr z \<longleftrightarrow> \<not> c \<and> r = Inr z"
  by simp

lemma lib_of_Inr [simp]: "lib (Inr x) = Inr x"
  by simp

lemma attempt_of_Inr [simp]: "attempt f (Inr x) = Inr x"
  by simp

section \<open>The signed structure\<close>

datatype pem = Pem_Bytes bytes | Pem_Str string

fun pem_bytes :: "pem \<Rightarrow> bytes" where
  "pem_bytes (Pem_Bytes b) = b"
| "pem_bytes (Pem_Str s) = utf8_encode s"

definition sig_structure_value :: "bytes \<Rightarrow> bytes \<Rightarrow> pyval" where
  "sig_structure_value protected_bstr payload =
     CList [CText ''Signature1'', CBytes protected_bstr, CBytes [], CBytes payload]"

definition sig_structure :: "cbor2_lib \<Rightarrow> bytes \<Rightarrow> bytes \<Rightarrow> string + bytes" where
  "sig_structure L protected_bstr payload = cbor_dumps L (sig_structure_value protected_bstr payload)"

section \<open>Signing\<close>

definition to_bytes :: "nat \<Rightarrow> nat \<Rightarrow> cose_exn + bytes" where
  "to_bytes width n =
     (case to_bytes_be width n of Inl _ \<Rightarrow> Inl (Lib_Error ''OverflowError'') | Inr b \<Rightarrow> Inr b)"

text \<open>The part of \<open>sign_sign1\<close> that depends on the kind of key.\<close>

definition sign_tbs :: "'k crypto_lib \<Rightarrow> string \<Rightarrow> int \<Rightarrow> 'k pykey \<Rightarrow> bytes \<Rightarrow> cose_exn + bytes" where
  "sign_tbs K alg code key tbs =
     (if alg = ''EdDSA'' then
        (case key of Ed25519_Key k \<Rightarrow> Inr (ed_sign K k tbs) | _ \<Rightarrow> cose_raise Need_Ed25519_Private)
      else
        (case ecdsa_params code of
           None \<Rightarrow> Inl (Lib_Error ''KeyError'')
         | Some (crv, digest, width) \<Rightarrow>
             (case key of
                EC_Key c k \<Rightarrow>
                  if c \<noteq> crv then cose_raise (Need_EC_Private alg crv)
                  else rbind (lib (dss_decode K (ec_sign K k tbs digest))) (\<lambda>(r, s).
                    rbind (to_bytes width r) (\<lambda>rb. rmap (append rb) (to_bytes width s)))
              | _ \<Rightarrow> cose_raise (Need_EC_Private alg crv))))"

definition or_empty :: "pydict option \<Rightarrow> pydict" where
  "or_empty d = (case d of None \<Rightarrow> [] | Some d \<Rightarrow> d)"

definition sign_sign1 ::
  "cbor2_lib \<Rightarrow> 'k crypto_lib \<Rightarrow> bytes \<Rightarrow> string \<Rightarrow> pem \<Rightarrow> pydict option \<Rightarrow> pydict option \<Rightarrow> bool
     \<Rightarrow> cose_exn + bytes" where
  "sign_sign1 L K payload alg private_key_pem protected unprotected detached =
     (case map_of ALG_NAME_TO_CODE alg of
        None \<Rightarrow> cose_raise (Unsupported_Alg alg)
      | Some code \<Rightarrow>
          let protected = dict_set (or_empty protected) (CInt HDR_ALG) (CInt code);
              unprotected = or_empty unprotected in
          rbind (if protected \<noteq> [] then lib (cbor_dumps L (CDict protected)) else Inr []) (\<lambda>protected_bstr.
          rbind (lib (sig_structure L protected_bstr payload)) (\<lambda>tbs.
          rbind (lib (load_private K (pem_bytes private_key_pem))) (\<lambda>key.
          rbind (sign_tbs K alg code key tbs) (\<lambda>signature.
          let payload_slot = (if detached then CNull else CBytes payload) in
          lib (cbor_dumps L (CTag (int COSE_SIGN1_TAG)
            (CList [CBytes protected_bstr, CDict unprotected, payload_slot, CBytes signature]))))))))"

section \<open>Strict decoding\<close>

definition strict_decode_item :: "cbor2_lib \<Rightarrow> bytes \<Rightarrow> string \<Rightarrow> cose_exn + pyval" where
  "strict_decode_item L raw what =
     rbind (attempt (Not_Cbor what) (cbor_decode L raw)) (\<lambda>(value, _).
     rbind (attempt (Not_Reencodable what) (cbor_canonical L value)) (\<lambda>recanonical.
       if length recanonical < length raw \<and> take (length recanonical) raw = recanonical
       then cose_raise (Trailing_Bytes what (length raw - length recanonical))
       else if length recanonical \<noteq> length raw then cose_raise (Non_Deterministic what)
       else Inr value))"

text \<open>\<open>isinstance(v, (list, tuple)) and len(v) == 4\<close>, with the elements.\<close>

definition four_of :: "pyval \<Rightarrow> (pyval \<times> pyval \<times> pyval \<times> pyval) option" where
  "four_of v = (case as_seq v of Some [a, b, c, d] \<Rightarrow> Some (a, b, c, d) | _ \<Rightarrow> None)"

text \<open>The second half of \<open>strict_decode\<close>: the octets of a protected header meet the same rule.\<close>

definition strict_protected :: "cbor2_lib \<Rightarrow> pyval \<Rightarrow> cose_exn + unit" where
  "strict_protected L inner =
     (case four_of inner of
        Some (p, _, _, _) \<Rightarrow>
          (case as_bytes p of
             Some prot \<Rightarrow>
               if prot \<noteq> [] then rmap (\<lambda>_. ()) (strict_decode_item L prot ''the protected header'') else Inr ()
           | None \<Rightarrow> Inr ())
      | None \<Rightarrow> Inr ())"

fun as_tag :: "pyval \<Rightarrow> (int \<times> pyval) option" where
  "as_tag (CTag t v) = Some (t, v)"
| "as_tag _ = None"

text \<open>\<open>strict_decode\<close> returns the tag and the value of the \<open>CBORTag\<close>.\<close>

definition strict_decode :: "cbor2_lib \<Rightarrow> pyval \<Rightarrow> cose_exn + (int \<times> pyval)" where
  "strict_decode L data =
     (case as_bytes data of
        None \<Rightarrow> cose_raise Not_Bytes
      | Some data \<Rightarrow>
          if MAX_MESSAGE_BYTES < length data then cose_raise (Too_Large (length data))
          else rbind (strict_decode_item L data ''the COSE_Sign1 message'') (\<lambda>value.
            case as_tag value of
              None \<Rightarrow> cose_raise Not_A_Tag
            | Some (tag, inner) \<Rightarrow> rbind (strict_protected L inner) (\<lambda>_. Inr (tag, inner))))"

lemma as_tag_Some [simp]: "as_tag v = Some (t, x) \<longleftrightarrow> v = CTag t x"
  by (cases v) auto

definition decode_envelope :: "cbor2_lib \<Rightarrow> pyval \<Rightarrow> cose_exn + (pyval \<times> pyval \<times> pyval \<times> pyval)" where
  "decode_envelope L msg =
     rbind (strict_decode L msg) (\<lambda>(tag, inner).
       if tag \<noteq> int COSE_SIGN1_TAG then cose_raise (Wrong_Tag tag)
       else (case four_of (plain inner) of None \<Rightarrow> cose_raise Not_Four_Elements | Some x \<Rightarrow> Inr x))"

section \<open>Critical headers\<close>

fun check_crit_labels :: "pydict \<Rightarrow> pyval list \<Rightarrow> pyval list \<Rightarrow> cose_exn + unit" where
  "check_crit_labels protected understood [] = Inr ()"
| "check_crit_labels protected understood (label # crit) =
     (if \<not> is_label label then cose_raise Crit_Bad_Label
      else if \<not> dict_has protected label then cose_raise (Crit_Absent label)
      else if \<not> py_in label understood then cose_raise (Crit_Not_Understood label)
      else check_crit_labels protected understood crit)"

definition check_critical_headers :: "pydict \<Rightarrow> pyval list \<Rightarrow> cose_exn + unit" where
  "check_critical_headers protected understood =
     (case dict_get protected (CInt HDR_CRIT) of
        None \<Rightarrow> Inr ()
      | Some v \<Rightarrow>
          (case as_seq v of
             Some crit \<Rightarrow> if crit = [] then cose_raise Crit_Not_Array
                          else check_crit_labels protected understood crit
           | None \<Rightarrow> cose_raise Crit_Not_Array))"

section \<open>Verification\<close>

record sign1 =
  s_protected :: pydict
  s_unprotected :: pydict
  s_payload :: bytes

text \<open>The headers and the payload of \<open>verify_sign1\<close>.\<close>

definition decode_protected :: "cbor2_lib \<Rightarrow> bytes \<Rightarrow> cose_exn + pydict" where
  "decode_protected L protected_bstr =
     (if protected_bstr \<noteq> [] then
        rbind (attempt Protected_Not_Cbor (rmap plain (cbor_loads L protected_bstr))) (\<lambda>v.
          case as_dict v of
            None \<Rightarrow> cose_raise Protected_Not_Map
          | Some protected \<Rightarrow>
              if list_ex (\<lambda>k. \<not> is_label k) (map fst protected) then cose_raise Protected_Bad_Label
              else Inr protected)
      else Inr [])"

definition unprotected_map :: "pyval \<Rightarrow> cose_exn + pydict" where
  "unprotected_map v =
     (case as_dict v of Some d \<Rightarrow> Inr d
      | None \<Rightarrow> if v = CNull then Inr [] else cose_raise Unprotected_Not_Map)"

definition message_payload :: "pyval \<Rightarrow> bytes option \<Rightarrow> cose_exn + bytes" where
  "message_payload payload_slot detached_payload =
     (if payload_slot = CNull then
        (case detached_payload of None \<Rightarrow> cose_raise Payload_Missing | Some b \<Rightarrow> Inr b)
      else (case as_bytes payload_slot of None \<Rightarrow> cose_raise Payload_Not_Bytes | Some b \<Rightarrow> Inr b))"

definition check_outcome :: "sig_check \<Rightarrow> cose_exn + unit" where
  "check_outcome c =
     (case c of Valid_Signature \<Rightarrow> Inr () | Invalid_Signature \<Rightarrow> cose_raise Signature_Failed
      | Check_Raises e \<Rightarrow> Inl (Lib_Error e))"

definition check_signature :: "'k crypto_lib \<Rightarrow> int \<Rightarrow> 'k pykey \<Rightarrow> bytes \<Rightarrow> bytes \<Rightarrow> cose_exn + unit" where
  "check_signature K alg pubkey signature tbs =
     (if alg = COSE_ALG_EDDSA then
        (case pubkey of Ed25519_Key k \<Rightarrow> check_outcome (ed_verify K k signature tbs)
         | _ \<Rightarrow> cose_raise Need_Ed25519_Public)
      else (case ecdsa_params alg of
         Some (crv, digest, width) \<Rightarrow>
           (case pubkey of
              EC_Key c k \<Rightarrow>
                if c \<noteq> crv then cose_raise (Wrong_Curve alg crv)
                else if length signature \<noteq> 2 * width then cose_raise (Bad_Signature_Length alg (length signature))
                else check_outcome (ec_verify K k
                  (dss_encode K (be_nat (take width signature)) (be_nat (drop width signature))) tbs digest)
            | _ \<Rightarrow> cose_raise (Need_EC_Public alg))
       | None \<Rightarrow> cose_raise (Unsupported_Code alg)))"

definition DEFAULT_UNDERSTOOD :: "pyval list" where
  "DEFAULT_UNDERSTOOD = [CInt HDR_ALG, CInt HDR_CRIT]"

definition verify_sign1 ::
  "cbor2_lib \<Rightarrow> 'k crypto_lib \<Rightarrow> pyval \<Rightarrow> pem \<Rightarrow> bytes option \<Rightarrow> pyval list \<Rightarrow> cose_exn + sign1" where
  "verify_sign1 L K msg public_key_pem detached_payload understood =
     rbind (decode_envelope L msg) (\<lambda>(prot, unprot, payload_slot, sig).
     case as_bytes prot of None \<Rightarrow> cose_raise Protected_Not_Bstr | Some protected_bstr \<Rightarrow>
     rbind (decode_protected L protected_bstr) (\<lambda>protected.
     rbind (unprotected_map unprot) (\<lambda>unprotected.
     rbind (message_payload payload_slot detached_payload) (\<lambda>payload.
     case as_bytes sig of None \<Rightarrow> cose_raise Signature_Not_Bytes | Some signature \<Rightarrow>
     (case as_int (get_or_none protected (CInt HDR_ALG)) of None \<Rightarrow> cose_raise No_Alg | Some alg \<Rightarrow>
     rbind (check_critical_headers protected understood) (\<lambda>_.
     rbind (lib (sig_structure L protected_bstr payload)) (\<lambda>tbs.
     rbind (attempt Key_Not_Loaded (load_public K (pem_bytes public_key_pem))) (\<lambda>pubkey.
     rbind (check_signature K alg pubkey signature tbs) (\<lambda>_.
     Inr \<lparr> s_protected = protected, s_unprotected = unprotected, s_payload = payload \<rparr>)))))))))"

section \<open>What each step accepts\<close>

lemma four_of_Some:
  "four_of v = Some (a, b, c, d) \<longleftrightarrow> as_seq v = Some [a, b, c, d]"
  by (auto simp: four_of_def split: option.splits list.splits)

lemma four_of_CList [simp]: "four_of (CList [a, b, c, d]) = Some (a, b, c, d)"
  by (simp add: four_of_Some)

text \<open>\<open>raw\<close> is one item \<open>v\<close> of the same length as its canonical encoding.\<close>

definition canonical_length :: "cbor2_lib \<Rightarrow> bytes \<Rightarrow> pyval \<Rightarrow> bool" where
  "canonical_length L raw v \<longleftrightarrow>
     rmap fst (cbor_decode L raw) = Inr v \<and> rmap length (cbor_canonical L v) = Inr (length raw)"

lemma strict_decode_item_iff: "strict_decode_item L raw what = Inr v \<longleftrightarrow> canonical_length L raw v"
  by (auto simp: strict_decode_item_def canonical_length_def raise_simps split: if_splits)

lemma strict_protected_iff:
  "strict_protected L inner = Inr () \<longleftrightarrow>
     (\<forall>prot u p s. four_of inner = Some (CBytes prot, u, p, s) \<longrightarrow> prot \<noteq> [] \<longrightarrow>
        (\<exists>v. canonical_length L prot v))"
proof (cases "four_of inner")
  case (Some x)
  obtain p u q w where x: "x = (p, u, q, w)" by (cases x)
  then show ?thesis using Some
    by (cases "as_bytes p") (auto simp: strict_protected_def raise_simps strict_decode_item_iff)
qed (simp add: strict_protected_def)

lemma strict_decode_iff:
  "strict_decode L msg = Inr (tag, inner) \<longleftrightarrow>
     (\<exists>d. msg = CBytes d \<and> length d \<le> MAX_MESSAGE_BYTES \<and> canonical_length L d (CTag tag inner)
        \<and> strict_protected L inner = Inr ())"
  by (auto simp: strict_decode_def raise_simps strict_decode_item_iff not_less)

lemma check_crit_labels_iff:
  "check_crit_labels protected understood crit = Inr () \<longleftrightarrow>
     (\<forall>l \<in> set crit. is_label l \<and> dict_has protected l \<and> py_in l understood)"
  by (induction crit) auto

lemma check_critical_headers_iff:
  "check_critical_headers protected understood = Inr () \<longleftrightarrow>
     (case dict_get protected (CInt HDR_CRIT) of None \<Rightarrow> True
      | Some v \<Rightarrow> \<exists>crit. as_seq v = Some crit \<and> crit \<noteq> [] \<and>
          (\<forall>l \<in> set crit. is_label l \<and> dict_has protected l \<and> py_in l understood))"
  by (auto simp: check_critical_headers_def check_crit_labels_iff split: option.splits)

lemma decode_protected_labels:
  "decode_protected L b = Inr d \<Longrightarrow> \<forall>k \<in> fst ` set d. is_label k"
  by (auto simp: decode_protected_def raise_simps list_ex_iff split: if_splits)

text \<open>
  The signature check a success stands for: the algorithm fixes the kind of key, its curve, the
  hash and the length of the signature.
\<close>

definition signature_accepted :: "'k crypto_lib \<Rightarrow> int \<Rightarrow> 'k pykey \<Rightarrow> bytes \<Rightarrow> bytes \<Rightarrow> bool" where
  "signature_accepted K alg pubkey signature tbs \<longleftrightarrow>
     alg = -8 \<and> (\<exists>k. pubkey = Ed25519_Key k \<and> ed_verify K k signature tbs = Valid_Signature) \<or>
     alg = -7 \<and> length signature = 64 \<and>
       (\<exists>k. pubkey = EC_Key SECP256R1 k \<and>
          ec_verify K k (dss_encode K (be_nat (take 32 signature)) (be_nat (drop 32 signature))) tbs EC_SHA256
            = Valid_Signature) \<or>
     alg = -35 \<and> length signature = 96 \<and>
       (\<exists>k. pubkey = EC_Key SECP384R1 k \<and>
          ec_verify K k (dss_encode K (be_nat (take 48 signature)) (be_nat (drop 48 signature))) tbs EC_SHA384
            = Valid_Signature)"

lemma check_outcome_iff: "check_outcome c = Inr () \<longleftrightarrow> c = Valid_Signature"
  by (simp add: check_outcome_def split: sig_check.splits)

lemma check_signature_iff:
  "check_signature K alg pubkey signature tbs = Inr () \<longleftrightarrow> signature_accepted K alg pubkey signature tbs"
  by (auto simp: check_signature_def signature_accepted_def ecdsa_params_def check_outcome_iff
      COSE_ALG_EDDSA_def COSE_ALG_ES256_def COSE_ALG_ES384_def split: pykey.splits)

lemma message_payload_iff:
  "message_payload slot detached = Inr b \<longleftrightarrow> slot = CBytes b \<or> slot = CNull \<and> detached = Some b"
  by (auto simp: message_payload_def split: option.splits)

lemma unprotected_map_iff: "unprotected_map v = Inr d \<longleftrightarrow> v = CDict d \<or> v = CNull \<and> d = []"
  by (auto simp: unprotected_map_def split: option.splits)

lemma get_alg: "get_or_none d k = CInt i \<longleftrightarrow> dict_get d k = Some (CInt i)"
  by (simp add: get_or_none_def split: option.splits)

lemma verify_sign1_iff:
  "verify_sign1 L K msg pem detached understood = Inr s \<longleftrightarrow>
     (\<exists>pb u slot sig alg tbs pk.
        decode_envelope L msg = Inr (CBytes pb, u, slot, CBytes sig) \<and>
        decode_protected L pb = Inr (s_protected s) \<and>
        unprotected_map u = Inr (s_unprotected s) \<and>
        message_payload slot detached = Inr (s_payload s) \<and>
        dict_get (s_protected s) (CInt 1) = Some (CInt alg) \<and>
        check_critical_headers (s_protected s) understood = Inr () \<and>
        sig_structure L pb (s_payload s) = Inr tbs \<and>
        load_public K (pem_bytes pem) = Inr pk \<and>
        signature_accepted K alg pk sig tbs)" (is "?l = ?r")
proof
  assume ?l
  then show ?r
    unfolding verify_sign1_def raise_simps option_Inr split_paired_all case_prod_conv
    by (fastforce simp: raise_simps HDR_ALG_def check_signature_iff get_alg)
next
  assume ?r
  then obtain pb u slot sig alg tbs pk where r:
    "decode_envelope L msg = Inr (CBytes pb, u, slot, CBytes sig)"
    "decode_protected L pb = Inr (s_protected s)" "unprotected_map u = Inr (s_unprotected s)"
    "message_payload slot detached = Inr (s_payload s)" "dict_get (s_protected s) (CInt 1) = Some (CInt alg)"
    "check_critical_headers (s_protected s) understood = Inr ()" "sig_structure L pb (s_payload s) = Inr tbs"
    "load_public K (pem_bytes pem) = Inr pk" "check_signature K alg pk sig tbs = Inr ()"
    unfolding check_signature_iff by blast
  then show ?l by (simp add: verify_sign1_def get_or_none_def HDR_ALG_def)
qed

section \<open>Messages this library writes\<close>

fun slot_item :: "bytes option \<Rightarrow> item" where
  "slot_item None = I_Simple 22"
| "slot_item (Some b) = I_Bytes b"

definition message_item :: "bytes \<Rightarrow> item \<Rightarrow> bytes option \<Rightarrow> bytes \<Rightarrow> item" where
  "message_item pb u slot sig = I_Tag 18 (I_Array [I_Bytes pb, u, slot_item slot, I_Bytes sig])"

text \<open>A header map that is a plain item at a nesting depth, with that item.\<close>

definition header_item :: "nat \<Rightarrow> pydict \<Rightarrow> item \<Rightarrow> bool" where
  "header_item depth d it \<longleftrightarrow> item_of (CDict d) = Some it \<and> admits depth False it"

lemma header_item_val: "header_item depth d it \<Longrightarrow> val_of it = CDict (plain_dict d)"
  using plain_val_of [of "CDict d" it depth] by (simp add: header_item_def plain_dict_def)

lemma plain_dict_keys [simp]: "map fst (plain_dict d) = map fst d"
  by (simp add: plain_dict_def case_prod_beta')

lemma header_item_labels:
  assumes "header_item depth d it"
  shows "list_all is_label (map fst d)"
proof -
  obtain kvs where kvs: "it = I_Map kvs" "map (\<lambda>(k, v). pair_opt (item_of k) (item_of v)) d = map Some kvs"
    using assms by (auto simp: header_item_def those_Some)
  have "is_label k" if "(k, v) \<in> set d" for k v
  proof -
    have "pair_opt (item_of k) (item_of v) \<in> set (map Some kvs)"
      using that kvs(2) [symmetric] by (auto simp: image_iff intro!: bexI [of _ "(k, v)"])
    then obtain a b where ab: "(a, b) \<in> set kvs" "pair_opt (item_of k) (item_of v) = Some (a, b)" by auto
    then have "key_item a" using assms kvs(1) by (auto simp: header_item_def)
    with ab(2) have "k = val_of a" by (auto intro: key_val_of)
    with \<open>key_item a\<close> show ?thesis by (cases a) auto
  qed
  then show ?thesis by (auto simp: list_all_iff)
qed

lemma canonical_length_enc:
  assumes "cbor2_plain L" "admits 0 True it" "cbor_decode L (enc it) = Inr (v, [])" "item_of v = Some it"
  shows "canonical_length L (enc it) v"
proof -
  obtain b where "cbor_canonical L v = Inr b" "length b = length (enc it)"
    using cbor2_plain_canonical [OF assms(1,4) admits_fits [OF assms(2)]] .
  then show ?thesis by (simp add: canonical_length_def assms(3))
qed

lemma admits_outer: "admits 0 False it \<Longrightarrow> admits 0 True it"
  by (cases it) auto

lemma strict_message_item:
  assumes L: "cbor2_plain L" and m: "admits 0 True (message_item (enc pit) u slot sig)"
    and pit: "admits 0 False pit" and len: "length (enc (message_item (enc pit) u slot sig)) \<le> MAX_MESSAGE_BYTES"
  obtains inner where "strict_decode L (CBytes (enc (message_item (enc pit) u slot sig))) = Inr (18, inner)"
    "plain inner = CList [CBytes (enc pit), val_of u, val_of (slot_item slot), CBytes sig]"
    "four_of inner \<noteq> None"
proof -
  let ?m = "message_item (enc pit) u slot sig"
  obtain v where v: "cbor_decode L (enc ?m) = Inr (v, [])" "item_of v = Some ?m"
    using cbor2_plain_decode [OF L m] by blast
  obtain inner where inner: "v = CTag 18 inner"
    "item_of inner = Some (I_Array [I_Bytes (enc pit), u, slot_item slot, I_Bytes sig])"
    using v(2) by (cases v) (auto simp: message_item_def split: if_splits)
  have a: "admits 1 False (I_Array [I_Bytes (enc pit), u, slot_item slot, I_Bytes sig])"
    using m by (simp add: message_item_def)
  have p: "plain inner = CList [CBytes (enc pit), val_of u, val_of (slot_item slot), CBytes sig]"
    using plain_val_of [OF inner(2) a] by simp
  have seq: "\<exists>a b c d. as_seq inner = Some [a, b, c, d]"
    using p by (cases inner) (auto simp: Cons_eq_map_conv)
  obtain w where w: "cbor_decode L (enc pit) = Inr (w, [])" "item_of w = Some pit"
    using cbor2_plain_decode [OF L admits_outer [OF pit]] by blast
  have "strict_protected L inner = Inr ()"
  proof -
    have "b = enc pit" if "four_of inner = Some (CBytes b, y)" for b y
      using that p by (cases inner) (cases y, auto simp: four_of_Some Cons_eq_map_conv)+
    then show ?thesis
      using canonical_length_enc [OF L admits_outer [OF pit] w] by (auto simp: strict_protected_iff)
  qed
  moreover have "canonical_length L (enc ?m) (CTag 18 inner)"
    using canonical_length_enc [OF L m] v inner(1) by simp
  ultimately have "strict_decode L (CBytes (enc ?m)) = Inr (18, inner)"
    using len by (simp add: strict_decode_iff)
  then show thesis using p seq by (intro that [of inner]) (auto simp: four_of_Some)
qed

lemma slot_val: "val_of (slot_item None) = CNull" "val_of (slot_item (Some b)) = CBytes b"
  by simp_all

lemma message_envelope:
  assumes "cbor2_plain L" "admits 0 True (message_item (enc pit) u slot sig)" "admits 0 False pit"
    and "length (enc (message_item (enc pit) u slot sig)) \<le> MAX_MESSAGE_BYTES"
  shows "decode_envelope L (CBytes (enc (message_item (enc pit) u slot sig)))
           = Inr (CBytes (enc pit), val_of u, val_of (slot_item slot), CBytes sig)"
proof -
  obtain inner where "strict_decode L (CBytes (enc (message_item (enc pit) u slot sig))) = Inr (18, inner)"
    "plain inner = CList [CBytes (enc pit), val_of u, val_of (slot_item slot), CBytes sig]"
    using strict_message_item [OF assms] by metis
  then show ?thesis by (simp add: decode_envelope_def COSE_SIGN1_TAG_def)
qed

lemma decode_protected_enc:
  assumes "cbor2_plain L" "header_item 0 d pit"
  shows "decode_protected L (enc pit) = Inr (plain_dict d)"
proof -
  have "admits 0 False pit" using assms(2) by (simp add: header_item_def)
  then obtain v where v: "cbor_loads L (enc pit) = Inr v" "item_of v = Some pit"
    using cbor2_plain_decode [OF assms(1) admits_outer] by blast
  have "plain v = CDict (plain_dict d)"
    using plain_val_of [OF v(2) \<open>admits 0 False pit\<close>] header_item_val [OF assms(2)] by simp
  then show ?thesis using v(1) header_item_labels [OF assms(2)]
    by (auto simp: decode_protected_def list_ex_iff list_all_iff)
qed

text \<open>The size of a message from its parts.\<close>

lemma length_enc_head: "length (enc_head major n) \<le> 9"
  by (simp add: enc_head_def)

lemma message_size:
  assumes "length sig \<le> 96" "length pb + length (enc u) + (case slot of None \<Rightarrow> 0 | Some b \<Rightarrow> length b) + 142 \<le> n"
  shows "length (enc (message_item pb u slot sig)) \<le> n"
proof -
  have "length (enc (slot_item slot)) \<le> 9 + (case slot of None \<Rightarrow> 0 | Some b \<Rightarrow> length b)"
    using length_enc_head [of 7 22] length_enc_head [of 2 "length (the slot)"] by (cases slot) auto
  moreover note length_enc_head [of 6 18] length_enc_head [of 4 4]
    length_enc_head [of 2 "length pb"] length_enc_head [of 2 "length sig"]
  ultimately show ?thesis using assms unfolding message_item_def
    by (simp add: numeral_eq_Suc)
qed

text \<open>The header map that is signed, and the key material of an algorithm.\<close>

definition signed_header :: "string \<Rightarrow> pydict option \<Rightarrow> pydict" where
  "signed_header alg protected =
     dict_set (or_empty protected) (CInt HDR_ALG) (CInt (the (map_of ALG_NAME_TO_CODE alg)))"

definition key_match :: "'k crypto_lib \<Rightarrow> string \<Rightarrow> pem \<Rightarrow> pem \<Rightarrow> bool" where
  "key_match K alg private_pem public_pem \<longleftrightarrow>
     (\<exists>sk pk. alg = ''EdDSA'' \<and> ed_pair K sk pk \<and>
        load_private K (pem_bytes private_pem) = Inr (Ed25519_Key sk) \<and>
        load_public K (pem_bytes public_pem) = Inr (Ed25519_Key pk)) \<or>
     (\<exists>sk pk. alg = ''ES256'' \<and> ec_pair K EC_SHA256 32 sk pk \<and>
        load_private K (pem_bytes private_pem) = Inr (EC_Key SECP256R1 sk) \<and>
        load_public K (pem_bytes public_pem) = Inr (EC_Key SECP256R1 pk)) \<or>
     (\<exists>sk pk. alg = ''ES384'' \<and> ec_pair K EC_SHA384 48 sk pk \<and>
        load_private K (pem_bytes private_pem) = Inr (EC_Key SECP384R1 sk) \<and>
        load_public K (pem_bytes public_pem) = Inr (EC_Key SECP384R1 pk))"

lemmas alg_tables = ALG_NAME_TO_CODE_def COSE_ALG_EDDSA_def COSE_ALG_ES256_def COSE_ALG_ES384_def ecdsa_params_def

lemma sign_tbs_ec:
  assumes "ec_pair K h width sk pk" "ecdsa_params code = Some (c, h, width)" "alg \<noteq> ''EdDSA''"
  shows "\<exists>sig. sign_tbs K alg code (EC_Key c sk) tbs = Inr sig \<and> length sig = 2 * width \<and>
           ec_verify K pk (dss_encode K (be_nat (take width sig)) (be_nat (drop width sig))) tbs h = Valid_Signature"
proof -
  obtain r s where rs: "dss_decode K (ec_sign K sk tbs h) = Inr (r, s)" "r < 256 ^ width" "s < 256 ^ width"
    "ec_verify K pk (dss_encode K r s) tbs h = Valid_Signature"
    using assms(1) unfolding ec_pair_def by blast
  show ?thesis
    by (rule exI [of _ "be_bytes width r @ be_bytes width s"])
      (use rs assms(2,3) in \<open>simp add: sign_tbs_def to_bytes_def to_bytes_be_def be_nat_be_bytes\<close>)
qed

lemma sign_tbs_accepted:
  assumes "key_match K alg private_pem public_pem"
  obtains key pk code sig where "map_of ALG_NAME_TO_CODE alg = Some code"
    "load_private K (pem_bytes private_pem) = Inr key" "load_public K (pem_bytes public_pem) = Inr pk"
    "sign_tbs K alg code key tbs = Inr sig" "signature_accepted K code pk sig tbs" "length sig \<le> 96" "64 \<le> length sig"
proof -
  consider (ed) sk pk where "alg = ''EdDSA''" "ed_pair K sk pk"
      "load_private K (pem_bytes private_pem) = Inr (Ed25519_Key sk)"
      "load_public K (pem_bytes public_pem) = Inr (Ed25519_Key pk)"
    | (es256) sk pk where "alg = ''ES256''" "ec_pair K EC_SHA256 32 sk pk"
      "load_private K (pem_bytes private_pem) = Inr (EC_Key SECP256R1 sk)"
      "load_public K (pem_bytes public_pem) = Inr (EC_Key SECP256R1 pk)"
    | (es384) sk pk where "alg = ''ES384''" "ec_pair K EC_SHA384 48 sk pk"
      "load_private K (pem_bytes private_pem) = Inr (EC_Key SECP384R1 sk)"
      "load_public K (pem_bytes public_pem) = Inr (EC_Key SECP384R1 pk)"
    using assms unfolding key_match_def by blast
  then show thesis
  proof cases
    case ed
    then show ?thesis using that [of "-8" "Ed25519_Key sk" "Ed25519_Key pk" "ed_sign K sk tbs"]
      by (simp add: alg_tables sign_tbs_def signature_accepted_def ed_pair_def)
  next
    case es256
    obtain sig where "sign_tbs K alg (-7) (EC_Key SECP256R1 sk) tbs = Inr sig" "length sig = 64"
      "ec_verify K pk (dss_encode K (be_nat (take 32 sig)) (be_nat (drop 32 sig))) tbs EC_SHA256 = Valid_Signature"
      using sign_tbs_ec [OF es256(2), of "-7" SECP256R1 alg tbs] es256(1) by (auto simp: alg_tables)
    then show ?thesis using es256 that [of "-7" "EC_Key SECP256R1 sk" "EC_Key SECP256R1 pk" sig]
      by (simp add: alg_tables signature_accepted_def)
  next
    case es384
    obtain sig where "sign_tbs K alg (-35) (EC_Key SECP384R1 sk) tbs = Inr sig" "length sig = 96"
      "ec_verify K pk (dss_encode K (be_nat (take 48 sig)) (be_nat (drop 48 sig))) tbs EC_SHA384 = Valid_Signature"
      using sign_tbs_ec [OF es384(2), of "-35" SECP384R1 alg tbs] es384(1) by (auto simp: alg_tables)
    then show ?thesis using es384 that [of "-35" "EC_Key SECP384R1 sk" "EC_Key SECP384R1 pk" sig]
      by (simp add: alg_tables signature_accepted_def)
  qed
qed

text \<open>What the signer may be given: plain headers that leave room for the signature.\<close>

definition signable :: "string \<Rightarrow> bytes \<Rightarrow> pydict option \<Rightarrow> pydict option \<Rightarrow> item \<Rightarrow> item \<Rightarrow> bool" where
  "signable alg payload protected unprotected pit uit \<longleftrightarrow>
     header_item 0 (signed_header alg protected) pit \<and> header_item 2 (or_empty unprotected) uit \<and>
     length (enc pit) + length (enc uit) + length payload + 142 \<le> MAX_MESSAGE_BYTES"

lemma sign_sign1_message:
  assumes L: "cbor2_plain L" and K: "key_match K alg private_pem public_pem"
    and ok: "signable alg payload protected unprotected pit uit"
  obtains sig code pk tbs where
    "map_of ALG_NAME_TO_CODE alg = Some code"
    "sign_sign1 L K payload alg private_pem protected unprotected detached =
       Inr (enc (message_item (enc pit) uit (if detached then None else Some payload) sig))"
    "admits 0 True (message_item (enc pit) uit (if detached then None else Some payload) sig)"
    "length (enc (message_item (enc pit) uit (if detached then None else Some payload) sig)) \<le> MAX_MESSAGE_BYTES"
    "sig_structure L (enc pit) payload = Inr tbs" "load_public K (pem_bytes public_pem) = Inr pk"
    "signature_accepted K code pk sig tbs" "64 \<le> length sig"
proof -
  let ?slot = "if detached then None else Some payload"
  have p: "item_of (CDict (signed_header alg protected)) = Some pit" "admits 0 False pit"
    and u: "item_of (CDict (or_empty unprotected)) = Some uit" "admits 2 False uit"
    and size: "length (enc pit) + length (enc uit) + length payload + 142 \<le> MAX_MESSAGE_BYTES"
    using ok by (simp_all add: signable_def header_item_def)
  let ?tbs = "enc (I_Array [I_Text (utf8_encode ''Signature1''), I_Bytes (enc pit), I_Bytes [], I_Bytes payload])"
  have fits: "fits (I_Array [I_Text (utf8_encode ''Signature1''), I_Bytes (enc pit), I_Bytes [], I_Bytes payload])"
    using size by (simp add: MAX_MESSAGE_BYTES_def utf8_encode_def)
  have tbs: "sig_structure L (enc pit) payload = Inr ?tbs"
    unfolding sig_structure_def
    by (rule cbor2_plain_dumps [OF L _ fits]) (simp add: sig_structure_value_def)
  obtain key pk code sig where k: "map_of ALG_NAME_TO_CODE alg = Some code"
    "load_private K (pem_bytes private_pem) = Inr key" "load_public K (pem_bytes public_pem) = Inr pk"
    "sign_tbs K alg code key ?tbs = Inr sig" "signature_accepted K code pk sig ?tbs" "length sig \<le> 96" "64 \<le> length sig"
    using sign_tbs_accepted [OF K] .
  have m: "admits 0 True (message_item (enc pit) uit ?slot sig)"
    using u(2) [unfolded numeral_2_eq_2] size k(6) by (simp add: message_item_def MAX_MESSAGE_BYTES_def)
  have mv: "item_of (CTag (int COSE_SIGN1_TAG) (CList [CBytes (enc pit), CDict (or_empty unprotected),
      if detached then CNull else CBytes payload, CBytes sig])) = Some (message_item (enc pit) uit ?slot sig)"
    using u(1) by (simp add: message_item_def COSE_SIGN1_TAG_def del: item_of.simps(8))
  have "sign_sign1 L K payload alg private_pem protected unprotected detached =
      Inr (enc (message_item (enc pit) uit ?slot sig))"
    using k(1,2,4) tbs p(1) cbor2_plain_dumps [OF L p(1) admits_fits [OF p(2)]]
      cbor2_plain_dumps [OF L mv admits_fits [OF m]]
    by (simp add: sign_sign1_def signed_header_def)
  moreover have "length (enc (message_item (enc pit) uit ?slot sig)) \<le> MAX_MESSAGE_BYTES"
    by (rule message_size [OF k(6)]) (use size in auto)
  ultimately show thesis using that k(1,3,5,7) m tbs by blast
qed

text \<open>Verifying a message written with plain headers comes down to the signature and \<open>crit\<close>.\<close>

lemma verify_message:
  assumes L: "cbor2_plain L" and m: "admits 0 True (message_item (enc pit) uit slot sig)"
    and pit: "header_item 0 d pit" and uit: "header_item depth du uit"
    and len: "length (enc (message_item (enc pit) uit slot sig)) \<le> MAX_MESSAGE_BYTES"
    and payload: "slot = Some payload \<or> slot = None \<and> det = Some payload"
    and alg: "dict_get d (CInt 1) = Some (CInt code)"
    and crit: "check_critical_headers (plain_dict d) understood = Inr ()"
    and tbs: "sig_structure L (enc pit) payload = Inr tbs"
    and key: "load_public K (pem_bytes pem) = Inr pk" "signature_accepted K code pk sig tbs"
  shows "verify_sign1 L K (CBytes (enc (message_item (enc pit) uit slot sig))) pem det understood
           = Inr \<lparr> s_protected = plain_dict d, s_unprotected = plain_dict du, s_payload = payload \<rparr>"
proof -
  have a: "admits 0 False pit" using pit by (simp add: header_item_def)
  have "decode_envelope L (CBytes (enc (message_item (enc pit) uit slot sig)))
      = Inr (CBytes (enc pit), CDict (plain_dict du), val_of (slot_item slot), CBytes sig)"
    using message_envelope [OF L m a len] header_item_val [OF uit] by simp
  moreover have "message_payload (val_of (slot_item slot)) det = Inr payload"
    using payload by (auto simp: message_payload_def)
  moreover have "dict_get (plain_dict d) (CInt 1) = Some (CInt code)"
    using alg by (simp add: dict_get_plain_dict)
  ultimately show ?thesis
    using decode_protected_enc [OF L pit] crit tbs key
    by (subst verify_sign1_iff) (auto simp: unprotected_map_iff)
qed

lemma signed_header_alg:
  "map_of ALG_NAME_TO_CODE alg = Some code \<Longrightarrow> dict_get (signed_header alg protected) (CInt 1) = Some (CInt code)"
  by (simp add: signed_header_def HDR_ALG_def)

lemma sign_verify:
  assumes "cbor2_plain L" "key_match K alg private_pem public_pem"
    and ok: "signable alg payload protected unprotected pit uit"
    and crit: "check_critical_headers (plain_dict (signed_header alg protected)) understood = Inr ()"
  obtains msg where
    "sign_sign1 L K payload alg private_pem protected unprotected detached = Inr msg"
    "verify_sign1 L K (CBytes msg) public_pem (if detached then Some payload else None) understood =
       Inr \<lparr> s_protected = plain_dict (signed_header alg protected),
             s_unprotected = plain_dict (or_empty unprotected), s_payload = payload \<rparr>"
proof -
  let ?slot = "if detached then None else Some payload"
  obtain sig code pk tbs where s: "map_of ALG_NAME_TO_CODE alg = Some code"
    "sign_sign1 L K payload alg private_pem protected unprotected detached =
       Inr (enc (message_item (enc pit) uit ?slot sig))"
    "admits 0 True (message_item (enc pit) uit ?slot sig)"
    "length (enc (message_item (enc pit) uit ?slot sig)) \<le> MAX_MESSAGE_BYTES"
    "sig_structure L (enc pit) payload = Inr tbs" "load_public K (pem_bytes public_pem) = Inr pk"
    "signature_accepted K code pk sig tbs"
    by (rule sign_sign1_message [OF assms(1-3), where detached = detached])
  have h: "header_item 0 (signed_header alg protected) pit" "header_item 2 (or_empty unprotected) uit"
    using ok by (simp_all add: signable_def)
  show thesis
    by (rule that [OF s(2)], rule verify_message [OF assms(1) s(3) h s(4) _ signed_header_alg [OF s(1)] crit s(5-7)])
      auto
qed

lemma verify_authentic:
  assumes "verify_sign1 L K msg pem detached understood = Inr s"
  shows "\<exists>pb u slot sig alg pk tbs.
           decode_envelope L msg = Inr (CBytes pb, u, slot, CBytes sig) \<and>
           decode_protected L pb = Inr (s_protected s) \<and>
           (slot = CBytes (s_payload s) \<or> slot = CNull \<and> detached = Some (s_payload s)) \<and>
           sig_structure L pb (s_payload s) = Inr tbs \<and>
           dict_get (s_protected s) (CInt 1) = Some (CInt alg) \<and>
           load_public K (pem_bytes pem) = Inr pk \<and> signature_accepted K alg pk sig tbs"
  using assms unfolding verify_sign1_iff message_payload_iff by blast

lemma verify_crit:
  assumes "verify_sign1 L K msg pem detached understood = Inr s"
    and "dict_get (s_protected s) (CInt 2) = Some c"
  shows "\<exists>crit. as_seq c = Some crit \<and> crit \<noteq> [] \<and>
           (\<forall>l \<in> set crit. is_label l \<and> l \<in> fst ` set (s_protected s) \<and> py_in l understood)"
proof -
  obtain pb where pb: "decode_protected L pb = Inr (s_protected s)"
    "check_critical_headers (s_protected s) understood = Inr ()"
    using assms(1) unfolding verify_sign1_iff by blast
  then obtain crit where crit: "as_seq c = Some crit" "crit \<noteq> []"
    "\<forall>l \<in> set crit. is_label l \<and> dict_has (s_protected s) l \<and> py_in l understood"
    using assms(2) unfolding check_critical_headers_iff by (auto simp: HDR_CRIT_def)
  have "l \<in> fst ` set (s_protected s)" if l: "is_label l" "dict_has (s_protected s) l" for l
  proof -
    from l(2) obtain v where "dict_get (s_protected s) l = Some v" by (auto simp: dict_has_def)
    then obtain k where k: "(k, v) \<in> set (s_protected s)" "py_eq l k" using dict_get_in by blast
    then have "is_label k" using decode_protected_labels [OF pb(1)] by force
    then show ?thesis using l(1) k py_eq_label by force
  qed
  then show ?thesis using crit by blast
qed

text \<open>The library calls of \<open>verify_sign1\<close> that nothing wraps do not raise.\<close>

definition libs_total :: "cbor2_lib \<Rightarrow> 'k crypto_lib \<Rightarrow> bool" where
  "libs_total L K \<longleftrightarrow>
     (\<forall>pb payload. \<exists>tbs. sig_structure L pb payload = Inr tbs) \<and>
     (\<forall>k sig tbs e. ed_verify K k sig tbs \<noteq> Check_Raises e) \<and>
     (\<forall>k sig tbs h e. ec_verify K k sig tbs h \<noteq> Check_Raises e)"

text \<open>A result that is a value or a \<open>CoseError\<close>.\<close>

definition cose_only :: "cose_exn + 'a \<Rightarrow> bool" where
  "cose_only r \<longleftrightarrow> (\<forall>e. r \<noteq> Inl (Lib_Error e))"

lemma cose_only_intros [simp]: "cose_only (Inr x)" "cose_only (cose_raise f)" "cose_only (attempt g r)"
  by (auto simp: cose_only_def cose_raise_def attempt_def split: sum.splits)

lemma cose_only_rbind: "cose_only r \<Longrightarrow> (\<And>x. cose_only (f x)) \<Longrightarrow> cose_only (rbind r f)"
  by (cases r) (auto simp: cose_only_def)

lemma cose_only_rmap [simp]: "cose_only (rmap f r) = cose_only r"
  by (cases r) (auto simp: cose_only_def)

lemma cose_only_option: "cose_only a \<Longrightarrow> (\<And>y. cose_only (g y)) \<Longrightarrow> cose_only (case x of None \<Rightarrow> a | Some y \<Rightarrow> g y)"
  by (cases x) auto

lemma cose_only_if: "cose_only a \<Longrightarrow> cose_only b \<Longrightarrow> cose_only (if c then a else b)"
  by simp

lemmas cose_only_rules = cose_only_rbind cose_only_option cose_only_if

lemma strict_decode_cose_only: "cose_only (strict_decode L msg)"
proof -
  have item: "cose_only (strict_decode_item L raw what)" for raw what
    unfolding strict_decode_item_def by (auto intro!: cose_only_rbind)
  have "cose_only (strict_protected L inner)" for inner
    unfolding strict_protected_def by (auto intro!: cose_only_option cose_only_if simp: item)
  then show ?thesis unfolding strict_decode_def
    by (auto intro!: cose_only_rules simp: item)
qed

lemma check_crit_cose_only: "cose_only (check_critical_headers protected understood)"
proof -
  have "cose_only (check_crit_labels protected understood crit)" for crit
    by (induction crit) auto
  then show ?thesis unfolding check_critical_headers_def by (auto intro!: cose_only_option)
qed

lemma check_signature_cose_only: "libs_total L K \<Longrightarrow> cose_only (check_signature K alg pk sig tbs)"
  by (auto simp: check_signature_def check_outcome_def libs_total_def cose_only_def cose_raise_def
      split: pykey.splits option.splits sig_check.splits)

lemma verify_sign1_cose_only:
  assumes "libs_total L K" shows "cose_only (verify_sign1 L K msg pem detached understood)"
proof -
  have "cose_only (decode_envelope L msg)"
    unfolding decode_envelope_def by (auto intro!: cose_only_rules simp: strict_decode_cose_only)
  moreover have "cose_only (decode_protected L pb)" for pb
    unfolding decode_protected_def by (auto intro!: cose_only_rules)
  moreover have "cose_only (unprotected_map u)" "cose_only (message_payload slot detached)" for u slot
    unfolding unprotected_map_def message_payload_def by (auto intro!: cose_only_option)
  moreover have "cose_only (lib (sig_structure L pb payload))" for pb payload
    using assms by (auto simp: libs_total_def lib_def cose_only_def split: sum.splits) (metis sum.distinct(1))
  ultimately show ?thesis unfolding verify_sign1_def
    by (auto intro!: cose_only_rules simp: check_crit_cose_only check_signature_cose_only [OF assms])
qed

lemma strict_decode_same_length:
  assumes "strict_decode L (CBytes a) = Inr x" "strict_decode L (CBytes b) = Inr x"
  shows "length a = length b \<and> length a \<le> MAX_MESSAGE_BYTES"
  using assms by (cases x) (auto simp: strict_decode_iff canonical_length_def)

section \<open>Properties\<close>

text \<open>The run every witness below uses: an Ed25519 message over three octets, written and verified.\<close>

lemma demo_signable: "signable ''EdDSA'' [1, 2, 3] None None (I_Map [(I_Uint 1, I_Nint 7)]) (I_Map [])"
  by (simp add: signable_def header_item_def signed_header_def or_empty_def alg_tables HDR_ALG_def
      those_Some enc_head_def MAX_MESSAGE_BYTES_def pair_opt_def)

lemma demo_key: "key_match toy_crypto ''EdDSA'' (Pem_Bytes [1]) (Pem_Bytes [1])"
  using toy_ed_pair [of "[1]"] by (auto simp: key_match_def)

lemma demo_header: "signed_header ''EdDSA'' None = [(CInt 1, CInt (-8))]"
  by (simp add: signed_header_def or_empty_def alg_tables HDR_ALG_def)

lemma demo_crit: "check_critical_headers (plain_dict (signed_header ''EdDSA'' None)) understood = Inr ()"
  by (simp add: demo_header check_critical_headers_def plain_dict_def HDR_CRIT_def)

lemma demo_verified:
  obtains msg where "verify_sign1 ref_cbor2 toy_crypto (CBytes msg) (Pem_Bytes [1]) None DEFAULT_UNDERSTOOD =
    Inr \<lparr> s_protected = [(CInt 1, CInt (-8))], s_unprotected = [], s_payload = [1, 2, 3] \<rparr>"
  using sign_verify [OF ref_cbor2_plain demo_key demo_signable demo_crit, of False DEFAULT_UNDERSTOOD]
  by (auto simp: demo_header plain_dict_def or_empty_def)

text \<open>C6: what a successful verification stands for. The signature was checked over the
  \<open>Sig_structure\<close> of the very protected-header octets of the message and the returned payload,
  which is the attached payload, or the caller's when the slot is nil; the algorithm is an integer
  of the protected header, and it fixes the kind of the key, its curve, the hash and the signature
  length.\<close>

theorem verify_sign1_authentic:
  assumes "verify_sign1 L K msg pem detached understood = Inr s"
  shows "\<exists>pb u slot sig alg pk tbs.
           decode_envelope L msg = Inr (CBytes pb, u, slot, CBytes sig) \<and>
           decode_protected L pb = Inr (s_protected s) \<and>
           (slot = CBytes (s_payload s) \<or> slot = CNull \<and> detached = Some (s_payload s)) \<and>
           sig_structure L pb (s_payload s) = Inr tbs \<and>
           dict_get (s_protected s) (CInt 1) = Some (CInt alg) \<and>
           load_public K (pem_bytes pem) = Inr pk \<and> signature_accepted K alg pk sig tbs"
  using assms by (rule verify_authentic)

theorem verify_sign1_authentic_witness:
  "\<exists>msg pb tbs. verify_sign1 ref_cbor2 toy_crypto (CBytes msg) (Pem_Bytes [1]) None DEFAULT_UNDERSTOOD =
     Inr \<lparr> s_protected = [(CInt 1, CInt (-8))], s_unprotected = [], s_payload = [1, 2, 3] \<rparr>
   \<and> sig_structure ref_cbor2 pb [1, 2, 3] = Inr tbs"
proof -
  obtain msg where m: "verify_sign1 ref_cbor2 toy_crypto (CBytes msg) (Pem_Bytes [1]) None DEFAULT_UNDERSTOOD =
    Inr \<lparr> s_protected = [(CInt 1, CInt (-8))], s_unprotected = [], s_payload = [1, 2, 3] \<rparr>"
    by (rule demo_verified)
  show ?thesis using verify_sign1_authentic [OF m] m by auto
qed

text \<open>C7: whatever a signer writes verifies. For plain headers and a matching key pair, over a
  library that encodes plain values by RFC 8949, \<open>sign_sign1\<close> returns a message that
  \<open>verify_sign1\<close> accepts, attached or detached, returning exactly the signed headers, with the
  algorithm forced into label 1, and the signed payload.\<close>

theorem sign_verify_roundtrip:
  assumes "cbor2_plain L" "key_match K alg private_pem public_pem"
    and "signable alg payload protected unprotected pit uit"
    and "check_critical_headers (plain_dict (signed_header alg protected)) understood = Inr ()"
  shows "\<exists>msg. sign_sign1 L K payload alg private_pem protected unprotected detached = Inr msg \<and>
     verify_sign1 L K (CBytes msg) public_pem (if detached then Some payload else None) understood =
       Inr \<lparr> s_protected = plain_dict (signed_header alg protected),
             s_unprotected = plain_dict (or_empty unprotected), s_payload = payload \<rparr>"
  using sign_verify [OF assms] by metis

theorem sign_verify_roundtrip_witness:
  "\<exists>msg. sign_sign1 ref_cbor2 toy_crypto [1, 2, 3] ''EdDSA'' (Pem_Bytes [1]) None None True = Inr msg \<and>
     verify_sign1 ref_cbor2 toy_crypto (CBytes msg) (Pem_Bytes [1]) (Some [1, 2, 3]) DEFAULT_UNDERSTOOD =
       Inr \<lparr> s_protected = [(CInt 1, CInt (-8))], s_unprotected = [], s_payload = [1, 2, 3] \<rparr>"
  using sign_verify_roundtrip [OF ref_cbor2_plain demo_key demo_signable demo_crit, of True DEFAULT_UNDERSTOOD]
  by (simp add: demo_header plain_dict_def or_empty_def)

text \<open>C8: RFC 9052 section 3.1. A verified message that carries \<open>crit\<close> carries it as a non-empty
  array of integer or text labels, each present in the protected header and each understood by the
  caller.\<close>

theorem verify_sign1_crit:
  assumes "verify_sign1 L K msg pem detached understood = Inr s"
    and "dict_get (s_protected s) (CInt 2) = Some c"
  shows "\<exists>crit. as_seq c = Some crit \<and> crit \<noteq> [] \<and>
           (\<forall>l \<in> set crit. is_label l \<and> l \<in> fst ` set (s_protected s) \<and> py_in l understood)"
  using assms by (rule verify_crit)

definition demo_crit_header :: pydict where
  "demo_crit_header = [(CInt 2, CList [CInt 1])]"

theorem verify_sign1_crit_witness:
  "\<exists>msg s crit. verify_sign1 ref_cbor2 toy_crypto (CBytes msg) (Pem_Bytes [1]) None DEFAULT_UNDERSTOOD = Inr s
     \<and> as_seq (CList [CInt 1]) = Some crit \<and> crit \<noteq> []"
proof -
  have h: "signed_header ''EdDSA'' (Some demo_crit_header) = [(CInt 2, CList [CInt 1]), (CInt 1, CInt (-8))]"
    by (simp add: signed_header_def or_empty_def alg_tables HDR_ALG_def demo_crit_header_def)
  have ok: "signable ''EdDSA'' [] (Some demo_crit_header) None
      (I_Map [(I_Uint 2, I_Array [I_Uint 1]), (I_Uint 1, I_Nint 7)]) (I_Map [])"
    unfolding signable_def header_item_def h
    by (simp add: or_empty_def those_Some enc_head_def MAX_MESSAGE_BYTES_def pair_opt_def)
  have c: "check_critical_headers (plain_dict (signed_header ''EdDSA'' (Some demo_crit_header))) DEFAULT_UNDERSTOOD = Inr ()"
    unfolding h by (simp add: check_critical_headers_iff plain_dict_def HDR_CRIT_def HDR_ALG_def
        DEFAULT_UNDERSTOOD_def dict_has_def py_in_def)
  obtain msg where m: "verify_sign1 ref_cbor2 toy_crypto (CBytes msg) (Pem_Bytes [1]) None DEFAULT_UNDERSTOOD =
      Inr \<lparr> s_protected = plain_dict (signed_header ''EdDSA'' (Some demo_crit_header)),
            s_unprotected = plain_dict (or_empty None), s_payload = [] \<rparr>"
    using sign_verify [OF ref_cbor2_plain demo_key ok c, of False] by auto
  have g: "dict_get (plain_dict (signed_header ''EdDSA'' (Some demo_crit_header))) (CInt 2) = Some (CList [CInt 1])"
    unfolding h by (simp add: plain_dict_def)
  show ?thesis using verify_sign1_crit [OF m, of "CList [CInt 1]"] m g by auto
qed

text \<open>C12: the strict decoder leaves no room for another length. Two octet strings it decodes to the
  same tagged value have the same length, within the message limit: padding, trailing octets,
  indefinite lengths and longer-than-needed arguments are all refused.\<close>

theorem strict_decode_one_length:
  assumes "strict_decode L (CBytes a) = Inr x" "strict_decode L (CBytes b) = Inr x"
  shows "length a = length b \<and> length a \<le> MAX_MESSAGE_BYTES"
  using assms by (rule strict_decode_same_length)

theorem strict_decode_one_length_witness:
  "\<exists>msg x. strict_decode ref_cbor2 (CBytes msg) = Inr x \<and> length msg = length msg \<and> length msg \<le> MAX_MESSAGE_BYTES"
proof -
  obtain msg where "verify_sign1 ref_cbor2 toy_crypto (CBytes msg) (Pem_Bytes [1]) None DEFAULT_UNDERSTOOD =
    Inr \<lparr> s_protected = [(CInt 1, CInt (-8))], s_unprotected = [], s_payload = [1, 2, 3] \<rparr>"
    by (rule demo_verified)
  then obtain x where x: "strict_decode ref_cbor2 (CBytes msg) = Inr x"
    unfolding verify_sign1_iff decode_envelope_def raise_simps by blast
  show ?thesis using strict_decode_one_length [OF x x] x by blast
qed

text \<open>C13: when the unwrapped library calls do not raise, every failure of \<open>verify_sign1\<close> is a
  \<open>CoseError\<close>.\<close>

theorem verify_sign1_errors:
  assumes "libs_total L K" "verify_sign1 L K msg pem detached understood = Inl e"
  shows "\<exists>f. e = Cose_Error f"
  using verify_sign1_cose_only [OF assms(1), of msg pem detached understood] assms(2)
  by (cases e) (auto simp: cose_only_def)

theorem verify_sign1_errors_witness:
  "\<exists>e f. verify_sign1 ref_cbor2 toy_crypto CNull (Pem_Bytes [1]) None DEFAULT_UNDERSTOOD = Inl e \<and> e = Cose_Error f"
proof -
  have t: "libs_total ref_cbor2 toy_crypto"
    by (simp add: libs_total_def ref_cbor2_def ref_encode_def toy_crypto_def sig_structure_def sig_structure_value_def)
  have e: "verify_sign1 ref_cbor2 toy_crypto CNull (Pem_Bytes [1]) None DEFAULT_UNDERSTOOD = Inl (Cose_Error Not_Bytes)"
    by (simp add: verify_sign1_def decode_envelope_def strict_decode_def cose_raise_def)
  show ?thesis using verify_sign1_errors [OF t e] e by blast
qed

end
