(* ===== verification/Receipt.thy ===== *)
theory Receipt
  imports Cose_Sign1 Merkle
begin

text \<open>
  COSE Receipts, \<open>src/scitt_cose/receipt.py\<close>: minting (\<open>build_receipt\<close>), the two proof formats
  (RFC 9162 and CCF) and \<open>verify_receipt\<close>. The source returns a result object and appends to its
  \<open>errors\<close>; here each early return is a \<open>Stop\<close> with the finding it appends, and an exception that
  would leave \<open>verify_receipt\<close> is \<open>Escape\<close>. The texts of the findings are their constructors.
\<close>

section \<open>Constants, results and findings\<close>

definition HDR_VDS :: int where "HDR_VDS = 395"
definition HDR_VDP :: int where "HDR_VDP = 396"
definition VDS_RFC9162_SHA256 :: int where "VDS_RFC9162_SHA256 = 1"
definition VDS_CCF_LEDGER_SHA256 :: int where "VDS_CCF_LEDGER_SHA256 = 2"
definition VDP_INCLUSION_PROOFS :: int where "VDP_INCLUSION_PROOFS = -1"
definition MAX_INCLUSION_PROOFS :: nat where "MAX_INCLUSION_PROOFS = 16"
definition HDR_CWT_CLAIMS :: int where "HDR_CWT_CLAIMS = 15"
definition CWT_CLAIM_IAT :: int where "CWT_CLAIM_IAT = 6"
definition CWT_CLAIM_ISS :: int where "CWT_CLAIM_ISS = 1"
definition CWT_CLAIM_SUB :: int where "CWT_CLAIM_SUB = 2"
definition HDR_KID :: int where "HDR_KID = 4"
definition HDR_GRADE :: int where "HDR_GRADE = -65537"
definition MAX_AUDIT_PATH :: nat where "MAX_AUDIT_PATH = 64"

definition RECEIPT_UNDERSTOOD :: "pyval list" where
  "RECEIPT_UNDERSTOOD = [CInt HDR_ALG, CInt HDR_CRIT, CInt HDR_VDS, CInt HDR_CWT_CLAIMS]"

definition CCF_RECEIPT_UNDERSTOOD :: "pyval list" where
  "CCF_RECEIPT_UNDERSTOOD = RECEIPT_UNDERSTOOD @ [CInt 4, CText ''ccf.v1'']"

lemmas receipt_consts = HDR_VDS_def HDR_VDP_def VDS_RFC9162_SHA256_def VDS_CCF_LEDGER_SHA256_def
  VDP_INCLUSION_PROOFS_def MAX_INCLUSION_PROOFS_def HDR_CWT_CLAIMS_def CWT_CLAIM_IAT_def
  CWT_CLAIM_ISS_def CWT_CLAIM_SUB_def HDR_KID_def HDR_GRADE_def MAX_AUDIT_PATH_def
  HDR_ALG_def HDR_CRIT_def

text \<open>The \<open>CoseError\<close>s of the two proof decoders.\<close>

datatype proof_fault =
    Proof_Not_Cbor string | Proof_Trailing | Proof_Not_Triple | Tree_Size_Not_Int | Leaf_Index_Not_Int
  | Path_Not_Array | Path_Too_Long nat | Node_Not_Bytes | Bad_Size_Or_Index | Bad_Path_Length | Node_Not_32
  | Ccf_Not_Cbor string | Ccf_Not_Map | Ccf_Leaf_Shape | Ccf_Write_Set | Ccf_Ce_String | Ccf_Claim_Digest
  | Ccf_Claim_Mismatch | Ccf_Path_Not_Array | Ccf_Path_Too_Long nat | Ccf_Step_Shape | Ccf_Left_Not_Bool
  | Ccf_Sibling

datatype receipt_finding =
    Receipt_Rejected cose_fault | Receipt_Not_Sign1 | Payload_Attached
  | R_Protected_Not_Bytes | R_Protected_Not_Cbor string | R_Protected_Not_Map
  | R_Crit cose_fault | Alg_Missing | R_Unprotected_Not_Map | Vdp_Missing | No_Inclusion_Proofs
  | Too_Many_Proofs nat | Proof_Entry_Not_Bytes | Bad_Proof proof_fault | Proof_Not_Evaluated py_exn
  | Signature_Did_Not_Verify "cose_fault option" | Claims_Withheld | Leaf_Not_Hex | Unsupported_Vds

record receipt_result =
  r_ok :: bool
  r_root :: "string option"
  r_tree_size :: "int option"
  r_leaf_index :: "int option"
  r_errors :: "receipt_finding list"
  r_iat :: "int option"
  r_issuer :: "string option"
  r_subject :: "string option"
  r_ext :: pydict
  r_failed_at :: "string option"

definition empty_result :: receipt_result where
  "empty_result =
     \<lparr> r_ok = False, r_root = None, r_tree_size = None, r_leaf_index = None, r_errors = [],
       r_iat = None, r_issuer = None, r_subject = None, r_ext = [], r_failed_at = None \<rparr>"

datatype stop = Stop receipt_finding | Escape string

definition stop_at :: "receipt_finding \<Rightarrow> stop + 'a" where
  "stop_at f = Inl (Stop f)"

text \<open>\<open>try: ... except CoseError as exc: result.errors.append(...); return result\<close>\<close>

definition catch_cose :: "(cose_fault \<Rightarrow> receipt_finding) \<Rightarrow> cose_exn + 'a \<Rightarrow> stop + 'a" where
  "catch_cose f r =
     (case r of Inr x \<Rightarrow> Inr x | Inl (Cose_Error e) \<Rightarrow> stop_at (f e) | Inl (Lib_Error e) \<Rightarrow> Inl (Escape e))"

definition check_rule :: "bytes \<Rightarrow> string \<Rightarrow> bool \<Rightarrow> cose_exn + unit" where
  "check_rule octets what outer_tag =
     (case rule_check octets what outer_tag of
        Inl (w, f) \<Rightarrow> cose_raise (Rule_Broken w f) | Inr _ \<Rightarrow> Inr ())"

section \<open>The inclusion proof of RFC 9162\<close>

definition hex_nodes :: "string list \<Rightarrow> py_exn + bytes list" where
  "hex_nodes audit_path_hex = rmapM fromhex audit_path_hex"

definition inclusion_proof_value :: "int \<Rightarrow> int \<Rightarrow> bytes list \<Rightarrow> pyval" where
  "inclusion_proof_value tree_size leaf_index nodes =
     CList [CInt tree_size, CInt leaf_index, CList (map CBytes nodes)]"

definition py_name :: "py_exn \<Rightarrow> string" where
  "py_name e = (case e of ValueError \<Rightarrow> ''ValueError'' | IndexError \<Rightarrow> ''IndexError'' | TypeError \<Rightarrow> ''TypeError''
     | KeyError \<Rightarrow> ''KeyError'' | OverflowError \<Rightarrow> ''OverflowError'')"

definition py :: "py_exn + 'a \<Rightarrow> cose_exn + 'a" where
  "py r = (case r of Inl e \<Rightarrow> Inl (Lib_Error (py_name e)) | Inr x \<Rightarrow> Inr x)"

definition encode_inclusion_proof :: "cbor2_lib \<Rightarrow> int \<Rightarrow> int \<Rightarrow> string list \<Rightarrow> cose_exn + bytes" where
  "encode_inclusion_proof L tree_size leaf_index audit_path_hex =
     rbind (py (hex_nodes audit_path_hex)) (\<lambda>nodes.
       lib (cbor_dumps L (inclusion_proof_value tree_size leaf_index nodes)))"

text \<open>The elements of the path, and the three elements of the array.\<close>

definition path_nodes :: "pyval list \<Rightarrow> proof_fault + bytes list" where
  "path_nodes path = rmapM (\<lambda>v. case as_bytes v of None \<Rightarrow> Inl Node_Not_Bytes | Some b \<Rightarrow> Inr b) path"

definition three_of :: "pyval \<Rightarrow> (pyval \<times> pyval \<times> pyval) option" where
  "three_of v = (case as_seq v of Some [a, b, c] \<Rightarrow> Some (a, b, c) | _ \<Rightarrow> None)"

definition decode_inclusion_proof :: "cbor2_lib \<Rightarrow> bytes \<Rightarrow> proof_fault + (int \<times> int \<times> string list)" where
  "decode_inclusion_proof L blob =
     (case cbor_decode L blob of Inl e \<Rightarrow> Inl (Proof_Not_Cbor e) | Inr (v, rest) \<Rightarrow>
      if rest \<noteq> [] then Inl Proof_Trailing
      else (case three_of (plain v) of None \<Rightarrow> Inl Proof_Not_Triple | Some (sz, ix, path) \<Rightarrow>
        (case as_int sz of None \<Rightarrow> Inl Tree_Size_Not_Int | Some tree_size \<Rightarrow>
        (case as_int ix of None \<Rightarrow> Inl Leaf_Index_Not_Int | Some leaf_index \<Rightarrow>
        (case as_seq path of None \<Rightarrow> Inl Path_Not_Array | Some path \<Rightarrow>
          if MAX_AUDIT_PATH < length path then Inl (Path_Too_Long (length path))
          else rbind (path_nodes path) (\<lambda>nodes.
            if \<not> (0 \<le> leaf_index \<and> leaf_index < tree_size) \<or> tree_size > MAX_TREE_SIZE then Inl Bad_Size_Or_Index
            else if length path \<noteq> expected_inclusion_path_len (nat tree_size) (nat leaf_index)
            then Inl Bad_Path_Length
            else if list_ex (\<lambda>node. length node \<noteq> 32) nodes then Inl Node_Not_32
            else Inr (tree_size, leaf_index, map to_hex nodes)))))))"

section \<open>The CCF proof\<close>

definition ccf_leaf :: "bytes \<Rightarrow> string \<Rightarrow> bytes \<Rightarrow> bytes" where
  "ccf_leaf write_set_digest ce_string claim_digest =
     sha256 (write_set_digest @ sha256 (utf8_encode ce_string) @ claim_digest)"

fun as_bool :: "pyval \<Rightarrow> bool option" where
  "as_bool (CBool b) = Some b"
| "as_bool _ = None"

definition two_of :: "pyval \<Rightarrow> (pyval \<times> pyval) option" where
  "two_of v = (case as_seq v of Some [a, b] \<Rightarrow> Some (a, b) | _ \<Rightarrow> None)"

definition ccf_step :: "bytes \<Rightarrow> bool \<times> bytes \<Rightarrow> bytes" where
  "ccf_step accumulator s = (case s of (left, sibling) \<Rightarrow>
     if left then sha256 (sibling @ accumulator) else sha256 (accumulator @ sibling))"

text \<open>One step of the path, checked; and the loop over the path.\<close>

definition ccf_read_step :: "pyval \<Rightarrow> proof_fault + (bool \<times> bytes)" where
  "ccf_read_step step =
     (case two_of step of None \<Rightarrow> Inl Ccf_Step_Shape | Some (l, h) \<Rightarrow>
     (case as_bool l of None \<Rightarrow> Inl Ccf_Left_Not_Bool | Some left \<Rightarrow>
     (case as_bytes h of None \<Rightarrow> Inl Ccf_Sibling | Some sibling \<Rightarrow>
       if length sibling \<noteq> 32 then Inl Ccf_Sibling else Inr (left, sibling))))"

fun ccf_walk :: "bytes \<Rightarrow> pyval list \<Rightarrow> proof_fault + bytes" where
  "ccf_walk accumulator [] = Inr accumulator"
| "ccf_walk accumulator (step # path) =
     rbind (ccf_read_step step) (\<lambda>s. ccf_walk (ccf_step accumulator s) path)"

definition bytes32 :: "proof_fault \<Rightarrow> pyval \<Rightarrow> proof_fault + bytes" where
  "bytes32 f v =
     (case as_bytes v of None \<Rightarrow> Inl f | Some b \<Rightarrow> if length b \<noteq> 32 then Inl f else Inr b)"

definition verify_ccf_v1_proof :: "cbor2_lib \<Rightarrow> bytes \<Rightarrow> bytes \<Rightarrow> proof_fault + bytes" where
  "verify_ccf_v1_proof L proof_blob claim_digest =
     (case cbor_loads L proof_blob of Inl e \<Rightarrow> Inl (Ccf_Not_Cbor e) | Inr v \<Rightarrow>
     (case as_dict (plain v) of None \<Rightarrow> Inl Ccf_Not_Map | Some proof \<Rightarrow>
     (case three_of (get_or_none proof (CInt 1)) of None \<Rightarrow> Inl Ccf_Leaf_Shape | Some (ws, ce, cd) \<Rightarrow>
       rbind (bytes32 Ccf_Write_Set ws) (\<lambda>write_set_digest.
       case as_text ce of None \<Rightarrow> Inl Ccf_Ce_String | Some ce_string \<Rightarrow>
       rbind (bytes32 Ccf_Claim_Digest cd) (\<lambda>proof_claim_digest.
         if proof_claim_digest \<noteq> claim_digest then Inl Ccf_Claim_Mismatch
         else (case as_seq (case dict_get proof (CInt 2) of None \<Rightarrow> CList [] | Some p \<Rightarrow> p) of
                 None \<Rightarrow> Inl Ccf_Path_Not_Array
               | Some path \<Rightarrow>
                   if MAX_AUDIT_PATH < length path then Inl (Ccf_Path_Too_Long (length path))
                   else ccf_walk (ccf_leaf write_set_digest ce_string proof_claim_digest) path))))))"

section \<open>Minting\<close>

definition put :: "int \<Rightarrow> pyval option \<Rightarrow> pydict \<Rightarrow> pydict" where
  "put label v d = (case v of None \<Rightarrow> d | Some x \<Rightarrow> dict_set d (CInt label) x)"

definition receipt_claims :: "string option \<Rightarrow> string option \<Rightarrow> int option \<Rightarrow> pydict" where
  "receipt_claims iss sub iat =
     put CWT_CLAIM_IAT (map_option CInt iat) (put CWT_CLAIM_SUB (map_option CText sub)
       (put CWT_CLAIM_ISS (map_option CText iss) []))"

definition receipt_protected ::
  "string option \<Rightarrow> string option \<Rightarrow> bytes option \<Rightarrow> int option \<Rightarrow> string option \<Rightarrow> pydict" where
  "receipt_protected iss sub kid iat grade =
     (let claims = receipt_claims iss sub iat in
      put HDR_KID (map_option CBytes kid) (put HDR_GRADE (map_option CText grade)
        (put HDR_CWT_CLAIMS (if claims \<noteq> [] then Some (CDict claims) else None)
          [(CInt HDR_VDS, CInt VDS_RFC9162_SHA256)])))"

definition receipt_unprotected :: "bytes \<Rightarrow> pydict" where
  "receipt_unprotected inclusion_blob =
     [(CInt HDR_VDP, CDict [(CInt VDP_INCLUSION_PROOFS, CList [CBytes inclusion_blob])])]"

definition build_receipt ::
  "cbor2_lib \<Rightarrow> 'k crypto_lib \<Rightarrow> string \<Rightarrow> int \<Rightarrow> string list \<Rightarrow> string \<Rightarrow> pem \<Rightarrow> bool
     \<Rightarrow> string option \<Rightarrow> string option \<Rightarrow> bytes option \<Rightarrow> int option \<Rightarrow> string option \<Rightarrow> cose_exn + bytes" where
  "build_receipt L K leaf_entry_hex leaf_index tree_entries_hex alg log_private_key_pem detached
       iss sub kid iat grade =
     (let n = length tree_entries_hex in
      if \<not> (0 \<le> leaf_index \<and> leaf_index < int n) then cose_raise (Leaf_Out_Of_Range leaf_index n)
      else if tree_entries_hex ! nat leaf_index \<noteq> leaf_entry_hex then cose_raise Leaf_Mismatch
      else if \<not> detached then cose_raise Receipt_Must_Detach
      else rbind (py (merkle_root tree_entries_hex)) (\<lambda>root_hex.
        rbind (py (inclusion_proof tree_entries_hex leaf_index)) (\<lambda>audit_path.
        rbind (encode_inclusion_proof L (int n) leaf_index audit_path) (\<lambda>inclusion_blob.
        rbind (py (fromhex root_hex)) (\<lambda>root.
          sign_sign1 L K root alg log_private_key_pem
            (Some (receipt_protected iss sub kid iat grade)) (Some (receipt_unprotected inclusion_blob)) True)))))"

section \<open>Verification\<close>

text \<open>Up to the checks on the protected header: the header map, the unprotected value and the
  structure named by label 395, an integer or nothing.\<close>

definition vds_of :: "pydict \<Rightarrow> int option" where
  "vds_of protected = as_int (get_or_none protected (CInt HDR_VDS))"

definition receipt_protected_map :: "cbor2_lib \<Rightarrow> pyval \<Rightarrow> stop + pydict" where
  "receipt_protected_map L v =
     (case as_bytes v of None \<Rightarrow> stop_at R_Protected_Not_Bytes | Some protected_bstr \<Rightarrow>
       rbind (catch_cose Receipt_Rejected
           (if protected_bstr \<noteq> [] then check_rule protected_bstr ''the protected header'' False else Inr ()))
         (\<lambda>_. case (if protected_bstr \<noteq> [] then rmap plain (cbor_loads L protected_bstr) else Inr (CDict [])) of
            Inl e \<Rightarrow> stop_at (R_Protected_Not_Cbor e)
          | Inr v \<Rightarrow> (case as_dict v of None \<Rightarrow> stop_at R_Protected_Not_Map | Some d \<Rightarrow> Inr d)))"

definition receipt_header :: "cbor2_lib \<Rightarrow> pyval \<Rightarrow> stop + (pydict \<times> pyval)" where
  "receipt_header L receipt =
     rbind (catch_cose Receipt_Rejected (strict_decode L receipt)) (\<lambda>(tag, inner).
       case (if tag = int COSE_SIGN1_TAG then four_of inner else None) of
         None \<Rightarrow> stop_at Receipt_Not_Sign1
       | Some (prot, unprotected, payload_slot, _) \<Rightarrow>
           if payload_slot \<noteq> CNull then stop_at Payload_Attached
           else (case as_bytes receipt of None \<Rightarrow> Inl (Escape ''TypeError'') | Some octets \<Rightarrow>
             rbind (catch_cose Receipt_Rejected (check_rule octets ''the receipt'' True)) (\<lambda>_.
             rbind (receipt_protected_map L prot) (\<lambda>protected.
             rbind (catch_cose R_Crit (check_critical_headers protected
                 (if vds_of protected = Some VDS_CCF_LEDGER_SHA256 then CCF_RECEIPT_UNDERSTOOD
                  else RECEIPT_UNDERSTOOD))) (\<lambda>_.
               if \<not> dict_has protected (CInt HDR_ALG) then stop_at Alg_Missing
               else Inr (protected, plain unprotected))))))"

text \<open>The inclusion-proof blobs of the unprotected header.\<close>

fun check_blobs :: "pyval list \<Rightarrow> stop + bytes list" where
  "check_blobs [] = Inr []"
| "check_blobs (p # ps) =
     (case as_bytes p of None \<Rightarrow> stop_at Proof_Entry_Not_Bytes | Some b \<Rightarrow>
       rbind (catch_cose Receipt_Rejected (check_rule b ''an inclusion proof'' False)) (\<lambda>_.
         rmap (Cons b) (check_blobs ps)))"

definition receipt_proofs :: "pyval \<Rightarrow> stop + bytes list" where
  "receipt_proofs unprotected =
     (case as_dict unprotected of None \<Rightarrow> stop_at R_Unprotected_Not_Map | Some u \<Rightarrow>
     (case as_dict (get_or_none u (CInt HDR_VDP)) of None \<Rightarrow> stop_at Vdp_Missing | Some vdp \<Rightarrow>
     (case as_seq (get_or_none vdp (CInt VDP_INCLUSION_PROOFS)) of None \<Rightarrow> stop_at No_Inclusion_Proofs
      | Some inclusion_proofs \<Rightarrow>
          if inclusion_proofs = [] then stop_at No_Inclusion_Proofs
          else if MAX_INCLUSION_PROOFS < length inclusion_proofs
          then stop_at (Too_Many_Proofs (length inclusion_proofs))
          else check_blobs inclusion_proofs)))"

definition reconstruct_root :: "string \<Rightarrow> int \<Rightarrow> int \<Rightarrow> string list \<Rightarrow> py_exn + string option" where
  "reconstruct_root leaf_entry_hex leaf_index tree_size audit_path_hex =
     root_from_inclusion_proof leaf_entry_hex leaf_index tree_size audit_path_hex"

text \<open>How the signature step ended: the proof it verified under, or the last error with the
  first proof that rebuilt a root.\<close>

type_synonym position = "int \<times> int \<times> string"

datatype signature_step = Verified position | Unverified "cose_fault option" "position option"

fun try_candidates ::
  "cbor2_lib \<Rightarrow> 'k crypto_lib \<Rightarrow> pyval \<Rightarrow> pem \<Rightarrow> string \<Rightarrow> cose_fault option \<Rightarrow> position option
     \<Rightarrow> (int \<times> int \<times> string list) list \<Rightarrow> stop + signature_step" where
  "try_candidates L K receipt pem leaf last_error diagnostic [] = Inr (Unverified last_error diagnostic)"
| "try_candidates L K receipt pem leaf last_error diagnostic ((tree_size, leaf_index, path) # cs) =
     (case reconstruct_root leaf leaf_index tree_size path of
        Inl e \<Rightarrow> stop_at (Proof_Not_Evaluated e)
      | Inr None \<Rightarrow> try_candidates L K receipt pem leaf last_error diagnostic cs
      | Inr (Some root) \<Rightarrow>
          let diagnostic = (if diagnostic = None then Some (tree_size, leaf_index, root) else diagnostic) in
          (case rbind (py (fromhex root)) (\<lambda>payload.
                  verify_sign1 L K receipt pem (Some payload) RECEIPT_UNDERSTOOD) of
             Inl (Cose_Error f) \<Rightarrow> try_candidates L K receipt pem leaf (Some f) diagnostic cs
           | Inl (Lib_Error e) \<Rightarrow> Inl (Escape e)
           | Inr _ \<Rightarrow> Inr (Verified (tree_size, leaf_index, root))))"

text \<open>\<open>except CoseError\<close> around the decoding of every candidate.\<close>

definition decode_candidates :: "cbor2_lib \<Rightarrow> bytes list \<Rightarrow> stop + (int \<times> int \<times> string list) list" where
  "decode_candidates L blobs =
     (case rmapM (decode_inclusion_proof L) blobs of Inl f \<Rightarrow> stop_at (Bad_Proof f) | Inr cs \<Rightarrow> Inr cs)"

text \<open>The claims of a header, read once the signature has verified.\<close>

definition surface_claims :: "pydict \<Rightarrow> receipt_result \<Rightarrow> receipt_result" where
  "surface_claims protected r =
     (case as_dict (get_or_none protected (CInt HDR_CWT_CLAIMS)) of
        None \<Rightarrow> r
      | Some claims \<Rightarrow>
          r \<lparr> r_iat := (case as_int (get_or_none claims (CInt CWT_CLAIM_IAT)) of
                           Some i \<Rightarrow> if - (2 ^ 63) \<le> i \<and> i < 2 ^ 63 then Some i else None | None \<Rightarrow> None),
              r_issuer := as_text (get_or_none claims (CInt CWT_CLAIM_ISS)),
              r_subject := as_text (get_or_none claims (CInt CWT_CLAIM_SUB)) \<rparr>)"

definition header_ext :: "pydict \<Rightarrow> pydict" where
  "header_ext protected =
     filter (\<lambda>(k, v). \<not> py_in k [CInt HDR_ALG, CInt HDR_CRIT, CInt HDR_VDS, CInt HDR_CWT_CLAIMS]) protected"

definition accept :: "pydict \<Rightarrow> receipt_result \<Rightarrow> receipt_result" where
  "accept protected r = (surface_claims protected r) \<lparr> r_ext := header_ext protected, r_ok := True \<rparr>"

definition at_position :: "position \<Rightarrow> receipt_result \<Rightarrow> receipt_result" where
  "at_position p r = (case p of (tree_size, leaf_index, root) \<Rightarrow>
     r \<lparr> r_tree_size := Some tree_size, r_leaf_index := Some leaf_index, r_root := Some root \<rparr>)"

definition add_errors :: "receipt_finding list \<Rightarrow> receipt_result \<Rightarrow> receipt_result" where
  "add_errors fs r = r \<lparr> r_errors := r_errors r @ fs \<rparr>"

definition verify_rfc9162 ::
  "cbor2_lib \<Rightarrow> 'k crypto_lib \<Rightarrow> pyval \<Rightarrow> pem \<Rightarrow> string \<Rightarrow> pydict \<Rightarrow> bytes list \<Rightarrow> stop + receipt_result" where
  "verify_rfc9162 L K receipt pem leaf protected blobs =
     rbind (decode_candidates L blobs) (\<lambda>candidates.
     rmap (\<lambda>step. case step of
         Verified p \<Rightarrow> accept protected (at_position p empty_result)
       | Unverified last_error diagnostic \<Rightarrow>
           add_errors [Signature_Did_Not_Verify last_error, Claims_Withheld]
             (case diagnostic of
                None \<Rightarrow> empty_result
              | Some p \<Rightarrow> (at_position p empty_result) \<lparr> r_failed_at := Some ''signature'' \<rparr>))
       (try_candidates L K receipt pem leaf None None candidates))"

definition verify_ccf ::
  "cbor2_lib \<Rightarrow> 'k crypto_lib \<Rightarrow> pyval \<Rightarrow> pem \<Rightarrow> string \<Rightarrow> pydict \<Rightarrow> bytes list \<Rightarrow> stop + receipt_result" where
  "verify_ccf L K receipt pem leaf protected blobs =
     (case fromhex leaf of Inl _ \<Rightarrow> stop_at Leaf_Not_Hex | Inr claim_digest \<Rightarrow>
     (case verify_ccf_v1_proof L (hd blobs) claim_digest of Inl f \<Rightarrow> stop_at (Bad_Proof f) | Inr root_bytes \<Rightarrow>
       let result = empty_result \<lparr> r_root := Some (to_hex root_bytes) \<rparr> in
       (case verify_sign1 L K receipt pem (Some root_bytes) CCF_RECEIPT_UNDERSTOOD of
          Inl (Cose_Error f) \<Rightarrow>
            Inr (add_errors [Signature_Did_Not_Verify (Some f), Claims_Withheld]
              (result \<lparr> r_failed_at := Some ''signature'' \<rparr>))
        | Inl (Lib_Error e) \<Rightarrow> Inl (Escape e)
        | Inr _ \<Rightarrow> Inr (accept protected result))))"

definition verify_receipt_steps ::
  "cbor2_lib \<Rightarrow> 'k crypto_lib \<Rightarrow> pyval \<Rightarrow> string \<Rightarrow> pem \<Rightarrow> stop + receipt_result" where
  "verify_receipt_steps L K receipt leaf pem =
     rbind (receipt_header L receipt) (\<lambda>(protected, unprotected).
     rbind (receipt_proofs unprotected) (\<lambda>blobs.
       if vds_of protected = Some VDS_RFC9162_SHA256
       then verify_rfc9162 L K receipt pem leaf protected blobs
       else if vds_of protected = Some VDS_CCF_LEDGER_SHA256
       then verify_ccf L K receipt pem leaf protected blobs
       else stop_at Unsupported_Vds))"

definition verify_receipt ::
  "cbor2_lib \<Rightarrow> 'k crypto_lib \<Rightarrow> pyval \<Rightarrow> string \<Rightarrow> pem \<Rightarrow> string + receipt_result" where
  "verify_receipt L K receipt leaf_entry_hex log_public_key_pem =
     (case verify_receipt_steps L K receipt leaf_entry_hex log_public_key_pem of
        Inl (Escape e) \<Rightarrow> Inl e
      | Inl (Stop f) \<Rightarrow> Inr ((add_errors [f] empty_result) \<lparr> r_failed_at := Some ''structure'' \<rparr>)
      | Inr r \<Rightarrow> Inr (if \<not> r_ok r \<and> r_failed_at r = None then r \<lparr> r_failed_at := Some ''structure'' \<rparr> else r))"

section \<open>What each step accepts\<close>

lemma stop_at_Inr [raise_simps, simp]: "stop_at f \<noteq> Inr x"
  by (simp add: stop_at_def)

lemma catch_cose_Inr [raise_simps, simp]: "catch_cose f r = Inr x \<longleftrightarrow> r = Inr x"
  by (auto simp: catch_cose_def split: sum.splits cose_exn.splits)

lemma catch_cose_of_Inr [simp]: "catch_cose f (Inr x) = Inr x"
  by (simp add: catch_cose_def)

lemma option_stop_Inr [raise_simps]:
  "(case x of None \<Rightarrow> stop_at f | Some y \<Rightarrow> g y) = Inr z \<longleftrightarrow> (\<exists>y. x = Some y \<and> g y = Inr z)"
  by (cases x) auto

lemma guard_stop_Inr [raise_simps]: "(if c then stop_at f else r) = Inr z \<longleftrightarrow> \<not> c \<and> r = Inr z"
  by simp

lemma check_rule_Inr [simp]: "check_rule octets what outer = Inr () \<longleftrightarrow> rule_check octets what outer = Inr ()"
  by (auto simp: check_rule_def split: sum.splits)

text \<open>The protected header a receipt is read with is the one \<open>verify_sign1\<close> reads.\<close>

lemma receipt_protected_map_Inr:
  "receipt_protected_map L v = Inr d \<longleftrightarrow>
     (\<exists>pb. v = CBytes pb \<and> (pb \<noteq> [] \<longrightarrow> rule_check pb ''the protected header'' False = Inr ()) \<and>
           (if pb = [] then d = [] else rmap plain (cbor_loads L pb) = Inr (CDict d)))"
proof (cases "\<exists>pb. v = CBytes pb")
  case True
  then obtain pb where v: "v = CBytes pb" ..
  show ?thesis
  proof (cases "pb = []")
    case True
    then show ?thesis by (auto simp: receipt_protected_map_def v)
  next
    case False
    then show ?thesis
      by (cases "cbor_loads L pb") (auto simp: receipt_protected_map_def v raise_simps)
  qed
next
  case False
  then have "as_bytes v = None" by (cases v) auto
  with False show ?thesis by (auto simp: receipt_protected_map_def)
qed

lemma receipt_header_Inr:
  "receipt_header L receipt = Inr (protected, unprotected) \<longleftrightarrow>
     (\<exists>octets inner prot u sig.
        receipt = CBytes octets \<and> strict_decode L receipt = Inr (18, inner) \<and>
        four_of inner = Some (prot, u, CNull, sig) \<and> unprotected = plain u \<and>
        rule_check octets ''the receipt'' True = Inr () \<and>
        receipt_protected_map L prot = Inr protected \<and>
        check_critical_headers protected
          (if vds_of protected = Some 2 then CCF_RECEIPT_UNDERSTOOD else RECEIPT_UNDERSTOOD) = Inr () \<and>
        dict_has protected (CInt 1))" (is "?l = ?r")
proof
  assume ?l
  then obtain tag inner where d: "strict_decode L receipt = Inr (tag, inner)"
    by (auto simp: receipt_header_def raise_simps)
  then obtain octets where o: "receipt = CBytes octets" by (auto simp: strict_decode_iff)
  from \<open>?l\<close> d have t: "tag = 18" by (auto simp: receipt_header_def COSE_SIGN1_TAG_def raise_simps split: if_splits)
  with \<open>?l\<close> d obtain prot u slot sig where f: "four_of inner = Some (prot, u, slot, sig)"
    by (cases "four_of inner") (auto simp: receipt_header_def COSE_SIGN1_TAG_def)
  from \<open>?l\<close> show ?r unfolding receipt_header_def d
    by (auto simp: o t f COSE_SIGN1_TAG_def receipt_consts raise_simps split: if_splits)
next
  assume ?r
  then show ?l
    by (auto simp: receipt_header_def COSE_SIGN1_TAG_def receipt_consts check_rule_def)
qed

lemma decode_candidates_Inr:
  "decode_candidates L blobs = Inr cs \<longleftrightarrow> rmapM (decode_inclusion_proof L) blobs = Inr cs"
  by (simp add: decode_candidates_def split: sum.splits)

lemma try_candidates_Verified:
  "try_candidates L K receipt pem leaf err diag cs = Inr (Verified (n, i, root)) \<Longrightarrow>
     \<exists>path payload s. (n, i, path) \<in> set cs \<and> root_from_inclusion_proof leaf i n path = Inr (Some root)
       \<and> fromhex root = Inr payload \<and> verify_sign1 L K receipt pem (Some payload) RECEIPT_UNDERSTOOD = Inr s"
proof (induction cs arbitrary: err diag)
  case (Cons c cs)
  obtain n' i' path' where c: "c = (n', i', path')" by (cases c)
  show ?case
  proof (cases "reconstruct_root leaf i' n' path'")
    case (Inr opt)
    then show ?thesis
    proof (cases opt)
      case None
      then show ?thesis using Cons c Inr by fastforce
    next
      case (Some root')
      let ?v = "rbind (py (fromhex root')) (\<lambda>payload. verify_sign1 L K receipt pem (Some payload) RECEIPT_UNDERSTOOD)"
      show ?thesis
      proof (cases ?v)
        case (Inl e)
        then show ?thesis using Cons c Inr Some by (cases e) (fastforce simp: Let_def)+
      next
        case v: (Inr s)
        then have "n' = n" "i' = i" "root' = root" using Cons.prems c Inr Some by (simp_all add: Let_def)
        moreover obtain payload where "fromhex root' = Inr payload"
          "verify_sign1 L K receipt pem (Some payload) RECEIPT_UNDERSTOOD = Inr s"
          using v by (auto simp: raise_simps py_def split: sum.splits)
        ultimately show ?thesis using c Inr Some by (auto simp: reconstruct_root_def)
      qed
    qed
  qed (use Cons.prems c in simp)
qed simp

lemma try_candidates_Unverified:
  "try_candidates L K receipt pem leaf err diag cs = Inr (Unverified err' diag') \<Longrightarrow>
     (\<forall>p. diag = Some p \<longrightarrow> diag' = Some p) \<and>
     (diag = None \<longrightarrow> (case diag' of None \<Rightarrow> \<forall>(n, i, path) \<in> set cs. root_from_inclusion_proof leaf i n path = Inr None
        | Some (n, i, root) \<Rightarrow> \<exists>path. (n, i, path) \<in> set cs \<and> root_from_inclusion_proof leaf i n path = Inr (Some root)))"
proof (induction cs arbitrary: err diag)
  case (Cons c cs)
  obtain n i path where c: "c = (n, i, path)" by (cases c)
  show ?case
  proof (cases "reconstruct_root leaf i n path")
    case (Inr opt)
    show ?thesis
    proof (cases opt)
      case None
      then have "try_candidates L K receipt pem leaf err diag cs = Inr (Unverified err' diag')"
        using Cons.prems c Inr by simp
      from Cons.IH [OF this] None Inr c show ?thesis
        by (auto simp: reconstruct_root_def split: option.splits)
    next
      case (Some root)
      let ?d = "if diag = None then Some (n, i, root) else diag"
      obtain f where "try_candidates L K receipt pem leaf (Some f) ?d cs = Inr (Unverified err' diag')"
        using Cons.prems c Inr Some by (auto simp: Let_def split: sum.splits cose_exn.splits)
      from Cons.IH [OF this] Some Inr c show ?thesis
        by (cases diag) (auto simp: reconstruct_root_def split: option.splits)
    qed
  qed (use Cons.prems c in simp)
qed simp

text \<open>The blobs of the unprotected header that is read.\<close>

definition header_blobs :: "pyval \<Rightarrow> bytes list \<Rightarrow> bool" where
  "header_blobs unprotected blobs \<longleftrightarrow>
     (\<exists>u vdp. as_dict unprotected = Some u \<and> as_dict (get_or_none u (CInt 396)) = Some vdp \<and>
              as_seq (get_or_none vdp (CInt (-1))) = Some (map CBytes blobs)) \<and>
     blobs \<noteq> [] \<and> length blobs \<le> 16 \<and> (\<forall>b \<in> set blobs. rule_check b ''an inclusion proof'' False = Inr ())"

lemma check_blobs_Inr:
  "check_blobs ps = Inr blobs \<longleftrightarrow>
     ps = map CBytes blobs \<and> (\<forall>b \<in> set blobs. rule_check b ''an inclusion proof'' False = Inr ())"
proof (induction ps arbitrary: blobs)
  case (Cons p ps)
  show ?case
  proof (cases "as_bytes p")
    case None
    then have "\<forall>b. p \<noteq> CBytes b" by (metis as_bytes_Some option.distinct(1))
    then show ?thesis by (auto simp: None Cons_eq_map_conv)
  next
    case (Some b)
    then show ?thesis by (auto simp: Cons_eq_map_conv Cons raise_simps)
  qed
qed auto

lemma receipt_proofs_Inr: "receipt_proofs unprotected = Inr blobs \<longleftrightarrow> header_blobs unprotected blobs"
  by (auto simp: receipt_proofs_def header_blobs_def raise_simps check_blobs_Inr receipt_consts not_less)

section \<open>What an accepted receipt shows\<close>

lemma receipt_protected_unique:
  assumes "receipt_protected_map L (CBytes pb) = Inr d" "decode_protected L pb = Inr d'"
  shows "d' = d"
  using assms
  by (auto simp: receipt_protected_map_Inr decode_protected_def raise_simps split: if_splits)

text \<open>
  \<open>accepted\<close>: the receipt's octets meet the encoding rule, its payload is detached, and its
  signature verifies over \<open>payload\<close> with the protected header \<open>s_protected s\<close>, which names the
  structure \<open>vds\<close>; \<open>blobs\<close> are its inclusion proofs.
\<close>

definition accepted ::
  "cbor2_lib \<Rightarrow> 'k crypto_lib \<Rightarrow> pyval \<Rightarrow> pem \<Rightarrow> bytes list \<Rightarrow> bytes \<Rightarrow> sign1 \<Rightarrow> int \<Rightarrow> bool" where
  "accepted L K receipt pem blobs payload s vds \<longleftrightarrow>
     (\<exists>octets prot u sig und. receipt = CBytes octets \<and> rule_check octets ''the receipt'' True = Inr () \<and>
        decode_envelope L receipt = Inr (prot, u, CNull, sig) \<and> header_blobs u blobs \<and>
        verify_sign1 L K receipt pem (Some payload) und = Inr s) \<and>
     s_payload s = payload \<and> dict_get (s_protected s) (CInt 395) = Some (CInt vds)"

lemma four_of_plain: "four_of v = Some (a, b, c, d) \<Longrightarrow> four_of (plain v) = Some (plain a, plain b, plain c, plain d)"
  by (cases v) (auto simp: four_of_Some)

lemma vds_of_Some: "vds_of protected = Some v \<longleftrightarrow> dict_get protected (CInt 395) = Some (CInt v)"
  by (simp add: vds_of_def receipt_consts get_alg)

lemma accepted_intro:
  assumes h: "receipt_header L receipt = Inr (protected, unprotected)" and b: "header_blobs unprotected blobs"
    and v: "verify_sign1 L K receipt pem (Some payload) und = Inr s" and vds: "vds_of protected = Some vds"
  shows "accepted L K receipt pem blobs payload s vds \<and> s_protected s = protected"
proof -
  obtain octets inner prot u sig where o: "receipt = CBytes octets" "strict_decode L receipt = Inr (18, inner)"
    "four_of inner = Some (prot, u, CNull, sig)" "unprotected = plain u"
    "rule_check octets ''the receipt'' True = Inr ()" "receipt_protected_map L prot = Inr protected"
    using h unfolding receipt_header_Inr by blast
  have e: "decode_envelope L receipt = Inr (plain prot, plain u, CNull, plain sig)"
    using o(2) four_of_plain [OF o(3)] by (simp add: decode_envelope_def COSE_SIGN1_TAG_def)
  obtain pb where pb: "prot = CBytes pb" using o(6) by (auto simp: receipt_protected_map_Inr)
  have "decode_protected L pb = Inr (s_protected s)" "s_payload s = payload"
    using v e pb by (auto simp: verify_sign1_iff message_payload_iff)
  then have "s_protected s = protected" "s_payload s = payload"
    using receipt_protected_unique o(6) pb by auto
  then show ?thesis using o(1,4,5) b e v vds unfolding accepted_def vds_of_Some by blast
qed

lemma ok_intro [simp]: "r_ok (accept protected r)"
  by (simp add: accept_def)

lemma not_ok_simps [simp]:
  "\<not> r_ok empty_result" "r_ok (add_errors fs r) = r_ok r" "r_ok (at_position p r) = r_ok r"
  by (auto simp: empty_result_def add_errors_def at_position_def split: prod.splits)

text \<open>The steps of a successful verification, for either structure.\<close>

lemma verify_receipt_ok:
  assumes "verify_receipt L K receipt leaf pem = Inr r" "r_ok r"
  obtains (rfc) protected unprotected blobs cs n i path payload s where
      "receipt_header L receipt = Inr (protected, unprotected)" "header_blobs unprotected blobs"
      "vds_of protected = Some 1" "rmapM (decode_inclusion_proof L) blobs = Inr cs" "(n, i, path) \<in> set cs"
      "root_from_inclusion_proof leaf i n path = Inr (Some (to_hex payload))"
      "verify_sign1 L K receipt pem (Some payload) RECEIPT_UNDERSTOOD = Inr s"
      "r = accept protected (at_position (n, i, to_hex payload) empty_result)"
  | (ccf) protected unprotected blobs claim payload s where
      "receipt_header L receipt = Inr (protected, unprotected)" "header_blobs unprotected blobs"
      "vds_of protected = Some 2" "fromhex leaf = Inr claim"
      "verify_ccf_v1_proof L (hd blobs) claim = Inr payload"
      "verify_sign1 L K receipt pem (Some payload) CCF_RECEIPT_UNDERSTOOD = Inr s"
      "r = accept protected (empty_result \<lparr> r_root := Some (to_hex payload) \<rparr>)"
proof -
  have "verify_receipt_steps L K receipt leaf pem = Inr r"
    using assms by (auto simp: verify_receipt_def split: sum.splits stop.splits if_splits)
  then obtain protected unprotected blobs where h: "receipt_header L receipt = Inr (protected, unprotected)"
    "header_blobs unprotected blobs"
    and c: "vds_of protected = Some 1 \<and> verify_rfc9162 L K receipt pem leaf protected blobs = Inr r \<or>
            vds_of protected = Some 2 \<and> verify_ccf L K receipt pem leaf protected blobs = Inr r"
    by (auto simp: verify_receipt_steps_def raise_simps receipt_proofs_Inr receipt_consts split: if_splits)
  from c show thesis
  proof (elim disjE conjE)
    assume v: "vds_of protected = Some 1" and "verify_rfc9162 L K receipt pem leaf protected blobs = Inr r"
    then obtain cs step where s: "rmapM (decode_inclusion_proof L) blobs = Inr cs"
      "try_candidates L K receipt pem leaf None None cs = Inr step"
      "r = (case step of Verified p \<Rightarrow> accept protected (at_position p empty_result)
       | Unverified last_error diagnostic \<Rightarrow>
           add_errors [Signature_Did_Not_Verify last_error, Claims_Withheld]
             (case diagnostic of None \<Rightarrow> empty_result
              | Some p \<Rightarrow> (at_position p empty_result) \<lparr> r_failed_at := Some ''signature'' \<rparr>))"
      by (auto simp: verify_rfc9162_def raise_simps decode_candidates_Inr)
    then obtain n i root where p: "step = Verified (n, i, root)"
      using assms(2) by (cases step) (auto split: option.splits)
    obtain path payload s' where t: "(n, i, path) \<in> set cs" "root_from_inclusion_proof leaf i n path = Inr (Some root)"
      "fromhex root = Inr payload" "verify_sign1 L K receipt pem (Some payload) RECEIPT_UNDERSTOOD = Inr s'"
      using try_candidates_Verified s(2) p by blast
    obtain d where "root = to_hex d"
      using t(2) by (auto simp: root_from_inclusion_proof_eq raise_simps split: if_splits)
    with t(3) have "root = to_hex payload" by simp
    then show thesis using rfc h v s(1,3) t p by auto
  next
    assume v: "vds_of protected = Some 2" and "verify_ccf L K receipt pem leaf protected blobs = Inr r"
    then obtain claim payload s' where "fromhex leaf = Inr claim"
      "verify_ccf_v1_proof L (hd blobs) claim = Inr payload"
      "verify_sign1 L K receipt pem (Some payload) CCF_RECEIPT_UNDERSTOOD = Inr s'"
      "r = accept protected (empty_result \<lparr> r_root := Some (to_hex payload) \<rparr>)"
      using assms(2) by (auto simp: verify_ccf_def Let_def split: sum.splits cose_exn.splits)
    then show thesis using ccf h v by blast
  qed
qed

lemma receipt_sound:
  assumes "verify_receipt L K receipt leaf pem = Inr r" "r_ok r"
  shows "\<exists>blobs payload s vds. accepted L K receipt pem blobs payload s vds \<and> r_root r = Some (to_hex payload) \<and>
     (vds = 1 \<and> (\<exists>n i path blob. r_tree_size r = Some n \<and> r_leaf_index r = Some i \<and> blob \<in> set blobs \<and>
          decode_inclusion_proof L blob = Inr (n, i, path) \<and>
          root_from_inclusion_proof leaf i n path = Inr (Some (to_hex payload)))
    \<or> vds = 2 \<and> (\<exists>claim. fromhex leaf = Inr claim \<and> verify_ccf_v1_proof L (hd blobs) claim = Inr payload))"
  using assms
proof (cases rule: verify_receipt_ok)
  case (rfc protected unprotected blobs cs n i path payload s)
  have "\<exists>blob \<in> set blobs. decode_inclusion_proof L blob = Inr (n, i, path)"
    using rfc(4,5) by (metis in_set_conv_nth rmapM_length rmapM_nth)
  moreover have "r_tree_size r = Some n" "r_leaf_index r = Some i" "r_root r = Some (to_hex payload)"
    by (simp_all add: rfc(8) accept_def surface_claims_def at_position_def split: option.splits)
  ultimately show ?thesis using accepted_intro [OF rfc(1,2,7,3)] rfc(6) by blast
next
  case (ccf protected unprotected blobs claim payload s)
  have "r_root r = Some (to_hex payload)"
    by (simp add: ccf(7) accept_def surface_claims_def split: option.splits)
  then show ?thesis using accepted_intro [OF ccf(1,2,6,3)] ccf(4,5) by blast
qed

text \<open>The claims reported are those of the protected header that was signed.\<close>

lemma receipt_claims_signed:
  assumes "verify_receipt L K receipt leaf pem = Inr r" "r_ok r"
  shows "\<exists>blobs payload s vds. accepted L K receipt pem blobs payload s vds \<and>
           r = accept (s_protected s) (r \<lparr> r_ok := False, r_iat := None, r_issuer := None, r_subject := None, r_ext := [] \<rparr>)"
proof -
  have same: "accept d e = accept d ((accept d e) \<lparr> r_ok := False, r_iat := None, r_issuer := None, r_subject := None, r_ext := [] \<rparr>)"
    if "\<not> r_ok e" "r_iat e = None" "r_issuer e = None" "r_subject e = None" for d e
    using that by (cases e) (auto simp: accept_def surface_claims_def split: option.splits)
  from assms show ?thesis
  proof (cases rule: verify_receipt_ok)
    case (rfc protected unprotected blobs cs n i path payload s)
    note a = accepted_intro [OF rfc(1,2,7,3)]
    have "r = accept protected (r \<lparr> r_ok := False, r_iat := None, r_issuer := None, r_subject := None, r_ext := [] \<rparr>)"
      using same [of "at_position (n, i, to_hex payload) empty_result" protected] rfc(8)
      by (simp add: at_position_def empty_result_def)
    with a show ?thesis by metis
  next
    case (ccf protected unprotected blobs claim payload s)
    note a = accepted_intro [OF ccf(1,2,6,3)]
    have "r = accept protected (r \<lparr> r_ok := False, r_iat := None, r_issuer := None, r_subject := None, r_ext := [] \<rparr>)"
      using same [of "empty_result \<lparr> r_root := Some (to_hex payload) \<rparr>" protected] ccf(7)
      by (simp add: empty_result_def)
    with a show ?thesis by metis
  qed
qed

text \<open>Against an honest log: a receipt accepted under the root of a list of entries is for the entry
  at the reported position.\<close>

lemma receipt_log:
  assumes r: "verify_receipt L K receipt leaf pem = Inr r" "r_ok r" and n: "r_tree_size r = Some (int (length es))"
    and es: "rmapM fromhex es = Inr ents" "merkle_root es = Inr root" and root: "r_root r = Some root"
  shows "\<exists>blobs payload s blob i path. accepted L K receipt pem blobs payload s 1 \<and>
     root = to_hex payload \<and> blob \<in> set blobs \<and> decode_inclusion_proof L blob = Inr (int (length es), i, path) \<and>
     root_from_inclusion_proof leaf i (int (length es)) path = Inr (Some root) \<and>
     r_leaf_index r = Some i \<and> 0 \<le> i \<and> i < int (length es) \<and>
     (fromhex leaf = Inr (ents ! nat i) \<or> collide (inclusion_inputs leaf i (int (length es)) path) (tree_inputs ents))"
  using r
proof (cases rule: verify_receipt_ok)
  case (rfc protected unprotected blobs cs m i path payload s)
  have f: "r_tree_size r = Some m" "r_leaf_index r = Some i" "r_root r = Some (to_hex payload)"
    by (simp_all add: rfc(8) accept_def surface_claims_def at_position_def split: option.splits)
  then have m: "m = int (length es)" "root = to_hex payload" using n root by simp_all
  have range: "0 \<le> i" "i < m" using rfc(6) by (auto simp: root_from_inclusion_proof_def split: if_splits)
  have "verify_inclusion leaf i (int (length es)) path root = Inr True"
    using rfc(6) m by (simp add: verify_inclusion_def)
  note bound = verify_inclusion_sound [OF this es]
  obtain blob where blob: "blob \<in> set blobs" "decode_inclusion_proof L blob = Inr (int (length es), i, path)"
    using rfc(4,5) m(1) by (metis in_set_conv_nth rmapM_length rmapM_nth)
  have "root_from_inclusion_proof leaf i (int (length es)) path = Inr (Some root)" using rfc(6) m by simp
  with accepted_intro [OF rfc(1,2,7,3)] blob bound f(2) m range show ?thesis by blast
next
  case (ccf protected unprotected blobs claim payload s)
  have "r_tree_size r = None"
    by (simp add: ccf(7) accept_def surface_claims_def empty_result_def split: option.splits)
  with n show ?thesis by simp
qed

section \<open>The shape of every result\<close>

definition claims_withheld :: "receipt_result \<Rightarrow> bool" where
  "claims_withheld r \<longleftrightarrow> r_iat r = None \<and> r_issuer r = None \<and> r_subject r = None \<and> r_ext r = []"

definition failed_shape :: "receipt_result \<Rightarrow> bool" where
  "failed_shape r \<longleftrightarrow>
     r_errors r \<noteq> [] \<and> claims_withheld r \<and>
     (r_failed_at r = Some ''structure'' \<and> r_root r = None \<and> r_tree_size r = None \<and> r_leaf_index r = None
      \<or> r_failed_at r = Some ''signature'' \<and> r_root r \<noteq> None)"

definition result_shape :: "receipt_result \<Rightarrow> bool" where
  "result_shape r \<longleftrightarrow>
     (if r_ok r then r_failed_at r = None \<and> r_errors r = [] \<and> r_root r \<noteq> None else failed_shape r)"

lemmas shape_simps = result_shape_def failed_shape_def claims_withheld_def add_errors_def empty_result_def
  accept_def surface_claims_def at_position_def

lemma verify_receipt_shape:
  assumes "verify_receipt L K receipt leaf pem = Inr r"
  shows "result_shape r"
proof (cases "r_ok r")
  case True
  from assms True show ?thesis
    by (cases rule: verify_receipt_ok) (auto simp: shape_simps split: option.splits)
next
  case False
  show ?thesis
  proof (cases "verify_receipt_steps L K receipt leaf pem")
    case (Inl x)
    then show ?thesis using assms by (cases x) (auto simp: verify_receipt_def shape_simps)
  next
    case (Inr q)
    then have q: "\<not> r_ok q" "r = (if r_failed_at q = None then q \<lparr> r_failed_at := Some ''structure'' \<rparr> else q)"
      using assms False by (auto simp: verify_receipt_def split: if_splits)
    from Inr obtain protected unprotected blobs where
      "verify_rfc9162 L K receipt pem leaf protected blobs = Inr q
       \<or> verify_ccf L K receipt pem leaf protected blobs = Inr q"
      by (auto simp: verify_receipt_steps_def raise_simps split: if_splits)
    then show ?thesis
    proof
      assume "verify_rfc9162 L K receipt pem leaf protected blobs = Inr q"
      then obtain step where "q = (case step of Verified p \<Rightarrow> accept protected (at_position p empty_result)
         | Unverified last_error diagnostic \<Rightarrow>
             add_errors [Signature_Did_Not_Verify last_error, Claims_Withheld]
               (case diagnostic of None \<Rightarrow> empty_result
                | Some p \<Rightarrow> (at_position p empty_result) \<lparr> r_failed_at := Some ''signature'' \<rparr>))"
        by (auto simp: verify_rfc9162_def raise_simps)
      then show ?thesis using q by (cases step) (auto simp: shape_simps split: option.splits prod.splits)
    next
      assume "verify_ccf L K receipt pem leaf protected blobs = Inr q"
      then show ?thesis using q
        by (auto simp: verify_ccf_def Let_def shape_simps split: sum.splits cose_exn.splits)
    qed
  qed
qed

section \<open>Nothing is raised\<close>

definition no_escape :: "stop + 'a \<Rightarrow> bool" where
  "no_escape r \<longleftrightarrow> (\<forall>e. r \<noteq> Inl (Escape e))"

lemma no_escape_intros [simp]: "no_escape (Inr x)" "no_escape (stop_at f)"
  by (simp_all add: no_escape_def stop_at_def)

lemma no_escape_catch [simp]: "cose_only r \<Longrightarrow> no_escape (catch_cose f r)"
  by (auto simp: no_escape_def catch_cose_def cose_only_def stop_at_def split: sum.splits cose_exn.splits)

lemma no_escape_rbind: "no_escape r \<Longrightarrow> (\<And>x. r = Inr x \<Longrightarrow> no_escape (f x)) \<Longrightarrow> no_escape (rbind r f)"
  by (cases r) (auto simp: no_escape_def)

lemma no_escape_rmap [simp]: "no_escape (rmap f r) = no_escape r"
  by (cases r) (auto simp: no_escape_def)

lemma no_escape_option:
  "no_escape a \<Longrightarrow> (\<And>y. x = Some y \<Longrightarrow> no_escape (g y)) \<Longrightarrow> no_escape (case x of None \<Rightarrow> a | Some y \<Rightarrow> g y)"
  by (cases x) auto

lemma no_escape_sum:
  "(\<And>e. x = Inl e \<Longrightarrow> no_escape (f e)) \<Longrightarrow> (\<And>y. x = Inr y \<Longrightarrow> no_escape (g y)) \<Longrightarrow>
     no_escape (case x of Inl e \<Rightarrow> f e | Inr y \<Rightarrow> g y)"
  by (cases x) auto

lemma no_escape_if: "no_escape a \<Longrightarrow> no_escape b \<Longrightarrow> no_escape (if c then a else b)"
  by simp

lemmas no_escape_rules = no_escape_rbind no_escape_option no_escape_sum no_escape_if

lemma check_rule_cose_only [simp]: "cose_only (check_rule octets what outer)"
  by (auto simp: check_rule_def split: sum.splits)

lemma header_no_escape: "no_escape (receipt_header L receipt)"
proof -
  have p: "no_escape (receipt_protected_map L prot)" for prot
    unfolding receipt_protected_map_def by (auto intro!: no_escape_rules)
  show ?thesis
  proof (cases "strict_decode L receipt")
    case (Inl e)
    have "no_escape (catch_cose Receipt_Rejected (strict_decode L receipt))"
      by (simp add: strict_decode_cose_only)
    then show ?thesis unfolding receipt_header_def Inl by (cases e) (simp_all add: no_escape_def catch_cose_def stop_at_def)
  next
    case (Inr x)
    then obtain d where d: "as_bytes receipt = Some d" by (cases x) (auto simp: strict_decode_iff)
    show ?thesis unfolding receipt_header_def Inr d option.case
      by (auto intro!: no_escape_rules simp: p check_crit_cose_only split: prod.splits)
  qed
qed

lemma proofs_no_escape: "no_escape (receipt_proofs unprotected)"
proof -
  have "no_escape (check_blobs ps)" for ps
    by (induction ps) (auto intro!: no_escape_rules)
  then show ?thesis unfolding receipt_proofs_def by (auto intro!: no_escape_rules)
qed

lemma try_candidates_no_escape:
  assumes "libs_total L K"
  shows "no_escape (try_candidates L K receipt pem leaf err diag cs)"
proof (induction cs arbitrary: err diag)
  case (Cons c cs)
  obtain n i path where c: "c = (n, i, path)" by (cases c)
  show ?case
  proof (cases "reconstruct_root leaf i n path")
    case (Inr opt)
    show ?thesis
    proof (cases opt)
      case None
      then show ?thesis using Inr c Cons by simp
    next
      case (Some root)
      obtain d where "root = to_hex d"
        using Some Inr by (auto simp: reconstruct_root_def root_from_inclusion_proof_eq raise_simps split: if_splits)
      then have "rbind (py (fromhex root)) (\<lambda>payload. verify_sign1 L K receipt pem (Some payload) RECEIPT_UNDERSTOOD)
          = verify_sign1 L K receipt pem (Some d) RECEIPT_UNDERSTOOD" by (simp add: py_def)
      moreover have "cose_only (verify_sign1 L K receipt pem (Some d) RECEIPT_UNDERSTOOD)"
        by (rule verify_sign1_cose_only [OF assms])
      ultimately show ?thesis using Inr Some c Cons
        by (auto simp: Let_def cose_only_def split: sum.splits cose_exn.splits)
    qed
  qed (simp add: c)
qed simp

lemma verify_receipt_total:
  assumes "libs_total L K"
  shows "\<exists>r. verify_receipt L K receipt leaf pem = Inr r"
proof -
  have c: "no_escape (verify_ccf L K receipt pem leaf protected blobs)" for protected blobs
    using verify_sign1_cose_only [OF assms]
    by (auto simp: verify_ccf_def Let_def cose_only_def split: sum.splits cose_exn.splits)
  have "no_escape (decode_candidates L blobs)" for blobs
    by (simp add: decode_candidates_def split: sum.splits)
  then have f: "no_escape (verify_rfc9162 L K receipt pem leaf protected blobs)" for protected blobs
    unfolding verify_rfc9162_def using try_candidates_no_escape [OF assms] by (auto intro!: no_escape_rbind)
  have "no_escape (verify_receipt_steps L K receipt leaf pem)"
    unfolding verify_receipt_steps_def
    by (intro no_escape_rbind header_no_escape) (auto intro!: no_escape_rules simp: proofs_no_escape c f split: prod.splits)
  then show ?thesis
    by (auto simp: verify_receipt_def no_escape_def split: sum.splits stop.splits)
qed

section \<open>Minted receipts verify\<close>

subsection \<open>Header maps with integer labels\<close>

text \<open>A header given as labels and values; its entries are plain items.\<close>

definition labelled :: "(int \<times> pyval) list \<Rightarrow> pydict" where
  "labelled es = map (\<lambda>(l, v). (CInt l, v)) es"

definition plain_entries :: "nat \<Rightarrow> (int \<times> pyval) list \<Rightarrow> bool" where
  "plain_entries depth es \<longleftrightarrow>
     distinct (map fst es) \<and> length es < 2 ^ 64 \<and> depth < 16 \<and>
     (\<forall>(l, v) \<in> set es. - (2 ^ 63) \<le> l \<and> l < 2 ^ 63 \<and> (\<exists>b. item_of v = Some b \<and> admits (Suc depth) False b))"

definition int_item :: "int \<Rightarrow> item" where
  "int_item i = (if 0 \<le> i then I_Uint (nat i) else I_Nint (nat (- 1 - i)))"

definition entries_item :: "(int \<times> pyval) list \<Rightarrow> item" where
  "entries_item es = I_Map (map (\<lambda>(l, v). (int_item l, the (item_of v))) es)"

lemma int_item_inject: "int_item i = int_item j \<longleftrightarrow> i = j"
  by (auto simp: int_item_def split: if_splits)

lemma item_of_int: "- (2 ^ 63) \<le> i \<Longrightarrow> i < 2 ^ 63 \<Longrightarrow> item_of (CInt i) = Some (int_item i)"
  by (auto simp: int_item_def)

lemma int_item_ok:
  "- (2 ^ 63) \<le> i \<Longrightarrow> i < 2 ^ 63 \<Longrightarrow> depth \<le> 16 \<Longrightarrow> key_item (int_item i) \<and> admits depth False (int_item i)"
  by (auto simp: int_item_def nat_less_iff)

lemma header_item_entries:
  assumes "plain_entries depth es"
  shows "header_item depth (labelled es) (entries_item es)"
proof -
  have e: "pair_opt (item_of (CInt l)) (item_of v) = Some (int_item l, the (item_of v))
      \<and> key_item (int_item l) \<and> admits (Suc depth) False (int_item l) \<and> admits (Suc depth) False (the (item_of v))"
    if m: "(l, v) \<in> set es" for l v
  proof -
    obtain b where "- (2 ^ 63) \<le> l" "l < 2 ^ 63" "item_of v = Some b" "admits (Suc depth) False b" "depth < 16"
      using assms m by (auto simp: plain_entries_def)
    then show ?thesis using item_of_int [of l] int_item_ok [of l "Suc depth"] by simp
  qed
  have "map (\<lambda>(k, v). pair_opt (item_of k) (item_of v)) (labelled es)
      = map Some (map (\<lambda>(l, v). (int_item l, the (item_of v))) es)"
    using e by (auto simp: labelled_def)
  then have "item_of (CDict (labelled es)) = Some (entries_item es)"
    by (simp add: those_Some entries_item_def del: map_map)
  moreover have "distinct (map fst (map (\<lambda>(l, v). (int_item l, the (item_of v))) es))"
  proof -
    have "map fst (map (\<lambda>(l, v). (int_item l, the (item_of v))) es) = map int_item (map fst es)" by auto
    moreover have "distinct (map int_item (map fst es))"
      using assms by (auto simp: plain_entries_def distinct_map inj_on_def int_item_inject)
    ultimately show ?thesis by (simp only:)
  qed
  ultimately show ?thesis
    using assms e unfolding header_item_def entries_item_def
    by (auto simp: plain_entries_def simp del: map_map)
qed

text \<open>The octets of a header, bounded by those of its values.\<close>

lemma length_enc_int: "length (enc (int_item i)) \<le> 9"
  using length_enc_head by (simp add: int_item_def)

lemma length_enc_entries:
  "length (enc (entries_item es)) \<le> 9 + 9 * length es + sum_list (map (\<lambda>(l, v). length (enc (the (item_of v)))) es)"
proof -
  have "length (concat (map pair_enc (map (\<lambda>(l, v). (int_item l, the (item_of v))) es)))
      \<le> 9 * length es + sum_list (map (\<lambda>(l, v). length (enc (the (item_of v)))) es)"
  proof (induction es)
    case (Cons e es)
    then show ?case using length_enc_int [of "fst e"] by (auto split: prod.splits)
  qed simp
  then show ?thesis using length_enc_head [of 5 "length es"]
    by (simp add: entries_item_def enc_Map del: enc.simps(6))
qed

lemma length_enc_text: "length (enc (I_Text b)) \<le> 9 + length b" "length (enc (I_Bytes b)) \<le> 9 + length b"
  using length_enc_head by simp_all

text \<open>Adding an absent label appends it.\<close>

definition opt :: "int \<Rightarrow> pyval option \<Rightarrow> (int \<times> pyval) list" where
  "opt label v = (case v of None \<Rightarrow> [] | Some x \<Rightarrow> [(label, x)])"

lemma dict_set_labelled: "l \<notin> fst ` set es \<Longrightarrow> dict_set (labelled es) (CInt l) v = labelled (es @ [(l, v)])"
  by (induction es) (auto simp: labelled_def)

lemma put_labelled: "l \<notin> fst ` set es \<Longrightarrow> put l v (labelled es) = labelled (es @ opt l v)"
  by (auto simp: put_def opt_def dict_set_labelled split: option.splits)

lemma dict_get_labelled: "dict_get (labelled es) (CInt l) = map_of es l"
  by (induction es) (auto simp: labelled_def)

lemma set_opt: "(l', x) \<in> set (opt l v) \<longleftrightarrow> l' = l \<and> v = Some x"
  by (auto simp: opt_def split: option.splits)

lemma plain_dict_labelled: "plain_dict (labelled es) = labelled (map (\<lambda>(l, v). (l, plain v)) es)"
  by (auto simp: plain_dict_def labelled_def)

lemma plain_dict_Nil [simp]: "plain_dict [] = []"
  by (simp add: plain_dict_def)

subsection \<open>The proof of a minted receipt\<close>

lemma incl_path_digests:
  "m < length sub \<Longrightarrow> \<forall>x \<in> set sub. length x = 32 \<Longrightarrow> \<forall>x \<in> set (incl_path sub m). length x = 32"
proof (induction sub m rule: incl_path.induct)
  case (1 sub m)
  show ?case
  proof (cases "length sub \<le> 1")
    case True
    then show ?thesis by (simp add: incl_path.simps)
  next
    case False
    let ?k = "largest_pow2_below (length sub)"
    have k: "?k < length sub" "0 < ?k" using largest_pow2_below_bounds [of "length sub"] False by auto
    have d: "\<forall>x \<in> set (take ?k sub). length x = 32" "\<forall>x \<in> set (drop ?k sub). length x = 32"
      using "1.prems"(2) by (auto dest: in_set_takeD in_set_dropD)
    show ?thesis
    proof (cases "m < ?k")
      case True
      then show ?thesis using "1.IH"(1) [OF False refl] d k False length_mth [OF d(2)]
        by (subst incl_path.simps) (simp add: Let_def)
    next
      case m: False
      then show ?thesis using "1.IH"(2) [OF False refl] d k False "1.prems"(1) length_mth [OF d(1)]
        by (subst incl_path.simps) (simp add: Let_def)
    qed
  qed
qed

lemma minted_proof:
  assumes "merkle_root es = Inr root" "0 \<le> i" "i < int (length es)" "int (length es) \<le> MAX_TREE_SIZE"
  obtains nodes payload where "inclusion_proof es i = Inr (map to_hex nodes)" "root = to_hex payload"
    "length payload = 32" "\<forall>x \<in> set nodes. length x = 32" "length nodes \<le> 62"
    "length nodes = expected_inclusion_path_len (length es) (nat i)"
    "root_from_inclusion_proof (es ! nat i) i (int (length es)) (map to_hex nodes) = Inr (Some root)"
proof -
  from assms(1) obtain ents where ents: "rmapM fromhex es = Inr ents"
    and root: "root = to_hex (mth (map leaf_hash_bytes ents))"
    by (auto simp: merkle_root_def entry_leaves_eq raise_simps)
  let ?leaves = "map leaf_hash_bytes ents" and ?m = "nat i"
  have len: "length ents = length es" using rmapM_length [OF ents] .
  have m: "?m < length ?leaves" using assms len by simp
  have ip: "inclusion_proof es i = Inr (map to_hex (incl_path ?leaves ?m))"
    using assms ents by (simp add: inclusion_proof_def entry_leaves_eq)
  obtain path where "inclusion_proof es i = Inr path" "verify_inclusion (es ! nat i) i (int (length es)) path root = Inr True"
    using verify_inclusion_complete [OF assms] by blast
  then have "root_from_inclusion_proof (es ! nat i) i (int (length es)) (map to_hex (incl_path ?leaves ?m)) = Inr (Some root)"
    using ip by (auto simp: verify_inclusion_def raise_simps)
  moreover have "length (incl_path ?leaves ?m) = expected_inclusion_path_len (length es) ?m"
    using length_incl_path [OF m] len by simp
  moreover have "expected_inclusion_path_len (length es) ?m \<le> 62"
  proof (rule expected_len_le)
    have "int (length es) \<le> int (2 ^ 62)" using assms(4) by (simp add: MAX_TREE_SIZE_def)
    then show "length es \<le> 2 ^ 62" by (simp only: of_nat_le_iff)
  qed
  moreover have "length (mth ?leaves) = 32" by (rule length_mth) simp
  ultimately show thesis
    using that [of "incl_path ?leaves ?m" "mth ?leaves"] ip root incl_path_digests [OF m] by simp
qed

definition blob_item :: "int \<Rightarrow> int \<Rightarrow> bytes list \<Rightarrow> item" where
  "blob_item n i nodes = I_Array [I_Uint (nat n), I_Uint (nat i), I_Array (map I_Bytes nodes)]"

lemma blob_item_ok:
  assumes "0 \<le> i" "i < n" "n \<le> 2 ^ 62" "length nodes \<le> 62" "\<forall>x \<in> set nodes. length x = 32"
  shows "item_of (inclusion_proof_value n i nodes) = Some (blob_item n i nodes) \<and>
         admits 0 False (blob_item n i nodes) \<and> length (enc (blob_item n i nodes)) \<le> 3000"
proof (intro conjI)
  have "item_of (CList (map CBytes nodes)) = Some (I_Array (map I_Bytes nodes))"
    by (auto simp: those_Some)
  moreover have "item_of (CInt n) = Some (I_Uint (nat n))" "item_of (CInt i) = Some (I_Uint (nat i))"
    using assms(1-3) by simp_all
  ultimately have "map item_of [CInt n, CInt i, CList (map CBytes nodes)]
      = map Some [I_Uint (nat n), I_Uint (nat i), I_Array (map I_Bytes nodes)]"
    by (simp only: list.map)
  then show "item_of (inclusion_proof_value n i nodes) = Some (blob_item n i nodes)"
    unfolding inclusion_proof_value_def blob_item_def item_of.simps(6) those_Some [symmetric] by simp
next
  show "admits 0 False (blob_item n i nodes)"
    using assms by (auto simp: blob_item_def nat_less_iff)
next
  have "length (concat (map enc (map I_Bytes nodes))) \<le> 41 * length nodes"
    using assms(5)
  proof (induction nodes)
    case (Cons x nodes)
    then show ?case using length_enc_head [of 2 "length x"] by simp
  qed simp
  then show "length (enc (blob_item n i nodes)) \<le> 3000"
    using assms(4) length_enc_head [of 0 "nat n"] length_enc_head [of 0 "nat i"]
      length_enc_head [of 4 3] length_enc_head [of 4 "length nodes"]
    by (simp add: blob_item_def numeral_3_eq_3)
qed

lemma decode_blob:
  assumes L: "cbor2_plain L" and ok: "0 \<le> i" "i < n" "n \<le> 2 ^ 62" "length nodes \<le> 62" "\<forall>x \<in> set nodes. length x = 32"
    and len: "length nodes = expected_inclusion_path_len (nat n) (nat i)"
  shows "decode_inclusion_proof L (enc (blob_item n i nodes)) = Inr (n, i, map to_hex nodes)"
proof -
  have b: "admits 0 False (blob_item n i nodes)" using blob_item_ok [OF ok] by blast
  obtain v where v: "cbor_decode L (enc (blob_item n i nodes)) = Inr (v, [])" "item_of v = Some (blob_item n i nodes)"
    using cbor2_plain_decode [OF L admits_outer [OF b]] by blast
  have "plain v = CList [CInt n, CInt i, CList (map CBytes nodes)]"
    using plain_val_of [OF v(2) b] ok(1,2) by (simp add: blob_item_def comp_def)
  moreover have "path_nodes (map CBytes nodes) = Inr nodes"
    unfolding path_nodes_def by (simp add: rmapM_map)
  ultimately show ?thesis using v(1) ok len
    by (simp add: decode_inclusion_proof_def three_of_def MAX_AUDIT_PATH_def MAX_TREE_SIZE_def list_ex_iff)
qed

subsection \<open>The headers of a minted receipt\<close>

text \<open>Arguments \<open>build_receipt\<close> can encode: well-formed text and octets of at most a MiB each, and
  an issue time that fits 64 bits.\<close>

definition mint_text :: "string option \<Rightarrow> bool" where
  "mint_text s \<longleftrightarrow> (\<forall>t. s = Some t \<longrightarrow> utf8_valid (utf8_encode t) \<and> length t \<le> 2 ^ 20)"

definition mintable :: "string option \<Rightarrow> string option \<Rightarrow> bytes option \<Rightarrow> int option \<Rightarrow> string option \<Rightarrow> bool" where
  "mintable iss sub kid iat grade \<longleftrightarrow>
     mint_text iss \<and> mint_text sub \<and> mint_text grade \<and> (\<forall>b. kid = Some b \<longrightarrow> length b \<le> 2 ^ 20) \<and>
     (\<forall>t. iat = Some t \<longrightarrow> - (2 ^ 63) \<le> t \<and> t < 2 ^ 63)"

definition claim_entries :: "string option \<Rightarrow> string option \<Rightarrow> int option \<Rightarrow> (int \<times> pyval) list" where
  "claim_entries iss sub iat =
     opt 1 (map_option CText iss) @ opt 2 (map_option CText sub) @ opt 6 (map_option CInt iat)"

definition ext_entries :: "bytes option \<Rightarrow> string option \<Rightarrow> (int \<times> pyval) list" where
  "ext_entries kid grade = opt (-65537) (map_option CText grade) @ opt 4 (map_option CBytes kid)"

definition header_entries ::
  "string option \<Rightarrow> string option \<Rightarrow> bytes option \<Rightarrow> int option \<Rightarrow> string option \<Rightarrow> (int \<times> pyval) list" where
  "header_entries iss sub kid iat grade =
     (395, CInt 1) #
       opt 15 (if claim_entries iss sub iat \<noteq> [] then Some (CDict (labelled (claim_entries iss sub iat))) else None) @
       ext_entries kid grade"

lemma receipt_claims_entries: "receipt_claims iss sub iat = labelled (claim_entries iss sub iat)"
proof -
  show ?thesis unfolding receipt_claims_def claim_entries_def receipt_consts
    by (cases iss; cases sub; cases iat) (simp_all add: put_def opt_def labelled_def)
qed

lemma receipt_protected_entries:
  "receipt_protected iss sub kid iat grade = labelled (header_entries iss sub kid iat grade)"
proof -
  have n: "labelled es = [] \<longleftrightarrow> es = []" for es by (simp add: labelled_def)
  show ?thesis unfolding receipt_protected_def header_entries_def ext_entries_def receipt_consts receipt_claims_entries n
    by (cases kid; cases grade) (simp_all add: put_def opt_def Let_def labelled_def)
qed

lemma signed_receipt_header:
  "map_of ALG_NAME_TO_CODE alg = Some code \<Longrightarrow>
     signed_header alg (Some (receipt_protected iss sub kid iat grade))
       = labelled (header_entries iss sub kid iat grade @ [(1, CInt code)])"
proof -
  assume c: "map_of ALG_NAME_TO_CODE alg = Some code"
  have "1 \<notin> fst ` set (header_entries iss sub kid iat grade)"
    by (auto simp: header_entries_def ext_entries_def set_opt)
  then show ?thesis
    using c by (simp add: signed_header_def or_empty_def receipt_protected_entries HDR_ALG_def dict_set_labelled)
qed

lemma receipt_unprotected_entries:
  "receipt_unprotected blob = labelled [(396, CDict (labelled [(-1, CList [CBytes blob])]))]"
  by (simp add: receipt_unprotected_def receipt_consts labelled_def)

lemma length_utf8_encode [simp]: "length (utf8_encode s) = length s"
  by (simp add: utf8_encode_def)

lemma claim_entries_plain:
  assumes "mintable iss sub kid iat grade"
  shows "plain_entries 1 (claim_entries iss sub iat)"
    and "length (enc (entries_item (claim_entries iss sub iat))) \<le> 2 ^ 21 + 63"
proof -
  have t: "item_of (CInt t) = Some (int_item t) \<and> admits (Suc 1) False (int_item t)" if "iat = Some t" for t
    using assms that item_of_int [of t] int_item_ok [of t "Suc 1"] by (simp add: mintable_def)
  show "plain_entries 1 (claim_entries iss sub iat)"
    using assms t unfolding plain_entries_def
    by (cases iss; cases sub; cases iat)
      (auto simp: claim_entries_def opt_def mintable_def mint_text_def simp del: item_of.simps(1))
  have "sum_list (map (\<lambda>(l, v). length (enc (the (item_of v)))) (claim_entries iss sub iat)) \<le> 2 ^ 21 + 27"
    using assms t length_enc_text(1) [of "utf8_encode (the iss)"] length_enc_text(1) [of "utf8_encode (the sub)"]
      length_enc_int [of "the iat"]
    by (cases iss; cases sub; cases iat)
      (auto simp: claim_entries_def opt_def mintable_def mint_text_def simp del: item_of.simps(1) enc.simps)
  moreover have "length (claim_entries iss sub iat) \<le> 3"
    by (simp add: claim_entries_def opt_def split: option.splits)
  ultimately show "length (enc (entries_item (claim_entries iss sub iat))) \<le> 2 ^ 21 + 63"
    using length_enc_entries [of "claim_entries iss sub iat"] by linarith
qed

lemma header_entries_plain:
  assumes m: "mintable iss sub kid iat grade" and code: "code \<in> {-8, -7, -35}"
  shows "plain_entries 0 (header_entries iss sub kid iat grade @ [(1, CInt code)])"
    and "length (enc (entries_item (header_entries iss sub kid iat grade @ [(1, CInt code)]))) \<le> 2 ^ 22 + 200"
proof -
  let ?c = "claim_entries iss sub iat"
  have c: "item_of (CDict (labelled ?c)) = Some (entries_item ?c)" "admits 1 False (entries_item ?c)"
    using header_item_entries [OF claim_entries_plain(1) [OF m]] by (simp_all add: header_item_def)
  have k: "item_of (CInt code) = Some (int_item code)" "admits 1 False (int_item code)"
    using item_of_int [of code] int_item_ok [of code 1] code by auto
  show "plain_entries 0 (header_entries iss sub kid iat grade @ [(1, CInt code)])"
    using m c k unfolding plain_entries_def
    by (cases kid; cases grade)
      (auto simp: header_entries_def ext_entries_def opt_def mintable_def mint_text_def
        simp del: item_of.simps(8))
  have "sum_list (map (\<lambda>(l, v). length (enc (the (item_of v)))) (header_entries iss sub kid iat grade @ [(1, CInt code)]))
      \<le> 2 ^ 22 + 63 + 4 * 9"
    using m c k claim_entries_plain(2) [OF m] length_enc_text(1) [of "utf8_encode (the grade)"]
      length_enc_text(2) [of "the kid"] length_enc_int [of code] length_enc_head [of 0 1]
    by (cases kid; cases grade)
      (auto simp: header_entries_def ext_entries_def opt_def mintable_def mint_text_def
        simp del: item_of.simps(8))
  moreover have "length (header_entries iss sub kid iat grade @ [(1, CInt code)]) \<le> 5"
    by (simp add: header_entries_def ext_entries_def opt_def split: option.splits)
  ultimately show "length (enc (entries_item (header_entries iss sub kid iat grade @ [(1, CInt code)]))) \<le> 2 ^ 22 + 200"
    using length_enc_entries [of "header_entries iss sub kid iat grade @ [(1, CInt code)]"] by linarith
qed

lemma unprotected_plain:
  assumes "length blob \<le> 3000"
  shows "header_item 2 (receipt_unprotected blob) (entries_item [(396, CDict (labelled [(-1, CList [CBytes blob])]))])"
    and "length (enc (entries_item [(396, CDict (labelled [(-1, CList [CBytes blob])]))])) \<le> 3100"
proof -
  have i: "plain_entries 3 [(-1, CList [CBytes blob])]"
    using assms by (simp add: plain_entries_def those_Some)
  have ii: "item_of (CDict (labelled [(-1, CList [CBytes blob])])) = Some (entries_item [(-1, CList [CBytes blob])])"
    "admits 3 False (entries_item [(-1, CList [CBytes blob])])"
    using header_item_entries [OF i] by (simp_all add: header_item_def)
  have "plain_entries 2 [(396, CDict (labelled [(-1, CList [CBytes blob])]))]"
    using ii by (simp add: plain_entries_def del: item_of.simps(8))
  from header_item_entries [OF this]
  show "header_item 2 (receipt_unprotected blob) (entries_item [(396, CDict (labelled [(-1, CList [CBytes blob])]))])"
    by (simp add: receipt_unprotected_entries)
  have "length (enc (entries_item [(-1, CList [CBytes blob])])) \<le> 9 + 9 + 9 + 9 + length blob"
    using length_enc_entries [of "[(-1, CList [CBytes blob])]"] length_enc_head [of 4 1] length_enc_head [of 2 "length blob"]
    by (simp add: those_Some)
  then show "length (enc (entries_item [(396, CDict (labelled [(-1, CList [CBytes blob])]))])) \<le> 3100"
    using length_enc_entries [of "[(396, CDict (labelled [(-1, CList [CBytes blob])]))]"] ii(1) assms
    by (simp del: item_of.simps(8))
qed

lemma labelled_plain:
  "(\<And>l v. (l, v) \<in> set es \<Longrightarrow> plain v = v) \<Longrightarrow> plain_dict (labelled es) = labelled es"
  unfolding plain_dict_def labelled_def by auto

lemma claims_plain: "plain (CDict (labelled (claim_entries iss sub iat))) = CDict (labelled (claim_entries iss sub iat))"
proof -
  have "plain_dict (labelled (claim_entries iss sub iat)) = labelled (claim_entries iss sub iat)"
    by (rule labelled_plain) (auto simp: claim_entries_def set_opt)
  then show ?thesis by (simp add: plain_dict_def)
qed

lemma header_plain:
  "plain_dict (labelled (header_entries iss sub kid iat grade @ [(1, CInt code)]))
     = labelled (header_entries iss sub kid iat grade @ [(1, CInt code)])"
  by (rule labelled_plain)
    (auto simp: header_entries_def ext_entries_def set_opt claims_plain simp del: plain.simps(1) split: if_splits)

lemma header_lookup:
  fixes iss sub kid iat grade code
  defines "H \<equiv> labelled (header_entries iss sub kid iat grade @ [(1, CInt code)])"
  shows "dict_get H (CInt 1) = Some (CInt code)" "dict_get H (CInt 2) = None" "dict_get H (CInt 395) = Some (CInt 1)"
    "dict_get H (CInt 15) = (if claim_entries iss sub iat = [] then None
       else Some (CDict (labelled (claim_entries iss sub iat))))"
    "header_ext H = labelled (ext_entries kid grade)"
  by (auto simp: H_def dict_get_labelled header_entries_def ext_entries_def opt_def header_ext_def
      labelled_def py_in_def receipt_consts split: option.splits)

lemma claims_lookup:
  "dict_get (labelled (claim_entries iss sub iat)) (CInt 1) = map_option CText iss"
  "dict_get (labelled (claim_entries iss sub iat)) (CInt 2) = map_option CText sub"
  "dict_get (labelled (claim_entries iss sub iat)) (CInt 6) = map_option CInt iat"
  by (auto simp: dict_get_labelled claim_entries_def opt_def split: option.splits)

lemma accept_minted:
  assumes "mintable iss sub kid iat grade" "\<not> r_ok r" "r_iat r = None" "r_issuer r = None" "r_subject r = None"
  shows "accept (labelled (header_entries iss sub kid iat grade @ [(1, CInt code)])) r =
    r \<lparr> r_ok := True, r_iat := iat, r_issuer := iss, r_subject := sub, r_ext := labelled (ext_entries kid grade) \<rparr>"
proof (cases "claim_entries iss sub iat = []")
  case True
  then have "iss = None" "sub = None" "iat = None"
    by (auto simp: claim_entries_def opt_def split: option.splits)
  then show ?thesis using True assms(2-)
    by (cases r) (simp add: accept_def surface_claims_def get_or_none_def header_lookup receipt_consts)
next
  case False
  have t: "- (2 ^ 63) \<le> t \<and> t < 2 ^ 63" if "iat = Some t" for t
    using assms(1) that by (simp add: mintable_def)
  show ?thesis using False t assms(2-)
    by (cases r; cases iss; cases sub; cases iat)
      (simp_all add: accept_def surface_claims_def get_or_none_def header_lookup receipt_consts claims_lookup)
qed

text \<open>A decoded minted message passes every check before the signature.\<close>

lemma minted_header:
  assumes L: "cbor2_plain L" and m: "admits 0 True (message_item (enc pit) uit None sig)"
    and pit: "header_item 0 H pit" and len: "length (enc (message_item (enc pit) uit None sig)) \<le> MAX_MESSAGE_BYTES"
    and H: "plain_dict H = H" "dict_get H (CInt 2) = None" "dict_get H (CInt 1) \<noteq> None"
  shows "receipt_header L (CBytes (enc (message_item (enc pit) uit None sig))) = Inr (H, val_of uit)"
proof -
  let ?m = "message_item (enc pit) uit None sig"
  have a: "admits 0 False pit" using pit by (simp add: header_item_def)
  obtain inner where i: "strict_decode L (CBytes (enc ?m)) = Inr (18, inner)"
    "plain inner = CList [CBytes (enc pit), val_of uit, CNull, CBytes sig]"
    by (rule strict_message_item [OF L m a len]) (simp add: slot_val)
  obtain u where u: "four_of inner = Some (CBytes (enc pit), u, CNull, CBytes sig)" "plain u = val_of uit"
    using i(2) by (cases inner) (auto simp: four_of_Some Cons_eq_map_conv)
  obtain v where v: "cbor_loads L (enc pit) = Inr v" "item_of v = Some pit"
    using cbor2_plain_decode [OF L admits_outer [OF a]] by blast
  have "plain v = CDict H" using plain_val_of [OF v(2) a] header_item_val [OF pit] H(1) by simp
  then have "receipt_protected_map L (CBytes (enc pit)) = Inr H"
    using v(1) a by (auto simp: receipt_protected_map_Inr rule_check_iff)
  moreover have "check_critical_headers H und = Inr ()" for und
    by (simp add: check_critical_headers_iff HDR_CRIT_def H(2))
  moreover have "rule_check (enc ?m) ''the receipt'' True = Inr ()" using m rule_check_iff by blast
  ultimately show ?thesis using i(1) u H(3) by (auto simp: receipt_header_Inr dict_has_def)
qed

text \<open>The unprotected header of a minted receipt, and the receipt as a message.\<close>

definition proof_item :: "int \<Rightarrow> int \<Rightarrow> bytes list \<Rightarrow> item" where
  "proof_item n i nodes = entries_item [(396, CDict (labelled [(-1, CList [CBytes (enc (blob_item n i nodes))])]))]"

definition minted_entries ::
  "string option \<Rightarrow> string option \<Rightarrow> bytes option \<Rightarrow> int option \<Rightarrow> string option \<Rightarrow> int \<Rightarrow> (int \<times> pyval) list" where
  "minted_entries iss sub kid iat grade code = header_entries iss sub kid iat grade @ [(1, CInt code)]"

lemma proof_item_ok:
  assumes "0 \<le> i" "i < n" "n \<le> 2 ^ 62" "length nodes \<le> 62" "\<forall>x \<in> set nodes. length x = 32"
  shows "header_item 2 (receipt_unprotected (enc (blob_item n i nodes))) (proof_item n i nodes)"
    and "length (enc (proof_item n i nodes)) \<le> 3100"
  using unprotected_plain blob_item_ok [OF assms] by (simp_all add: proof_item_def)

lemma built_receipt_message:
  assumes L: "cbor2_plain L" and K: "key_match K alg private_pem public_pem"
    and root: "merkle_root es = Inr root" and i: "0 \<le> i" "i < int (length es)" "int (length es) \<le> MAX_TREE_SIZE"
    and args: "mintable iss sub kid iat grade"
  obtains nodes payload code pit sig pk tbs where
    "inclusion_proof es i = Inr (map to_hex nodes)" "root = to_hex payload" "length nodes \<le> 62"
    "\<forall>x \<in> set nodes. length x = 32" "length nodes = expected_inclusion_path_len (length es) (nat i)"
    "root_from_inclusion_proof (es ! nat i) i (int (length es)) (map to_hex nodes) = Inr (Some root)"
    "map_of ALG_NAME_TO_CODE alg = Some code" "header_item 0 (labelled (minted_entries iss sub kid iat grade code)) pit"
    "build_receipt L K (es ! nat i) i es alg private_pem True iss sub kid iat grade =
       Inr (enc (message_item (enc pit) (proof_item (int (length es)) i nodes) None sig))"
    "admits 0 True (message_item (enc pit) (proof_item (int (length es)) i nodes) None sig)"
    "length (enc (message_item (enc pit) (proof_item (int (length es)) i nodes) None sig)) \<le> MAX_MESSAGE_BYTES"
    "sig_structure L (enc pit) payload = Inr tbs" "load_public K (pem_bytes public_pem) = Inr pk"
    "signature_accepted K code pk sig tbs" "length payload = 32"
proof -
  let ?n = "int (length es)"
  obtain nodes payload where p: "inclusion_proof es i = Inr (map to_hex nodes)" "root = to_hex payload"
    "length payload = 32" "\<forall>x \<in> set nodes. length x = 32" "length nodes \<le> 62"
    "length nodes = expected_inclusion_path_len (length es) (nat i)"
    "root_from_inclusion_proof (es ! nat i) i ?n (map to_hex nodes) = Inr (Some root)"
    by (rule minted_proof [OF root i])
  have n: "?n \<le> 2 ^ 62" using i(3) by (simp add: MAX_TREE_SIZE_def)
  define bi where "bi = blob_item ?n i nodes"
  have b: "item_of (inclusion_proof_value ?n i nodes) = Some bi" "admits 0 False bi" "length (enc bi) \<le> 3000"
    using blob_item_ok [OF i(1,2) n p(5,4)] by (simp_all add: bi_def)
  have eb: "encode_inclusion_proof L ?n i (map to_hex nodes) = Inr (enc bi)"
    using cbor2_plain_dumps [OF L b(1) admits_fits [OF b(2)]]
    by (simp add: encode_inclusion_proof_def hex_nodes_def rmapM_map py_def)
  obtain code where code: "map_of ALG_NAME_TO_CODE alg = Some code" "code \<in> {-8, -7, -35}"
    using K by (auto simp: key_match_def alg_tables)
  define H where "H = labelled (minted_entries iss sub kid iat grade code)"
  define pit where "pit = entries_item (minted_entries iss sub kid iat grade code)"
  have hp: "header_item 0 H pit" "length (enc pit) \<le> 2 ^ 22 + 200"
    using header_item_entries header_entries_plain [OF args code(2)] by (simp_all add: H_def pit_def minted_entries_def)
  have hu: "header_item 2 (receipt_unprotected (enc bi)) (proof_item ?n i nodes)" "length (enc (proof_item ?n i nodes)) \<le> 3100"
    using proof_item_ok [OF i(1,2) n p(5,4)] by (simp_all add: bi_def)
  have sh: "signed_header alg (Some (receipt_protected iss sub kid iat grade)) = H"
    using signed_receipt_header [OF code(1)] by (simp add: H_def minted_entries_def)
  have "signable alg payload (Some (receipt_protected iss sub kid iat grade)) (Some (receipt_unprotected (enc bi))) pit (proof_item ?n i nodes)"
    unfolding signable_def sh using hp hu p(3) by (simp add: or_empty_def MAX_MESSAGE_BYTES_def)
  then obtain sig code' pk tbs where s: "map_of ALG_NAME_TO_CODE alg = Some code'"
    "sign_sign1 L K payload alg private_pem (Some (receipt_protected iss sub kid iat grade)) (Some (receipt_unprotected (enc bi))) True
       = Inr (enc (message_item (enc pit) (proof_item ?n i nodes) None sig))"
    "admits 0 True (message_item (enc pit) (proof_item ?n i nodes) None sig)"
    "length (enc (message_item (enc pit) (proof_item ?n i nodes) None sig)) \<le> MAX_MESSAGE_BYTES"
    "sig_structure L (enc pit) payload = Inr tbs" "load_public K (pem_bytes public_pem) = Inr pk"
    "signature_accepted K code' pk sig tbs"
    using sign_sign1_message [OF L K, where detached = True and payload = payload] by (metis (full_types))
  have built: "build_receipt L K (es ! nat i) i es alg private_pem True iss sub kid iat grade
      = Inr (enc (message_item (enc pit) (proof_item ?n i nodes) None sig))"
    using i(1,2) root p(1,2) eb s(2) by (simp add: build_receipt_def Let_def py_def)
  show thesis
    using that [OF p(1,2,5,4,6,7) code(1) hp(1) [unfolded H_def] built s(3-6)] s(1,7) code(1) p(3) by simp
qed

theorem minted_receipt_verifies:
  assumes L: "cbor2_plain L" and K: "key_match K alg private_pem public_pem"
    and root: "merkle_root es = Inr root" and i: "0 \<le> i" "i < int (length es)" "int (length es) \<le> MAX_TREE_SIZE"
    and args: "mintable iss sub kid iat grade"
  shows "\<exists>receipt. build_receipt L K (es ! nat i) i es alg private_pem True iss sub kid iat grade = Inr receipt \<and>
     verify_receipt L K (CBytes receipt) (es ! nat i) public_pem =
       Inr \<lparr> r_ok = True, r_root = Some root, r_tree_size = Some (int (length es)), r_leaf_index = Some i,
             r_errors = [], r_iat = iat, r_issuer = iss, r_subject = sub,
             r_ext = labelled (ext_entries kid grade), r_failed_at = None \<rparr>"
proof -
  let ?n = "int (length es)"
  obtain nodes payload code pit sig pk tbs where m:
    "inclusion_proof es i = Inr (map to_hex nodes)" "root = to_hex payload" "length nodes \<le> 62"
    "\<forall>x \<in> set nodes. length x = 32" "length nodes = expected_inclusion_path_len (length es) (nat i)"
    "root_from_inclusion_proof (es ! nat i) i ?n (map to_hex nodes) = Inr (Some root)"
    "map_of ALG_NAME_TO_CODE alg = Some code" "header_item 0 (labelled (minted_entries iss sub kid iat grade code)) pit"
    "build_receipt L K (es ! nat i) i es alg private_pem True iss sub kid iat grade =
       Inr (enc (message_item (enc pit) (proof_item ?n i nodes) None sig))"
    "admits 0 True (message_item (enc pit) (proof_item ?n i nodes) None sig)"
    "length (enc (message_item (enc pit) (proof_item ?n i nodes) None sig)) \<le> MAX_MESSAGE_BYTES"
    "sig_structure L (enc pit) payload = Inr tbs" "load_public K (pem_bytes public_pem) = Inr pk"
    "signature_accepted K code pk sig tbs" "length payload = 32"
    by (rule built_receipt_message [OF assms])
  have n: "?n \<le> 2 ^ 62" using i(3) by (simp add: MAX_TREE_SIZE_def)
  define H where "H = labelled (minted_entries iss sub kid iat grade code)"
  define bi where "bi = blob_item ?n i nodes"
  have hp: "header_item 0 H pit" using m(8) by (simp add: H_def)
  have hu: "header_item 2 (receipt_unprotected (enc bi)) (proof_item ?n i nodes)"
    using proof_item_ok [OF i(1,2) n m(3,4)] by (simp add: bi_def)
  have b: "admits 0 False bi" using blob_item_ok [OF i(1,2) n m(3,4)] by (simp add: bi_def)
  have dec: "decode_inclusion_proof L (enc bi) = Inr (?n, i, map to_hex nodes)"
    using decode_blob [OF L i(1,2) n m(3,4)] m(5) by (simp add: bi_def)
  let ?r = "enc (message_item (enc pit) (proof_item ?n i nodes) None sig)"
  have P: "plain_dict H = H" by (simp add: H_def header_plain minted_entries_def)
  have look: "dict_get H (CInt 1) = Some (CInt code)" "dict_get H (CInt 2) = None" "vds_of H = Some 1"
    using header_lookup(1-3) [of iss sub kid iat grade code] by (simp_all add: H_def vds_of_Some minted_entries_def)
  have h: "receipt_header L (CBytes ?r) = Inr (H, val_of (proof_item ?n i nodes))"
    by (rule minted_header [OF L m(10) hp m(11) P look(2)]) (simp add: look)
  have "val_of (proof_item ?n i nodes) = CDict (plain_dict (receipt_unprotected (enc bi)))" by (rule header_item_val [OF hu])
  then have "header_blobs (val_of (proof_item ?n i nodes)) [enc bi]"
    using b by (auto simp: header_blobs_def receipt_unprotected_def receipt_consts plain_dict_def
        get_or_none_def rule_check_iff)
  then have bl: "receipt_proofs (val_of (proof_item ?n i nodes)) = Inr [enc bi]" by (simp add: receipt_proofs_Inr)
  have "verify_sign1 L K (CBytes ?r) public_pem (Some payload) RECEIPT_UNDERSTOOD
      = Inr \<lparr> s_protected = plain_dict H, s_unprotected = plain_dict (receipt_unprotected (enc bi)), s_payload = payload \<rparr>"
    by (rule verify_message [OF L m(10) hp hu m(11) _ _ _ m(12,13)])
      (use m(14) look P in \<open>auto simp: check_critical_headers_iff HDR_CRIT_def\<close>)
  then have "verify_receipt_steps L K (CBytes ?r) (es ! nat i) public_pem
      = Inr (accept H (at_position (?n, i, root) empty_result))"
    using h bl dec m(2,6) look
    by (simp add: verify_receipt_steps_def verify_rfc9162_def decode_candidates_def reconstruct_root_def
        receipt_consts py_def Let_def)
  moreover have "accept H (at_position (?n, i, root) empty_result) =
     \<lparr> r_ok = True, r_root = Some root, r_tree_size = Some ?n, r_leaf_index = Some i,
       r_errors = [], r_iat = iat, r_issuer = iss, r_subject = sub,
       r_ext = labelled (ext_entries kid grade), r_failed_at = None \<rparr>"
    unfolding H_def minted_entries_def by (subst accept_minted [OF args]) (simp_all add: at_position_def empty_result_def)
  ultimately show ?thesis using m(9) by (auto simp: verify_receipt_def)
qed

section \<open>The CCF path\<close>

definition ccf_input :: "unit \<Rightarrow> bytes \<Rightarrow> bytes \<Rightarrow> bytes" where
  "ccf_input u left right = left @ right"

interpretation ccf_path: step_preimage ccf_input
  by unfold_locales (auto simp: ccf_input_def)

definition ccf_hops :: "(bool \<times> bytes) list \<Rightarrow> unit hop list" where
  "ccf_hops steps = map (Pair ()) steps"

lemma ccf_walk_iff:
  "ccf_walk acc path = Inr root \<longleftrightarrow>
     (\<exists>steps. rmapM ccf_read_step path = Inr steps \<and> root = climb ccf_input acc (ccf_hops steps))"
proof (induction path arbitrary: acc)
  case (Cons p path)
  show ?case
  proof (cases "ccf_read_step p")
    case (Inr s)
    then show ?thesis using Cons
      by (cases s) (auto simp: raise_simps ccf_step_def ccf_hops_def ccf_input_def)
  qed simp
qed (auto simp: ccf_hops_def)

text \<open>What a proof blob says: the leaf's three parts and the steps of the path.\<close>

definition ccf_fields :: "cbor2_lib \<Rightarrow> bytes \<Rightarrow> bytes \<Rightarrow> string \<Rightarrow> bytes \<Rightarrow> (bool \<times> bytes) list \<Rightarrow> bool" where
  "ccf_fields L blob ws ce d steps \<longleftrightarrow>
     (\<exists>proof path. rmap plain (cbor_loads L blob) = Inr (CDict proof) \<and>
        three_of (get_or_none proof (CInt 1)) = Some (CBytes ws, CText ce, CBytes d) \<and>
        as_seq (case dict_get proof (CInt 2) of None \<Rightarrow> CList [] | Some p \<Rightarrow> p) = Some path \<and>
        length path \<le> 64 \<and> rmapM ccf_read_step path = Inr steps) \<and>
     length ws = 32 \<and> length d = 32"

lemma bytes32_Inr: "bytes32 f v = Inr b \<longleftrightarrow> v = CBytes b \<and> length b = 32"
  by (auto simp: bytes32_def split: option.splits)

lemma option_Inl_Inr: "(case x of None \<Rightarrow> Inl f | Some y \<Rightarrow> g y) = Inr z \<longleftrightarrow> (\<exists>y. x = Some y \<and> g y = Inr z)"
  by (cases x) auto

lemma sum_Inl_Inr: "(case x of Inl e \<Rightarrow> Inl (f e) | Inr y \<Rightarrow> g y) = Inr z \<longleftrightarrow> (\<exists>y. x = Inr y \<and> g y = Inr z)"
  by (cases x) auto

lemma verify_ccf_v1_proof_iff:
  "verify_ccf_v1_proof L blob d = Inr root \<longleftrightarrow>
     (\<exists>ws ce steps. ccf_fields L blob ws ce d steps \<and> root = climb ccf_input (ccf_leaf ws ce d) (ccf_hops steps))"
proof
  assume "verify_ccf_v1_proof L blob d = Inr root"
  then obtain v pf ws ce steps path where
    "cbor_loads L blob = Inr v" "plain v = CDict pf"
    "three_of (get_or_none pf (CInt 1)) = Some (CBytes ws, CText ce, CBytes d)"
    "length ws = 32" "length d = 32"
    "as_seq (case dict_get pf (CInt 2) of None \<Rightarrow> CList [] | Some p \<Rightarrow> p) = Some path" "length path \<le> 64"
    "rmapM ccf_read_step path = Inr steps" "root = climb ccf_input (ccf_leaf ws ce d) (ccf_hops steps)"
    by (auto simp: verify_ccf_v1_proof_def option_Inl_Inr sum_Inl_Inr rbind_Inr_iff bytes32_Inr ccf_walk_iff
        MAX_AUDIT_PATH_def not_less split: if_splits)
  then show "\<exists>ws ce steps. ccf_fields L blob ws ce d steps \<and> root = climb ccf_input (ccf_leaf ws ce d) (ccf_hops steps)"
    unfolding ccf_fields_def by auto
next
  assume "\<exists>ws ce steps. ccf_fields L blob ws ce d steps \<and> root = climb ccf_input (ccf_leaf ws ce d) (ccf_hops steps)"
  then obtain ws ce steps pf path v where
    "cbor_loads L blob = Inr v" "plain v = CDict pf"
    "three_of (get_or_none pf (CInt 1)) = Some (CBytes ws, CText ce, CBytes d)"
    "length ws = 32" "length d = 32"
    "as_seq (case dict_get pf (CInt 2) of None \<Rightarrow> CList [] | Some p \<Rightarrow> p) = Some path" "length path \<le> 64"
    "ccf_walk (ccf_leaf ws ce d) path = Inr root"
    unfolding ccf_fields_def rmap_Inr_iff ccf_walk_iff by blast
  then show "verify_ccf_v1_proof L blob d = Inr root"
    by (simp add: verify_ccf_v1_proof_def bytes32_def MAX_AUDIT_PATH_def)
qed

definition ccf_inputs :: "bytes \<Rightarrow> string \<Rightarrow> bytes \<Rightarrow> (bool \<times> bytes) list \<Rightarrow> bytes list" where
  "ccf_inputs ws ce d steps =
     (ws @ sha256 (utf8_encode ce) @ d) # climb_inputs ccf_input (ccf_leaf ws ce d) (ccf_hops steps)"

lemma ccf_binding:
  assumes "ccf_fields L b1 ws1 ce1 d1 s1" "ccf_fields L b2 ws2 ce2 d2 s2" "map fst s1 = map fst s2"
    and "climb ccf_input (ccf_leaf ws1 ce1 d1) (ccf_hops s1) = climb ccf_input (ccf_leaf ws2 ce2 d2) (ccf_hops s2)"
  shows "d1 = d2 \<or> collide (ccf_inputs ws1 ce1 d1 s1) (ccf_inputs ws2 ce2 d2 s2)"
proof -
  have shape: "map hop_shape (ccf_hops s1) = map hop_shape (ccf_hops s2)"
    using assms(3) by (auto simp: ccf_hops_def hop_shape_def list_eq_iff_nth_eq)
  have l: "length (ccf_leaf ws1 ce1 d1) = 32" "length (ccf_leaf ws2 ce2 d2) = 32" by (simp_all add: ccf_leaf_def)
  have n: "length ws1 = 32" "length ws2 = 32" using assms(1,2) by (simp_all add: ccf_fields_def)
  from ccf_path.climb_binding [OF shape l assms(4)] show ?thesis
  proof
    assume "ccf_leaf ws1 ce1 d1 = ccf_leaf ws2 ce2 d2 \<and> ccf_hops s1 = ccf_hops s2"
    then have "ws1 @ sha256 (utf8_encode ce1) @ d1 = ws2 @ sha256 (utf8_encode ce2) @ d2
        \<or> collide (ccf_inputs ws1 ce1 d1 s1) (ccf_inputs ws2 ce2 d2 s2)"
      by (intro sha256_eq_or_collide) (simp_all add: ccf_leaf_def ccf_inputs_def)
    then show ?thesis using n by auto
  next
    assume "collide (climb_inputs ccf_input (ccf_leaf ws1 ce1 d1) (ccf_hops s1))
      (climb_inputs ccf_input (ccf_leaf ws2 ce2 d2) (ccf_hops s2))"
    then show ?thesis by (auto simp: ccf_inputs_def intro: collide_mono)
  qed
qed

section \<open>Properties\<close>

text \<open>The run the witnesses use: a receipt for the second of three entries.\<close>

definition demo_entries :: "string list" where
  "demo_entries = [''0a'', ''0b'', ''0c'']"

lemma demo_root: "merkle_root demo_entries = Inr (to_hex (mth (map leaf_hash_bytes [[10], [11], [12]])))"
  by (simp add: demo_entries_def merkle_root_def entry_leaves_def fromhex_eval)

lemma demo_mintable: "mintable (Some ''a'') None (Some [7]) (Some 5) None"
  by (simp add: mintable_def mint_text_def utf8_valid_def utf8_encode_def byte_of_char_def)

definition demo_result :: receipt_result where
  "demo_result =
     \<lparr> r_ok = True, r_root = Some (to_hex (mth (map leaf_hash_bytes [[10], [11], [12]]))),
       r_tree_size = Some 3, r_leaf_index = Some 1, r_errors = [], r_iat = Some 5, r_issuer = Some ''a'',
       r_subject = None, r_ext = [(CInt 4, CBytes [7])], r_failed_at = None \<rparr>"

lemma demo_receipt:
  obtains receipt where "verify_receipt ref_cbor2 toy_crypto (CBytes receipt) ''0b'' (Pem_Bytes [1]) = Inr demo_result"
  using minted_receipt_verifies [OF ref_cbor2_plain demo_key demo_root, of 1 "Some ''a''" None "Some [7]" "Some 5" None]
    demo_mintable
  by (auto simp: demo_entries_def demo_result_def MAX_TREE_SIZE_def ext_entries_def opt_def labelled_def)

text \<open>C9 (safety). What \<open>ok\<close> stands for. The receipt's octets meet the encoding rule and carry no
  payload; its signature verifies over the root; and that root was rebuilt from the caller's leaf by
  one of the receipt's own proofs, of the structure its protected header names: an RFC 9162
  inclusion proof at the reported position, or the CCF proof over the leaf's digest.\<close>

theorem receipt_ok_sound:
  assumes "verify_receipt L K receipt leaf pem = Inr r" "r_ok r"
  shows "\<exists>blobs payload s vds. accepted L K receipt pem blobs payload s vds \<and> r_root r = Some (to_hex payload) \<and>
     (vds = 1 \<and> (\<exists>n i path blob. r_tree_size r = Some n \<and> r_leaf_index r = Some i \<and> blob \<in> set blobs \<and>
          decode_inclusion_proof L blob = Inr (n, i, path) \<and>
          root_from_inclusion_proof leaf i n path = Inr (Some (to_hex payload)))
    \<or> vds = 2 \<and> (\<exists>claim. fromhex leaf = Inr claim \<and> verify_ccf_v1_proof L (hd blobs) claim = Inr payload))"
  using assms by (rule receipt_sound)

theorem receipt_ok_sound_witness:
  "\<exists>receipt blobs payload s vds. accepted ref_cbor2 toy_crypto receipt (Pem_Bytes [1]) blobs payload s vds
     \<and> r_root demo_result = Some (to_hex payload)"
proof -
  obtain receipt where r: "verify_receipt ref_cbor2 toy_crypto (CBytes receipt) ''0b'' (Pem_Bytes [1]) = Inr demo_result"
    by (rule demo_receipt)
  have "r_ok demo_result" by (simp add: demo_result_def)
  from receipt_ok_sound [OF r this] show ?thesis by blast
qed

text \<open>C10 (safety). A receipt accepted under the root and the size of an honest log is for the entry at
  the reported position. The position and the path are those of an inclusion proof that the receipt
  itself carries, and that proof rebuilds the root from the caller's leaf. Then either the leaf is
  the entry at that position, or two different octet strings with one SHA-256 digest are exhibited:
  one hashed while that proof is followed from the leaf, the other hashed for the log's tree.\<close>

theorem receipt_log_binding:
  assumes "verify_receipt L K receipt leaf pem = Inr r" "r_ok r" "r_tree_size r = Some (int (length es))"
    and "rmapM fromhex es = Inr ents" "merkle_root es = Inr root" "r_root r = Some root"
  shows "\<exists>blobs payload s blob i path. accepted L K receipt pem blobs payload s 1 \<and>
     root = to_hex payload \<and> blob \<in> set blobs \<and> decode_inclusion_proof L blob = Inr (int (length es), i, path) \<and>
     root_from_inclusion_proof leaf i (int (length es)) path = Inr (Some root) \<and>
     r_leaf_index r = Some i \<and> 0 \<le> i \<and> i < int (length es) \<and>
     (fromhex leaf = Inr (ents ! nat i) \<or> collide (inclusion_inputs leaf i (int (length es)) path) (tree_inputs ents))"
  using assms by (rule receipt_log)

theorem receipt_log_binding_witness:
  "\<exists>receipt blobs payload s blob path.
     accepted ref_cbor2 toy_crypto receipt (Pem_Bytes [1]) blobs payload s 1 \<and> blob \<in> set blobs \<and>
     decode_inclusion_proof ref_cbor2 blob = Inr (3, 1, path) \<and>
     (fromhex ''0b'' = Inr ([[10], [11], [12]] ! nat 1)
      \<or> collide (inclusion_inputs ''0b'' 1 3 path) (tree_inputs [[10], [11], [12]]))"
proof -
  obtain receipt where r: "verify_receipt ref_cbor2 toy_crypto (CBytes receipt) ''0b'' (Pem_Bytes [1]) = Inr demo_result"
    by (rule demo_receipt)
  have d: "r_ok demo_result" "r_tree_size demo_result = Some (int (length demo_entries))"
    "r_root demo_result = Some (to_hex (mth (map leaf_hash_bytes [[10], [11], [12]])))" "r_leaf_index demo_result = Some 1"
    by (simp_all add: demo_result_def demo_entries_def)
  have e: "rmapM fromhex demo_entries = Inr [[10], [11], [12]]" by (simp add: demo_entries_def fromhex_eval)
  have l: "int (length demo_entries) = 3" by (simp add: demo_entries_def)
  have i: "1 = i" if "r_leaf_index demo_result = Some i" for i using that d(4) by simp
  from receipt_log_binding [OF r d(1,2) e demo_root d(3)] show ?thesis unfolding l by (metis i)
qed

text \<open>C11 (round trip). A receipt minted for an entry verifies under the log's key: \<open>ok\<close>, the root and
  the position of the entry, and exactly the claims and labels that were given.\<close>

theorem receipt_roundtrip:
  assumes "cbor2_plain L" "key_match K alg private_pem public_pem" "merkle_root es = Inr root"
    and "0 \<le> i" "i < int (length es)" "int (length es) \<le> MAX_TREE_SIZE" "mintable iss sub kid iat grade"
  shows "\<exists>receipt. build_receipt L K (es ! nat i) i es alg private_pem True iss sub kid iat grade = Inr receipt \<and>
     verify_receipt L K (CBytes receipt) (es ! nat i) public_pem =
       Inr \<lparr> r_ok = True, r_root = Some root, r_tree_size = Some (int (length es)), r_leaf_index = Some i,
             r_errors = [], r_iat = iat, r_issuer = iss, r_subject = sub,
             r_ext = labelled (ext_entries kid grade), r_failed_at = None \<rparr>"
  using assms by (rule minted_receipt_verifies)

theorem receipt_roundtrip_witness:
  "\<exists>receipt. build_receipt ref_cbor2 toy_crypto ''0b'' 1 demo_entries ''EdDSA'' (Pem_Bytes [1]) True
       (Some ''a'') None (Some [7]) (Some 5) None = Inr receipt \<and>
     verify_receipt ref_cbor2 toy_crypto (CBytes receipt) ''0b'' (Pem_Bytes [1]) = Inr demo_result"
  using receipt_roundtrip [OF ref_cbor2_plain demo_key demo_root, of 1 "Some ''a''" None "Some [7]" "Some 5" None]
    demo_mintable
  by (auto simp: demo_entries_def demo_result_def MAX_TREE_SIZE_def ext_entries_def opt_def labelled_def)

text \<open>C12 (invariant). The shape of every result: an accepted receipt has a root, no error and no
  failure step; a refused one has an error, none of the header claims, and either failed at
  \<open>structure\<close> with no root, size or position, or at \<open>signature\<close> with a rebuilt root. And there is a result
  for every input: when the library calls \<open>verify_sign1\<close> leaves unwrapped do not raise,
  \<open>verify_receipt\<close> never raises.\<close>

theorem receipt_result_shape:
  "(\<forall>r. verify_receipt L K receipt leaf pem = Inr r \<longrightarrow> result_shape r) \<and>
   (libs_total L K \<longrightarrow> (\<exists>r. verify_receipt L K receipt leaf pem = Inr r))"
  using verify_receipt_shape verify_receipt_total by blast

theorem receipt_result_shape_witness:
  "\<exists>r. verify_receipt ref_cbor2 toy_crypto (CBytes [210, 132]) ''zz'' (Pem_Str ''k'') = Inr r \<and> result_shape r"
proof -
  have "libs_total ref_cbor2 toy_crypto"
    by (simp add: libs_total_def ref_cbor2_def ref_encode_def toy_crypto_def sig_structure_def sig_structure_value_def)
  then show ?thesis using receipt_result_shape [of ref_cbor2 toy_crypto "CBytes [210, 132]" "''zz''" "Pem_Str ''k''"] by blast
qed

text \<open>C19 (safety). The issue time, issuer, subject and extension labels of an accepted receipt are read
  from the protected header the signature covers, and from nowhere else.\<close>

theorem receipt_claims_are_signed:
  assumes "verify_receipt L K receipt leaf pem = Inr r" "r_ok r"
  shows "\<exists>blobs payload s vds. accepted L K receipt pem blobs payload s vds \<and>
           r = accept (s_protected s) (r \<lparr> r_ok := False, r_iat := None, r_issuer := None, r_subject := None, r_ext := [] \<rparr>)"
  using assms by (rule receipt_claims_signed)

theorem receipt_claims_are_signed_witness:
  "\<exists>receipt blobs payload s vds. accepted ref_cbor2 toy_crypto receipt (Pem_Bytes [1]) blobs payload s vds \<and>
     r_iat (accept (s_protected s) (demo_result \<lparr> r_ok := False, r_iat := None, r_issuer := None, r_subject := None, r_ext := [] \<rparr>))
       = Some 5"
proof -
  obtain receipt where r: "verify_receipt ref_cbor2 toy_crypto (CBytes receipt) ''0b'' (Pem_Bytes [1]) = Inr demo_result"
    by (rule demo_receipt)
  have d: "r_ok demo_result" "r_iat demo_result = Some 5" by (simp_all add: demo_result_def)
  from receipt_claims_are_signed [OF r d(1)] d(2) show ?thesis by metis
qed

text \<open>C15 (safety). Two CCF proofs of one root along the same sides are for the same claim digest, or an
  octet string hashed for the one collides with one hashed for the other.\<close>

theorem ccf_root_binding:
  assumes "verify_ccf_v1_proof L b1 d1 = Inr root" "verify_ccf_v1_proof L b2 d2 = Inr root"
  shows "\<exists>ws1 ce1 s1 ws2 ce2 s2. ccf_fields L b1 ws1 ce1 d1 s1 \<and> ccf_fields L b2 ws2 ce2 d2 s2 \<and>
     (map fst s1 = map fst s2 \<longrightarrow> d1 = d2 \<or> collide (ccf_inputs ws1 ce1 d1 s1) (ccf_inputs ws2 ce2 d2 s2))"
  using assms ccf_binding unfolding verify_ccf_v1_proof_iff by metis

definition demo_ccf :: cbor2_lib where
  "demo_ccf = ref_cbor2 \<lparr> cbor_loads := (\<lambda>b. Inr (CDict
     [(CInt 1, CList [CBytes (replicate 32 7), CText ''ce'', CBytes (replicate 32 9)])])) \<rparr>"

theorem ccf_root_binding_witness:
  "\<exists>ws1 ce1 s1 ws2 ce2 s2. ccf_fields demo_ccf [1] ws1 ce1 (replicate 32 9) s1
     \<and> ccf_fields demo_ccf [2] ws2 ce2 (replicate 32 9) s2"
proof -
  have v: "verify_ccf_v1_proof demo_ccf b (replicate 32 9) = Inr (ccf_leaf (replicate 32 7) ''ce'' (replicate 32 9))" for b
    by (simp add: verify_ccf_v1_proof_def demo_ccf_def get_or_none_def three_of_def bytes32_def MAX_AUDIT_PATH_def)
  from ccf_root_binding [OF v [of "[1]"] v [of "[2]"]] show ?thesis by blast
qed

end
