(* ===== verification/Mmr.thy ===== *)
theory Mmr
  imports Hash_Path Json
begin

text \<open>
  The Merkle mountain range under \<open>src/scitt_cose/cll.py\<close>: its hashes, the arithmetic of node
  positions, the shapes of the three kinds of proof and the functions that verify them.
  Node positions, sizes and leaf indices are Python integers; heights are natural numbers.
\<close>

section \<open>Errors\<close>

text \<open>\<open>InvalidArgumentError\<close>, or an exception of the standard library.\<close>

datatype cll_exn = InvalidArgument | Py py_exn

definition py_raise :: "py_exn + 'a \<Rightarrow> cll_exn + 'a" where
  "py_raise r = (case r of Inl e \<Rightarrow> Inl (Py e) | Inr x \<Rightarrow> Inr x)"

definition require :: "bool \<Rightarrow> cll_exn + unit" where
  "require b = (if b then Inr () else Inl InvalidArgument)"

lemma py_raise_Inr [raise_simps]: "py_raise r = Inr x \<longleftrightarrow> r = Inr x"
  by (cases r) (auto simp: py_raise_def)

lemma require_Inr [raise_simps]: "require b = Inr u \<longleftrightarrow> b"
  by (simp add: require_def)

lemma require_simps [simp]: "require True = Inr ()" "require False = Inl InvalidArgument"
  by (simp_all add: require_def)

section \<open>Hashes\<close>

definition DIGEST_LEN :: nat where "DIGEST_LEN = 32"
definition MAX_MMR_SIZE :: int where "MAX_MMR_SIZE = 2 ^ 50"

definition assert_digest :: "bytes \<Rightarrow> cll_exn + unit" where
  "assert_digest d = require (length d = DIGEST_LEN)"

definition require_nonneg_int :: "int \<Rightarrow> cll_exn + unit" where
  "require_nonneg_int n = require (0 \<le> n)"

definition mmr_leaf_hash :: "bytes \<Rightarrow> cll_exn + bytes" where
  "mmr_leaf_hash body_digest =
     rbind (assert_digest body_digest) (\<lambda>_. Inr (sha256 ([0x00] @ body_digest)))"

definition interior_hash :: "bytes \<Rightarrow> bytes \<Rightarrow> int \<Rightarrow> cll_exn + bytes" where
  "interior_hash left right position =
     rbind (assert_digest left) (\<lambda>_.
     rbind (assert_digest right) (\<lambda>_.
     rbind (require_nonneg_int position) (\<lambda>_.
     rbind (py_raise (to_bytes_be 8 (nat (position + 1)))) (\<lambda>pos_bytes.
     Inr (sha256 (pos_bytes @ left @ right))))))"

text \<open>The loop of \<open>root_from_peaks\<close> works on the end of its list; here the list is reversed.\<close>

fun bag_reversed :: "bytes list \<Rightarrow> bytes" where
  "bag_reversed (right # left # hashes) = bag_reversed (sha256 (right @ left) # hashes)"
| "bag_reversed [h] = h"
| "bag_reversed [] = []"

definition root_from_peaks :: "bytes list \<Rightarrow> cll_exn + bytes" where
  "root_from_peaks peak_hashes =
     (if peak_hashes = [] then Inr (replicate DIGEST_LEN 0)
      else rbind (rmapM assert_digest peak_hashes) (\<lambda>_. Inr (bag_reversed (rev peak_hashes))))"

section \<open>Positions\<close>

text \<open>\<open>height_at\<close>: the first loop finds a perfect tree that is large enough, the second descends
  in it.\<close>

function height_up :: "nat \<Rightarrow> nat \<Rightarrow> nat" where
  "height_up pos1 h = (if 2 ^ (h + 1) - 1 < pos1 then height_up pos1 (h + 1) else h)"
  by pat_completeness auto
termination
proof (relation "measure (\<lambda>(pos1, h). pos1 - h)")
  fix pos1 h :: nat
  define x :: nat where "x = 2 ^ h"
  have "h < x" unfolding x_def by (rule less_exp)
  moreover assume "2 ^ (h + 1) - 1 < pos1"
  then have "2 * x - 1 < pos1" by (simp add: x_def)
  ultimately have "h < pos1" by arith
  then show "((pos1, h + 1), pos1, h) \<in> measure (\<lambda>(pos1, h). pos1 - h)"
    by simp
qed simp

declare height_up.simps [simp del]

fun height_down :: "nat \<Rightarrow> nat \<Rightarrow> nat" where
  "height_down pos1 0 = 0"
| "height_down pos1 (Suc h) =
     (if pos1 = 2 ^ (Suc h + 1) - 1 then Suc h
      else height_down (if 2 ^ Suc h - 1 < pos1 then pos1 - (2 ^ Suc h - 1) else pos1) h)"

definition height_at :: "int \<Rightarrow> cll_exn + nat" where
  "height_at pos =
     rbind (require_nonneg_int pos) (\<lambda>_.
     Inr (let pos1 = nat pos + 1 in height_down pos1 (height_up pos1 0)))"

text \<open>\<open>bin(n).count("1")\<close>\<close>

fun popcount :: "nat \<Rightarrow> nat" where
  "popcount n = (if n = 0 then 0 else n mod 2 + popcount (n div 2))"

declare popcount.simps [simp del]

definition node_count :: "int \<Rightarrow> cll_exn + int" where
  "node_count n_leaves =
     rbind (require_nonneg_int n_leaves) (\<lambda>_.
     Inr (2 * n_leaves - int (popcount (nat n_leaves))))"

text \<open>The height of the largest perfect tree of at most \<open>remaining\<close> nodes.\<close>

function peak_height :: "nat \<Rightarrow> nat \<Rightarrow> nat" where
  "peak_height remaining h = (if 2 ^ (h + 2) - 1 \<le> remaining then peak_height remaining (h + 1) else h)"
  by pat_completeness auto
termination
proof (relation "measure (\<lambda>(remaining, h). remaining - h)")
  fix remaining h :: nat
  define x :: nat where "x = 2 ^ h"
  have "h < x" unfolding x_def by (rule less_exp)
  moreover assume "2 ^ (h + 2) - 1 \<le> remaining"
  then have "4 * x - 1 \<le> remaining" by (simp add: x_def)
  ultimately have "h < remaining" by arith
  then show "((remaining, h + 1), remaining, h) \<in> measure (\<lambda>(remaining, h). remaining - h)"
    by simp
qed simp

declare peak_height.simps [simp del]

text \<open>The loop of \<open>peaks\<close>; \<open>None\<close> is the infinite \<open>prev_height\<close> it starts with.\<close>

function peaks_loop :: "nat \<Rightarrow> int \<Rightarrow> nat option \<Rightarrow> cll_exn + int list" where
  "peaks_loop remaining offset prev_height =
     (if remaining = 0 then Inr []
      else
        (let h = peak_height remaining 0; m_size = 2 ^ (h + 1) - 1
         in if (case prev_height of None \<Rightarrow> False | Some prev \<Rightarrow> prev \<le> h) then Inl InvalidArgument
            else rmap (Cons (offset + int m_size - 1))
                   (peaks_loop (remaining - m_size) (offset + int m_size) (Some h))))"
  by pat_completeness auto
termination
proof (relation "measure (\<lambda>(remaining, offset, prev). remaining)", goal_cases)
  case (2 remaining offset prev_height h m_size)
  have "(1 :: nat) < 2 ^ (h + 1)" by (rule one_less_power) auto
  then show ?case using 2 by simp
qed simp

declare peaks_loop.simps [simp del]

definition peaks :: "int \<Rightarrow> cll_exn + int list" where
  "peaks sz =
     (if sz < 0 \<or> MAX_MMR_SIZE \<le> sz then Inl InvalidArgument else peaks_loop (nat sz) 0 None)"

definition leaf_count :: "int \<Rightarrow> cll_exn + int" where
  "leaf_count sz =
     rbind (peaks sz) (\<lambda>pks.
     rmap sum_list (rmapM (\<lambda>p. rmap (\<lambda>h. 2 ^ h) (height_at p)) pks))"

definition leaf_index_to_pos :: "int \<Rightarrow> cll_exn + int" where
  "leaf_index_to_pos leaf_index =
     rbind (require_nonneg_int leaf_index) (\<lambda>_.
     rbind (node_count leaf_index) (\<lambda>pos.
     if MAX_MMR_SIZE \<le> pos then Inl InvalidArgument else Inr pos))"

section \<open>Paths\<close>

record path_step =
  sibling_pos :: int
  target_is_right :: bool
  parent_pos :: int

text \<open>The index of the peak whose mountain holds \<open>pos\<close>; \<open>None\<close> is the result \<open>-1\<close>.\<close>

fun find_containing_peak :: "int \<Rightarrow> int list \<Rightarrow> cll_exn + nat option" where
  "find_containing_peak pos [] = Inr None"
| "find_containing_peak pos (peak_pos # rest) =
     rbind (height_at peak_pos) (\<lambda>h.
     let m_size = 2 ^ (h + 1) - 1; start = peak_pos - m_size + 1
     in if start \<le> pos \<and> pos \<le> peak_pos then Inr (Some 0)
        else rmap (map_option Suc) (find_containing_peak pos rest))"

text \<open>The steps from \<open>target_pos\<close> up to \<open>root_pos\<close>; the code collects them top down and
  reverses.\<close>

fun locate_down :: "int \<Rightarrow> nat \<Rightarrow> int \<Rightarrow> path_step list" where
  "locate_down cur_root 0 target_pos = []"
| "locate_down cur_root (Suc h) target_pos =
     (if cur_root = target_pos then []
      else
        (let left_size = 2 ^ Suc h - 1;
             left_child_root = cur_root - left_size - 1;
             right_child_root = cur_root - 1
         in if target_pos \<le> left_child_root
            then \<lparr>sibling_pos = right_child_root, target_is_right = False, parent_pos = cur_root\<rparr>
                   # locate_down left_child_root h target_pos
            else \<lparr>sibling_pos = left_child_root, target_is_right = True, parent_pos = cur_root\<rparr>
                   # locate_down right_child_root h target_pos))"

definition locate_path :: "int \<Rightarrow> nat \<Rightarrow> int \<Rightarrow> path_step list" where
  "locate_path root_pos height target_pos = rev (locate_down root_pos height target_pos)"

definition parse_digest_hex :: "json \<Rightarrow> cll_exn + bytes" where
  "parse_digest_hex h =
     (case as_str h of
        None \<Rightarrow> Inl InvalidArgument
      | Some s \<Rightarrow> rbind (py_raise (fromhex s)) (\<lambda>b.
                   if length b = DIGEST_LEN then Inr b else Inl InvalidArgument))"

text \<open>The loop both verifiers run over a path and the sibling hashes for it.\<close>

fun fold_path :: "bytes \<Rightarrow> (path_step \<times> bytes) list \<Rightarrow> cll_exn + bytes" where
  "fold_path acc [] = Inr acc"
| "fold_path acc ((step, sib) # rest) =
     rbind (if target_is_right step then interior_hash sib acc (parent_pos step)
            else interior_hash acc sib (parent_pos step)) (\<lambda>acc'.
     fold_path acc' rest)"

section \<open>Proofs\<close>

record inclusion_proof =
  ip_v :: int
  ip_kind :: json
  ip_size :: int
  ip_leaf_index :: int
  ip_witness :: "json list"
  ip_peaks_left :: "json list"
  ip_peaks_right :: "json list"

definition inclusion_from_dict :: "json \<Rightarrow> py_exn + inclusion_proof" where
  "inclusion_from_dict d =
     rbind (rbind (jindex d ''v'') json_int) (\<lambda>v'.
     rbind (jindex d ''kind'') (\<lambda>kind'.
     rbind (rbind (jindex d ''size'') json_int) (\<lambda>size'.
     rbind (rbind (jindex d ''leaf_index'') json_int) (\<lambda>leaf_index'.
     rbind (rbind (jindex d ''witness'') json_iter) (\<lambda>witness'.
     rbind (rbind (jindex d ''peaks_left'') json_iter) (\<lambda>peaks_left'.
     rbind (rbind (jindex d ''peaks_right'') json_iter) (\<lambda>peaks_right'.
     Inr \<lparr>ip_v = v', ip_kind = kind', ip_size = size', ip_leaf_index = leaf_index', ip_witness = witness',
          ip_peaks_left = peaks_left', ip_peaks_right = peaks_right'\<rparr>)))))))"

definition inclusion_to_dict :: "inclusion_proof \<Rightarrow> json" where
  "inclusion_to_dict p = JObj
     [(''v'', JInt (ip_v p)), (''kind'', ip_kind p), (''size'', JInt (ip_size p)),
      (''leaf_index'', JInt (ip_leaf_index p)), (''witness'', JList (ip_witness p)),
      (''peaks_left'', JList (ip_peaks_left p)), (''peaks_right'', JList (ip_peaks_right p))]"

record consistency_proof =
  cp_v :: int
  cp_kind :: json
  cp_size_a :: int
  cp_size_b :: int
  cp_old_peaks :: "json list"
  cp_witness :: "json list list"
  cp_new_peaks :: "json list"

definition consistency_from_dict :: "json \<Rightarrow> py_exn + consistency_proof" where
  "consistency_from_dict d =
     rbind (rbind (jindex d ''v'') json_int) (\<lambda>v'.
     rbind (jindex d ''kind'') (\<lambda>kind'.
     rbind (rbind (jindex d ''size_a'') json_int) (\<lambda>size_a'.
     rbind (rbind (jindex d ''size_b'') json_int) (\<lambda>size_b'.
     rbind (rbind (jindex d ''old_peaks'') json_iter) (\<lambda>old_peaks'.
     rbind (rbind (rbind (jindex d ''witness'') json_iter) (rmapM json_iter)) (\<lambda>witness'.
     rbind (rbind (jindex d ''new_peaks'') json_iter) (\<lambda>new_peaks'.
     Inr \<lparr>cp_v = v', cp_kind = kind', cp_size_a = size_a', cp_size_b = size_b', cp_old_peaks = old_peaks',
          cp_witness = witness', cp_new_peaks = new_peaks'\<rparr>)))))))"

definition consistency_to_dict :: "consistency_proof \<Rightarrow> json" where
  "consistency_to_dict p = JObj
     [(''v'', JInt (cp_v p)), (''kind'', cp_kind p), (''size_a'', JInt (cp_size_a p)),
      (''size_b'', JInt (cp_size_b p)), (''old_peaks'', JList (cp_old_peaks p)),
      (''witness'', JList (map JList (cp_witness p))), (''new_peaks'', JList (cp_new_peaks p))]"

record range_proof =
  rp_from_seq :: int
  rp_to_seq :: int
  rp_size :: int
  rp_from_index :: int
  rp_to_index :: int
  rp_witness :: "json list"

definition range_from_dict :: "json \<Rightarrow> py_exn + range_proof" where
  "range_from_dict d =
     rbind (rbind (jindex d ''from_seq'') json_int) (\<lambda>from_seq'.
     rbind (rbind (jindex d ''to_seq'') json_int) (\<lambda>to_seq'.
     rbind (rbind (jindex d ''size'') json_int) (\<lambda>size'.
     rbind (rbind (jindex d ''from_index'') json_int) (\<lambda>from_index'.
     rbind (rbind (jindex d ''to_index'') json_int) (\<lambda>to_index'.
     rbind (rbind (jindex d ''witness'') json_iter) (\<lambda>witness'.
     Inr \<lparr>rp_from_seq = from_seq', rp_to_seq = to_seq', rp_size = size', rp_from_index = from_index',
          rp_to_index = to_index', rp_witness = witness'\<rparr>))))))"

definition range_to_dict :: "range_proof \<Rightarrow> json" where
  "range_to_dict p = JObj
     [(''from_seq'', JInt (rp_from_seq p)), (''to_seq'', JInt (rp_to_seq p)), (''size'', JInt (rp_size p)),
      (''from_index'', JInt (rp_from_index p)), (''to_index'', JInt (rp_to_index p)),
      (''witness'', JList (rp_witness p))]"

section \<open>Verifiers\<close>

text \<open>\<open>try: ... except Exception: return False\<close>\<close>

definition never_raises :: "cll_exn + bool \<Rightarrow> bool" where
  "never_raises r = (case r of Inl e \<Rightarrow> False | Inr b \<Rightarrow> b)"

lemma never_raises_iff: "never_raises r \<longleftrightarrow> r = Inr True"
  by (cases r) (auto simp: never_raises_def)

text \<open>\<open>if not cond: return False\<close>\<close>

definition check :: "bool \<Rightarrow> (cll_exn + bool) \<Rightarrow> cll_exn + bool" where
  "check b r = (if b then r else Inr False)"

lemma check_True: "check b r = Inr True \<longleftrightarrow> b \<and> r = Inr True"
  by (simp add: check_def)

definition inclusion_body :: "bytes \<Rightarrow> int \<Rightarrow> int \<Rightarrow> bytes \<Rightarrow> inclusion_proof option \<Rightarrow> cll_exn + bool" where
  "inclusion_body root sz idx body_digest proof_opt =
     rbind (assert_digest root) (\<lambda>_.
     rbind (assert_digest body_digest) (\<lambda>_.
     case proof_opt of
       None \<Rightarrow> Inr False
     | Some pf \<Rightarrow>
         check (ip_v pf = 1 \<and> ip_kind pf = JStr ''inclusion'') (
         check (ip_size pf = sz \<and> ip_leaf_index pf = idx) (
         check (0 \<le> sz \<and> sz < MAX_MMR_SIZE) (
         check (0 \<le> idx) (
         rbind (leaf_count sz) (\<lambda>lc.
         check (idx < lc) (
         rbind (leaf_index_to_pos idx) (\<lambda>leaf_pos.
         rbind (peaks sz) (\<lambda>pks.
         rbind (find_containing_peak leaf_pos pks) (\<lambda>found.
         case found of
           None \<Rightarrow> Inr False
         | Some peak_idx \<Rightarrow>
             (let peak_pos = pks ! peak_idx
              in rbind (height_at peak_pos) (\<lambda>peak_height.
                 let path = locate_path peak_pos peak_height leaf_pos
                 in check (length (ip_witness pf) = length path) (
                    check (length (ip_peaks_left pf) = peak_idx) (
                    check (length (ip_peaks_right pf) = length pks - peak_idx - 1) (
                    rbind (rmapM parse_digest_hex (ip_witness pf)) (\<lambda>witness_bytes.
                    rbind (rmapM parse_digest_hex (ip_peaks_left pf)) (\<lambda>peaks_left_bytes.
                    rbind (rmapM parse_digest_hex (ip_peaks_right pf)) (\<lambda>peaks_right_bytes.
                    rbind (mmr_leaf_hash body_digest) (\<lambda>leaf.
                    rbind (fold_path leaf (zip path witness_bytes)) (\<lambda>acc.
                    rbind (root_from_peaks (peaks_left_bytes @ [acc] @ peaks_right_bytes)) (\<lambda>computed_root.
                    Inr (computed_root = root)))))))))))))))))))))))"

definition mmr_verify_inclusion ::
    "bytes \<Rightarrow> int \<Rightarrow> int \<Rightarrow> bytes \<Rightarrow> inclusion_proof option \<Rightarrow> bool" where
  "mmr_verify_inclusion root sz idx body_digest proof_opt =
     never_raises (inclusion_body root sz idx body_digest proof_opt)"

text \<open>The loop over the old peaks: each must climb to the new peak whose mountain holds it.\<close>

fun check_old_peaks ::
    "int list \<Rightarrow> bytes list \<Rightarrow> (int \<times> bytes \<times> json list) list \<Rightarrow> cll_exn + bool" where
  "check_old_peaks new_positions new_bytes [] = Inr True"
| "check_old_peaks new_positions new_bytes ((p, old, w) # rest) =
     rbind (find_containing_peak p new_positions) (\<lambda>found.
     case found of
       None \<Rightarrow> Inr False
     | Some i \<Rightarrow>
         (let new_peak_pos = new_positions ! i
          in rbind (height_at new_peak_pos) (\<lambda>new_peak_height.
             let path = locate_path new_peak_pos new_peak_height p
             in check (length w = length path) (
                rbind (rmapM parse_digest_hex w) (\<lambda>w_bytes.
                rbind (fold_path old (zip path w_bytes)) (\<lambda>acc.
                check (acc = new_bytes ! i) (check_old_peaks new_positions new_bytes rest)))))))"

definition consistency_body ::
    "bytes \<Rightarrow> int \<Rightarrow> bytes \<Rightarrow> int \<Rightarrow> consistency_proof option \<Rightarrow> cll_exn + bool" where
  "consistency_body root_a sa root_b sb proof_opt =
     rbind (assert_digest root_a) (\<lambda>_.
     rbind (assert_digest root_b) (\<lambda>_.
     case proof_opt of
       None \<Rightarrow> Inr False
     | Some pf \<Rightarrow>
         check (cp_v pf = 1 \<and> cp_kind pf = JStr ''consistency'') (
         check (cp_size_a pf = sa \<and> cp_size_b pf = sb) (
         check (0 \<le> sa) (
         check (sa \<le> sb) (
         rbind (peaks sa) (\<lambda>old_peak_positions.
         rbind (peaks sb) (\<lambda>new_peak_positions.
         check (length (cp_old_peaks pf) = length old_peak_positions) (
         check (length (cp_new_peaks pf) = length new_peak_positions) (
         check (length (cp_witness pf) = length old_peak_positions) (
         rbind (rmapM parse_digest_hex (cp_old_peaks pf)) (\<lambda>old_peaks_bytes.
         rbind (rmapM parse_digest_hex (cp_new_peaks pf)) (\<lambda>new_peaks_bytes.
         rbind (root_from_peaks old_peaks_bytes) (\<lambda>ra.
         check (ra = root_a) (
         rbind (root_from_peaks new_peaks_bytes) (\<lambda>rb.
         check (rb = root_b) (
         check_old_peaks new_peak_positions new_peaks_bytes
           (zip old_peak_positions (zip old_peaks_bytes (cp_witness pf))))))))))))))))))))"

definition mmr_verify_consistency ::
    "bytes \<Rightarrow> int \<Rightarrow> bytes \<Rightarrow> int \<Rightarrow> consistency_proof option \<Rightarrow> bool" where
  "mmr_verify_consistency root_a sa root_b sb proof_opt =
     never_raises (consistency_body root_a sa root_b sb proof_opt)"

text \<open>\<open>_reconstruct_range_subtree\<close>; the one-element list \<open>cursor\<close> is threaded as a number.
  \<open>body_digests\<close> is the dict from leaf index to digest.\<close>

fun reconstruct ::
    "int \<Rightarrow> nat \<Rightarrow> int \<Rightarrow> int \<Rightarrow> int \<Rightarrow> (int \<Rightarrow> bytes option) \<Rightarrow> bytes list \<Rightarrow> nat \<Rightarrow>
     cll_exn + bytes \<times> nat" where
  "reconstruct pos height leaf_start lo hi body_digests witness_bytes cursor =
     (let leaf_end = leaf_start + 2 ^ height - 1
      in if leaf_end < lo \<or> hi < leaf_start then
           (if length witness_bytes \<le> cursor then Inl InvalidArgument
            else Inr (witness_bytes ! cursor, cursor + 1))
         else
           (case height of
              0 \<Rightarrow>
                (case body_digests leaf_start of
                   None \<Rightarrow> Inl (Py KeyError)
                 | Some d \<Rightarrow> rmap (\<lambda>h. (h, cursor)) (mmr_leaf_hash d))
            | Suc h \<Rightarrow>
                rbind (reconstruct (pos - 2 ^ height) h leaf_start lo hi body_digests witness_bytes cursor)
                  (\<lambda>(left, cursor').
                rbind (reconstruct (pos - 1) h (leaf_start + 2 ^ h) lo hi body_digests witness_bytes cursor')
                  (\<lambda>(right, cursor'').
                rmap (\<lambda>d. (d, cursor'')) (interior_hash left right pos)))))"

declare reconstruct.simps [simp del]

fun reconstruct_peaks ::
    "int list \<Rightarrow> int \<Rightarrow> int \<Rightarrow> int \<Rightarrow> (int \<Rightarrow> bytes option) \<Rightarrow> bytes list \<Rightarrow> nat \<Rightarrow>
     cll_exn + bytes list \<times> nat" where
  "reconstruct_peaks [] leaf_start lo hi body_digests witness_bytes cursor = Inr ([], cursor)"
| "reconstruct_peaks (p # rest) leaf_start lo hi body_digests witness_bytes cursor =
     rbind (height_at p) (\<lambda>h.
     rbind (reconstruct p h leaf_start lo hi body_digests witness_bytes cursor) (\<lambda>(d, cursor').
     rmap (\<lambda>(ds, cursor''). (d # ds, cursor''))
       (reconstruct_peaks rest (leaf_start + 2 ^ h) lo hi body_digests witness_bytes cursor')))"

text \<open>\<open>{from_index + i: d for i, d in enumerate(body_digests)}\<close>\<close>

definition digest_by_index :: "int \<Rightarrow> bytes list \<Rightarrow> int \<Rightarrow> bytes option" where
  "digest_by_index first ds i =
     (if first \<le> i \<and> i < first + int (length ds) then Some (ds ! nat (i - first)) else None)"

definition range_body :: "bytes \<Rightarrow> int \<Rightarrow> int \<Rightarrow> bytes list \<Rightarrow> range_proof option \<Rightarrow> cll_exn + bool" where
  "range_body root fseq tseq body_digests proof_opt =
     rbind (assert_digest root) (\<lambda>_.
     case proof_opt of
       None \<Rightarrow> Inr False
     | Some pf \<Rightarrow>
         check (rp_from_seq pf = fseq \<and> rp_to_seq pf = tseq) (
         check (1 \<le> fseq \<and> fseq \<le> tseq) (
         rbind (leaf_count (rp_size pf)) (\<lambda>lc.
         check (lc = tseq) (
         check (rp_from_index pf = fseq - 1 \<and> rp_to_index pf = tseq - 1) (
         check (int (length body_digests) = rp_to_index pf - rp_from_index pf + 1) (
         rbind (rmapM assert_digest body_digests) (\<lambda>_.
         rbind (rmapM parse_digest_hex (rp_witness pf)) (\<lambda>witness_bytes.
         rbind (peaks (rp_size pf)) (\<lambda>pks.
         rbind (reconstruct_peaks pks 0 (rp_from_index pf) (rp_to_index pf)
                  (digest_by_index (rp_from_index pf) body_digests) witness_bytes 0)
           (\<lambda>(reconstructed_peaks, cursor).
         check (cursor = length witness_bytes) (
         rbind (root_from_peaks reconstructed_peaks) (\<lambda>computed_root.
         Inr (computed_root = root))))))))))))))"

definition mmr_verify_range :: "bytes \<Rightarrow> int \<Rightarrow> int \<Rightarrow> bytes list \<Rightarrow> range_proof option \<Rightarrow> bool" where
  "mmr_verify_range root fseq tseq body_digests proof_opt =
     never_raises (range_body root fseq tseq body_digests proof_opt)"

end
