(* ===== verification/Mmr_Layout.thy ===== *)
theory Mmr_Layout
  imports Mmr
begin

text \<open>
  Where the nodes of a Merkle mountain range lie, and that the position arithmetic of
  \<open>src/scitt_cose/cll.py\<close> computes it. A node is named by its height and the index of its first
  leaf; \<open>node_pos\<close> is its place in the flat array in which the range is stored. The mountains of
  \<open>n\<close> leaves are read off the binary digits of \<open>n\<close>.
\<close>

section \<open>Counting nodes\<close>

definition nodes :: "nat \<Rightarrow> nat" where
  "nodes n = 2 * n - popcount n"

definition node_pos :: "nat \<Rightarrow> nat \<Rightarrow> nat" where
  "node_pos k s = nodes s + 2 ^ (k + 1) - 2"

lemma popcount_0 [simp]: "popcount 0 = 0"
  by (simp add: popcount.simps)

lemma popcount_double [simp]: "popcount (2 * n) = popcount n"
  by (cases "n = 0") (simp_all add: popcount.simps [of "2 * n"])

lemma popcount_double_Suc [simp]: "popcount (Suc (2 * n)) = Suc (popcount n)"
  by (simp add: popcount.simps [of "Suc (2 * n)"])

lemma popcount_le: "popcount n \<le> n"
proof (induction n rule: less_induct)
  case (less n)
  show ?case
  proof (cases "n = 0")
    case False
    then have "popcount (n div 2) \<le> n div 2" using less by simp
    then show ?thesis using popcount.simps [of n] by presburger
  qed simp
qed

lemma popcount_pos: "0 < n \<Longrightarrow> 0 < popcount n"
proof (induction n rule: less_induct)
  case (less n)
  then show ?case
    by (cases "even n") (auto elim!: evenE oddE)
qed

lemma popcount_Suc: "popcount (Suc n) \<le> Suc (popcount n)"
proof (induction n rule: less_induct)
  case (less n)
  show ?case
  proof (cases "even n")
    case False
    then obtain m where n: "n = Suc (2 * m)" by (auto elim: oddE)
    have "popcount (Suc n) = popcount (Suc m)" using popcount_double [of "Suc m"] n by simp
    also have "\<dots> \<le> Suc (popcount m)" using less n by simp
    finally show ?thesis using n by simp
  qed (auto elim!: evenE)
qed

lemma popcount_split: "r < 2 ^ m \<Longrightarrow> popcount (2 ^ m * q + r) = popcount q + popcount r"
proof (induction m arbitrary: r)
  case (Suc m)
  have low: "popcount (2 * x + r mod 2) = popcount x + r mod 2" for x
    by (cases "even r") (auto simp: odd_iff_mod_2_eq_one)
  have "popcount (2 ^ Suc m * q + r) = popcount (2 * (2 ^ m * q + r div 2) + r mod 2)"
    by (rule arg_cong [of _ _ popcount]) simp
  also have "\<dots> = popcount q + popcount (r div 2) + r mod 2" using Suc by (simp only: low) simp
  also have "\<dots> = popcount q + popcount r" using low [of "r div 2"] by simp
  finally show ?case .
qed simp

lemma popcount_pow2 [simp]: "popcount (2 ^ m) = 1"
proof (induction m)
  case 0
  show ?case using popcount_double_Suc [of 0] by simp
qed simp

lemma nodes_0 [simp]: "nodes 0 = 0"
  by (simp add: nodes_def)

lemma nodes_add: "nodes n + popcount n = 2 * n"
  using popcount_le [of n] by (simp add: nodes_def)

lemma nodes_split:
  assumes "2 ^ m dvd s" "r < 2 ^ m"
  shows "nodes (s + r) = nodes s + nodes r"
proof -
  obtain q where q: "s = 2 ^ m * q" using assms(1) by (auto elim: dvdE)
  have "popcount (s + r) = popcount s + popcount r"
    using popcount_split [OF assms(2), of q] popcount_split [of 0 m q] q by simp
  then show ?thesis using nodes_add [of s] nodes_add [of r] nodes_add [of "s + r"] by simp
qed

lemma nodes_pow2 [simp]: "nodes (2 ^ m) = 2 ^ (m + 1) - 1"
  by (simp add: nodes_def)

lemma nodes_Suc: "nodes n < nodes (Suc n)"
  using popcount_Suc [of n] nodes_add [of n] nodes_add [of "Suc n"] by simp

lemma nodes_less: "m < n \<Longrightarrow> nodes m < nodes n"
  using nodes_Suc by (rule lift_Suc_mono_less)

lemma nodes_mono: "m \<le> n \<Longrightarrow> nodes m \<le> nodes n"
  using nodes_less [of m n] by (cases "m = n") auto

lemma nodes_inject [simp]: "nodes m = nodes n \<longleftrightarrow> m = n"
  by (metis nodes_less nat_neq_iff)

lemma nodes_ge: "n \<le> nodes n"
  using popcount_le [of n] nodes_add [of n] by simp

lemma nodes_le: "nodes n \<le> 2 * n"
  by (simp add: nodes_def)

lemma nodes_below_pow2: "n < 2 ^ k \<Longrightarrow> nodes n < 2 ^ (k + 1) - 1"
  using nodes_less [of n "2 ^ k"] by simp

lemma node_count_nat [simp]: "node_count (int n) = Inr (int (nodes n))"
  using popcount_le [of n] by (simp add: node_count_def require_nonneg_int_def nodes_def of_nat_diff)

lemma node_pos_Suc: "Suc (Suc (node_pos k s)) = nodes s + 2 ^ (k + 1)"
proof -
  have "(1 :: nat) \<le> 2 ^ k" by simp
  then have "2 \<le> nodes s + (2 :: nat) ^ (k + 1)" unfolding power_add power_one_right by linarith
  then show ?thesis by (simp add: node_pos_def)
qed

lemma node_pos_0 [simp]: "node_pos 0 i = nodes i"
  using node_pos_Suc [of 0 i] by simp

lemma node_pos_ge: "nodes s \<le> node_pos k s"
proof -
  have "(1 :: nat) \<le> 2 ^ k" by simp
  moreover have "Suc (Suc (node_pos k s)) = nodes s + 2 * 2 ^ k" using node_pos_Suc [of k s] by simp
  ultimately show ?thesis by linarith
qed

lemma node_pos_end: "2 ^ (k + 1) dvd s \<Longrightarrow> Suc (node_pos k s) = nodes (s + 2 ^ k)"
  using node_pos_Suc [of k s] nodes_split [of "k + 1" s "2 ^ k"] by simp

lemma node_pos_left: "node_pos (Suc k) s = node_pos k s + 2 ^ Suc k"
  using node_pos_Suc [of k s] node_pos_Suc [of "Suc k" s] by simp

lemma node_pos_right: "2 ^ Suc k dvd s \<Longrightarrow> node_pos (Suc k) s = Suc (node_pos k (s + 2 ^ k))"
  using node_pos_Suc [of k "s + 2 ^ k"] node_pos_Suc [of "Suc k" s] nodes_split [of "Suc k" s "2 ^ k"]
  by simp

section \<open>Nodes under a node\<close>

text \<open>The node of height \<open>k\<close> at leaf \<open>s\<close> lies under the one of height \<open>K\<close> at leaf \<open>S\<close>.\<close>

definition under :: "nat \<times> nat \<Rightarrow> nat \<times> nat \<Rightarrow> bool" where
  "under a b \<longleftrightarrow>
     (case (a, b) of ((k, s), (K, S)) \<Rightarrow>
        k \<le> K \<and> 2 ^ k dvd s \<and> 2 ^ K dvd S \<and> S \<le> s \<and> s + 2 ^ k \<le> S + 2 ^ K)"

lemma under_refl [simp]: "under (k, s) (k, s) \<longleftrightarrow> 2 ^ k dvd s"
  by (auto simp: under_def)

lemma aligned_step:
  assumes "2 ^ k dvd (a :: nat)" "2 ^ k dvd b" "a < b"
  shows "a + 2 ^ k \<le> b"
proof -
  obtain q r where "a = 2 ^ k * q" "b = 2 ^ k * r" using assms(1,2) by (auto elim!: dvdE)
  moreover from this have "q < r" using assms(3) by simp
  then have "2 ^ k * Suc q \<le> 2 ^ k * r" by (intro mult_le_mono2) simp
  ultimately show ?thesis by simp
qed

lemma under_same: "under (k, s) (k, S) \<longleftrightarrow> s = S \<and> 2 ^ k dvd s"
  by (auto simp: under_def)

lemma under_cases:
  assumes "under (k, s) (Suc K, S)" "k \<noteq> Suc K"
  obtains "under (k, s) (K, S)" "s < S + 2 ^ K"
    | "under (k, s) (K, S + 2 ^ K)" "S + 2 ^ K \<le> s"
proof -
  have u: "k \<le> K" "2 ^ k dvd s" "2 ^ Suc K dvd S" "S \<le> s" "s + 2 ^ k \<le> S + 2 ^ Suc K"
    using assms by (auto simp: under_def)
  have d: "2 ^ K dvd S" using u(3) by (metis dvd_trans le_imp_power_dvd le_SucI order_refl)
  then have dk: "2 ^ k dvd S + 2 ^ K" using u(1) by (meson dvd_add dvd_trans le_imp_power_dvd)
  show thesis
  proof (cases "s < S + 2 ^ K")
    case True
    then have "s + 2 ^ k \<le> S + 2 ^ K" by (rule aligned_step [OF u(2) dk])
    then show thesis using that(1) True u d by (simp add: under_def)
  next
    case False
    then show thesis using that(2) u d by (simp add: under_def)
  qed
qed

lemma under_children:
  assumes "2 ^ Suc K dvd (S :: nat)"
  shows "2 ^ K dvd S" "2 ^ K dvd S + 2 ^ K"
proof -
  show "2 ^ K dvd S" by (rule dvd_trans [OF _ assms]) simp
  then show "2 ^ K dvd S + 2 ^ K" by simp
qed

lemma under_pos_le:
  assumes "under (k, s) (K, S)"
  shows "node_pos k s \<le> node_pos K S" "k < K \<Longrightarrow> node_pos k s < node_pos K S"
proof -
  define t where "t = s - S"
  have u: "k \<le> K" "2 ^ K dvd S" "s = S + t" "t + 2 ^ k \<le> 2 ^ K"
    using assms by (auto simp: under_def t_def)
  have "0 < (2 :: nat) ^ k" by simp
  then have "t < 2 ^ K" using u(4) by linarith
  then have n: "nodes s = nodes S + nodes t" using nodes_split [OF u(2)] u(3) by simp
  have p: "Suc (Suc (node_pos k s)) = nodes S + nodes t + 2 ^ (k + 1)"
    "Suc (Suc (node_pos K S)) = nodes S + 2 ^ (K + 1)"
    using node_pos_Suc [of k s] node_pos_Suc [of K S] n by simp_all
  have e: "nodes t + popcount t = 2 * t" by (rule nodes_add)
  then show "node_pos k s \<le> node_pos K S" using p u(4) by simp
  assume "k < K"
  define x y :: nat where "x = 2 ^ k" and "y = 2 ^ K"
  have "x < y" using \<open>k < K\<close> by (simp add: x_def y_def)
  moreover have "t + x \<le> y" "Suc (Suc (node_pos k s)) = nodes S + nodes t + 2 * x"
    "Suc (Suc (node_pos K S)) = nodes S + 2 * y"
    using p u(4) by (simp_all add: x_def y_def)
  moreover have "t = 0 \<or> nodes t < 2 * t" using e popcount_pos [of t] by (cases "t = 0") simp_all
  ultimately show "node_pos k s < node_pos K S" using nodes_0 by fastforce
qed

lemma under_pos_ge: "under (k, s) (K, S) \<Longrightarrow> nodes S \<le> node_pos k s"
  using node_pos_ge [of s k] nodes_mono [of S s] by (simp add: under_def)

lemma under_left_pos:
  "under (k, s) (K, S) \<Longrightarrow> node_pos k s \<le> node_pos (Suc K) S - 2 ^ Suc K"
  using under_pos_le(1) [of k s K S] node_pos_left [of K S] by simp

lemma under_right_pos:
  assumes "under (k, s) (K, S + 2 ^ K)" "2 ^ Suc K dvd S"
  shows "node_pos (Suc K) S - 2 ^ Suc K < node_pos k s"
  using under_pos_ge [OF assms(1)] node_pos_left [of K S] node_pos_end [of K S] assms(2) by simp

section \<open>Heights\<close>

lemma height_up_spec: "pos1 \<le> 2 ^ (height_up pos1 h + 1) - 1"
proof (induction pos1 h rule: height_up.induct)
  case (1 pos1 h)
  then show ?case by (subst height_up.simps) (simp add: not_less split: if_split)
qed

lemma height_down_pos:
  assumes "under (k, s) (K, 0)"
  shows "height_down (Suc (node_pos k s)) K = k"
  using assms
proof (induction K arbitrary: k s)
  case 0
  then show ?case by (simp add: under_def)
next
  case (Suc K)
  have top: "Suc (node_pos (Suc K) 0) = 2 ^ (Suc K + 1) - 1" using node_pos_Suc [of "Suc K" 0] by simp
  show ?case
  proof (cases "k = Suc K")
    case True
    then have "s = 0" using Suc.prems by (simp add: under_same)
    then show ?thesis using True top by simp
  next
    case False
    then have "k < Suc K" using Suc.prems by (simp add: under_def)
    then have ne: "Suc (node_pos k s) \<noteq> 2 ^ (Suc K + 1) - 1" using under_pos_le(2) [OF Suc.prems] top by simp
    have mid: "Suc (node_pos K 0) = 2 ^ Suc K - 1" using node_pos_Suc [of K 0] by simp
    from Suc.prems False show ?thesis
    proof (cases rule: under_cases)
      case 1
      then have "Suc (node_pos k s) \<le> 2 ^ Suc K - 1" using under_pos_le(1) [OF 1(1)] mid by simp
      then have "height_down (Suc (node_pos k s)) (Suc K) = height_down (Suc (node_pos k s)) K"
        using ne by simp
      then show ?thesis using Suc.IH [OF 1(1)] by simp
    next
      case 2
      define t where "t = s - 2 ^ K"
      have u: "under (k, t) (K, 0)" "s = 2 ^ K + t" "t < 2 ^ K"
      proof -
        have "2 ^ k dvd (2 :: nat) ^ K" using 2 by (simp add: under_def le_imp_power_dvd)
        then show "under (k, t) (K, 0)" using 2 by (auto simp: under_def t_def dvd_diff_nat)
        show "s = 2 ^ K + t" using 2 by (simp add: t_def)
        have "0 < (2 :: nat) ^ k" by simp
        moreover have "s + 2 ^ k \<le> 2 ^ K + 2 ^ K" "s = 2 ^ K + t" using 2 by (simp_all add: under_def t_def)
        then have "t + 2 ^ k \<le> 2 ^ K" by linarith
        ultimately show "t < 2 ^ K" by linarith
      qed
      have "nodes s = 2 ^ Suc K - 1 + nodes t" using nodes_split [of K "2 ^ K" t] u by simp
      then have p: "Suc (node_pos k s) = 2 ^ Suc K - 1 + Suc (node_pos k t)"
        using node_pos_Suc [of k s] node_pos_Suc [of k t] by linarith
      moreover have "2 ^ Suc K - 1 < 2 ^ Suc K - 1 + Suc (node_pos k t)"
        by (simp only: less_add_same_cancel1 zero_less_Suc)
      ultimately have "height_down (Suc (node_pos k s)) (Suc K) = height_down (Suc (node_pos k t)) K"
        using ne by (simp only: height_down.simps if_True if_False diff_add_inverse)
      then show ?thesis using Suc.IH [OF u(1)] by simp
    qed
  qed
qed

lemma height_at_pos:
  assumes "2 ^ k dvd s"
  shows "height_at (int (node_pos k s)) = Inr k"
proof -
  let ?p = "Suc (node_pos k s)"
  define K where "K = height_up ?p 0"
  have b: "?p \<le> 2 ^ (K + 1) - 1" unfolding K_def by (rule height_up_spec)
  have "s < 2 ^ K \<and> k \<le> K"
  proof -
    have "(1 :: nat) \<le> 2 ^ k" by simp
    moreover have "Suc (Suc (node_pos k s)) = nodes s + 2 * 2 ^ k" using node_pos_Suc [of k s] by simp
    ultimately have "nodes s < 2 ^ (K + 1) - 1" using b by linarith
    then have "nodes s < nodes (2 ^ K)" by (simp only: nodes_pow2)
    then have "s < 2 ^ K" by (metis nodes_mono not_le)
    moreover have "(2 :: nat) ^ (k + 1) \<le> 2 ^ (K + 1)" using b node_pos_Suc [of k s] by linarith
    then have "k \<le> K" by simp
    ultimately show ?thesis by simp
  qed
  then have "under (k, s) (K, 0)"
    using assms aligned_step [of k s "2 ^ K"] by (simp add: under_def le_imp_power_dvd)
  then have "height_down ?p K = k" by (rule height_down_pos)
  then show ?thesis by (simp add: height_at_def require_nonneg_int_def K_def Let_def nat_add_distrib)
qed

section \<open>Mountains\<close>

text \<open>The position of the highest one of a positive number, and the mountains of a range of leaves
  that starts at leaf \<open>s\<close>, the largest first.\<close>

fun top_bit :: "nat \<Rightarrow> nat" where
  "top_bit n = (if n < 2 then 0 else Suc (top_bit (n div 2)))"

declare top_bit.simps [simp del]

lemma top_bit_bounds: "0 < n \<Longrightarrow> 2 ^ top_bit n \<le> n \<and> n < 2 ^ Suc (top_bit n)"
proof (induction n rule: top_bit.induct)
  case (1 n)
  show ?case
  proof (cases "n < 2")
    case False
    then have "2 ^ top_bit (n div 2) \<le> n div 2 \<and> n div 2 < 2 ^ Suc (top_bit (n div 2))"
      using 1 by simp
    moreover have "top_bit n = Suc (top_bit (n div 2))" using False by (simp add: top_bit.simps [of n])
    ultimately show ?thesis by auto
  qed (use 1 in \<open>simp add: top_bit.simps [of n]\<close>)
qed

function mountains_from :: "nat \<Rightarrow> nat \<Rightarrow> (nat \<times> nat) list" where
  "mountains_from s n =
     (if n = 0 then [] else (top_bit n, s) # mountains_from (s + 2 ^ top_bit n) (n - 2 ^ top_bit n))"
  by pat_completeness auto
termination by (relation "measure snd") auto

declare mountains_from.simps [simp del]

lemma mountains_from_0 [simp]: "mountains_from s 0 = []"
  by (simp add: mountains_from.simps)

lemma mountains_from_Cons:
  "0 < n \<Longrightarrow> mountains_from s n =
     (top_bit n, s) # mountains_from (s + 2 ^ top_bit n) (n - 2 ^ top_bit n)"
  by (simp add: mountains_from.simps [of s n])

text \<open>What is left after the first mountain is smaller than it, and starts on its boundary.\<close>

definition room :: "nat \<Rightarrow> nat \<Rightarrow> bool" where
  "room s n \<longleftrightarrow> (\<exists>m. n < 2 ^ m \<and> 2 ^ m dvd s)"

lemma room_0 [simp]: "room 0 n"
  unfolding room_def by (rule exI [of _ n]) simp

lemma room_top:
  assumes "room s n" "0 < n"
  shows "2 ^ Suc (top_bit n) dvd s" "2 ^ top_bit n dvd s"
    "room (s + 2 ^ top_bit n) (n - 2 ^ top_bit n)"
    "nodes (s + 2 ^ top_bit n) = nodes s + (2 ^ (top_bit n + 1) - 1)"
    "nodes n = 2 ^ (top_bit n + 1) - 1 + nodes (n - 2 ^ top_bit n)"
    "n - 2 ^ top_bit n < 2 ^ top_bit n"
proof -
  define h where "h = top_bit n"
  obtain m where m: "n < 2 ^ m" "2 ^ m dvd s" using assms(1) by (auto simp: room_def)
  have b: "2 ^ h \<le> n" "n < 2 ^ Suc h" using top_bit_bounds [OF assms(2)] by (auto simp: h_def)
  have "(2 :: nat) ^ h < 2 ^ m" using b m by linarith
  then have "Suc h \<le> m" by simp
  then have d: "2 ^ Suc h dvd s" using m(2) by (meson dvd_trans le_imp_power_dvd)
  then show "2 ^ Suc (top_bit n) dvd s" by (simp add: h_def)
  have d': "2 ^ h dvd s" using under_children(1) [OF d] .
  then show "2 ^ top_bit n dvd s" by (simp add: h_def)
  have r: "n - 2 ^ h < 2 ^ h" using b by simp
  then show "n - 2 ^ top_bit n < 2 ^ top_bit n" by (simp add: h_def)
  have "2 ^ h dvd s + 2 ^ h" using d' by simp
  then show "room (s + 2 ^ top_bit n) (n - 2 ^ top_bit n)" using r by (auto simp: room_def h_def)
  show "nodes (s + 2 ^ top_bit n) = nodes s + (2 ^ (top_bit n + 1) - 1)"
    using nodes_split [OF d, of "2 ^ h"] by (simp add: h_def)
  show "nodes n = 2 ^ (top_bit n + 1) - 1 + nodes (n - 2 ^ top_bit n)"
    using nodes_split [of h "2 ^ h" "n - 2 ^ h"] r b by (simp add: h_def)
qed

lemma peak_height_spec:
  "2 ^ (h + 1) - 1 \<le> r \<Longrightarrow>
     2 ^ (peak_height r h + 1) - 1 \<le> r \<and> r < 2 ^ (peak_height r h + 2) - 1"
proof (induction r h rule: peak_height.induct)
  case (1 r h)
  show ?case
  proof (cases "2 ^ (h + 2) - 1 \<le> r")
    case True
    then have "peak_height r h = peak_height r (h + 1)" by (simp add: peak_height.simps [of r h])
    then show ?thesis using 1 True by simp
  next
    case False
    then have "peak_height r h = h" by (simp add: peak_height.simps [of r h])
    then show ?thesis using 1 False by simp
  qed
qed

lemma peak_height_unique:
  assumes "2 ^ (h + 1) - 1 \<le> r" "r < 2 ^ (h + 2) - 1"
  shows "peak_height r 0 = h"
proof -
  define k where "k = peak_height r 0"
  have "(1 :: nat) < 2 ^ (h + 1)" by (rule one_less_power) auto
  then have "1 \<le> r" using assms(1) by linarith
  then have k: "2 ^ (k + 1) - 1 \<le> r" "r < 2 ^ (k + 2) - 1" using peak_height_spec [of 0 r] by (auto simp: k_def)
  have less: "a < b" if "2 ^ a - 1 \<le> r" "r < 2 ^ b - 1" for a b :: nat
  proof (rule power_less_imp_less_exp [of "2 :: nat"])
    show "(2 :: nat) ^ a < 2 ^ b" using that by arith
  qed simp
  have "k + 1 < h + 2" "h + 1 < k + 2" by (rule less [OF k(1) assms(2)], rule less [OF assms(1) k(2)])
  then show ?thesis by (simp add: k_def)
qed

lemma peak_height_nodes:
  assumes "0 < n"
  shows "peak_height (nodes n) 0 = top_bit n"
proof (rule peak_height_unique)
  have b: "2 ^ top_bit n \<le> n" "n < 2 ^ (top_bit n + 1)" using top_bit_bounds [OF assms] by auto
  show "2 ^ (top_bit n + 1) - 1 \<le> nodes n" using nodes_mono [OF b(1)] by simp
  show "nodes n < 2 ^ (top_bit n + 2) - 1" using nodes_below_pow2 [OF b(2)] by (simp add: add.assoc)
qed

text \<open>The peaks the code computes are the mountains, and it accepts the node counts only.\<close>

definition peak_pos :: "nat \<times> nat \<Rightarrow> int" where
  "peak_pos a = int (node_pos (fst a) (snd a))"

lemma peaks_loop_mountains:
  assumes "room s n" "\<And>prev. prev_height = Some prev \<Longrightarrow> n < 2 ^ prev"
  shows "peaks_loop (nodes n) (int (nodes s)) prev_height = Inr (map peak_pos (mountains_from s n))"
  using assms
proof (induction n arbitrary: s prev_height rule: less_induct)
  case (less n)
  show ?case
  proof (cases "n = 0")
    case False
    then have n: "0 < n" by simp
    let ?h = "top_bit n"
    note t = room_top [OF less.prems(1) n]
    have ne: "nodes n \<noteq> 0" using nodes_ge [of n] n by simp
    have lt: "\<not> prev \<le> ?h" if "prev_height = Some prev" for prev
    proof
      assume "prev \<le> ?h"
      then have "(2 :: nat) ^ prev \<le> 2 ^ ?h" by simp
      moreover have "2 ^ ?h \<le> n" "n < 2 ^ prev" using top_bit_bounds [OF n] less.prems(2) that by auto
      ultimately show False by linarith
    qed
    have pos: "int (nodes s) + int (2 ^ (?h + 1) - 1) - 1 = peak_pos (?h, s)"
    proof -
      have "Suc (node_pos ?h s) = nodes s + (2 ^ (?h + 1) - 1)" using node_pos_end [of ?h s] t(1,4) by simp
      then show ?thesis unfolding peak_pos_def fst_conv snd_conv by linarith
    qed
    have "peaks_loop (nodes (n - 2 ^ ?h)) (int (nodes (s + 2 ^ ?h))) (Some ?h) =
        Inr (map peak_pos (mountains_from (s + 2 ^ ?h) (n - 2 ^ ?h)))"
      using n t(3,6) by (intro less.IH) auto
    moreover have "nodes (n - 2 ^ ?h) = nodes n - (2 ^ (?h + 1) - 1)" using t(5) by simp
    moreover have "int (nodes (s + 2 ^ ?h)) = int (nodes s) + int (2 ^ (?h + 1) - 1)"
      by (simp only: t(4) of_nat_add)
    ultimately have rest: "peaks_loop (nodes n - (2 ^ (?h + 1) - 1)) (int (nodes s) + int (2 ^ (?h + 1) - 1)) (Some ?h) =
        Inr (map peak_pos (mountains_from (s + 2 ^ ?h) (n - 2 ^ ?h)))"
      by simp
    have "\<not> (case prev_height of None \<Rightarrow> False | Some prev \<Rightarrow> prev \<le> ?h)"
      using lt by (simp split: option.split)
    then show ?thesis
      using ne rest pos by (simp only: peaks_loop.simps [of "nodes n"] peak_height_nodes [OF n] Let_def
          if_False rmap.simps mountains_from_Cons [OF n] list.map)
  qed (simp add: peaks_loop.simps)
qed

lemma peaks_loop_nodes:
  assumes "peaks_loop r off prev_height = Inr pks"
  shows "\<exists>n. r = nodes n \<and> (\<forall>prev. prev_height = Some prev \<longrightarrow> n < 2 ^ prev)"
  using assms
proof (induction r off prev_height arbitrary: pks rule: peaks_loop.induct)
  case (1 r off prev_height)
  show ?case
  proof (cases "r = 0")
    case True
    then show ?thesis by (intro exI [of _ 0]) simp
  next
    case False
    define h where "h = peak_height r 0"
    define m where "m = (2 :: nat) ^ (h + 1) - 1"
    have step: "peaks_loop r off prev_height =
        (if (case prev_height of None \<Rightarrow> False | Some prev \<Rightarrow> prev \<le> h) then Inl InvalidArgument
         else rmap (Cons (off + int m - 1)) (peaks_loop (r - m) (off + int m) (Some h)))"
      using False by (simp only: peaks_loop.simps [of r off prev_height] Let_def h_def m_def if_False)
    then have lt: "\<not> (case prev_height of None \<Rightarrow> False | Some prev \<Rightarrow> prev \<le> h)"
      and rest: "\<exists>ps. peaks_loop (r - m) (off + int m) (Some h) = Inr ps"
      using 1(2) by (auto simp: raise_simps eq_commute [of "Inr pks"] split: if_splits)
    obtain n where n: "r - m = nodes n" "n < 2 ^ h"
      using rest 1(1) [OF False h_def m_def lt] by auto
    have "m \<le> r" using peak_height_spec [of 0 r] False by (simp add: m_def h_def)
    then have "r = nodes (2 ^ h + n)" using n nodes_split [of h "2 ^ h" n] by (simp add: m_def)
    moreover have "2 ^ h + n < 2 ^ prev" if "prev_height = Some prev" for prev
    proof -
      have "Suc h \<le> prev" using lt that by simp
      then have "(2 :: nat) ^ Suc h \<le> 2 ^ prev" by (rule power_increasing) simp
      then show ?thesis using n by simp
    qed
    ultimately show ?thesis by blast
  qed
qed

lemma peaks_iff:
  "peaks sz = Inr pks \<longleftrightarrow>
     (\<exists>n. sz = int (nodes n) \<and> sz < MAX_MMR_SIZE \<and> pks = map peak_pos (mountains_from 0 n))"
proof
  assume p: "peaks sz = Inr pks"
  then have sz: "0 \<le> sz" "sz < MAX_MMR_SIZE" "peaks_loop (nat sz) 0 None = Inr pks"
    by (auto simp: peaks_def split: if_splits)
  then obtain n where n: "nat sz = nodes n" using peaks_loop_nodes by blast
  then have "pks = map peak_pos (mountains_from 0 n)"
    using sz(3) peaks_loop_mountains [of 0 n None] by simp
  then show "\<exists>n. sz = int (nodes n) \<and> sz < MAX_MMR_SIZE \<and> pks = map peak_pos (mountains_from 0 n)"
    using n sz by (intro exI [of _ n]) auto
next
  assume "\<exists>n. sz = int (nodes n) \<and> sz < MAX_MMR_SIZE \<and> pks = map peak_pos (mountains_from 0 n)"
  then show "peaks sz = Inr pks"
    using peaks_loop_mountains [of 0 _ None] by (auto simp: peaks_def)
qed

lemma peaks_nodes:
  "int (nodes n) < MAX_MMR_SIZE \<Longrightarrow> peaks (int (nodes n)) = Inr (map peak_pos (mountains_from 0 n))"
  by (auto simp: peaks_iff)

lemma mountains_props:
  "room s n \<Longrightarrow> (k, t) \<in> set (mountains_from s n) \<Longrightarrow>
     2 ^ Suc k dvd t \<and> 2 ^ k dvd t \<and> s \<le> t \<and> t + 2 ^ k \<le> s + n"
proof (induction n arbitrary: s rule: less_induct)
  case (less n)
  then have n: "0 < n" by (cases n) auto
  note r = room_top [OF less.prems(1) n]
  have b: "2 ^ top_bit n \<le> n" using top_bit_bounds [OF n] by simp
  consider "k = top_bit n" "t = s" | "(k, t) \<in> set (mountains_from (s + 2 ^ top_bit n) (n - 2 ^ top_bit n))"
    using less.prems(2) by (auto simp: mountains_from_Cons [OF n])
  then show ?case
  proof cases
    case 1
    then show ?thesis using r b by simp
  next
    case 2
    then show ?thesis using less.IH [OF _ r(3)] n b by fastforce
  qed
qed

lemma height_at_mountain: "(k, t) \<in> set (mountains_from 0 n) \<Longrightarrow> height_at (peak_pos (k, t)) = Inr k"
  using mountains_props [of 0 n k t] height_at_pos [of k t] by (simp add: peak_pos_def)

lemma mountains_sum: "sum_list (map (\<lambda>a. 2 ^ fst a) (mountains_from s n)) = n"
proof (induction n arbitrary: s rule: less_induct)
  case (less n)
  then show ?case
    using top_bit_bounds [of n] by (cases "n = 0") (simp_all add: mountains_from_Cons)
qed

lemma leaf_count_iff:
  "leaf_count sz = Inr lc \<longleftrightarrow> (\<exists>n. sz = int (nodes n) \<and> sz < MAX_MMR_SIZE \<and> lc = int n)"
proof -
  have "rmap sum_list (rmapM (\<lambda>p. rmap (\<lambda>h. 2 ^ h) (height_at p)) (map peak_pos (mountains_from 0 n))) =
      Inr (int n)" for n
  proof -
    have "rmapM (\<lambda>p. rmap (\<lambda>h. 2 ^ h) (height_at p)) (map peak_pos (mountains_from 0 n)) =
        Inr (map (\<lambda>a. 2 ^ fst a :: int) (mountains_from 0 n))"
      unfolding rmapM_map
    proof (rule rmapM_cong_Inr)
      fix a assume "a \<in> set (mountains_from 0 n)"
      then show "rmap (\<lambda>h. 2 ^ h) (height_at (peak_pos a)) = Inr (2 ^ fst a)"
        using height_at_mountain [of "fst a" "snd a" n] by simp
    qed
    moreover have "sum_list (map (\<lambda>a. 2 ^ fst a :: int) xs) = int (sum_list (map (\<lambda>a. 2 ^ fst a) xs))"
      for xs :: "(nat \<times> nat) list"
      by (induction xs) auto
    ultimately show ?thesis using mountains_sum [of 0 n] by simp
  qed
  then show ?thesis
    by (fastforce simp: leaf_count_def rbind_Inr_iff peaks_iff)
qed

lemma leaf_index_to_pos_nat:
  "leaf_index_to_pos (int i) =
     (if int (nodes i) < MAX_MMR_SIZE then Inr (int (nodes i)) else Inl InvalidArgument)"
  by (simp add: leaf_index_to_pos_def require_nonneg_int_def)

text \<open>A node under a mountain is found in it.\<close>

lemma find_containing:
  assumes "room s0 n" "i < length (mountains_from s0 n)" "under (k, s) (mountains_from s0 n ! i)"
  shows "find_containing_peak (int (node_pos k s)) (map peak_pos (mountains_from s0 n)) = Inr (Some i)"
  using assms
proof (induction n arbitrary: s0 i rule: less_induct)
  case (less n)
  then have n: "0 < n" by (cases n) auto
  let ?h = "top_bit n" and ?rest = "mountains_from (s0 + 2 ^ top_bit n) (n - 2 ^ top_bit n)"
  note r = room_top [OF less.prems(1) n]
  have h: "height_at (peak_pos (?h, s0)) = Inr ?h" using height_at_pos [OF r(2)] by (simp add: peak_pos_def)
  have start: "peak_pos (?h, s0) - (2 ^ (?h + 1) - 1) + 1 = int (nodes s0)"
  proof -
    have "int (Suc (Suc (node_pos ?h s0))) = int (nodes s0 + 2 ^ (?h + 1))" by (simp only: node_pos_Suc)
    then show ?thesis by (simp add: peak_pos_def)
  qed
  have find: "find_containing_peak (int (node_pos k s)) (map peak_pos (mountains_from s0 n)) =
      (if nodes s0 \<le> node_pos k s \<and> node_pos k s \<le> node_pos ?h s0 then Inr (Some 0)
       else rmap (map_option Suc) (find_containing_peak (int (node_pos k s)) (map peak_pos ?rest)))"
    using h start by (simp add: mountains_from_Cons [OF n] Let_def) (auto simp: peak_pos_def)
  show ?case
  proof (cases i)
    case 0
    then have "under (k, s) (?h, s0)" using less.prems(3) by (simp add: mountains_from_Cons [OF n])
    then show ?thesis using find 0 under_pos_ge under_pos_le(1) by simp
  next
    case (Suc j)
    then have j: "j < length ?rest" "under (k, s) (?rest ! j)"
      using less.prems by (simp_all add: mountains_from_Cons [OF n])
    obtain K S where KS: "?rest ! j = (K, S)" by (cases "?rest ! j")
    then have "s0 + 2 ^ ?h \<le> S" using mountains_props [OF r(3), of K S] j(1) by (metis nth_mem)
    then have "nodes (s0 + 2 ^ ?h) \<le> node_pos k s"
      using under_pos_ge [of k s K S] j(2) KS nodes_mono [of "s0 + 2 ^ ?h" S] by simp
    then have "node_pos ?h s0 < node_pos k s" using node_pos_end [OF r(1) [unfolded Suc_eq_plus1]] by simp
    moreover have "find_containing_peak (int (node_pos k s)) (map peak_pos ?rest) = Inr (Some j)"
      using n j r(3) by (intro less.IH) auto
    ultimately show ?thesis using find Suc by simp
  qed
qed

lemma mountains_cover:
  assumes "room s0 n" "s0 \<le> i" "i < s0 + n"
  shows "\<exists>j < length (mountains_from s0 n).
    case mountains_from s0 n ! j of (K, S) \<Rightarrow> S \<le> i \<and> i < S + 2 ^ K"
  using assms
proof (induction n arbitrary: s0 rule: less_induct)
  case (less n)
  then have n: "0 < n" by simp
  show ?case
  proof (cases "i < s0 + 2 ^ top_bit n")
    case True
    then show ?thesis using less.prems by (intro exI [of _ 0]) (simp add: mountains_from_Cons [OF n])
  next
    case False
    have "\<exists>j < length (mountains_from (s0 + 2 ^ top_bit n) (n - 2 ^ top_bit n)).
        case mountains_from (s0 + 2 ^ top_bit n) (n - 2 ^ top_bit n) ! j of (K, S) \<Rightarrow> S \<le> i \<and> i < S + 2 ^ K"
      using less.prems room_top(3) [OF less.prems(1) n] False n by (intro less.IH) auto
    then obtain j where "j < length (mountains_from (s0 + 2 ^ top_bit n) (n - 2 ^ top_bit n))"
      "case mountains_from (s0 + 2 ^ top_bit n) (n - 2 ^ top_bit n) ! j of (K, S) \<Rightarrow> S \<le> i \<and> i < S + 2 ^ K"
      by (elim exE conjE)
    then show ?thesis by (intro exI [of _ "Suc j"]) (simp add: mountains_from_Cons [OF n])
  qed
qed

lemma mountain_room:
  "room s0 n \<Longrightarrow> j < length (mountains_from s0 n) \<Longrightarrow> mountains_from s0 n ! j = (K, S) \<Longrightarrow>
     s0 + n < S + 2 ^ Suc K"
proof (induction n arbitrary: s0 j rule: less_induct)
  case (less n)
  then have n: "0 < n" by (cases n) auto
  have b: "2 ^ top_bit n \<le> n" "n < 2 ^ Suc (top_bit n)" using top_bit_bounds [OF n] by auto
  show ?case
  proof (cases j)
    case 0
    then show ?thesis using less.prems(3) b by (simp add: mountains_from_Cons [OF n])
  next
    case (Suc i)
    then show ?thesis
      using less.IH [OF _ room_top(3) [OF less.prems(1) n], of i] less.prems(2,3) b n
      by (simp add: mountains_from_Cons [OF n])
  qed
qed

text \<open>A mountain of a shorter range lies under a mountain of a longer one.\<close>

lemma mountain_under_longer:
  assumes "m \<le> n" "(k, s) \<in> set (mountains_from 0 m)"
    and "j < length (mountains_from 0 n)" "mountains_from 0 n ! j = (K, S)" "S \<le> s" "s < S + 2 ^ K"
  shows "under (k, s) (K, S)"
proof -
  have p: "2 ^ Suc k dvd s" "2 ^ k dvd s" "s + 2 ^ k \<le> m" using mountains_props [OF room_0 assms(2)] by auto
  have q: "2 ^ K dvd S" "2 ^ Suc K dvd S" using mountains_props [OF room_0, of K S n] assms(3,4) by (metis nth_mem)+
  have kK: "k \<le> K"
  proof (rule ccontr)
    assume "\<not> k \<le> K"
    then have "Suc K \<le> k" by simp
    then have "2 ^ Suc K dvd s" using p(2) by (meson dvd_trans le_imp_power_dvd)
    then have "s = S"
      using aligned_step [OF q(2), of s] assms(5,6) by (cases "S < s") simp_all
    moreover have "n < S + 2 ^ Suc K"
      using mountain_room [of 0 n j K S] assms(3,4) by simp
    moreover have "(2 :: nat) ^ Suc K \<le> 2 ^ k" using \<open>Suc K \<le> k\<close> by (rule power_increasing) simp
    ultimately show False using p(3) assms(1) by linarith
  qed
  have "2 ^ k dvd S + 2 ^ K" using q(1) kK by (meson dvd_add dvd_refl dvd_trans le_imp_power_dvd)
  then have "s + 2 ^ k \<le> S + 2 ^ K" using aligned_step [OF p(2)] assms(6) by blast
  then show ?thesis using assms(5) p q kK by (simp add: under_def)
qed

section \<open>Paths\<close>

text \<open>The shape of the path from a node up to one it lies under: for each step the parent's
  position and whether the node is the right child.\<close>

fun path_shape :: "nat \<Rightarrow> nat \<Rightarrow> nat \<Rightarrow> nat \<Rightarrow> (int \<times> bool) list" where
  "path_shape 0 S k s = []"
| "path_shape (Suc K) S k s =
     (if k = Suc K then []
      else if s < S + 2 ^ K then path_shape K S k s @ [(int (node_pos (Suc K) S), False)]
      else path_shape K (S + 2 ^ K) k s @ [(int (node_pos (Suc K) S), True)])"

lemma locate_path_shape:
  "under (k, s) (K, S) \<Longrightarrow>
     map (\<lambda>st. (parent_pos st, target_is_right st)) (locate_path (int (node_pos K S)) K (int (node_pos k s)))
     = path_shape K S k s"
proof (induction K arbitrary: S)
  case 0
  show ?case by (simp add: locate_path_def)
next
  case (Suc K)
  let ?r = "int (node_pos (Suc K) S)"
  have d: "2 ^ Suc K dvd S" using Suc.prems by (simp add: under_def)
  have l: "?r - (2 ^ Suc K - 1) - 1 = int (node_pos K S)" using node_pos_left [of K S] by simp
  have rt: "?r - 1 = int (node_pos K (S + 2 ^ K))" using node_pos_right [OF d] by simp
  show ?case
  proof (cases "k = Suc K")
    case True
    then have "s = S" using Suc.prems by (simp add: under_same)
    then show ?thesis using True by (simp add: locate_path_def)
  next
    case False
    then have "node_pos k s \<noteq> node_pos (Suc K) S"
      using under_pos_le(2) [OF Suc.prems] Suc.prems by (fastforce simp: under_def)
    then have step: "locate_down ?r (Suc K) (int (node_pos k s)) =
        (if node_pos k s \<le> node_pos K S
         then \<lparr>sibling_pos = ?r - 1, target_is_right = False, parent_pos = ?r\<rparr>
                # locate_down (int (node_pos K S)) K (int (node_pos k s))
         else \<lparr>sibling_pos = int (node_pos K S), target_is_right = True, parent_pos = ?r\<rparr>
                # locate_down (int (node_pos K (S + 2 ^ K))) K (int (node_pos k s)))"
      using l rt by (simp only: locate_down.simps Let_def of_nat_eq_iff of_nat_le_iff) auto
    from Suc.prems False show ?thesis
    proof (cases rule: under_cases)
      case 1
      then have "node_pos k s \<le> node_pos K S" using under_pos_le(1) by blast
      then show ?thesis using Suc.IH [OF 1(1)] step 1(2) False by (simp add: locate_path_def)
    next
      case 2
      have "\<not> node_pos k s \<le> node_pos K S"
        using under_right_pos [OF 2(1) d] node_pos_left [of K S] by simp
      then show ?thesis using Suc.IH [OF 2(1)] step 2(2) False by (simp add: locate_path_def)
    qed
  qed
qed

end
