(* ===== verification/Mmr_Proofs.thy ===== *)
theory Mmr_Proofs
  imports Mmr_Layout
begin

text \<open>
  The Merkle mountain range over a list of leaf digests as a specification, the honest proofs for
  it, and what the verifiers of \<open>src/scitt_cose/cll.py\<close> accept: every honest inclusion proof, and
  only statements that are true of the log, unless the octets hashed exhibit a SHA-256 collision.
\<close>

section \<open>The range over a list of digests\<close>

definition mmr_input :: "int \<Rightarrow> bytes \<Rightarrow> bytes \<Rightarrow> bytes" where
  "mmr_input p l r = be_bytes 8 (nat (p + 1)) @ l @ r"

fun node_hash :: "bytes list \<Rightarrow> nat \<Rightarrow> nat \<Rightarrow> bytes" where
  "node_hash ds 0 s = sha256 ([0x00] @ ds ! s)"
| "node_hash ds (Suc k) s =
     sha256 (mmr_input (int (node_pos (Suc k) s)) (node_hash ds k s) (node_hash ds k (s + 2 ^ k)))"

definition mmr_peaks :: "bytes list \<Rightarrow> bytes list" where
  "mmr_peaks ds = map (\<lambda>(k, s). node_hash ds k s) (mountains_from 0 (length ds))"

definition mmr_root :: "bytes list \<Rightarrow> bytes" where
  "mmr_root ds = (if ds = [] then replicate 32 0 else bag_reversed (rev (mmr_peaks ds)))"

text \<open>Everything that is hashed for it.\<close>

fun node_inputs :: "bytes list \<Rightarrow> nat \<Rightarrow> nat \<Rightarrow> bytes list" where
  "node_inputs ds 0 s = [[0x00] @ ds ! s]"
| "node_inputs ds (Suc k) s =
     mmr_input (int (node_pos (Suc k) s)) (node_hash ds k s) (node_hash ds k (s + 2 ^ k))
       # node_inputs ds k s @ node_inputs ds k (s + 2 ^ k)"

fun bag_inputs :: "bytes list \<Rightarrow> bytes list" where
  "bag_inputs (right # left # hashes) = (right @ left) # bag_inputs (sha256 (right @ left) # hashes)"
| "bag_inputs hashes = []"

definition mmr_inputs :: "bytes list \<Rightarrow> bytes list" where
  "mmr_inputs ds =
     bag_inputs (rev (mmr_peaks ds))
       @ concat (map (\<lambda>(k, s). node_inputs ds k s) (mountains_from 0 (length ds)))"

lemma length_node_hash [simp, hash_lengths]: "length (node_hash ds k s) = 32"
  by (cases k) simp_all

lemma mmr_peaks_lengths: "h \<in> set (mmr_peaks ds) \<Longrightarrow> length h = 32"
  by (auto simp: mmr_peaks_def)

lemma node_hash_cong:
  "(\<And>i. s \<le> i \<Longrightarrow> i < s + 2 ^ k \<Longrightarrow> ds ! i = es ! i) \<Longrightarrow> node_hash ds k s = node_hash es k s"
proof (induction k arbitrary: s)
  case (Suc k)
  have "node_hash ds k s = node_hash es k s" using Suc.prems by (intro Suc.IH) simp
  moreover have "node_hash ds k (s + 2 ^ k) = node_hash es k (s + 2 ^ k)" using Suc.prems by (intro Suc.IH) simp
  ultimately show ?case by simp
qed simp

section \<open>Binding\<close>

interpretation mmr_path: step_preimage mmr_input
  by unfold_locales (auto simp: mmr_input_def append_eq_append_conv)

lemma node_binding:
  assumes "node_hash ds k s = node_hash es k s"
  shows "(\<forall>i. s \<le> i \<and> i < s + 2 ^ k \<longrightarrow> ds ! i = es ! i) \<or>
    collide (node_inputs ds k s) (node_inputs es k s)"
  using assms
proof (induction k arbitrary: s)
  case 0
  then have "[0x00] @ ds ! s = [0x00] @ es ! s \<or> collide (node_inputs ds 0 s) (node_inputs es 0 s)"
    by (intro sha256_eq_or_collide) auto
  moreover have "(s \<le> i \<and> i < s + 2 ^ 0) = (i = s)" for i by auto
  ultimately show ?case by auto
next
  case (Suc k)
  let ?p = "int (node_pos (Suc k) s)"
  let ?x = "mmr_input ?p (node_hash ds k s) (node_hash ds k (s + 2 ^ k))"
  let ?y = "mmr_input ?p (node_hash es k s) (node_hash es k (s + 2 ^ k))"
  have "?x = ?y \<or> collide (node_inputs ds (Suc k) s) (node_inputs es (Suc k) s)"
    using Suc.prems by (intro sha256_eq_or_collide) auto
  then show ?case
  proof
    assume "?x = ?y"
    from mmr_path.pre_inject [OF this]
    have "node_hash ds k s = node_hash es k s" "node_hash ds k (s + 2 ^ k) = node_hash es k (s + 2 ^ k)"
      by simp_all
    from Suc.IH [OF this(1)] Suc.IH [OF this(2)]
    consider "collide (node_inputs ds k s) (node_inputs es k s)"
      | "collide (node_inputs ds k (s + 2 ^ k)) (node_inputs es k (s + 2 ^ k))"
      | "\<And>i. s \<le> i \<and> i < s + 2 ^ k \<Longrightarrow> ds ! i = es ! i"
        "\<And>i. s + 2 ^ k \<le> i \<and> i < s + 2 ^ k + 2 ^ k \<Longrightarrow> ds ! i = es ! i"
      by blast
    then show ?thesis
    proof cases
      case 1
      then have "collide (node_inputs ds (Suc k) s) (node_inputs es (Suc k) s)" by (rule collide_mono) auto
      then show ?thesis ..
    next
      case 2
      then have "collide (node_inputs ds (Suc k) s) (node_inputs es (Suc k) s)" by (rule collide_mono) auto
      then show ?thesis ..
    next
      case 3
      have "ds ! i = es ! i" if "s \<le> i" "i < s + 2 ^ Suc k" for i
        using 3(1) [of i] 3(2) [of i] that by (cases "i < s + 2 ^ k") simp_all
      then show ?thesis by blast
    qed
  qed simp
qed

lemma bag_binding:
  assumes "length xs = length ys" "\<forall>h \<in> set xs. length h = 32" "\<forall>h \<in> set ys. length h = 32"
    and "bag_reversed xs = bag_reversed ys"
  shows "xs = ys \<or> collide (bag_inputs xs) (bag_inputs ys)"
  using assms
proof (induction xs arbitrary: ys rule: bag_reversed.induct)
  case (1 r l hs)
  then obtain r' l' hs' where ys: "ys = r' # l' # hs'" by (cases ys; cases "tl ys") auto
  have "sha256 (r @ l) # hs = sha256 (r' @ l') # hs' \<or>
      collide (bag_inputs (sha256 (r @ l) # hs)) (bag_inputs (sha256 (r' @ l') # hs'))"
    using 1 ys by (intro "1.IH") auto
  then show ?case
  proof
    assume "sha256 (r @ l) # hs = sha256 (r' @ l') # hs'"
    moreover from this have "r @ l = r' @ l' \<or> collide (bag_inputs (r # l # hs)) (bag_inputs ys)"
      using ys by (intro sha256_eq_or_collide) auto
    ultimately show ?thesis using 1(3,4) ys by auto
  next
    assume "collide (bag_inputs (sha256 (r @ l) # hs)) (bag_inputs (sha256 (r' @ l') # hs'))"
    then have "collide (bag_inputs (r # l # hs)) (bag_inputs ys)" by (rule collide_mono) (auto simp: ys)
    then show ?thesis ..
  qed
next
  case (2 h)
  then obtain h' where "ys = [h']" by (cases ys) auto
  then show ?case using 2 by simp
qed auto

lemma node_inputs_in: "(k, s) \<in> set (mountains_from 0 (length ds)) \<Longrightarrow> set (node_inputs ds k s) \<subseteq> set (mmr_inputs ds)"
  by (auto simp: mmr_inputs_def)

lemma bag_inputs_in: "set (bag_inputs (rev (mmr_peaks ds))) \<subseteq> set (mmr_inputs ds)"
  by (simp add: mmr_inputs_def)

lemma node_inputs_under:
  "under (k, s) (K, S) \<Longrightarrow> set (node_inputs ds k s) \<subseteq> set (node_inputs ds K S)"
proof (induction K arbitrary: S)
  case 0
  then have "k = 0" "s = S" by (auto simp: under_def)
  then show ?case by simp
next
  case (Suc K)
  show ?case
  proof (cases "k = Suc K")
    case True
    then show ?thesis using Suc.prems by (simp add: under_same)
  next
    case False
    from Suc.prems False show ?thesis by (cases rule: under_cases) (use Suc.IH in fastforce)+
  qed
qed

section \<open>Honest paths\<close>

text \<open>The siblings from node \<open>(k, s)\<close> up to node \<open>(K, S)\<close>.\<close>

fun audit_path :: "bytes list \<Rightarrow> nat \<Rightarrow> nat \<Rightarrow> nat \<Rightarrow> nat \<Rightarrow> bytes list" where
  "audit_path ds 0 S k s = []"
| "audit_path ds (Suc K) S k s =
     (if k = Suc K then []
      else if s < S + 2 ^ K then audit_path ds K S k s @ [node_hash ds K (S + 2 ^ K)]
      else audit_path ds K (S + 2 ^ K) k s @ [node_hash ds K S])"

definition hops :: "(int \<times> bool) list \<Rightarrow> bytes list \<Rightarrow> int hop list" where
  "hops shape sibs = map (\<lambda>((p, right), sib). (p, right, sib)) (zip shape sibs)"

lemma mmr_hops_snoc [simp]:
  "length shape = length sibs \<Longrightarrow> hops (shape @ [(p, right)]) (sibs @ [sib]) = hops shape sibs @ [(p, right, sib)]"
  by (simp add: hops_def)

lemma mmr_hops_Nil [simp]: "hops [] sibs = []"
  by (simp add: hops_def)

lemma hop_shapes: "length shape = length sibs \<Longrightarrow> map hop_shape (hops shape sibs) = shape"
  by (induction shape sibs rule: list_induct2) (auto simp: hops_def hop_shape_def)

lemma length_audit_path [simp]: "length (audit_path ds K S k s) = length (path_shape K S k s)"
  by (induction K arbitrary: S) auto

lemma audit_path_lengths: "h \<in> set (audit_path ds K S k s) \<Longrightarrow> length h = 32"
  by (induction K arbitrary: S) (auto split: if_splits)

lemma audit_path_climb:
  assumes "under (k, s) (K, S)"
  shows "climb mmr_input (node_hash ds k s) (hops (path_shape K S k s) (audit_path ds K S k s)) = node_hash ds K S"
  using assms
proof (induction K arbitrary: S)
  case 0
  then show ?case by (auto simp: under_def)
next
  case (Suc K)
  show ?case
  proof (cases "k = Suc K")
    case True
    then show ?thesis using Suc.prems by (simp add: under_same)
  next
    case False
    from Suc.prems False show ?thesis
      by (cases rule: under_cases) (use False Suc.IH in simp_all)
  qed
qed

lemma audit_path_inputs:
  assumes "under (k, s) (K, S)"
  shows "set (climb_inputs mmr_input (node_hash ds k s) (hops (path_shape K S k s) (audit_path ds K S k s)))
    \<subseteq> set (node_inputs ds K S)"
  using assms
proof (induction K arbitrary: S)
  case 0
  then show ?case by simp
next
  case (Suc K)
  show ?case
  proof (cases "k = Suc K")
    case False
    from Suc.prems False show ?thesis
      by (cases rule: under_cases) (use False Suc.IH audit_path_climb [of k s K] in \<open>fastforce+\<close>)
  qed simp
qed

section \<open>What the loop over a path computes\<close>

lemma fold_path_iff:
  assumes "length acc = 32" "length path = length sibs"
  shows "fold_path acc (zip path sibs) = Inr r \<longleftrightarrow>
    (\<forall>(st, sib) \<in> set (zip path sibs). length sib = 32 \<and> 0 \<le> parent_pos st \<and> parent_pos st + 1 < 2 ^ 64) \<and>
    r = climb mmr_input acc (hops (map (\<lambda>st. (parent_pos st, target_is_right st)) path) sibs)"
  using assms(2,1)
proof (induction path sibs arbitrary: acc rule: list_induct2)
  case (Cons st path sib sibs)
  have "interior_hash l r (parent_pos st) =
      Inr (sha256 (mmr_input (parent_pos st) l r)) \<longleftrightarrow>
      length l = 32 \<and> length r = 32 \<and> 0 \<le> parent_pos st \<and> parent_pos st + 1 < 2 ^ 64" for l r
    by (auto simp: interior_hash_def assert_digest_def require_nonneg_int_def DIGEST_LEN_def raise_simps
        to_bytes_be_def mmr_input_def nat_less_iff)
  moreover have "interior_hash l r (parent_pos st) = Inr x \<Longrightarrow> x = sha256 (mmr_input (parent_pos st) l r)" for l r x
    by (auto simp: interior_hash_def mmr_input_def raise_simps to_bytes_be_def split: if_splits)
  ultimately have step: "interior_hash l r (parent_pos st) = Inr x \<longleftrightarrow>
      length l = 32 \<and> length r = 32 \<and> 0 \<le> parent_pos st \<and> parent_pos st + 1 < 2 ^ 64 \<and>
      x = sha256 (mmr_input (parent_pos st) l r)" for l r x by metis
  show ?case
    using Cons.IH [of "sha256 (mmr_input (parent_pos st) sib acc)"]
      Cons.IH [of "sha256 (mmr_input (parent_pos st) acc sib)"] Cons.prems
    by (auto simp: rbind_Inr_iff step hops_def)
qed (auto simp: hops_def)

lemma root_from_peaks_iff:
  assumes "peak_hashes \<noteq> []"
  shows "root_from_peaks peak_hashes = Inr r \<longleftrightarrow>
    (\<forall>h \<in> set peak_hashes. length h = 32) \<and> r = bag_reversed (rev peak_hashes)"
proof -
  have "(\<exists>us. rmapM assert_digest hs = Inr us) \<longleftrightarrow> (\<forall>h \<in> set hs. length h = 32)" for hs
    by (induction hs) (auto simp: raise_simps assert_digest_def DIGEST_LEN_def require_Inr)
  then show ?thesis using assms by (auto simp: root_from_peaks_def rbind_Inr_iff)
qed

lemma mmr_leaf_hash_Inr: "mmr_leaf_hash d = Inr h \<longleftrightarrow> length d = 32 \<and> h = sha256 ([0x00] @ d)"
  by (auto simp: mmr_leaf_hash_def rbind_Inr_iff assert_digest_def DIGEST_LEN_def require_Inr)

lemma parse_digest_hex_length: "parse_digest_hex w = Inr b \<Longrightarrow> length b = 32"
  by (auto simp: parse_digest_hex_def rbind_Inr_iff DIGEST_LEN_def split: option.splits if_splits)

lemma parse_digests_length: "rmapM parse_digest_hex ws = Inr bs \<Longrightarrow> \<forall>b \<in> set bs. length b = 32"
  by (induction ws arbitrary: bs) (auto simp: raise_simps dest: parse_digest_hex_length)

lemma parse_hex [simp]: "length b = 32 \<Longrightarrow> parse_digest_hex (JStr (to_hex b)) = Inr b"
  by (simp add: parse_digest_hex_def py_raise_def DIGEST_LEN_def)

lemma root_mmr_peaks: "root_from_peaks (mmr_peaks ds) = Inr (mmr_root ds)"
proof (cases "ds = []")
  case False
  then have "mmr_peaks ds \<noteq> []" by (simp add: mmr_peaks_def mountains_from_Cons)
  then show ?thesis using False mmr_peaks_lengths by (simp add: root_from_peaks_iff mmr_root_def)
qed (simp add: root_from_peaks_def mmr_peaks_def mmr_root_def DIGEST_LEN_def)

lemma length_bag: "hs \<noteq> [] \<Longrightarrow> \<forall>h \<in> set hs. length h = 32 \<Longrightarrow> length (bag_reversed hs) = 32"
  by (induction hs rule: bag_reversed.induct) auto

lemma length_mmr_root [simp]: "length (mmr_root ds) = 32"
proof (cases "ds = []")
  case False
  then have "rev (mmr_peaks ds) \<noteq> []" by (simp add: mmr_peaks_def mountains_from_Cons)
  then show ?thesis using False length_bag mmr_peaks_lengths by (simp add: mmr_root_def)
qed (simp add: mmr_root_def)

lemma root_peaks_binding:
  assumes "root_from_peaks hs = Inr (mmr_root ds)" "length hs = length (mmr_peaks ds)"
    "\<forall>h \<in> set hs. length h = 32"
  shows "hs = mmr_peaks ds \<or> collide (bag_inputs (rev hs)) (mmr_inputs ds)"
proof (cases "hs = []")
  case False
  then have ne: "mmr_peaks ds \<noteq> []" using assms(2) by auto
  then have ds: "ds \<noteq> []" by (auto simp: mmr_peaks_def)
  have "rev hs = rev (mmr_peaks ds) \<or> collide (bag_inputs (rev hs)) (bag_inputs (rev (mmr_peaks ds)))"
    using assms False ds mmr_peaks_lengths by (intro bag_binding) (auto simp: root_from_peaks_iff mmr_root_def)
  then show ?thesis using collide_mono [OF _ subset_refl bag_inputs_in] by auto
qed (use assms in simp)

section \<open>Inclusion\<close>

text \<open>The mountain that holds leaf \<open>i\<close>, and the octets the verifier hashes for a proof.\<close>

fun holds :: "nat \<Rightarrow> nat \<times> nat \<Rightarrow> bool" where
  "holds i (k, s) \<longleftrightarrow> s \<le> i \<and> i < s + 2 ^ k"

definition mountain_of :: "nat \<Rightarrow> nat \<Rightarrow> nat" where
  "mountain_of n i = length (takeWhile (\<lambda>a. \<not> holds i a) (mountains_from 0 n))"

lemma mountain_of_holds:
  assumes "i < n"
  shows "mountain_of n i < length (mountains_from 0 n)" "holds i (mountains_from 0 n ! mountain_of n i)"
proof -
  obtain j where j: "j < length (mountains_from 0 n)"
      "case mountains_from 0 n ! j of (K, S) \<Rightarrow> S \<le> i \<and> i < S + 2 ^ K"
    using mountains_cover [of 0 n i] assms by auto
  then have "holds i (mountains_from 0 n ! j)" by (cases "mountains_from 0 n ! j") simp
  then have e: "\<exists>a \<in> set (mountains_from 0 n). holds i a" using j(1) nth_mem by blast
  then show l: "mountain_of n i < length (mountains_from 0 n)"
    unfolding mountain_of_def
    by (metis (no_types, lifting) length_takeWhile_le le_neq_implies_less takeWhile_eq_all_conv takeWhile_eq_take take_all_iff)
  show "holds i (mountains_from 0 n ! mountain_of n i)"
    using nth_length_takeWhile [of "\<lambda>a. \<not> holds i a" "mountains_from 0 n"] l by (simp add: mountain_of_def)
qed

lemma mountain_of_under:
  assumes "i < n"
  shows "under (0, i) (mountains_from 0 n ! mountain_of n i)"
proof -
  obtain K S where KS: "mountains_from 0 n ! mountain_of n i = (K, S)" by fastforce
  then have "(K, S) \<in> set (mountains_from 0 n)" using mountain_of_holds(1) [OF assms] by (metis nth_mem)
  then have "2 ^ K dvd S" using mountains_props [OF room_0] by blast
  then show ?thesis using mountain_of_holds(2) [OF assms] KS by (auto simp: under_def)
qed

text \<open>The shape of the path from the node of height \<open>k\<close> at leaf \<open>i\<close> to its mountain.\<close>

definition mountain_path :: "nat \<Rightarrow> nat \<Rightarrow> nat \<Rightarrow> (int \<times> bool) list" where
  "mountain_path k n i = (case mountains_from 0 n ! mountain_of n i of (K, S) \<Rightarrow> path_shape K S k i)"

definition proof_inputs :: "nat \<Rightarrow> nat \<Rightarrow> bytes \<Rightarrow> bytes list \<Rightarrow> bytes list \<Rightarrow> bytes list \<Rightarrow> bytes list" where
  "proof_inputs n i d ws ls rs =
     ([0x00] @ d) # climb_inputs mmr_input (sha256 ([0x00] @ d)) (hops (mountain_path 0 n i) ws)
       @ bag_inputs (rev (ls @ [climb mmr_input (sha256 ([0x00] @ d)) (hops (mountain_path 0 n i) ws)] @ rs))"

lemma path_shape_bounds:
  assumes "under (k, s) (K, S)" "node_pos K S < B" "(p, right) \<in> set (path_shape K S k s)"
  shows "0 \<le> p \<and> p < int B"
  using assms
proof (induction K arbitrary: S)
  case (Suc K)
  show ?case
  proof (cases "k = Suc K")
    case False
    have d: "2 ^ Suc K dvd S" using Suc.prems(1) by (simp add: under_def)
    have "node_pos K S < B" "node_pos K (S + 2 ^ K) < B"
      using node_pos_left [of K S] node_pos_right [OF d] Suc.prems(2) by simp_all
    with Suc.prems(1) False show ?thesis
      by (cases rule: under_cases) (use False Suc.IH Suc.prems(2,3) in auto)
  qed (use Suc.prems in simp)
qed simp

lemma peak_bound:
  assumes "(K, S) \<in> set (mountains_from 0 n)"
  shows "node_pos K S < nodes n"
proof -
  have p: "2 ^ Suc K dvd S" "S + 2 ^ K \<le> n" using mountains_props [OF room_0 assms] by auto
  then have "Suc (node_pos K S) = nodes (S + 2 ^ K)" using node_pos_end [of K S] by simp
  also have "\<dots> \<le> nodes n" using p(2) by (rule nodes_mono)
  finally show ?thesis by simp
qed

lemma path_fits:
  assumes "under a (K, S)" "(K, S) \<in> set (mountains_from 0 n)" "int (nodes n) < MAX_MMR_SIZE"
    "st \<in> set (locate_path (int (node_pos K S)) K (int (node_pos (fst a) (snd a))))"
  shows "0 \<le> parent_pos st \<and> parent_pos st + 1 < 2 ^ 64"
proof -
  obtain k s where a: "a = (k, s)" by fastforce
  then have u: "under (k, s) (K, S)" using assms(1) by simp
  have "(parent_pos st, target_is_right st) \<in> set (path_shape K S k s)"
    unfolding locate_path_shape [OF u, symmetric] using assms(4) a by auto
  then have "0 \<le> parent_pos st \<and> parent_pos st < int (nodes n)"
    using path_shape_bounds [OF u peak_bound [OF assms(2)]] by blast
  then show ?thesis using assms(3) by (simp add: MAX_MMR_SIZE_def)
qed

text \<open>A path that is folded is a climb.\<close>

lemma fold_locate_iff:
  assumes "under (k, s) (K, S)" "(K, S) \<in> set (mountains_from 0 n)" "int (nodes n) < MAX_MMR_SIZE"
    and "length acc = 32" "\<forall>b \<in> set ws. length b = 32" "length ws = length (path_shape K S k s)"
  shows "fold_path acc (zip (locate_path (int (node_pos K S)) K (int (node_pos k s))) ws) = Inr r \<longleftrightarrow>
    r = climb mmr_input acc (hops (path_shape K S k s) ws)"
proof -
  let ?path = "locate_path (int (node_pos K S)) K (int (node_pos k s))"
  have sh: "map (\<lambda>st. (parent_pos st, target_is_right st)) ?path = path_shape K S k s"
    by (rule locate_path_shape [OF assms(1)])
  then have len: "length ?path = length ws" using assms(6) by (metis length_map)
  have "\<forall>(st, sib) \<in> set (zip ?path ws). length sib = 32 \<and> 0 \<le> parent_pos st \<and> parent_pos st + 1 < 2 ^ 64"
    using path_fits [OF assms(1-3)] assms(5) by (fastforce dest: set_zip_leftD set_zip_rightD)
  then show ?thesis using fold_path_iff [OF assms(4) len, of r] sh by simp
qed

lemma length_locate_path:
  "under (k, s) (K, S) \<Longrightarrow> length (locate_path (int (node_pos K S)) K (int (node_pos k s))) = length (path_shape K S k s)"
  using locate_path_shape [of k s K S] by (metis length_map)

text \<open>What the inclusion verifier checks, once the positions are computed.\<close>

lemma mmr_verify_inclusion_iff:
  assumes "int (nodes n) < MAX_MMR_SIZE"
  shows "mmr_verify_inclusion root (int (nodes n)) idx d (Some pf) \<longleftrightarrow>
    length root = 32 \<and> length d = 32 \<and> ip_v pf = 1 \<and> ip_kind pf = JStr ''inclusion'' \<and>
    ip_size pf = int (nodes n) \<and> ip_leaf_index pf = idx \<and> 0 \<le> idx \<and> nat idx < n \<and>
    length (ip_peaks_left pf) = mountain_of n (nat idx) \<and>
    length (ip_peaks_right pf) = length (mountains_from 0 n) - mountain_of n (nat idx) - 1 \<and>
    length (ip_witness pf) = length (mountain_path 0 n (nat idx)) \<and>
    (\<exists>ws ls rs. rmapM parse_digest_hex (ip_witness pf) = Inr ws \<and>
       rmapM parse_digest_hex (ip_peaks_left pf) = Inr ls \<and>
       rmapM parse_digest_hex (ip_peaks_right pf) = Inr rs \<and>
       root = bag_reversed (rev (ls @ [climb mmr_input (sha256 ([0x00] @ d)) (hops (mountain_path 0 n (nat idx)) ws)] @ rs)))"
    (is "?lhs \<longleftrightarrow> ?rhs")
proof (cases "0 \<le> idx \<and> nat idx < n")
  case False
  then show ?thesis
    by (auto simp: mmr_verify_inclusion_def never_raises_iff inclusion_body_def rbind_Inr_iff check_True leaf_count_iff)
next
  case True
  define i where "i = nat idx"
  have i: "idx = int i" "i < n" using True by (simp_all add: i_def)
  let ?m = "mountain_of n i"
  obtain K S where KS: "mountains_from 0 n ! ?m = (K, S)" by fastforce
  have m: "?m < length (mountains_from 0 n)" by (rule mountain_of_holds(1) [OF i(2)])
  have KSin: "(K, S) \<in> set (mountains_from 0 n)" using KS m by (metis nth_mem)
  have u: "under (0, i) (K, S)" using mountain_of_under [OF i(2)] KS by simp
  have find: "find_containing_peak (int (nodes i)) (map peak_pos (mountains_from 0 n)) = Inr (Some ?m)"
    using find_containing [OF room_0 m, of 0 i] u KS by simp
  have lp: "leaf_index_to_pos (int i) = Inr (int (nodes i))"
    using nodes_less [OF i(2)] assms by (simp add: leaf_index_to_pos_nat)
  have pk: "map peak_pos (mountains_from 0 n) ! ?m = int (node_pos K S)" using m KS by (simp add: peak_pos_def)
  have h: "height_at (int (node_pos K S)) = Inr K" using height_at_mountain [OF KSin] by (simp add: peak_pos_def)
  have lc: "leaf_count (int (nodes n)) = Inr (int n)" using assms by (auto simp: leaf_count_iff)
  have mp: "mountain_path 0 n i = path_shape K S 0 i" by (simp add: mountain_path_def KS)
  have len: "length (locate_path (int (node_pos K S)) K (int (nodes i))) = length (mountain_path 0 n i)"
    using length_locate_path [OF u] mp by simp
  have fold: "fold_path (sha256 ([0x00] @ d)) (zip (locate_path (int (node_pos K S)) K (int (nodes i))) ws) = Inr r \<longleftrightarrow>
      r = climb mmr_input (sha256 ([0x00] @ d)) (hops (mountain_path 0 n i) ws)"
    if "rmapM parse_digest_hex (ip_witness pf) = Inr ws" "length (ip_witness pf) = length (mountain_path 0 n i)" for ws r
    using fold_locate_iff [OF u KSin assms, of "sha256 ([0x00] @ d)" ws r] parse_digests_length [OF that(1)]
      rmapM_length [OF that(1)] that(2) mp by simp
  have bag: "root_from_peaks (ls @ [climb mmr_input (sha256 ([0x00] @ d)) (hops (mountain_path 0 n i) ws)] @ rs) = Inr r \<longleftrightarrow>
      r = bag_reversed (rev (ls @ [climb mmr_input (sha256 ([0x00] @ d)) (hops (mountain_path 0 n i) ws)] @ rs))"
    if "rmapM parse_digest_hex (ip_peaks_left pf) = Inr ls" "rmapM parse_digest_hex (ip_peaks_right pf) = Inr rs" for ls rs ws r
    using parse_digests_length [OF that(1)] parse_digests_length [OF that(2)] length_climb [of "sha256 ([0x00] @ d)"]
    by (subst root_from_peaks_iff) auto
  have "?lhs \<longleftrightarrow>
    length root = 32 \<and> length d = 32 \<and> ip_v pf = 1 \<and> ip_kind pf = JStr ''inclusion'' \<and>
    ip_size pf = int (nodes n) \<and> ip_leaf_index pf = idx \<and>
    length (ip_witness pf) = length (mountain_path 0 n i) \<and> length (ip_peaks_left pf) = ?m \<and>
    length (ip_peaks_right pf) = length (mountains_from 0 n) - ?m - 1 \<and>
    (\<exists>ws. rmapM parse_digest_hex (ip_witness pf) = Inr ws \<and>
     (\<exists>ls. rmapM parse_digest_hex (ip_peaks_left pf) = Inr ls \<and>
      (\<exists>rs. rmapM parse_digest_hex (ip_peaks_right pf) = Inr rs \<and>
       (\<exists>acc. fold_path (sha256 ([0x00] @ d)) (zip (locate_path (int (node_pos K S)) K (int (nodes i))) ws) = Inr acc \<and>
         root_from_peaks (ls @ [acc] @ rs) = Inr root))))"
    unfolding i(1)
    using assms i(2) by (auto simp: mmr_verify_inclusion_def never_raises_iff inclusion_body_def rbind_Inr_iff check_True
        lc lp find pk h len peaks_nodes Let_def mmr_leaf_hash_Inr assert_digest_def DIGEST_LEN_def require_Inr)
  also have "\<dots> \<longleftrightarrow> ?rhs"
    unfolding i(1) nat_int using i(2) fold bag by (auto cong: conj_cong)
  finally show ?thesis .
qed

lemma verified_size:
  assumes "mmr_verify_inclusion root sz idx d (Some pf)"
  shows "\<exists>n. sz = int (nodes n) \<and> sz < MAX_MMR_SIZE"
  using assms
  by (auto simp: mmr_verify_inclusion_def never_raises_iff inclusion_body_def rbind_Inr_iff check_True leaf_count_iff)

lemma nth_mmr_peaks:
  "i < length (mountains_from 0 (length ds)) \<Longrightarrow> mountains_from 0 (length ds) ! i = (K, S) \<Longrightarrow>
     mmr_peaks ds ! i = node_hash ds K S"
  by (simp add: mmr_peaks_def)

lemma length_mmr_peaks [simp]: "length (mmr_peaks ds) = length (mountains_from 0 (length ds))"
  by (simp add: mmr_peaks_def)

text \<open>A walk that ends in the hash of a node is the honest walk, or it exhibits a collision.\<close>

lemma walk_binding:
  assumes "under (k, s) (K, S)" "length acc = 32" "length ws = length (path_shape K S k s)"
    and "climb mmr_input acc (hops (path_shape K S k s) ws) = node_hash ds K S"
  shows "acc = node_hash ds k s \<or>
    collide (climb_inputs mmr_input acc (hops (path_shape K S k s) ws)) (node_inputs ds K S)"
proof -
  have "acc = node_hash ds k s \<and> hops (path_shape K S k s) ws = hops (path_shape K S k s) (audit_path ds K S k s) \<or>
    collide (climb_inputs mmr_input acc (hops (path_shape K S k s) ws))
      (climb_inputs mmr_input (node_hash ds k s) (hops (path_shape K S k s) (audit_path ds K S k s)))"
    using assms by (intro mmr_path.climb_binding) (simp_all add: hop_shapes audit_path_climb)
  then show ?thesis using collide_mono [OF _ subset_refl audit_path_inputs [OF assms(1)]] by blast
qed

lemma mmr_inclusion_sound:
  assumes "mmr_verify_inclusion (mmr_root ds) (int (nodes (length ds))) idx d (Some pf)"
  shows "0 \<le> idx \<and> nat idx < length ds \<and> d = ds ! nat idx \<or>
    (\<exists>ws ls rs. rmapM parse_digest_hex (ip_witness pf) = Inr ws \<and>
       rmapM parse_digest_hex (ip_peaks_left pf) = Inr ls \<and>
       rmapM parse_digest_hex (ip_peaks_right pf) = Inr rs \<and>
       collide (proof_inputs (length ds) (nat idx) d ws ls rs) (mmr_inputs ds))"
proof -
  let ?n = "length ds"
  have max: "int (nodes ?n) < MAX_MMR_SIZE" using verified_size [OF assms] by auto
  define i where "i = nat idx"
  let ?m = "mountain_of ?n i"
  obtain ws ls rs where v: "0 \<le> idx" "i < ?n"
      "length (ip_peaks_left pf) = ?m" "length (ip_peaks_right pf) = length (mountains_from 0 ?n) - ?m - 1"
      "length (ip_witness pf) = length (mountain_path 0 ?n i)"
    and p: "rmapM parse_digest_hex (ip_witness pf) = Inr ws" "rmapM parse_digest_hex (ip_peaks_left pf) = Inr ls"
      "rmapM parse_digest_hex (ip_peaks_right pf) = Inr rs"
    and root: "mmr_root ds = bag_reversed (rev (ls @ [climb mmr_input (sha256 ([0x00] @ d)) (hops (mountain_path 0 ?n i) ws)] @ rs))"
    using assms unfolding mmr_verify_inclusion_iff [OF max] i_def by auto
  let ?acc = "climb mmr_input (sha256 ([0x00] @ d)) (hops (mountain_path 0 ?n i) ws)"
  obtain K S where KS: "mountains_from 0 ?n ! ?m = (K, S)" by fastforce
  have m: "?m < length (mountains_from 0 ?n)" by (rule mountain_of_holds(1) [OF v(2)])
  have KSin: "(K, S) \<in> set (mountains_from 0 ?n)" using KS m by (metis nth_mem)
  have u: "under (0, i) (K, S)" using mountain_of_under [OF v(2)] KS by simp
  have mp: "mountain_path 0 ?n i = path_shape K S 0 i" by (simp add: mountain_path_def KS)
  have len: "length ls = ?m" "length rs = length (mountains_from 0 ?n) - ?m - 1" "length ws = length (mountain_path 0 ?n i)"
    using rmapM_length [OF p(1)] rmapM_length [OF p(2)] rmapM_length [OF p(3)] v(3-5) by simp_all
  have "ds \<noteq> []" using v(2) by auto
  have l32: "\<forall>h \<in> set (ls @ [?acc] @ rs). length h = 32"
    using parse_digests_length [OF p(2)] parse_digests_length [OF p(3)] length_climb [of "sha256 ([0x00] @ d)"] by auto
  have "root_from_peaks (ls @ [?acc] @ rs) = Inr (mmr_root ds)"
    using l32 root by (subst root_from_peaks_iff) auto
  then have "ls @ [?acc] @ rs = mmr_peaks ds \<or> collide (bag_inputs (rev (ls @ [?acc] @ rs))) (mmr_inputs ds)"
    using len m l32 by (intro root_peaks_binding) auto
  then show ?thesis
  proof
    assume "ls @ [?acc] @ rs = mmr_peaks ds"
    then have "mmr_peaks ds ! ?m = ?acc" by (metis append_Cons len(1) nth_append_length)
    then have "?acc = node_hash ds K S" using nth_mmr_peaks [OF m KS] by simp
    then have "sha256 ([0x00] @ d) = node_hash ds 0 i \<or>
        collide (climb_inputs mmr_input (sha256 ([0x00] @ d)) (hops (mountain_path 0 ?n i) ws)) (node_inputs ds K S)"
      using walk_binding [OF u, of "sha256 ([0x00] @ d)" ws ds] len(3) mp by simp
    moreover have "[0x00] @ d = [0x00] @ ds ! i \<or> collide [[0x00] @ d] (node_inputs ds K S)"
      if "sha256 ([0x00] @ d) = node_hash ds 0 i"
      using that node_inputs_under [OF u, of ds] by (intro sha256_eq_or_collide) auto
    ultimately consider "d = ds ! i" | "collide (proof_inputs ?n i d ws ls rs) (mmr_inputs ds)"
      using collide_mono [OF _ _ node_inputs_in [OF KSin], of _ "proof_inputs ?n i d ws ls rs"]
      by (auto simp: proof_inputs_def)
    then show ?thesis using v p i_def by cases auto
  next
    assume "collide (bag_inputs (rev (ls @ [?acc] @ rs))) (mmr_inputs ds)"
    then have "collide (proof_inputs ?n i d ws ls rs) (mmr_inputs ds)"
      by (rule collide_mono) (auto simp: proof_inputs_def)
    then show ?thesis using p i_def by auto
  qed
qed

text \<open>The honest proof.\<close>

definition hex_json :: "bytes list \<Rightarrow> json list" where
  "hex_json bs = map (\<lambda>b. JStr (to_hex b)) bs"

definition honest_inclusion :: "bytes list \<Rightarrow> nat \<Rightarrow> inclusion_proof" where
  "honest_inclusion ds i =
     (let m = mountain_of (length ds) i
      in case mountains_from 0 (length ds) ! m of (K, S) \<Rightarrow>
        \<lparr>ip_v = 1, ip_kind = JStr ''inclusion'', ip_size = int (nodes (length ds)), ip_leaf_index = int i,
         ip_witness = hex_json (audit_path ds K S 0 i),
         ip_peaks_left = hex_json (take m (mmr_peaks ds)),
         ip_peaks_right = hex_json (drop (Suc m) (mmr_peaks ds))\<rparr>)"

lemma parse_hex_json: "\<forall>b \<in> set bs. length b = 32 \<Longrightarrow> rmapM parse_digest_hex (hex_json bs) = Inr bs"
  unfolding hex_json_def rmapM_map by (simp add: rmapM_cong_Inr)

lemma length_hex_json [simp]: "length (hex_json bs) = length bs"
  by (simp add: hex_json_def)

lemma mmr_inclusion_complete:
  assumes "i < length ds" "length (ds ! i) = 32" "int (nodes (length ds)) < MAX_MMR_SIZE"
  shows "mmr_verify_inclusion (mmr_root ds) (int (nodes (length ds))) (int i) (ds ! i) (Some (honest_inclusion ds i))"
proof -
  let ?n = "length ds" and ?m = "mountain_of (length ds) i"
  obtain K S where KS: "mountains_from 0 ?n ! ?m = (K, S)" by fastforce
  have m: "?m < length (mountains_from 0 ?n)" by (rule mountain_of_holds(1) [OF assms(1)])
  have u: "under (0, i) (K, S)" using mountain_of_under [OF assms(1)] KS by simp
  have mp: "mountain_path 0 ?n i = path_shape K S 0 i" by (simp add: mountain_path_def KS)
  have c: "climb mmr_input (sha256 ([0x00] @ ds ! i)) (hops (mountain_path 0 ?n i) (audit_path ds K S 0 i)) = mmr_peaks ds ! ?m"
    using audit_path_climb [OF u, of ds] mp nth_mmr_peaks [OF m KS] by simp
  have "ds \<noteq> []" using assms(1) by auto
  then have r: "mmr_root ds = bag_reversed (rev (take ?m (mmr_peaks ds) @ [mmr_peaks ds ! ?m] @ drop (Suc ?m) (mmr_peaks ds)))"
    using m by (simp add: mmr_root_def id_take_nth_drop [symmetric])
  have q: "rmapM parse_digest_hex (hex_json (audit_path ds K S 0 i)) = Inr (audit_path ds K S 0 i)"
    "rmapM parse_digest_hex (hex_json (take ?m (mmr_peaks ds))) = Inr (take ?m (mmr_peaks ds))"
    "rmapM parse_digest_hex (hex_json (drop (Suc ?m) (mmr_peaks ds))) = Inr (drop (Suc ?m) (mmr_peaks ds))"
    by (intro parse_hex_json ballI; auto dest!: in_set_takeD in_set_dropD intro: mmr_peaks_lengths audit_path_lengths)+
  show ?thesis
    unfolding mmr_verify_inclusion_iff [OF assms(3)]
    using assms m c mp KS r q length_mmr_root [of ds, unfolded r] by (simp add: honest_inclusion_def Let_def)
qed

end
