(* ===== verification/Mmr_History.thy ===== *)
theory Mmr_History
  imports Mmr_Proofs
begin

text \<open>
  Consistency and range proofs of \<open>src/scitt_cose/cll.py\<close>: an accepted consistency proof says that
  the older log is a prefix of the newer one, an accepted range proof says that the digests given
  are those of the records, each unless the octets hashed exhibit a SHA-256 collision.
\<close>

section \<open>Consistency\<close>

text \<open>A mountain of the shorter log in the longer one.\<close>

lemma older_mountain:
  assumes "m \<le> n" "(k, s) \<in> set (mountains_from 0 m)"
  obtains K S where "mountain_of n s < length (mountains_from 0 n)" "mountains_from 0 n ! mountain_of n s = (K, S)"
    "(K, S) \<in> set (mountains_from 0 n)" "under (k, s) (K, S)" "mountain_path k n s = path_shape K S k s"
proof -
  have "s + 2 ^ k \<le> m" using mountains_props [OF room_0 assms(2)] by auto
  moreover have "0 < (2 :: nat) ^ k" by simp
  ultimately have sn: "s < n" using assms(1) by linarith
  obtain K S where KS: "mountains_from 0 n ! mountain_of n s = (K, S)" by fastforce
  then have "under (k, s) (K, S)"
    using mountain_under_longer [OF assms mountain_of_holds(1) [OF sn] KS] mountain_of_holds(2) [OF sn] by simp
  then show thesis
    using that [OF mountain_of_holds(1) [OF sn] KS] mountain_of_holds(1) [OF sn] KS
    by (metis (no_types, lifting) case_prod_conv mountain_path_def nth_mem)
qed

definition old_peak_ok :: "nat \<Rightarrow> bytes list \<Rightarrow> (nat \<times> nat) \<times> bytes \<times> json list \<Rightarrow> bool" where
  "old_peak_ok n nb x =
     (case x of ((k, s), old, w) \<Rightarrow>
        length w = length (mountain_path k n s) \<and>
        (\<exists>ws. rmapM parse_digest_hex w = Inr ws \<and>
          climb mmr_input old (hops (mountain_path k n s) ws) = nb ! mountain_of n s))"

lemma check_old_peaks_iff:
  assumes "m \<le> n" "int (nodes n) < MAX_MMR_SIZE" "\<forall>b \<in> set (map (\<lambda>x. fst (snd x)) xs). length b = 32"
    and "set (map fst xs) \<subseteq> set (mountains_from 0 m)"
  shows "check_old_peaks (map peak_pos (mountains_from 0 n)) nb (map (\<lambda>(a, old, w). (peak_pos a, old, w)) xs)
    = Inr True \<longleftrightarrow> list_all (old_peak_ok n nb) xs"
  using assms(3,4)
proof (induction xs)
  case (Cons x xs)
  obtain k s old w where x: "x = ((k, s), old, w)" by (cases x) auto
  then have ks: "(k, s) \<in> set (mountains_from 0 m)" "length old = 32" using Cons.prems by auto
  obtain K S where KS: "mountain_of n s < length (mountains_from 0 n)" "mountains_from 0 n ! mountain_of n s = (K, S)"
    "(K, S) \<in> set (mountains_from 0 n)" "under (k, s) (K, S)" "mountain_path k n s = path_shape K S k s"
    by (rule older_mountain [OF assms(1) ks(1)])
  have find: "find_containing_peak (peak_pos (k, s)) (map peak_pos (mountains_from 0 n)) = Inr (Some (mountain_of n s))"
    using find_containing [OF room_0 KS(1), of k s] KS by (simp add: peak_pos_def)
  have pk: "map peak_pos (mountains_from 0 n) ! mountain_of n s = int (node_pos K S)"
    using KS by (simp add: peak_pos_def)
  have h: "height_at (int (node_pos K S)) = Inr K" using height_at_mountain [OF KS(3)] by (simp add: peak_pos_def)
  have len: "length (locate_path (int (node_pos K S)) K (peak_pos (k, s))) = length (mountain_path k n s)"
    using length_locate_path [OF KS(4)] KS(5) by (simp add: peak_pos_def)
  have fold: "fold_path old (zip (locate_path (int (node_pos K S)) K (peak_pos (k, s))) ws) = Inr r \<longleftrightarrow>
      r = climb mmr_input old (hops (mountain_path k n s) ws)"
    if "rmapM parse_digest_hex w = Inr ws" "length w = length (mountain_path k n s)" for ws r
    using fold_locate_iff [OF KS(4,3) assms(2) ks(2), of ws r] parse_digests_length [OF that(1)]
      rmapM_length [OF that(1)] that(2) KS(5) by (simp add: peak_pos_def)
  have ih: "check_old_peaks (map peak_pos (mountains_from 0 n)) nb (map (\<lambda>(a, old, w). (peak_pos a, old, w)) xs)
      = Inr True \<longleftrightarrow> list_all (old_peak_ok n nb) xs"
    using Cons by simp
  have "check_old_peaks (map peak_pos (mountains_from 0 n)) nb (map (\<lambda>(a, old, w). (peak_pos a, old, w)) (x # xs)) = Inr True \<longleftrightarrow>
    length w = length (mountain_path k n s) \<and>
    (\<exists>ws. rmapM parse_digest_hex w = Inr ws \<and>
      (\<exists>acc. fold_path old (zip (locate_path (int (node_pos K S)) K (peak_pos (k, s))) ws) = Inr acc \<and>
        acc = nb ! mountain_of n s)) \<and> list_all (old_peak_ok n nb) xs"
    unfolding ih [symmetric] x list.map prod.case check_old_peaks.simps
    by (auto simp only: find pk h len Let_def rbind.simps option.case check_True rbind_Inr_iff)
  also have "\<dots> \<longleftrightarrow> list_all (old_peak_ok n nb) (x # xs)"
    unfolding list.pred_inject x using fold by (auto simp: old_peak_ok_def [of n nb "((k, s), old, w)"] cong: conj_cong)
  finally show ?case .
qed simp

lemma zip_peaks:
  assumes "length ob = length ms" "length wss = length ms"
  shows "zip (map peak_pos ms) (zip ob wss) = map (\<lambda>(a, old, w). (peak_pos a, old, w)) (zip ms (zip ob wss))"
  by (simp add: zip_map1 case_prod_beta')

lemma mmr_verify_consistency_iff:
  "mmr_verify_consistency root_a sa root_b sb (Some pf) \<longleftrightarrow>
    (\<exists>m n ob nb. sa = int (nodes m) \<and> sb = int (nodes n) \<and> m \<le> n \<and> sb < MAX_MMR_SIZE \<and>
      length root_a = 32 \<and> length root_b = 32 \<and> cp_v pf = 1 \<and> cp_kind pf = JStr ''consistency'' \<and>
      cp_size_a pf = sa \<and> cp_size_b pf = sb \<and>
      length (cp_witness pf) = length (mountains_from 0 m) \<and>
      rmapM parse_digest_hex (cp_old_peaks pf) = Inr ob \<and> length ob = length (mountains_from 0 m) \<and>
      rmapM parse_digest_hex (cp_new_peaks pf) = Inr nb \<and> length nb = length (mountains_from 0 n) \<and>
      root_from_peaks ob = Inr root_a \<and> root_from_peaks nb = Inr root_b \<and>
      list_all (old_peak_ok n nb) (zip (mountains_from 0 m) (zip ob (cp_witness pf))))"
    (is "?lhs \<longleftrightarrow> ?rhs")
proof -
  have old: "check_old_peaks (map peak_pos (mountains_from 0 n)) nb
      (zip (map peak_pos (mountains_from 0 m)) (zip ob (cp_witness pf))) = Inr True \<longleftrightarrow>
      list_all (old_peak_ok n nb) (zip (mountains_from 0 m) (zip ob (cp_witness pf)))"
    if "m \<le> n" "int (nodes n) < MAX_MMR_SIZE" "rmapM parse_digest_hex (cp_old_peaks pf) = Inr ob"
      "length ob = length (mountains_from 0 m)" "length (cp_witness pf) = length (mountains_from 0 m)" for m n ob nb
    unfolding zip_peaks [OF that(4,5)] using that(1,2)
  proof (rule check_old_peaks_iff)
    show "\<forall>b \<in> set (map (\<lambda>x. fst (snd x)) (zip (mountains_from 0 m) (zip ob (cp_witness pf)))). length b = 32"
      using parse_digests_length [OF that(3)] by (auto simp: set_zip)
    show "set (map fst (zip (mountains_from 0 m) (zip ob (cp_witness pf)))) \<subseteq> set (mountains_from 0 m)"
      by (auto dest: set_zip_leftD)
  qed
  have le: "nodes m \<le> nodes n \<longleftrightarrow> m \<le> n" for m n
    using nodes_mono nodes_less by (metis not_le)
  show ?thesis
  proof
    assume ?lhs
    then obtain ra opp npp ob nb where c: "length root_a = 32" "length root_b = 32" "cp_v pf = 1"
      "cp_kind pf = JStr ''consistency''" "cp_size_a pf = sa" "cp_size_b pf = sb" "0 \<le> sa" "sa \<le> sb"
      "peaks sa = Inr opp" "peaks sb = Inr npp" "length (cp_old_peaks pf) = length opp"
      "length (cp_new_peaks pf) = length npp" "length (cp_witness pf) = length opp"
      "rmapM parse_digest_hex (cp_old_peaks pf) = Inr ob" "rmapM parse_digest_hex (cp_new_peaks pf) = Inr nb"
      "root_from_peaks ob = Inr root_a" "root_from_peaks nb = Inr root_b"
      "check_old_peaks npp nb (zip opp (zip ob (cp_witness pf))) = Inr True"
      by (auto simp: mmr_verify_consistency_def never_raises_iff consistency_body_def rbind_Inr_iff check_True
          assert_digest_def DIGEST_LEN_def require_Inr)
    obtain m n where mn: "sa = int (nodes m)" "opp = map peak_pos (mountains_from 0 m)"
      "sb = int (nodes n)" "npp = map peak_pos (mountains_from 0 n)" "sb < MAX_MMR_SIZE"
      using c(9,10) by (auto simp: peaks_iff)
    then have "m \<le> n" using c(8) le by simp
    then show ?rhs using c mn rmapM_length [OF c(14)] rmapM_length [OF c(15)] old [of m n ob nb]
      by (intro exI [of _ m] exI [of _ n] exI [of _ ob] exI [of _ nb]) simp
  next
    assume ?rhs
    then obtain m n ob nb where r: "sa = int (nodes m)" "sb = int (nodes n)" "m \<le> n" "sb < MAX_MMR_SIZE"
      "length root_a = 32" "length root_b = 32" "cp_v pf = 1" "cp_kind pf = JStr ''consistency''"
      "cp_size_a pf = sa" "cp_size_b pf = sb" "length (cp_witness pf) = length (mountains_from 0 m)"
      "rmapM parse_digest_hex (cp_old_peaks pf) = Inr ob" "length ob = length (mountains_from 0 m)"
      "rmapM parse_digest_hex (cp_new_peaks pf) = Inr nb" "length nb = length (mountains_from 0 n)"
      "root_from_peaks ob = Inr root_a" "root_from_peaks nb = Inr root_b"
      "list_all (old_peak_ok n nb) (zip (mountains_from 0 m) (zip ob (cp_witness pf)))"
      by auto
    have pk: "peaks (int (nodes m)) = Inr (map peak_pos (mountains_from 0 m))"
      "peaks (int (nodes n)) = Inr (map peak_pos (mountains_from 0 n))"
      using r(2,3,4) le [of m n] by (auto simp: peaks_nodes)
    have lens: "length (cp_old_peaks pf) = length (mountains_from 0 m)"
      "length (cp_new_peaks pf) = length (mountains_from 0 n)"
      using rmapM_length [OF r(12)] rmapM_length [OF r(14)] r(13,15) by simp_all
    show ?lhs
      unfolding mmr_verify_consistency_def never_raises_iff consistency_body_def
      using r pk lens le [of m n] old [of m n ob nb]
      by (simp add: check_def assert_digest_def DIGEST_LEN_def)
  qed
qed

text \<open>What is hashed for a consistency proof whose elements are \<open>ob\<close>, \<open>nb\<close> and \<open>wss\<close>.\<close>

definition consistency_inputs :: "nat \<Rightarrow> nat \<Rightarrow> bytes list \<Rightarrow> bytes list \<Rightarrow> bytes list list \<Rightarrow> bytes list" where
  "consistency_inputs m n ob nb wss =
     bag_inputs (rev ob) @ bag_inputs (rev nb) @
     concat (map (\<lambda>((k, s), old, ws). climb_inputs mmr_input old (hops (mountain_path k n s) ws))
       (zip (mountains_from 0 m) (zip ob wss)))"

lemma mmr_consistency_sound:
  assumes "mmr_verify_consistency (mmr_root da) (int (nodes (length da))) (mmr_root db) (int (nodes (length db))) (Some pf)"
  shows "take (length da) db = da \<and> length da \<le> length db \<or>
    (\<exists>ob nb wss. rmapM parse_digest_hex (cp_old_peaks pf) = Inr ob \<and>
       rmapM parse_digest_hex (cp_new_peaks pf) = Inr nb \<and>
       list_all2 (\<lambda>w ws. rmapM parse_digest_hex w = Inr ws) (cp_witness pf) wss \<and>
       collide (mmr_inputs da @ consistency_inputs (length da) (length db) ob nb wss)
         (mmr_inputs da @ mmr_inputs db))"
proof -
  let ?m = "length da" and ?n = "length db" and ?w = "cp_witness pf"
  let ?ms = "mountains_from 0 ?m"
  obtain ob nb where le: "?m \<le> ?n"
    and p: "rmapM parse_digest_hex (cp_old_peaks pf) = Inr ob" "rmapM parse_digest_hex (cp_new_peaks pf) = Inr nb"
    and len: "length ?w = length ?ms" "length ob = length ?ms" "length nb = length (mountains_from 0 ?n)"
    and roots: "root_from_peaks ob = Inr (mmr_root da)" "root_from_peaks nb = Inr (mmr_root db)"
    and ok: "list_all (old_peak_ok ?n nb) (zip ?ms (zip ob ?w))"
    using assms by (auto simp: mmr_verify_consistency_iff)
  define wss where "wss = map (\<lambda>w. case rmapM parse_digest_hex w of Inr ws \<Rightarrow> ws | Inl _ \<Rightarrow> []) ?w"
  have each: "\<exists>ws. rmapM parse_digest_hex (?w ! i) = Inr ws \<and> wss ! i = ws \<and>
      length ws = length (mountain_path (fst (?ms ! i)) ?n (snd (?ms ! i))) \<and>
      climb mmr_input (ob ! i) (hops (mountain_path (fst (?ms ! i)) ?n (snd (?ms ! i))) ws) =
        nb ! mountain_of ?n (snd (?ms ! i))" if "i < length ?ms" for i
  proof -
    have "old_peak_ok ?n nb (?ms ! i, ob ! i, ?w ! i)"
      using ok that len by (simp add: list_all_length)
    then show ?thesis
      using that len rmapM_length [of parse_digest_hex "?w ! i"] by (auto simp: old_peak_ok_def wss_def case_prod_beta')
  qed
  have ws: "list_all2 (\<lambda>w ws. rmapM parse_digest_hex w = Inr ws) ?w wss"
    using each len by (auto simp: list_all2_conv_all_nth wss_def)
  let ?C = "consistency_inputs ?m ?n ob nb wss"
  let ?bad = "collide (mmr_inputs da @ ?C) (mmr_inputs da @ mmr_inputs db)"
  have bad: "?bad" if "collide xs ys" "set xs \<subseteq> set (mmr_inputs da @ ?C)" "set ys \<subseteq> set (mmr_inputs da @ mmr_inputs db)"
    for xs ys using that by (rule collide_mono)
  have "ob = mmr_peaks da \<or> ?bad"
    using root_peaks_binding [OF roots(1)] parse_digests_length [OF p(1)] len
      bad [of "bag_inputs (rev ob)" "mmr_inputs da"] by (auto simp: consistency_inputs_def)
  moreover have "nb = mmr_peaks db \<or> ?bad"
    using root_peaks_binding [OF roots(2)] parse_digests_length [OF p(2)] len
      bad [of "bag_inputs (rev nb)" "mmr_inputs db"] by (auto simp: consistency_inputs_def)
  moreover have "?bad \<or> (\<forall>i < ?m. da ! i = db ! i)" if pk: "ob = mmr_peaks da" "nb = mmr_peaks db"
  proof (cases ?bad)
    case False
    have "da ! i = db ! i" if i: "i < ?m" for i
    proof -
      let ?j = "mountain_of ?m i"
      obtain k s where ks: "?ms ! ?j = (k, s)" by fastforce
      have j: "?j < length ?ms" "holds i (k, s)" using mountain_of_holds [OF i] ks by simp_all
      have ksin: "(k, s) \<in> set ?ms" using ks j(1) by (metis nth_mem)
      obtain K S where KS: "mountain_of ?n s < length (mountains_from 0 ?n)" "mountains_from 0 ?n ! mountain_of ?n s = (K, S)"
        "(K, S) \<in> set (mountains_from 0 ?n)" "under (k, s) (K, S)" "mountain_path k ?n s = path_shape K S k s"
        by (rule older_mountain [OF le ksin])
      let ?ws = "wss ! ?j"
      have e: "length ?ws = length (path_shape K S k s)"
        "climb mmr_input (node_hash da k s) (hops (path_shape K S k s) ?ws) = node_hash db K S"
        using each [OF j(1)] ks KS(5) pk nth_mmr_peaks [OF j(1) ks] nth_mmr_peaks [OF KS(1,2)] by auto
      have "((k, s), ob ! ?j, ?ws) \<in> set (zip ?ms (zip ob wss))"
        using j(1) len ks unfolding in_set_conv_nth by (intro exI [of _ ?j]) (simp add: wss_def)
      then have sub: "set (climb_inputs mmr_input (node_hash da k s) (hops (path_shape K S k s) ?ws)) \<subseteq> set ?C"
        using pk nth_mmr_peaks [OF j(1) ks] KS(5) by (force simp: consistency_inputs_def)
      have "node_hash da k s = node_hash db k s"
        using walk_binding [OF KS(4) _ e] False bad [of "climb_inputs mmr_input (node_hash da k s) (hops (path_shape K S k s) ?ws)" "node_inputs db K S"]
          sub node_inputs_in [OF KS(3)] by auto
      then show ?thesis
        using node_binding [of da k s db] False bad [of "node_inputs da k s" "node_inputs db k s"] j(2)
          node_inputs_in [OF ksin] subset_trans [OF node_inputs_under [OF KS(4)] node_inputs_in [OF KS(3)]] by auto
    qed
    then show ?thesis by blast
  qed simp
  ultimately have "?bad \<or> (\<forall>i < ?m. da ! i = db ! i)" by blast
  then show ?thesis
  proof
    assume "\<forall>i < ?m. da ! i = db ! i"
    then have "take ?m db = da" using le by (intro nth_equalityI) auto
    then show ?thesis using le by blast
  qed (use p ws in blast)
qed

text \<open>The honest proof that \<open>ds\<close> extends its first \<open>m\<close> records.\<close>

definition peak_path :: "bytes list \<Rightarrow> nat \<times> nat \<Rightarrow> bytes list" where
  "peak_path ds a =
     (case mountains_from 0 (length ds) ! mountain_of (length ds) (snd a) of
        (K, S) \<Rightarrow> audit_path ds K S (fst a) (snd a))"

definition honest_consistency :: "bytes list \<Rightarrow> nat \<Rightarrow> consistency_proof" where
  "honest_consistency ds m =
     \<lparr>cp_v = 1, cp_kind = JStr ''consistency'', cp_size_a = int (nodes m), cp_size_b = int (nodes (length ds)),
      cp_old_peaks = hex_json (mmr_peaks (take m ds)),
      cp_witness = map (\<lambda>a. hex_json (peak_path ds a)) (mountains_from 0 m),
      cp_new_peaks = hex_json (mmr_peaks ds)\<rparr>"

lemma mmr_consistency_complete:
  assumes "m \<le> length ds" "int (nodes (length ds)) < MAX_MMR_SIZE"
  shows "mmr_verify_consistency (mmr_root (take m ds)) (int (nodes m)) (mmr_root ds) (int (nodes (length ds)))
    (Some (honest_consistency ds m))"
proof -
  let ?n = "length ds" and ?ms = "mountains_from 0 m" and ?ob = "mmr_peaks (take m ds)"
  have len: "length ?ob = length ?ms" using assms(1) by simp
  have q: "rmapM parse_digest_hex (hex_json ?ob) = Inr ?ob" "rmapM parse_digest_hex (hex_json (mmr_peaks ds)) = Inr (mmr_peaks ds)"
    by (auto intro!: parse_hex_json mmr_peaks_lengths)
  have ok: "old_peak_ok ?n (mmr_peaks ds) (?ms ! i, ?ob ! i, hex_json (peak_path ds (?ms ! i)))" if i: "i < length ?ms" for i
  proof -
    obtain k s where ks: "?ms ! i = (k, s)" by fastforce
    then have ksin: "(k, s) \<in> set ?ms" using i by (metis nth_mem)
    obtain K S where KS: "mountain_of ?n s < length (mountains_from 0 ?n)" "mountains_from 0 ?n ! mountain_of ?n s = (K, S)"
      "(K, S) \<in> set (mountains_from 0 ?n)" "under (k, s) (K, S)" "mountain_path k ?n s = path_shape K S k s"
      by (rule older_mountain [OF assms(1) ksin])
    have "s + 2 ^ k \<le> m" using mountains_props [OF room_0 ksin] by simp
    then have "node_hash (take m ds) k s = node_hash ds k s" by (intro node_hash_cong) simp
    then have "?ob ! i = node_hash ds k s" using i ks assms(1) nth_mmr_peaks [of i "take m ds" k s] by simp
    moreover have "peak_path ds (k, s) = audit_path ds K S k s" by (simp add: peak_path_def KS(2))
    moreover have "rmapM parse_digest_hex (hex_json (audit_path ds K S k s)) = Inr (audit_path ds K S k s)"
      by (intro parse_hex_json ballI) (rule audit_path_lengths)
    ultimately show ?thesis
      using audit_path_climb [OF KS(4), of ds] nth_mmr_peaks [OF KS(1,2)] KS(5) ks by (simp add: old_peak_ok_def)
  qed
  then have "list_all (old_peak_ok ?n (mmr_peaks ds)) (zip ?ms (zip ?ob (map (\<lambda>a. hex_json (peak_path ds a)) ?ms)))"
    using len by (simp add: list_all_length)
  then show ?thesis
    unfolding mmr_verify_consistency_iff
    using assms q len root_mmr_peaks
    by (intro exI [of _ m] exI [of _ ?n] exI [of _ ?ob] exI [of _ "mmr_peaks ds"]) (simp add: honest_consistency_def)
qed

section \<open>Ranges\<close>

text \<open>What is hashed while a subtree is rebuilt.\<close>

fun reconstruct_inputs :: "nat \<Rightarrow> nat \<Rightarrow> int \<Rightarrow> int \<Rightarrow> (int \<Rightarrow> bytes option) \<Rightarrow> bytes list \<Rightarrow> nat \<Rightarrow> bytes list" where
  "reconstruct_inputs k s lo hi dg ws c =
     (if int (s + 2 ^ k) \<le> lo \<or> hi < int s then []
      else (case k of
        0 \<Rightarrow> (case dg (int s) of None \<Rightarrow> [] | Some d \<Rightarrow> [[0x00] @ d])
      | Suc h \<Rightarrow>
          (case reconstruct (int (node_pos h s)) h (int s) lo hi dg ws c of
             Inl _ \<Rightarrow> []
           | Inr (l, c') \<Rightarrow>
               (case reconstruct (int (node_pos h (s + 2 ^ h))) h (int (s + 2 ^ h)) lo hi dg ws c' of
                  Inl _ \<Rightarrow> []
                | Inr (r, c'') \<Rightarrow>
                    mmr_input (int (node_pos k s)) l r
                      # reconstruct_inputs h s lo hi dg ws c @ reconstruct_inputs h (s + 2 ^ h) lo hi dg ws c'))))"

declare reconstruct_inputs.simps [simp del]

lemma interior_hash_Inr:
  "interior_hash l r p = Inr x \<Longrightarrow> length l = 32 \<and> length r = 32 \<and> x = sha256 (mmr_input p l r)"
  by (auto simp: interior_hash_def mmr_input_def raise_simps to_bytes_be_def assert_digest_def DIGEST_LEN_def
      split: if_splits)

text \<open>A subtree that is rebuilt to the hash of its node was given the right digests.\<close>

lemma reconstruct_binding:
  assumes "2 ^ k dvd s" "reconstruct (int (node_pos k s)) k (int s) lo hi dg ws c = Inr (node_hash ds k s, c')"
  shows "(\<forall>i. s \<le> i \<and> i < s + 2 ^ k \<and> lo \<le> int i \<and> int i \<le> hi \<longrightarrow> dg (int i) = Some (ds ! i)) \<or>
    collide (reconstruct_inputs k s lo hi dg ws c) (node_inputs ds k s)"
  using assms
proof (induction k arbitrary: s c c')
  case 0
  show ?case
  proof (cases "int s < lo \<or> hi < int s")
    case False
    then obtain d where d: "dg (int s) = Some d" "mmr_leaf_hash d = Inr (node_hash ds 0 s)"
      using 0(2) by (auto simp: reconstruct.simps [of _ 0] Let_def raise_simps rmap_Inr_iff split: option.splits)
    then have "[0x00] @ d = [0x00] @ ds ! s \<or> collide (reconstruct_inputs 0 s lo hi dg ws c) (node_inputs ds 0 s)"
      using False by (intro sha256_eq_or_collide) (auto simp: mmr_leaf_hash_Inr reconstruct_inputs.simps [of 0])
    then show ?thesis using d(1) by (auto simp: le_less_Suc_eq)
  qed auto
next
  case (Suc k)
  show ?case
  proof (cases "int (s + 2 ^ Suc k) \<le> lo \<or> hi < int s")
    case False
    then have inside: "\<not> (int s + 2 ^ Suc k - 1 < lo \<or> hi < int s)" by simp
    have al: "2 ^ k dvd s" "2 ^ k dvd s + 2 ^ k" by (rule under_children [OF Suc.prems(1)])+
    have pos: "int (node_pos (Suc k) s) - 2 ^ Suc k = int (node_pos k s)"
      "int (node_pos (Suc k) s) - 1 = int (node_pos k (s + 2 ^ k))" "int s + 2 ^ k = int (s + 2 ^ k)"
      using node_pos_left [of k s] by (simp, simp only: node_pos_right [OF Suc.prems(1)], simp_all)
    obtain l c1 r where l: "reconstruct (int (node_pos k s)) k (int s) lo hi dg ws c = Inr (l, c1)"
      and r: "reconstruct (int (node_pos k (s + 2 ^ k))) k (int (s + 2 ^ k)) lo hi dg ws c1 = Inr (r, c')"
      and h: "interior_hash l r (int (node_pos (Suc k) s)) = Inr (node_hash ds (Suc k) s)"
      using Suc.prems(2) inside
      by (simp only: reconstruct.simps [of _ "Suc k"] Let_def if_False nat.case pos)
        (auto simp: rbind_Inr_iff rmap_Inr_iff split: prod.splits)
    have ins: "reconstruct_inputs (Suc k) s lo hi dg ws c =
        mmr_input (int (node_pos (Suc k) s)) l r
          # reconstruct_inputs k s lo hi dg ws c @ reconstruct_inputs k (s + 2 ^ k) lo hi dg ws c1"
      using False l r by (simp only: reconstruct_inputs.simps [of "Suc k"] if_False nat.case sum.case prod.case)
    let ?I = "reconstruct_inputs (Suc k) s lo hi dg ws c"
    note ih = interior_hash_Inr [OF h]
    have "mmr_input (int (node_pos (Suc k) s)) l r
        = mmr_input (int (node_pos (Suc k) s)) (node_hash ds k s) (node_hash ds k (s + 2 ^ k)) \<or>
        collide ?I (node_inputs ds (Suc k) s)"
      using ih by (intro sha256_eq_or_collide) (auto simp: ins)
    then show ?thesis
    proof
      assume "mmr_input (int (node_pos (Suc k) s)) l r
        = mmr_input (int (node_pos (Suc k) s)) (node_hash ds k s) (node_hash ds k (s + 2 ^ k))"
      from mmr_path.pre_inject [OF this] have "l = node_hash ds k s" "r = node_hash ds k (s + 2 ^ k)"
        using ih by simp_all
      then consider "collide (reconstruct_inputs k s lo hi dg ws c) (node_inputs ds k s)"
        | "collide (reconstruct_inputs k (s + 2 ^ k) lo hi dg ws c1) (node_inputs ds k (s + 2 ^ k))"
        | "\<And>i. s \<le> i \<and> i < s + 2 ^ k \<and> lo \<le> int i \<and> int i \<le> hi \<Longrightarrow> dg (int i) = Some (ds ! i)"
          "\<And>i. s + 2 ^ k \<le> i \<and> i < s + 2 ^ k + 2 ^ k \<and> lo \<le> int i \<and> int i \<le> hi \<Longrightarrow> dg (int i) = Some (ds ! i)"
        using Suc.IH [OF al(1)] l Suc.IH [OF al(2)] r by metis
      then show ?thesis
      proof cases
        case 1
        then have "collide ?I (node_inputs ds (Suc k) s)" by (rule collide_mono) (auto simp: ins)
        then show ?thesis ..
      next
        case 2
        then have "collide ?I (node_inputs ds (Suc k) s)" by (rule collide_mono) (auto simp: ins)
        then show ?thesis ..
      next
        case 3
        have "dg (int i) = Some (ds ! i)" if "s \<le> i" "i < s + 2 ^ Suc k" "lo \<le> int i" "int i \<le> hi" for i
          using 3(1) [of i] 3(2) [of i] that by (cases "i < s + 2 ^ k") simp_all
        then show ?thesis by blast
      qed
    qed simp
  next
    case True
    then have "\<not> (s \<le> i \<and> i < s + 2 ^ Suc k \<and> lo \<le> int i \<and> int i \<le> hi)" for i by linarith
    then show ?thesis by blast
  qed
qed

lemma reconstruct_length:
  "reconstruct p k s lo hi dg ws c = Inr (h, c') \<Longrightarrow> \<forall>w \<in> set ws. length w = 32 \<Longrightarrow> length h = 32"
  by (cases k) (auto simp: reconstruct.simps Let_def raise_simps mmr_leaf_hash_Inr
      dest: interior_hash_Inr split: if_splits option.splits prod.splits)

fun range_inputs :: "(nat \<times> nat) list \<Rightarrow> int \<Rightarrow> int \<Rightarrow> (int \<Rightarrow> bytes option) \<Rightarrow> bytes list \<Rightarrow> nat \<Rightarrow> bytes list" where
  "range_inputs [] lo hi dg ws c = []"
| "range_inputs ((k, s) # ms) lo hi dg ws c =
     reconstruct_inputs k s lo hi dg ws c @
     (case reconstruct (int (node_pos k s)) k (int s) lo hi dg ws c of
        Inl _ \<Rightarrow> []
      | Inr (h, c') \<Rightarrow> range_inputs ms lo hi dg ws c')"

lemma height_at_top:
  assumes "room s n" "0 < n"
  shows "height_at (peak_pos (top_bit n, s)) = Inr (top_bit n)"
  using height_at_pos [OF room_top(2) [OF assms]] by (simp add: peak_pos_def)

lemma reconstruct_peaks_binding:
  assumes "room s n"
    and "reconstruct_peaks (map peak_pos (mountains_from s n)) (int s) lo hi dg ws c
      = Inr (map (\<lambda>(k, t). node_hash ds k t) (mountains_from s n), c')"
  shows "(\<forall>i. s \<le> i \<and> i < s + n \<and> lo \<le> int i \<and> int i \<le> hi \<longrightarrow> dg (int i) = Some (ds ! i)) \<or>
    collide (range_inputs (mountains_from s n) lo hi dg ws c)
      (concat (map (\<lambda>(k, t). node_inputs ds k t) (mountains_from s n)))"
  using assms
proof (induction n arbitrary: s c rule: less_induct)
  case (less n)
  show ?case
  proof (cases "n = 0")
    case False
    then have n: "0 < n" by simp
    let ?h = "top_bit n"
    let ?s' = "s + 2 ^ ?h" and ?n' = "n - 2 ^ ?h"
    note r = room_top [OF less.prems(1) n]
    have b: "2 ^ ?h \<le> n" using top_bit_bounds [OF n] by simp
    obtain c1 where c1: "reconstruct (int (node_pos ?h s)) ?h (int s) lo hi dg ws c = Inr (node_hash ds ?h s, c1)"
      and rest: "reconstruct_peaks (map peak_pos (mountains_from ?s' ?n')) (int ?s') lo hi dg ws c1
        = Inr (map (\<lambda>(k, t). node_hash ds k t) (mountains_from ?s' ?n'), c')"
    proof -
      have "peak_pos (?h, s) = int (node_pos ?h s)" "int s + 2 ^ ?h = int ?s'" by (simp_all add: peak_pos_def)
      then show thesis
        using that less.prems(2) height_at_top [OF less.prems(1) n]
        by (auto simp: mountains_from_Cons [OF n] rbind_Inr_iff rmap_Inr_iff simp del: of_nat_add)
    qed
    let ?X = "range_inputs (mountains_from s n) lo hi dg ws c"
    let ?Y = "concat (map (\<lambda>(k, t). node_inputs ds k t) (mountains_from s n))"
    have ins: "?X = reconstruct_inputs ?h s lo hi dg ws c @ range_inputs (mountains_from ?s' ?n') lo hi dg ws c1"
      using c1 by (simp add: mountains_from_Cons [OF n])
    have "?n' < n" using b n by simp
    from reconstruct_binding [OF r(2) c1] less.IH [OF this r(3) rest]
    consider "collide (reconstruct_inputs ?h s lo hi dg ws c) (node_inputs ds ?h s)"
      | "collide (range_inputs (mountains_from ?s' ?n') lo hi dg ws c1)
           (concat (map (\<lambda>(k, t). node_inputs ds k t) (mountains_from ?s' ?n')))"
      | "\<And>i. s \<le> i \<and> i < s + 2 ^ ?h \<and> lo \<le> int i \<and> int i \<le> hi \<Longrightarrow> dg (int i) = Some (ds ! i)"
        "\<And>i. ?s' \<le> i \<and> i < ?s' + ?n' \<and> lo \<le> int i \<and> int i \<le> hi \<Longrightarrow> dg (int i) = Some (ds ! i)"
      by metis
    then show ?thesis
    proof cases
      case 1
      then have "collide ?X ?Y" by (rule collide_mono) (simp add: ins, simp add: mountains_from_Cons [OF n])
      then show ?thesis ..
    next
      case 2
      then have "collide ?X ?Y" by (rule collide_mono) (simp add: ins, simp add: mountains_from_Cons [OF n])
      then show ?thesis ..
    next
      case 3
      have "dg (int i) = Some (ds ! i)" if "s \<le> i" "i < s + n" "lo \<le> int i" "int i \<le> hi" for i
        using 3(1) [of i] 3(2) [of i] that b by (cases "i < ?s'") simp_all
      then show ?thesis by blast
    qed
  qed auto
qed

lemma reconstruct_peaks_lengths:
  "reconstruct_peaks ps s lo hi dg ws c = Inr (hs, c') \<Longrightarrow> \<forall>w \<in> set ws. length w = 32 \<Longrightarrow>
     length hs = length ps \<and> (\<forall>h \<in> set hs. length h = 32)"
proof (induction ps arbitrary: s c hs c')
  case (Cons p ps)
  obtain k d c1 ds where "reconstruct p k s lo hi dg ws c = Inr (d, c1)" "hs = d # ds"
    "reconstruct_peaks ps (s + 2 ^ k) lo hi dg ws c1 = Inr (ds, c')"
    using Cons.prems(1) by (auto simp: raise_simps rmap_Inr_iff)
  then show ?case using Cons.IH Cons.prems(2) reconstruct_length by (metis length_Cons set_ConsD)
qed simp

lemma mmr_verify_range_iff:
  "mmr_verify_range root fseq tseq bds (Some pf) \<longleftrightarrow>
    (\<exists>n ws hs. length root = 32 \<and> rp_size pf = int (nodes n) \<and> rp_size pf < MAX_MMR_SIZE \<and>
      rp_from_seq pf = fseq \<and> rp_to_seq pf = tseq \<and> 1 \<le> fseq \<and> fseq \<le> tseq \<and> tseq = int n \<and>
      rp_from_index pf = fseq - 1 \<and> rp_to_index pf = tseq - 1 \<and> int (length bds) = tseq - fseq + 1 \<and>
      (\<forall>d \<in> set bds. length d = 32) \<and> rmapM parse_digest_hex (rp_witness pf) = Inr ws \<and>
      reconstruct_peaks (map peak_pos (mountains_from 0 n)) 0 (fseq - 1) (tseq - 1)
        (digest_by_index (fseq - 1) bds) ws 0 = Inr (hs, length ws) \<and>
      root_from_peaks hs = Inr root)"
    (is "?lhs \<longleftrightarrow> ?rhs")
proof -
  have dg: "(\<exists>us. rmapM assert_digest bds = Inr us) \<longleftrightarrow> (\<forall>d \<in> set bds. length d = 32)" for bds
    by (induction bds) (auto simp: raise_simps assert_digest_def DIGEST_LEN_def require_Inr)
  show ?thesis
  proof
    assume ?lhs
    then obtain lc us ws pks hs where c: "length root = 32" "rp_from_seq pf = fseq" "rp_to_seq pf = tseq" "1 \<le> fseq"
      "fseq \<le> tseq" "leaf_count (rp_size pf) = Inr tseq" "rp_from_index pf = fseq - 1" "rp_to_index pf = tseq - 1"
      "int (length bds) = rp_to_index pf - rp_from_index pf + 1" "rmapM assert_digest bds = Inr us"
      "rmapM parse_digest_hex (rp_witness pf) = Inr ws" "peaks (rp_size pf) = Inr pks"
      "reconstruct_peaks pks 0 (rp_from_index pf) (rp_to_index pf) (digest_by_index (rp_from_index pf) bds) ws 0
        = Inr (hs, length ws)" "root_from_peaks hs = Inr root"
      by (auto simp: mmr_verify_range_def never_raises_iff range_body_def rbind_Inr_iff check_True
          assert_digest_def DIGEST_LEN_def require_Inr split: prod.splits)
    obtain n where n: "rp_size pf = int (nodes n)" "rp_size pf < MAX_MMR_SIZE" "tseq = int n"
      using c(6) by (auto simp: leaf_count_iff)
    then have "pks = map peak_pos (mountains_from 0 n)" using c(12) by (auto simp: peaks_iff)
    then show ?rhs using c n dg [of bds] by (intro exI [of _ n] exI [of _ ws] exI [of _ hs]) auto
  next
    assume ?rhs
    then obtain n ws hs where c: "length root = 32" "rp_size pf = int (nodes n)" "rp_size pf < MAX_MMR_SIZE"
      "rp_from_seq pf = fseq" "rp_to_seq pf = tseq" "1 \<le> fseq" "fseq \<le> tseq" "tseq = int n"
      "rp_from_index pf = fseq - 1" "rp_to_index pf = tseq - 1" "int (length bds) = tseq - fseq + 1"
      "\<forall>d \<in> set bds. length d = 32" "rmapM parse_digest_hex (rp_witness pf) = Inr ws"
      "reconstruct_peaks (map peak_pos (mountains_from 0 n)) 0 (fseq - 1) (tseq - 1)
        (digest_by_index (fseq - 1) bds) ws 0 = Inr (hs, length ws)" "root_from_peaks hs = Inr root"
      by auto
    obtain us where "rmapM assert_digest bds = Inr us" using dg c(12) by blast
    moreover have "leaf_count (rp_size pf) = Inr (int n)" using c(2,3) by (auto simp: leaf_count_iff)
    moreover have "peaks (rp_size pf) = Inr (map peak_pos (mountains_from 0 n))" using c(2,3) by (auto simp: peaks_iff)
    ultimately show ?lhs
      unfolding mmr_verify_range_def never_raises_iff range_body_def
      using c by (simp add: check_def assert_digest_def DIGEST_LEN_def)
  qed
qed

text \<open>What is hashed for a range proof.\<close>

definition range_proof_inputs :: "nat \<Rightarrow> int \<Rightarrow> bytes list \<Rightarrow> bytes list \<Rightarrow> bytes list \<Rightarrow> bytes list" where
  "range_proof_inputs n fseq bds ws hs =
     bag_inputs (rev hs) @
     range_inputs (mountains_from 0 n) (fseq - 1) (int n - 1) (digest_by_index (fseq - 1) bds) ws 0"

lemma mmr_range_sound:
  assumes "mmr_verify_range (mmr_root ds) fseq tseq bds (Some pf)" "rp_size pf = int (nodes (length ds))"
  shows "1 \<le> fseq \<and> fseq \<le> tseq \<and> tseq = int (length ds) \<and> bds = drop (nat (fseq - 1)) ds \<or>
    (\<exists>ws hs. rmapM parse_digest_hex (rp_witness pf) = Inr ws \<and>
       reconstruct_peaks (map peak_pos (mountains_from 0 (length ds))) 0 (fseq - 1) (tseq - 1)
         (digest_by_index (fseq - 1) bds) ws 0 = Inr (hs, length ws) \<and>
       root_from_peaks hs = Inr (mmr_root ds) \<and>
       collide (range_proof_inputs (length ds) fseq bds ws hs) (mmr_inputs ds))"
proof -
  let ?n = "length ds" and ?dg = "digest_by_index (fseq - 1) bds"
  obtain ws hs where c: "1 \<le> fseq" "fseq \<le> tseq" "tseq = int ?n" "int (length bds) = tseq - fseq + 1"
    "rmapM parse_digest_hex (rp_witness pf) = Inr ws"
    "reconstruct_peaks (map peak_pos (mountains_from 0 ?n)) 0 (fseq - 1) (tseq - 1) ?dg ws 0 = Inr (hs, length ws)"
    "root_from_peaks hs = Inr (mmr_root ds)"
    using assms by (auto simp: mmr_verify_range_iff)
  have l: "length hs = length (mountains_from 0 ?n)" "\<forall>h \<in> set hs. length h = 32"
    using reconstruct_peaks_lengths [OF c(6) parse_digests_length [OF c(5)]] by simp_all
  let ?I = "range_proof_inputs ?n fseq bds ws hs"
  have "hs = mmr_peaks ds \<or> collide (bag_inputs (rev hs)) (mmr_inputs ds)"
    using root_peaks_binding [OF c(7)] l by simp
  moreover have "(\<forall>i < ?n. fseq - 1 \<le> int i \<longrightarrow> ?dg (int i) = Some (ds ! i)) \<or> collide ?I (mmr_inputs ds)"
    if "hs = mmr_peaks ds"
  proof -
    have "reconstruct_peaks (map peak_pos (mountains_from 0 ?n)) (int 0) (fseq - 1) (int ?n - 1) ?dg ws 0
        = Inr (map (\<lambda>(k, t). node_hash ds k t) (mountains_from 0 ?n), length ws)"
      using c(3,6) that by (simp add: mmr_peaks_def)
    from reconstruct_peaks_binding [OF room_0 this] show ?thesis
    proof
      assume "collide (range_inputs (mountains_from 0 ?n) (fseq - 1) (int ?n - 1) ?dg ws 0)
        (concat (map (\<lambda>(k, t). node_inputs ds k t) (mountains_from 0 ?n)))"
      then have "collide ?I (mmr_inputs ds)"
        by (rule collide_mono) (simp_all add: range_proof_inputs_def mmr_inputs_def)
      then show ?thesis ..
    qed auto
  qed
  moreover have "bds = drop (nat (fseq - 1)) ds" if m: "\<forall>i < ?n. fseq - 1 \<le> int i \<longrightarrow> ?dg (int i) = Some (ds ! i)"
  proof (rule nth_equalityI)
    show len: "length bds = length (drop (nat (fseq - 1)) ds)" using c(1-4) by simp
    fix j assume j: "j < length bds"
    then have "?dg (int (nat (fseq - 1) + j)) = Some (ds ! (nat (fseq - 1) + j))"
      using m [rule_format, of "nat (fseq - 1) + j"] c(1) len by simp
    then show "bds ! j = drop (nat (fseq - 1)) ds ! j"
      using j c(1) len by (simp add: digest_by_index_def split: if_splits)
  qed
  moreover have "collide ?I (mmr_inputs ds)" if "collide (bag_inputs (rev hs)) (mmr_inputs ds)"
    using that by (rule collide_mono) (simp_all add: range_proof_inputs_def)
  ultimately show ?thesis using c by metis
qed

text \<open>The honest proof for the records from index \<open>lo\<close> on: the maximal subtrees before it.\<close>

fun range_audit :: "bytes list \<Rightarrow> nat \<Rightarrow> nat \<Rightarrow> nat \<Rightarrow> bytes list" where
  "range_audit ds k s lo =
     (if s + 2 ^ k \<le> lo then [node_hash ds k s]
      else (case k of
        0 \<Rightarrow> []
      | Suc h \<Rightarrow> range_audit ds h s lo @ range_audit ds h (s + 2 ^ h) lo))"

declare range_audit.simps [simp del]

definition honest_range :: "bytes list \<Rightarrow> nat \<Rightarrow> range_proof" where
  "honest_range ds lo =
     \<lparr>rp_from_seq = int lo + 1, rp_to_seq = int (length ds), rp_size = int (nodes (length ds)),
      rp_from_index = int lo, rp_to_index = int (length ds) - 1,
      rp_witness = hex_json (concat (map (\<lambda>(k, s). range_audit ds k s lo) (mountains_from 0 (length ds))))\<rparr>"

lemma interior_hash_node:
  "int (node_pos (Suc k) s) + 1 < 2 ^ 64 \<Longrightarrow>
     interior_hash (node_hash ds k s) (node_hash ds k (s + 2 ^ k)) (int (node_pos (Suc k) s))
     = Inr (node_hash ds (Suc k) s)"
  by (simp add: interior_hash_def assert_digest_def DIGEST_LEN_def require_nonneg_int_def to_bytes_be_def
      py_raise_def mmr_input_def nat_add_distrib flip: of_nat_less_iff)

lemma reconstruct_honest:
  assumes "2 ^ k dvd s" "s + 2 ^ k \<le> length ds" "\<forall>d \<in> set ds. length d = 32"
    and "int (node_pos k s) + 1 < 2 ^ 64"
  shows "reconstruct (int (node_pos k s)) k (int s) (int lo) (int (length ds) - 1)
      (digest_by_index (int lo) (drop lo ds)) (xs @ range_audit ds k s lo @ ys) (length xs)
    = Inr (node_hash ds k s, length xs + length (range_audit ds k s lo))"
  using assms(1,2,4)
proof (induction k arbitrary: s xs ys)
  case 0
  then show ?case
    using assms(3) by (auto simp: reconstruct.simps [of _ 0] range_audit.simps [of _ 0] Let_def digest_by_index_def
        mmr_leaf_hash_def assert_digest_def DIGEST_LEN_def nat_diff_distrib)
next
  case (Suc k)
  show ?case
  proof (cases "s + 2 ^ Suc k \<le> lo")
    case True
    then have "int (s + 2 ^ Suc k) \<le> int lo" by (simp only: of_nat_le_iff)
    then have "int s + 2 ^ Suc k - 1 < int lo" by simp
    then show ?thesis using True by (simp add: reconstruct.simps [of _ "Suc k"] range_audit.simps [of _ "Suc k"])
  next
    case False
    have "\<not> int (length ds) - 1 < int s"
    proof -
      have "0 < (2 :: nat) ^ Suc k" by simp
      then have "s < length ds" using Suc.prems(2) by linarith
      then show ?thesis by linarith
    qed
    moreover have "\<not> int s + 2 ^ Suc k - 1 < int lo"
    proof -
      have "int lo < int (s + 2 ^ Suc k)" using False by (simp only: of_nat_less_iff not_le)
      then show ?thesis by simp
    qed
    ultimately have inside: "\<not> (int s + 2 ^ Suc k - 1 < int lo \<or> int (length ds) - 1 < int s)" by simp
    have al: "2 ^ k dvd s" "2 ^ k dvd s + 2 ^ k" by (rule under_children [OF Suc.prems(1)])+
    have pos: "int (node_pos (Suc k) s) - 2 ^ Suc k = int (node_pos k s)"
      "int (node_pos (Suc k) s) - 1 = int (node_pos k (s + 2 ^ k))" "int s + 2 ^ k = int (s + 2 ^ k)"
      using node_pos_left [of k s] by (simp, simp only: node_pos_right [OF Suc.prems(1)], simp_all)
    have audit: "range_audit ds (Suc k) s lo = range_audit ds k s lo @ range_audit ds k (s + 2 ^ k) lo"
      using False by (simp add: range_audit.simps [of _ "Suc k"])
    have fits: "int (node_pos k s) + 1 < 2 ^ 64" "int (node_pos k (s + 2 ^ k)) + 1 < 2 ^ 64"
      using Suc.prems(3) pos(1,2) by (smt (verit) zero_less_power, linarith)
    have "reconstruct (int (node_pos k s)) k (int s) (int lo) (int (length ds) - 1) (digest_by_index (int lo) (drop lo ds))
        (xs @ range_audit ds (Suc k) s lo @ ys) (length xs)
        = Inr (node_hash ds k s, length xs + length (range_audit ds k s lo))"
      using Suc.IH [OF al(1) _ fits(1), of xs "range_audit ds k (s + 2 ^ k) lo @ ys"] Suc.prems(2) by (simp add: audit)
    moreover have "reconstruct (int (node_pos k (s + 2 ^ k))) k (int (s + 2 ^ k)) (int lo) (int (length ds) - 1)
        (digest_by_index (int lo) (drop lo ds)) (xs @ range_audit ds (Suc k) s lo @ ys) (length xs + length (range_audit ds k s lo))
        = Inr (node_hash ds k (s + 2 ^ k), length xs + length (range_audit ds (Suc k) s lo))"
      using Suc.IH [OF al(2) _ fits(2), of "xs @ range_audit ds k s lo" ys] Suc.prems(2) by (simp add: audit)
    ultimately show ?thesis
      using inside interior_hash_node [OF Suc.prems(3), of ds]
      by (simp only: reconstruct.simps [of _ "Suc k"] Let_def if_False nat.case pos rbind.simps prod.case rmap.simps)
  qed
qed

lemma reconstruct_peaks_honest:
  assumes "room s n" "s + n \<le> length ds" "\<forall>d \<in> set ds. length d = 32" "\<forall>a \<in> set (mountains_from s n). peak_pos a + 1 < 2 ^ 64"
  shows "reconstruct_peaks (map peak_pos (mountains_from s n)) (int s) (int lo) (int (length ds) - 1)
      (digest_by_index (int lo) (drop lo ds))
      (xs @ concat (map (\<lambda>(k, s). range_audit ds k s lo) (mountains_from s n)) @ ys) (length xs)
    = Inr (map (\<lambda>(k, s). node_hash ds k s) (mountains_from s n),
        length xs + length (concat (map (\<lambda>(k, s). range_audit ds k s lo) (mountains_from s n))))"
  using assms(1,2,4)
proof (induction n arbitrary: s xs rule: less_induct)
  case (less n)
  show ?case
  proof (cases "n = 0")
    case False
    then have n: "0 < n" by simp
    let ?h = "top_bit n"
    let ?s' = "s + 2 ^ ?h" and ?n' = "n - 2 ^ ?h"
    let ?rest = "concat (map (\<lambda>(k, s). range_audit ds k s lo) (mountains_from ?s' ?n'))"
    note r = room_top [OF less.prems(1) n]
    have b: "2 ^ ?h \<le> n" using top_bit_bounds [OF n] by simp
    have "reconstruct (int (node_pos ?h s)) ?h (int s) (int lo) (int (length ds) - 1) (digest_by_index (int lo) (drop lo ds))
        (xs @ (range_audit ds ?h s lo @ ?rest) @ ys) (length xs)
        = Inr (node_hash ds ?h s, length xs + length (range_audit ds ?h s lo))"
      using reconstruct_honest [OF r(2) _ assms(3), of lo xs "?rest @ ys"] b less.prems(2,3)
      by (simp add: mountains_from_Cons [OF n] peak_pos_def)
    moreover have "reconstruct_peaks (map peak_pos (mountains_from ?s' ?n')) (int ?s') (int lo) (int (length ds) - 1)
        (digest_by_index (int lo) (drop lo ds)) (xs @ (range_audit ds ?h s lo @ ?rest) @ ys)
        (length xs + length (range_audit ds ?h s lo))
        = Inr (map (\<lambda>(k, s). node_hash ds k s) (mountains_from ?s' ?n'),
            length xs + length (range_audit ds ?h s lo) + length ?rest)"
      using less.IH [OF _ r(3), of "xs @ range_audit ds ?h s lo"] b n less.prems(2,3)
      by (simp add: mountains_from_Cons [OF n])
    moreover have "int s + 2 ^ ?h = int ?s'" by simp
    moreover have "peak_pos (?h, s) = int (node_pos ?h s)" by (simp add: peak_pos_def)
    ultimately show ?thesis
      using height_at_top [OF less.prems(1) n]
      by (simp only: concat.simps mountains_from_Cons [OF n] list.map prod.case reconstruct_peaks.simps rbind.simps rmap.simps
          length_append add.assoc)
  qed simp
qed

lemma range_audit_lengths: "h \<in> set (range_audit ds k s lo) \<Longrightarrow> length h = 32"
proof (induction k arbitrary: s)
  case (Suc k)
  then show ?case by (auto simp: range_audit.simps [of _ "Suc k"] split: if_splits)
qed (auto simp: range_audit.simps [of _ 0] split: if_splits)

lemma mmr_range_complete:
  assumes "lo < length ds" "\<forall>d \<in> set ds. length d = 32" "int (nodes (length ds)) < MAX_MMR_SIZE"
  shows "mmr_verify_range (mmr_root ds) (int lo + 1) (int (length ds)) (drop lo ds) (Some (honest_range ds lo))"
proof -
  let ?n = "length ds" and ?w = "concat (map (\<lambda>(k, s). range_audit ds k s lo) (mountains_from 0 (length ds)))"
  have q: "rmapM parse_digest_hex (hex_json ?w) = Inr ?w"
    by (intro parse_hex_json) (auto dest: range_audit_lengths)
  have fits: "peak_pos a + 1 < 2 ^ 64" if "a \<in> set (mountains_from 0 ?n)" for a
    using peak_bound [of "fst a" "snd a" ?n] that assms(3) by (simp add: peak_pos_def MAX_MMR_SIZE_def)
  have rec: "reconstruct_peaks (map peak_pos (mountains_from 0 ?n)) 0 (int lo) (int ?n - 1)
      (digest_by_index (int lo) (drop lo ds)) ?w 0 = Inr (mmr_peaks ds, length ?w)"
    using reconstruct_peaks_honest [OF room_0, of ?n ds lo "[]" "[]"] fits assms(2) by (simp add: mmr_peaks_def)
  show ?thesis
    unfolding mmr_verify_range_iff
    using assms q rec root_mmr_peaks [of ds]
    by (intro exI [of _ ?n] exI [of _ ?w] exI [of _ "mmr_peaks ds"]) (auto simp: honest_range_def dest: in_set_dropD)
qed

section \<open>Properties\<close>

text \<open>
  C16. The number of leaves of an MMR size is defined exactly for the sizes \<open>node_count\<close> gives,
  below the maximum, and is then the number of leaves it gives them for.
\<close>

theorem leaf_count_inverts_node_count:
  "leaf_count sz = Inr lc \<longleftrightarrow> 0 \<le> lc \<and> node_count lc = Inr sz \<and> sz < MAX_MMR_SIZE"
proof -
  have "0 \<le> lc \<and> node_count lc = Inr sz \<longleftrightarrow> (\<exists>n. lc = int n \<and> sz = int (nodes n))"
    by (auto dest: nonneg_int_cases)
  then show ?thesis by (auto simp: leaf_count_iff)
qed

text \<open>
  C17. The proofs an honest log makes are accepted: of the inclusion of each record, of the
  extension of each earlier state, and of the records from any index on.
\<close>

theorem honest_mmr_proofs_accepted:
  assumes "\<forall>d \<in> set ds. length d = 32" "int (nodes (length ds)) < MAX_MMR_SIZE" "i < length ds" "m \<le> length ds"
  shows "mmr_verify_inclusion (mmr_root ds) (int (nodes (length ds))) (int i) (ds ! i) (Some (honest_inclusion ds i)) \<and>
    mmr_verify_consistency (mmr_root (take m ds)) (int (nodes m)) (mmr_root ds) (int (nodes (length ds)))
      (Some (honest_consistency ds m)) \<and>
    mmr_verify_range (mmr_root ds) (int i + 1) (int (length ds)) (drop i ds) (Some (honest_range ds i))"
  using assms by (simp add: mmr_inclusion_complete mmr_consistency_complete mmr_range_complete)

theorem honest_mmr_proofs_accepted_witness:
  "mmr_verify_range (mmr_root [replicate 32 7, replicate 32 9]) 2 2 [replicate 32 9]
     (Some (honest_range [replicate 32 7, replicate 32 9] 1))"
proof -
  let ?ds = "[replicate 32 7, replicate 32 9] :: bytes list"
  have "int (nodes (length ?ds)) < MAX_MMR_SIZE" using nodes_le [of 2] by (simp add: MAX_MMR_SIZE_def numeral_2_eq_2)
  then show ?thesis using honest_mmr_proofs_accepted [of ?ds 1 0] by simp
qed

text \<open>
  Reading back what \<open>to_dict\<close> writes gives the proof, for all three kinds of proof.
\<close>

theorem proofs_dict_roundtrip:
  "inclusion_from_dict (inclusion_to_dict p) = Inr p \<and>
   consistency_from_dict (consistency_to_dict q) = Inr q \<and>
   range_from_dict (range_to_dict r) = Inr r"
proof -
  have "rmapM json_iter (map JList wss) = Inr wss" for wss by (induction wss) auto
  then show ?thesis
    by (simp add: inclusion_from_dict_def inclusion_to_dict_def consistency_from_dict_def consistency_to_dict_def
        range_from_dict_def range_to_dict_def jindex_def)
qed

end
