(* ===== verification/Json_Text.thy ===== *)
theory Json_Text
  imports Json
begin

text \<open>
  Reading back what \<open>json.dumps\<close> writes for texts and integers. A text is well formed when it is
  the UTF-8 encoding of Unicode scalar values; the quoted form of two such texts, followed by
  anything, agree only if the texts and what follows agree. The same holds for integers followed
  by a character that is neither a digit nor a sign.
\<close>

section \<open>Scalar values in UTF-8\<close>

definition scalar :: "nat \<Rightarrow> bool" where
  "scalar n \<longleftrightarrow> n < 1114112 \<and> \<not> (55296 \<le> n \<and> n < 57344)"

definition cont_of :: "nat \<Rightarrow> char" where
  "cont_of n = char_of (128 + n mod 64)"

definition utf8_of :: "nat \<Rightarrow> string" where
  "utf8_of n =
     (if n < 128 then [char_of n]
      else if n < 2048 then [char_of (192 + n div 64), cont_of n]
      else if n < 65536 then [char_of (224 + n div 4096), cont_of (n div 64), cont_of n]
      else [char_of (240 + n div 262144), cont_of (n div 4096), cont_of (n div 64), cont_of n])"

definition text_of :: "nat list \<Rightarrow> string" where
  "text_of ns = concat (map utf8_of ns)"

definition well_formed :: "string \<Rightarrow> bool" where
  "well_formed s \<longleftrightarrow> (\<exists>ns. (\<forall>n \<in> set ns. scalar n) \<and> s = text_of ns)"

lemma of_char_cont [simp]: "(of_char (cont_of n) :: nat) = 128 + n mod 64"
proof -
  have "128 + n mod 64 < (256 :: nat)" using mod_less_divisor [of 64 n] by linarith
  then show ?thesis by (simp add: cont_of_def)
qed

lemma cont_char_cont [simp]: "cont_char (cont_of n)"
proof -
  have "128 + n mod 64 < (192 :: nat)" using mod_less_divisor [of 64 n] by linarith
  then show ?thesis by (simp add: cont_char_def)
qed

text \<open>A character: a first octet that continues nothing, then continuations.\<close>

definition char_shape :: "string \<Rightarrow> bool" where
  "char_shape u \<longleftrightarrow> u \<noteq> [] \<and> \<not> cont_char (hd u) \<and> list_all cont_char (tl u)"

lemma utf8_chars_conts:
  "list_all cont_char u \<Longrightarrow> utf8_chars s = us \<Longrightarrow> us = [] \<or> us \<noteq> [] \<and> hd us \<noteq> [] \<and> \<not> cont_char (hd (hd us)) \<Longrightarrow>
     utf8_chars (c # u @ s) = (c # u) # us"
proof (induction u arbitrary: c)
  case Nil
  then show ?case by (cases us) auto
next
  case (Cons d u)
  then have "utf8_chars (d # u @ s) = (d # u) # us" by simp
  then show ?case using Cons.prems by simp
qed

lemma utf8_chars_concat:
  "list_all char_shape us \<Longrightarrow> utf8_chars (concat us) = us"
proof (induction us)
  case (Cons u us)
  then obtain c u' where u: "u = c # u'" "\<not> cont_char c" "list_all cont_char u'" by (cases u) (auto simp: char_shape_def)
  have "us = [] \<or> us \<noteq> [] \<and> hd us \<noteq> [] \<and> \<not> cont_char (hd (hd us))"
    using Cons.prems by (cases us) (auto simp: char_shape_def)
  then show ?case using Cons u utf8_chars_conts [of u' "concat us" us c] by simp
qed simp

lemma utf8_of_shape: "scalar n \<Longrightarrow> char_shape (utf8_of n)"
  by (auto simp: utf8_of_def char_shape_def scalar_def cont_char_def [of "char_of _"])

lemma code_point_utf8_of: "scalar n \<Longrightarrow> code_point (utf8_of n) = n"
proof -
  assume "scalar n"
  then have n: "n < 1114112" by (simp add: scalar_def)
  have d: "n div 4096 = n div 64 div 64" "n div 262144 = n div 64 div 64 div 64" by (simp_all add: div_mult2_eq [symmetric])
  have m: "(192 + a) mod 32 = a mod 32" "(128 + a) mod 64 = a mod 64" "(224 + a) mod 16 = a mod 16"
    "(240 + a) mod 8 = a mod 8" for a :: nat
    using mod_mult_self2 [of a 32 6] mod_mult_self2 [of a 64 2] mod_mult_self2 [of a 16 14] mod_mult_self2 [of a 8 30]
    by (simp_all add: add.commute)
  have e: "64 * (n div 64) + n mod 64 = n" "64 * (n div 64 div 64) + n div 64 mod 64 = n div 64"
    "64 * (n div 64 div 64 div 64) + n div 64 div 64 mod 64 = n div 64 div 64"
    by (rule mult_div_mod_eq)+
  consider "n < 128" | "128 \<le> n" "n < 2048" | "2048 \<le> n" "n < 65536" | "65536 \<le> n" by linarith
  then show ?thesis
  proof cases
    case 2
    then have "n div 64 < 32" by linarith
    then show ?thesis using 2 by (simp add: utf8_of_def cont_bits_def m mult_div_mod_eq)
  next
    case 3
    then have "n div 64 div 64 < 16" by simp
    then show ?thesis using 3 by (simp add: utf8_of_def cont_bits_def m d) (use e in linarith)
  next
    case 4
    then have "n div 64 div 64 div 64 < 5" using n by (simp add: div_mult2_eq [symmetric])
    then show ?thesis using 4 by (simp add: utf8_of_def cont_bits_def m d) (use e in linarith)
  qed (simp add: utf8_of_def)
qed

lemma chars_text_of: "\<forall>n \<in> set ns. scalar n \<Longrightarrow> utf8_chars (text_of ns) = map utf8_of ns"
  unfolding text_of_def by (rule utf8_chars_concat) (simp add: list_all_iff utf8_of_shape)

lemma quoted_text_of:
  "\<forall>n \<in> set ns. scalar n \<Longrightarrow> quoted (text_of ns) = CHR 34 # concat (map point_text ns) @ [CHR 34]"
proof -
  assume a: "\<forall>n \<in> set ns. scalar n"
  then have "map (\<lambda>c. point_text (code_point c)) (map utf8_of ns) = map point_text ns"
    by (simp add: code_point_utf8_of)
  then show ?thesis unfolding quoted_def chars_text_of [OF a] by (simp only: append_Cons append_Nil)
qed

section \<open>Reading a quoted text\<close>

definition hex4 :: "string \<Rightarrow> nat option" where
  "hex4 s =
     (case map hex_value s of
        [Some a, Some b, Some c, Some d] \<Rightarrow> Some (4096 * a + 256 * b + 16 * c + d)
      | _ \<Rightarrow> None)"

definition read_u :: "string \<Rightarrow> (nat \<times> string) option" where
  "read_u s = (case hex4 (take 4 s) of Some n \<Rightarrow> Some (n, drop 4 s) | None \<Rightarrow> None)"

text \<open>The escapes are read one at a time; a surrogate pair is read as two of them.\<close>

definition read_unit :: "string \<Rightarrow> (nat \<times> string) option" where
  "read_unit s =
     (case s of
        c # t \<Rightarrow>
          if c = CHR 34 then None
          else if c = CHR 92 then
            (case t of
               d # r \<Rightarrow>
                 if d = CHR ''u'' then read_u r
                 else if d = CHR ''n'' then Some (10, r) else if d = CHR ''r'' then Some (13, r)
                 else if d = CHR ''t'' then Some (9, r) else if d = CHR ''b'' then Some (8, r)
                 else if d = CHR ''f'' then Some (12, r) else Some (of_char d, r)
             | [] \<Rightarrow> None)
          else Some (of_char c, t)
      | [] \<Rightarrow> None)"

definition units :: "nat \<Rightarrow> nat list" where
  "units n = (if n < 65536 then [n] else [55296 + (n - 65536) div 1024, 56320 + (n - 65536) mod 1024])"

definition unit_text :: "nat \<Rightarrow> string" where
  "unit_text n =
     (if n = 34 then [CHR 92, CHR 34]
      else if n = 92 then [CHR 92, CHR 92]
      else if 32 \<le> n \<and> n \<le> 126 then [char_of n]
      else if n = 10 then [CHR 92, CHR ''n''] else if n = 13 then [CHR 92, CHR ''r'']
      else if n = 9 then [CHR 92, CHR ''t''] else if n = 8 then [CHR 92, CHR ''b'']
      else if n = 12 then [CHR 92, CHR ''f'']
      else u_escape n)"

lemma units_bound: "scalar n \<Longrightarrow> u \<in> set (units n) \<Longrightarrow> u < 65536"
  by (auto simp: units_def scalar_def split: if_splits)

lemma point_text_units: "scalar n \<Longrightarrow> point_text n = concat (map unit_text (units n))"
  by (auto simp: point_text_def unit_text_def units_def scalar_def)

lemma read_u_escape: "n < 65536 \<Longrightarrow> read_unit (u_escape n @ r) = Some (n, r)"
proof -
  assume n: "n < 65536"
  then have d16: "n div 4096 < 16" by simp
  then have d: "n div 4096 mod 16 = n div 4096" by simp
  have "16 * (n div 16 mod 16) + n mod 16 = n mod 256" using mod_mult2_eq [of n 16 16] by simp
  moreover have "256 * (n div 256 mod 16) + n mod 256 = n mod 4096" using mod_mult2_eq [of n 256 16] by simp
  ultimately have "4096 * (n div 4096) + 256 * (n div 256 mod 16) + 16 * (n div 16 mod 16) + n mod 16 = n"
    using mult_div_mod_eq [of 4096 n] by linarith
  then show ?thesis
    using d d16 by (simp add: read_unit_def u_escape_def read_u_def hex4_def)
qed

lemma char_of_small: "n \<le> 126 \<Longrightarrow> char_of n = CHR 34 \<longleftrightarrow> n = 34" "n \<le> 126 \<Longrightarrow> char_of n = CHR 92 \<longleftrightarrow> n = 92"
  for n :: nat
  by (auto simp: char_of_eq_iff take_bit_nat_eq_self)

lemma read_unit_text: "n < 65536 \<Longrightarrow> read_unit (unit_text n @ r) = Some (n, r)"
  unfolding unit_text_def by (auto simp: read_u_escape) (auto simp: read_unit_def char_of_small)

lemma unit_text_not_quote: "unit_text n @ r \<noteq> CHR 34 # x"
  by (auto simp: unit_text_def u_escape_def char_of_small)

lemma unit_texts_inject:
  assumes "concat (map unit_text ms) @ CHR 34 # x = concat (map unit_text ns) @ CHR 34 # y"
    and "\<forall>n \<in> set ms. n < 65536" "\<forall>n \<in> set ns. n < 65536"
  shows "ms = ns \<and> x = y"
  using assms
proof (induction ms arbitrary: ns)
  case Nil
  show ?case
  proof (cases ns)
    case (Cons n ns')
    then show ?thesis
      using Nil unit_text_not_quote [of n "concat (map unit_text ns') @ CHR 34 # y" x] by simp
  qed (use Nil in simp)
next
  case (Cons m ms)
  then obtain n ns' where ns: "ns = n # ns'"
    using unit_text_not_quote [of m "concat (map unit_text ms) @ CHR 34 # x" y] by (cases ns) auto
  have "read_unit (unit_text m @ concat (map unit_text ms) @ CHR 34 # x) =
      read_unit (unit_text n @ concat (map unit_text ns') @ CHR 34 # y)"
    using Cons.prems(1) ns by simp
  then have "m = n" "concat (map unit_text ms) @ CHR 34 # x = concat (map unit_text ns') @ CHR 34 # y"
    using Cons.prems(2,3) ns by (simp_all add: read_unit_text)
  then show ?case using Cons.IH [of ns'] Cons.prems(2,3) ns by simp
qed

lemma units_not_pair: "scalar n \<Longrightarrow> n < 65536 \<Longrightarrow> \<not> (55296 \<le> n \<and> n < 57344)"
  by (simp add: scalar_def)

lemma units_inject:
  assumes "concat (map units ms) = concat (map units ns)" "\<forall>n \<in> set ms. scalar n" "\<forall>n \<in> set ns. scalar n"
  shows "ms = ns"
  using assms
proof (induction ms arbitrary: ns)
  case Nil
  then show ?case by (cases ns) (auto simp: units_def split: if_splits)
next
  case (Cons m ms)
  then obtain n ns' where ns: "ns = n # ns'" by (cases ns) (auto simp: units_def split: if_splits)
  have e: "units m @ concat (map units ms) = units n @ concat (map units ns')" using Cons.prems(1) ns by simp
  have sc: "scalar m" "scalar n" using Cons.prems ns by auto
  have "m = n"
  proof (cases "m < 65536"; cases "n < 65536")
    assume "\<not> m < 65536" "\<not> n < 65536"
    then have "(m - 65536) div 1024 = (n - 65536) div 1024" "(m - 65536) mod 1024 = (n - 65536) mod 1024"
      "65536 \<le> m" "65536 \<le> n"
      using e by (auto simp: units_def)
    then show ?thesis by (metis div_mult_mod_eq le_add_diff_inverse)
  qed (use e sc in \<open>auto simp: units_def scalar_def\<close>)
  then show ?case using Cons.IH [of ns'] e Cons.prems(2,3) ns by simp
qed

lemma quoted_inject:
  assumes "quoted s @ x = quoted t @ y" "well_formed s" "well_formed t"
  shows "s = t \<and> x = y"
proof -
  obtain ms ns where m: "\<forall>n \<in> set ms. scalar n" "s = text_of ms" and n: "\<forall>n \<in> set ns. scalar n" "t = text_of ns"
    using assms(2,3) by (auto simp: well_formed_def)
  have u: "concat (map point_text ks) = concat (map unit_text (concat (map units ks)))" if "\<forall>n \<in> set ks. scalar n" for ks
    using that by (induction ks) (auto simp: point_text_units)
  have "concat (map unit_text (concat (map units ms))) @ CHR 34 # x = concat (map unit_text (concat (map units ns))) @ CHR 34 # y"
    using assms(1) m n by (simp add: quoted_text_of u [symmetric])
  moreover have "\<forall>u \<in> set (concat (map units ms)). u < 65536" "\<forall>u \<in> set (concat (map units ns)). u < 65536"
    using m(1) n(1) units_bound by auto
  ultimately have "concat (map units ms) = concat (map units ns) \<and> x = y" by (rule unit_texts_inject)
  then show ?thesis using units_inject m n by blast
qed

section \<open>Integers\<close>

lemma digit_value_char [simp]: "n < 10 \<Longrightarrow> digit_value (digit_char n) = Some n"
  by (auto simp: digit_value_def digit_char_def less_Suc_eq numeral_eq_Suc nth_Cons split: nat.splits)

lemma digits_value_append:
  "list_all (\<lambda>c. digit_value c \<noteq> None) s \<Longrightarrow>
     digits_value acc (s @ t) = digits_value (the (digits_value acc s)) t"
  by (induction s arbitrary: acc) auto

lemma nat_text_digits: "list_all (\<lambda>c. digit_value c \<noteq> None) (nat_text n)"
proof (induction n rule: nat_text.induct)
  case (1 n)
  then show ?case by (subst nat_text.simps) simp
qed

lemma digits_value_nat_text [simp]: "digits_value 0 (nat_text n) = Some n"
proof (induction n rule: nat_text.induct)
  case (1 n)
  show ?case
  proof (cases "n < 10")
    case False
    then have "digits_value 0 (nat_text (n div 10)) = Some (n div 10)" using 1 by simp
    then show ?thesis
      using False by (subst nat_text.simps) (simp add: digits_value_append [OF nat_text_digits])
  qed (simp add: nat_text.simps [of n])
qed

lemma nat_text_inject [simp]: "nat_text m = nat_text n \<longleftrightarrow> m = n"
  by (metis digits_value_nat_text option.inject)

lemma int_text_inject [simp]: "int_text i = int_text j \<longleftrightarrow> i = j"
proof -
  have "nat_text n \<noteq> CHR ''-'' # s" for n s
    using nat_text_digits [of n] by (auto simp: digit_value_def)
  moreover have "CHR ''-'' # s \<noteq> nat_text n" for n s using calculation by metis
  ultimately show ?thesis by (auto simp: int_text_def)
qed

definition number_char :: "char \<Rightarrow> bool" where
  "number_char c \<longleftrightarrow> c = CHR ''-'' \<or> digit_value c \<noteq> None"

lemma int_text_chars: "list_all number_char (int_text i)"
proof -
  have "list_all number_char (nat_text n)" for n
    using nat_text_digits [of n] by (rule list.pred_mono_strong) (simp add: number_char_def)
  then show ?thesis by (simp add: int_text_def number_char_def)
qed

lemma int_text_split:
  assumes "int_text i @ c # x = int_text j @ c # y" "\<not> number_char c"
  shows "i = j \<and> x = y"
proof -
  have "takeWhile number_char (int_text k @ c # z) = int_text k" for k z
    using assms(2) int_text_chars [of k] by (simp add: takeWhile_append2 list_all_iff)
  then have "int_text i = int_text j" using assms(1) by metis
  then show ?thesis using assms(1) by simp
qed

end
