(* ===== verification/Checkpoint.thy ===== *)
theory Checkpoint
  imports Receipt Mmr_History Json_Text
begin

text \<open>
  Checkpoints of \<open>src/scitt_cose/cll.py\<close> and the three functions that verify a leaf, a later
  checkpoint or a range of records against one. The messages of the result objects are the
  constructors of \<open>cll_message\<close>; the status sentence is kept with its parts.
\<close>

section \<open>Checkpoints\<close>

record checkpoint =
  ck_v :: int
  ck_kind :: json
  ck_log_id :: json
  ck_mmr_size :: int
  ck_root :: json
  ck_prev_size :: int
  ck_prev_root :: json
  ck_key_id :: json
  ck_timestamp :: json
  ck_signature :: json

definition checkpoint_from_dict :: "json \<Rightarrow> py_exn + checkpoint" where
  "checkpoint_from_dict d =
     rbind (rbind (jindex d ''v'') json_int) (\<lambda>v.
     rbind (jindex d ''kind'') (\<lambda>kind.
     rbind (jindex d ''log_id'') (\<lambda>log_id.
     rbind (rbind (jindex d ''mmr_size'') json_int) (\<lambda>mmr_size.
     rbind (jindex d ''root'') (\<lambda>root.
     rbind (rbind (jindex d ''prev_size'') json_int) (\<lambda>prev_size.
     rbind (case as_obj d of None \<Rightarrow> Inl TypeError | Some o' \<Rightarrow> Inr (jget_or o' ''prev_root'' (JStr ''''))) (\<lambda>prev_root.
     rbind (jindex d ''key_id'') (\<lambda>key_id.
     rbind (jindex d ''timestamp'') (\<lambda>timestamp.
     rbind (case as_obj d of None \<Rightarrow> Inl TypeError | Some o' \<Rightarrow> Inr (jget_or o' ''signature'' (JStr ''''))) (\<lambda>signature.
     Inr \<lparr>ck_v = v, ck_kind = kind, ck_log_id = log_id, ck_mmr_size = mmr_size, ck_root = root,
          ck_prev_size = prev_size, ck_prev_root = prev_root, ck_key_id = key_id,
          ck_timestamp = timestamp, ck_signature = signature\<rparr>))))))))))"

definition signing_body :: "checkpoint \<Rightarrow> string" where
  "signing_body c = dumps_sorted (JObj
     [(''v'', JInt (ck_v c)), (''kind'', ck_kind c), (''log_id'', ck_log_id c),
      (''mmr_size'', JInt (ck_mmr_size c)), (''root'', ck_root c), (''prev_size'', JInt (ck_prev_size c)),
      (''prev_root'', ck_prev_root c), (''key_id'', ck_key_id c), (''timestamp'', ck_timestamp c)])"

definition checkpoint_digest :: "checkpoint \<Rightarrow> string" where
  "checkpoint_digest c = to_hex (sha256 (utf8_encode (signing_body c)))"

definition ts_entry_hash :: "checkpoint \<Rightarrow> py_exn + string" where
  "ts_entry_hash c = rmap (\<lambda>b. to_hex (sha256 b)) (fromhex (checkpoint_digest c))"

text \<open>\<open>bytes.fromhex(v)\<close> of a value that need not be a text\<close>

definition json_fromhex :: "json \<Rightarrow> py_exn + bytes" where
  "json_fromhex v = (case as_str v of None \<Rightarrow> Inl TypeError | Some s \<Rightarrow> fromhex s)"

definition root_bytes :: "checkpoint \<Rightarrow> py_exn + bytes" where
  "root_bytes c = json_fromhex (ck_root c)"

definition prev_root_bytes :: "checkpoint \<Rightarrow> cll_exn + bytes" where
  "prev_root_bytes c =
     (if \<not> json_true (ck_prev_root c) then Inl InvalidArgument else py_raise (json_fromhex (ck_prev_root c)))"

section \<open>The status sentence\<close>

text \<open>The size, the timestamp, and the lag when it is stated.\<close>

datatype status = No_Status | Witnessed int json "int option"

definition witness_status_line :: "int \<Rightarrow> json \<Rightarrow> int option \<Rightarrow> status" where
  "witness_status_line mmr_size timestamp current_size =
     Witnessed mmr_size timestamp
       (case current_size of
          Some current \<Rightarrow> if mmr_size < current then Some (current - mmr_size) else None
        | None \<Rightarrow> None)"

text \<open>Its text, for a timestamp that is a text.\<close>

fun status_text :: "status \<Rightarrow> string option" where
  "status_text No_Status = Some ''''"
| "status_text (Witnessed mmr_size timestamp gap) =
     map_option (\<lambda>t.
       ''witnessed up to size '' @ int_text mmr_size @ '' at time '' @ t @
       (case gap of
          None \<Rightarrow> ''''
        | Some lag \<Rightarrow>
            '' -- '' @ int_text lag @ '' more entr'' @ (if lag = 1 then ''y'' else ''ies'') @
            '' appended since, not yet witnessed'')) (as_str timestamp)"

section \<open>Results\<close>

datatype cll_message =
    Root_Not_Hex py_exn | Inclusion_Fails int | No_Ts_Key | Checkpoint_Receipt receipt_finding
  | Log_Id_Mismatch json json | Size_Rollback int int | Consistency_Fails int int
  | Range_Fails int int int

record inclusion_verification =
  iv_ok :: bool
  iv_status :: status
  iv_receipt_result :: "receipt_result option"
  iv_errors :: "cll_message list"

definition failed_inclusion :: "cll_message list \<Rightarrow> inclusion_verification" where
  "failed_inclusion es = \<lparr>iv_ok = False, iv_status = No_Status, iv_receipt_result = None, iv_errors = es\<rparr>"

text \<open>The receipt step: whether it is fine, the result of \<open>verify_receipt\<close>, and the errors.\<close>

definition checkpoint_receipt ::
    "cbor2_lib \<Rightarrow> 'k crypto_lib \<Rightarrow> checkpoint \<Rightarrow> bytes option \<Rightarrow> pem option \<Rightarrow>
     string + bool \<times> receipt_result option \<times> cll_message list" where
  "checkpoint_receipt L K c receipt ts_public_key_pem =
     (case receipt of
        None \<Rightarrow> Inr (True, None, [])
      | Some r \<Rightarrow>
          (case ts_public_key_pem of
             None \<Rightarrow> Inr (False, None, [No_Ts_Key])
           | Some pem \<Rightarrow>
               (case ts_entry_hash c of
                  Inl e \<Rightarrow> Inl (py_name e)
                | Inr leaf_entry_hex \<Rightarrow>
                    rmap (\<lambda>rr. (r_ok rr, Some rr, if r_ok rr then [] else map Checkpoint_Receipt (r_errors rr)))
                      (verify_receipt L K (CBytes r) leaf_entry_hex pem))))"

definition verify_leaf_against_checkpoint ::
    "cbor2_lib \<Rightarrow> 'k crypto_lib \<Rightarrow> bytes \<Rightarrow> int \<Rightarrow> checkpoint \<Rightarrow> inclusion_proof option \<Rightarrow> bytes option \<Rightarrow>
     pem option \<Rightarrow> int option \<Rightarrow> string + inclusion_verification" where
  "verify_leaf_against_checkpoint L K body_digest leaf_index c pf receipt ts_public_key_pem current_size =
     (case root_bytes c of
        Inl e \<Rightarrow> Inr (failed_inclusion [Root_Not_Hex e])
      | Inr root \<Rightarrow>
          (let inclusion_ok = mmr_verify_inclusion root (ck_mmr_size c) leaf_index body_digest pf
           in rmap (\<lambda>(receipt_ok, rr, errs).
                \<lparr>iv_ok = inclusion_ok \<and> receipt_ok,
                 iv_status = witness_status_line (ck_mmr_size c) (ck_timestamp c) current_size,
                 iv_receipt_result = rr,
                 iv_errors = (if inclusion_ok then [] else [Inclusion_Fails (ck_mmr_size c)]) @ errs\<rparr>)
              (checkpoint_receipt L K c receipt ts_public_key_pem)))"

record consistency_verification =
  cv_ok :: bool
  cv_status :: status
  cv_errors :: "cll_message list"

definition failed_consistency :: "cll_message list \<Rightarrow> consistency_verification" where
  "failed_consistency es = \<lparr>cv_ok = False, cv_status = No_Status, cv_errors = es\<rparr>"

definition verify_checkpoint_chain ::
    "checkpoint \<Rightarrow> checkpoint \<Rightarrow> consistency_proof option \<Rightarrow> int option \<Rightarrow> consistency_verification" where
  "verify_checkpoint_chain older newer pf current_size =
     (if \<not> json_eq (ck_log_id older) (ck_log_id newer) then
        failed_consistency [Log_Id_Mismatch (ck_log_id older) (ck_log_id newer)]
      else if ck_mmr_size newer < ck_mmr_size older then
        failed_consistency [Size_Rollback (ck_mmr_size newer) (ck_mmr_size older)]
      else
        (case (root_bytes older, root_bytes newer) of
           (Inl e, _) \<Rightarrow> failed_consistency [Root_Not_Hex e]
         | (Inr root_a, Inl e) \<Rightarrow> failed_consistency [Root_Not_Hex e]
         | (Inr root_a, Inr root_b) \<Rightarrow>
             (let ok = mmr_verify_consistency root_a (ck_mmr_size older) root_b (ck_mmr_size newer) pf
              in \<lparr>cv_ok = ok,
                  cv_status = witness_status_line (ck_mmr_size newer) (ck_timestamp newer) current_size,
                  cv_errors = (if ok then [] else [Consistency_Fails (ck_mmr_size older) (ck_mmr_size newer)])\<rparr>)))"

text \<open>\<open>rv_scope_note\<close> holds the two sequence numbers of the caveat about what a range proof shows.\<close>

record range_verification =
  rv_ok :: bool
  rv_status :: status
  rv_scope_note :: "(int \<times> int) option"
  rv_errors :: "cll_message list"

definition verify_range_against_checkpoint ::
    "int \<Rightarrow> int \<Rightarrow> bytes list \<Rightarrow> checkpoint \<Rightarrow> range_proof option \<Rightarrow> int option \<Rightarrow> range_verification" where
  "verify_range_against_checkpoint fseq tseq body_digests c pf current_size =
     (case root_bytes c of
        Inl e \<Rightarrow> \<lparr>rv_ok = False, rv_status = No_Status, rv_scope_note = None, rv_errors = [Root_Not_Hex e]\<rparr>
      | Inr root \<Rightarrow>
          (let ok = mmr_verify_range root fseq tseq body_digests pf
           in \<lparr>rv_ok = ok,
               rv_status = witness_status_line (ck_mmr_size c) (ck_timestamp c) current_size,
               rv_scope_note = Some (fseq, tseq),
               rv_errors = (if ok then [] else [Range_Fails fseq tseq (ck_mmr_size c)])\<rparr>))"

section \<open>What the digest commits to\<close>

text \<open>A checkpoint whose text fields are well-formed texts.\<close>

definition well_typed :: "checkpoint \<Rightarrow> bool" where
  "well_typed c \<longleftrightarrow>
     (\<forall>f \<in> {ck_kind c, ck_log_id c, ck_root c, ck_prev_root c, ck_key_id c, ck_timestamp c}.
        \<exists>s. f = JStr s \<and> well_formed s)"

definition same_signed_fields :: "checkpoint \<Rightarrow> checkpoint \<Rightarrow> bool" where
  "same_signed_fields a b \<longleftrightarrow>
     ck_v a = ck_v b \<and> ck_kind a = ck_kind b \<and> ck_log_id a = ck_log_id b \<and> ck_mmr_size a = ck_mmr_size b \<and>
     ck_root a = ck_root b \<and> ck_prev_size a = ck_prev_size b \<and> ck_prev_root a = ck_prev_root b \<and>
     ck_key_id a = ck_key_id b \<and> ck_timestamp a = ck_timestamp b"

lemma signing_body_text:
  "signing_body c =
     ''{'' @ quoted ''key_id'' @ '':'' @ dumps_sorted (ck_key_id c) @ '','' @
     quoted ''kind'' @ '':'' @ dumps_sorted (ck_kind c) @ '','' @
     quoted ''log_id'' @ '':'' @ dumps_sorted (ck_log_id c) @ '','' @
     quoted ''mmr_size'' @ '':'' @ int_text (ck_mmr_size c) @ '','' @
     quoted ''prev_root'' @ '':'' @ dumps_sorted (ck_prev_root c) @ '','' @
     quoted ''prev_size'' @ '':'' @ int_text (ck_prev_size c) @ '','' @
     quoted ''root'' @ '':'' @ dumps_sorted (ck_root c) @ '','' @
     quoted ''timestamp'' @ '':'' @ dumps_sorted (ck_timestamp c) @ '','' @
     quoted ''v'' @ '':'' @ int_text (ck_v c) @ ''}''"
  by (simp add: signing_body_def sort_key_def)

lemma int_member_inject:
  assumes "int_text i @ [c] @ x = int_text j @ [c] @ y" "\<not> number_char c"
  shows "i = j \<and> x = y"
  using assms int_text_split [of i c x j y] by simp

lemma separators [simp]: "\<not> number_char (CHR '','')" "\<not> number_char (CHR ''}'')"
  by (simp_all add: number_char_def digit_value_def)

lemma signing_body_inject:
  assumes "signing_body a = signing_body b" "well_typed a" "well_typed b"
  shows "same_signed_fields a b"
proof -
  obtain k1 l1 r1 p1 i1 t1 where a: "ck_kind a = JStr k1" "ck_log_id a = JStr l1" "ck_root a = JStr r1"
    "ck_prev_root a = JStr p1" "ck_key_id a = JStr i1" "ck_timestamp a = JStr t1"
    and wa: "well_formed k1" "well_formed l1" "well_formed r1" "well_formed p1" "well_formed i1" "well_formed t1"
    using assms(2) by (auto simp: well_typed_def)
  obtain k2 l2 r2 p2 i2 t2 where b: "ck_kind b = JStr k2" "ck_log_id b = JStr l2" "ck_root b = JStr r2"
    "ck_prev_root b = JStr p2" "ck_key_id b = JStr i2" "ck_timestamp b = JStr t2"
    and wb: "well_formed k2" "well_formed l2" "well_formed r2" "well_formed p2" "well_formed i2" "well_formed t2"
    using assms(3) by (auto simp: well_typed_def)
  note e1 = assms(1) [unfolded signing_body_text a b dumps_sorted.simps same_append_eq]
  note key_id = quoted_inject [OF e1 wa(5) wb(5)]
  note kind = quoted_inject [OF key_id [THEN conjunct2, unfolded same_append_eq] wa(1) wb(1)]
  note log_id = quoted_inject [OF kind [THEN conjunct2, unfolded same_append_eq] wa(2) wb(2)]
  note mmr_size = int_member_inject [OF log_id [THEN conjunct2, unfolded same_append_eq] separators(1)]
  note prev_root = quoted_inject [OF mmr_size [THEN conjunct2, unfolded same_append_eq] wa(4) wb(4)]
  note prev_size = int_member_inject [OF prev_root [THEN conjunct2, unfolded same_append_eq] separators(1)]
  note root = quoted_inject [OF prev_size [THEN conjunct2, unfolded same_append_eq] wa(3) wb(3)]
  note timestamp = quoted_inject [OF root [THEN conjunct2, unfolded same_append_eq] wa(6) wb(6)]
  have "ck_v a = ck_v b"
    using int_member_inject [of "ck_v a" "CHR ''}''" "[]" "ck_v b" "[]"] timestamp [THEN conjunct2, unfolded same_append_eq]
    by simp
  then show ?thesis
    using key_id kind log_id mmr_size prev_root prev_size root timestamp a b by (simp add: same_signed_fields_def)
qed

text \<open>The entry hash is the digest of the digest.\<close>

lemma ts_entry_hash_eq: "ts_entry_hash c = Inr (to_hex (sha256 (sha256 (utf8_encode (signing_body c)))))"
  by (simp add: ts_entry_hash_def checkpoint_digest_def)

lemma entry_hash_binding:
  assumes "ts_entry_hash a = ts_entry_hash b" "well_typed a" "well_typed b"
  shows "same_signed_fields a b \<or>
    sha256_collision (utf8_encode (signing_body a), utf8_encode (signing_body b)) \<or>
    sha256_collision (sha256 (utf8_encode (signing_body a)), sha256 (utf8_encode (signing_body b)))"
proof (cases "signing_body a = signing_body b")
  case True
  then show ?thesis using signing_body_inject assms(2,3) by blast
next
  case False
  then show ?thesis using assms(1) by (auto simp: ts_entry_hash_eq sha256_collision_def)
qed

section \<open>What the three functions establish\<close>

lemma leaf_verified:
  assumes "verify_leaf_against_checkpoint L K d i c pf receipt pem cur = Inr r" "iv_ok r"
  shows "(\<exists>root. root_bytes c = Inr root \<and> mmr_verify_inclusion root (ck_mmr_size c) i d pf) \<and>
    (\<forall>rc. receipt = Some rc \<longrightarrow>
       (\<exists>p rr leaf. pem = Some p \<and> ts_entry_hash c = Inr leaf \<and>
          verify_receipt L K (CBytes rc) leaf p = Inr rr \<and> r_ok rr \<and> iv_receipt_result r = Some rr))"
  using assms
  by (auto simp: verify_leaf_against_checkpoint_def checkpoint_receipt_def failed_inclusion_def Let_def rmap_Inr_iff
      split: sum.splits option.splits prod.splits)

text \<open>A log behind two checkpoints.\<close>

definition checkpoint_of :: "bytes list \<Rightarrow> checkpoint \<Rightarrow> bool" where
  "checkpoint_of ds c \<longleftrightarrow> ck_mmr_size c = int (nodes (length ds)) \<and> root_bytes c = Inr (mmr_root ds)"

lemma chain_verified:
  assumes "cv_ok (verify_checkpoint_chain a b pf cur)"
  shows "json_eq (ck_log_id a) (ck_log_id b) \<and> ck_mmr_size a \<le> ck_mmr_size b \<and>
    (\<exists>ra rb. root_bytes a = Inr ra \<and> root_bytes b = Inr rb \<and>
       mmr_verify_consistency ra (ck_mmr_size a) rb (ck_mmr_size b) pf)"
  using assms by (auto simp: verify_checkpoint_chain_def failed_consistency_def Let_def split: if_splits sum.splits)

section \<open>A range that is not bound to the size of the checkpoint\<close>

text \<open>The proof that a record of a log of three is record 5 of a log of five: the first mountain
  of the real log stands for one of twice its size.\<close>

definition shifted_range :: "bytes list \<Rightarrow> range_proof" where
  "shifted_range ds =
     \<lparr>rp_from_seq = 5, rp_to_seq = 5, rp_size = 8, rp_from_index = 4, rp_to_index = 4,
      rp_witness = [JStr (to_hex (node_hash ds 1 0))]\<rparr>"

lemma small_sizes:
  "nodes 3 = 4" "nodes 5 = 8" "mountains_from 0 3 = [(1, 0), (0, 2)]" "mountains_from 0 5 = [(2, 0), (0, 4)]"
  "node_pos 2 0 = 6"
  by (simp_all add: nodes_def popcount.simps mountains_from.simps top_bit.simps node_pos_def)

lemma shifted_range_accepted:
  assumes "length ds = 3" "length (ds ! 2) = 32"
  shows "mmr_verify_range (mmr_root ds) 5 5 [ds ! 2] (Some (shifted_range ds))"
proof -
  let ?p = "node_hash ds 1 0" and ?l = "node_hash ds 0 2"
  have peaks: "mmr_peaks ds = [?p, ?l]" by (simp add: mmr_peaks_def assms(1) small_sizes)
  have "height_at 6 = Inr 2" "height_at 7 = Inr 0"
    using height_at_pos [of 2 0] height_at_pos [of 0 4]
    by (simp_all add: small_sizes) (simp add: nodes_def popcount.simps)
  then have rec: "reconstruct_peaks [6, 7] 0 4 4 (digest_by_index 4 [ds ! 2]) [?p] 0 = Inr ([?p, ?l], 1)"
    using assms(2) by (simp add: reconstruct.simps digest_by_index_def mmr_leaf_hash_def assert_digest_def DIGEST_LEN_def
        del: node_hash.simps) (simp add: Let_def)
  have "map peak_pos (mountains_from 0 5) = [6, 7]"
    by (simp add: small_sizes peak_pos_def) (simp add: nodes_def popcount.simps)
  moreover have "rmapM parse_digest_hex (rp_witness (shifted_range ds)) = Inr [?p]"
    by (simp add: shifted_range_def del: node_hash.simps)
  ultimately show ?thesis
    unfolding mmr_verify_range_iff
    using rec root_mmr_peaks [of ds] assms(2) peaks
    by (intro exI [of _ 5] exI [of _ "[?p]"] exI [of _ "[?p, ?l]"])
      (simp add: shifted_range_def small_sizes MAX_MMR_SIZE_def del: node_hash.simps)
qed

section \<open>Properties\<close>

text \<open>
  C18. Verifying a leaf against a checkpoint of a log succeeds only if the digest is that of the
  record at the given index of that log, or the octets hashed exhibit a SHA-256 collision; and when
  a receipt is given, only if it verifies over the entry hash computed from the checkpoint itself.
\<close>

theorem leaf_against_checkpoint_sound:
  assumes "verify_leaf_against_checkpoint L K d i c (Some pf) receipt pem cur = Inr r" "iv_ok r" "checkpoint_of ds c"
  shows "(0 \<le> i \<and> nat i < length ds \<and> d = ds ! nat i \<or>
      (\<exists>ws ls rs. rmapM parse_digest_hex (ip_witness pf) = Inr ws \<and> rmapM parse_digest_hex (ip_peaks_left pf) = Inr ls \<and>
         rmapM parse_digest_hex (ip_peaks_right pf) = Inr rs \<and>
         collide (proof_inputs (length ds) (nat i) d ws ls rs) (mmr_inputs ds))) \<and>
    (\<forall>rc. receipt = Some rc \<longrightarrow>
       (\<exists>p rr leaf. pem = Some p \<and> ts_entry_hash c = Inr leaf \<and>
          verify_receipt L K (CBytes rc) leaf p = Inr rr \<and> r_ok rr \<and> iv_receipt_result r = Some rr))"
  using leaf_verified [OF assms(1,2)] mmr_inclusion_sound [of ds i d pf] assms(3)
  by (auto simp: checkpoint_of_def)

definition demo_digests :: "bytes list" where
  "demo_digests = [replicate 32 1, replicate 32 2, replicate 32 3]"

definition demo_checkpoint :: "nat \<Rightarrow> checkpoint" where
  "demo_checkpoint n =
     \<lparr>ck_v = 1, ck_kind = JStr ''cll-checkpoint'', ck_log_id = JStr ''log'', ck_mmr_size = int (nodes n),
      ck_root = JStr (to_hex (mmr_root (take n demo_digests))), ck_prev_size = 0, ck_prev_root = JStr '''',
      ck_key_id = JStr ''key'', ck_timestamp = JStr ''2026-01-01T00:00:00Z'', ck_signature = JStr ''''\<rparr>"

lemma demo_checkpoint_of [simp]: "checkpoint_of (take n demo_digests) (demo_checkpoint n) \<longleftrightarrow> n \<le> 3"
proof -
  have "length (take n demo_digests) = min 3 n" by (simp add: demo_digests_def)
  then show ?thesis by (auto simp: checkpoint_of_def demo_checkpoint_def root_bytes_def json_fromhex_def)
qed

lemma demo_size [simp]: "length demo_digests = 3" "int (nodes 3) < MAX_MMR_SIZE" "\<forall>d \<in> set demo_digests. length d = 32"
  by (simp_all add: demo_digests_def small_sizes MAX_MMR_SIZE_def)

lemma demo_checkpoint_3 [simp]: "checkpoint_of demo_digests (demo_checkpoint 3)"
  using demo_checkpoint_of [of 3] by (simp add: demo_digests_def)

lemma demo_inclusion:
  "mmr_verify_inclusion (mmr_root demo_digests) (int (nodes 3)) 1 (demo_digests ! 1) (Some (honest_inclusion demo_digests 1))"
proof -
  have "length (demo_digests ! 1) = 32" by (simp add: demo_digests_def)
  then show ?thesis using mmr_inclusion_complete [of 1 demo_digests] by simp
qed

theorem leaf_against_checkpoint_sound_witness:
  "\<exists>r. verify_leaf_against_checkpoint ref_cbor2 toy_crypto (demo_digests ! 1) 1 (demo_checkpoint 3)
       (Some (honest_inclusion demo_digests 1)) None None None = Inr r \<and> iv_ok r \<and>
     (nat 1 < length demo_digests \<or> (\<exists>ws ls rs. collide (proof_inputs 3 1 (demo_digests ! 1) ws ls rs) (mmr_inputs demo_digests)))"
proof -
  obtain r where r: "verify_leaf_against_checkpoint ref_cbor2 toy_crypto (demo_digests ! 1) 1 (demo_checkpoint 3)
       (Some (honest_inclusion demo_digests 1)) None None None = Inr r" "iv_ok r"
    using demo_inclusion demo_checkpoint_3
    by (simp add: verify_leaf_against_checkpoint_def checkpoint_receipt_def checkpoint_of_def Let_def)
  from leaf_against_checkpoint_sound [OF this demo_checkpoint_3] r show ?thesis by auto
qed

text \<open>
  C19. A later checkpoint accepted after an earlier one is of the same log identifier, not smaller,
  and its log begins with the records of the earlier one: a rollback or a fork is rejected, unless
  the octets hashed exhibit a SHA-256 collision.
\<close>

theorem checkpoint_chain_no_rollback:
  assumes "cv_ok (verify_checkpoint_chain a b (Some pf) cur)" "checkpoint_of da a" "checkpoint_of db b"
  shows "json_eq (ck_log_id a) (ck_log_id b) \<and> ck_mmr_size a \<le> ck_mmr_size b \<and>
    (take (length da) db = da \<and> length da \<le> length db \<or>
     (\<exists>ob nb wss. rmapM parse_digest_hex (cp_old_peaks pf) = Inr ob \<and>
        rmapM parse_digest_hex (cp_new_peaks pf) = Inr nb \<and>
        list_all2 (\<lambda>w ws. rmapM parse_digest_hex w = Inr ws) (cp_witness pf) wss \<and>
        collide (mmr_inputs da @ consistency_inputs (length da) (length db) ob nb wss)
          (mmr_inputs da @ mmr_inputs db)))"
  using chain_verified [OF assms(1)] mmr_consistency_sound [of da db pf] assms(2,3)
  by (auto simp: checkpoint_of_def)

theorem checkpoint_chain_no_rollback_witness:
  "json_eq (ck_log_id (demo_checkpoint 2)) (ck_log_id (demo_checkpoint 3)) \<and>
   ck_mmr_size (demo_checkpoint 2) \<le> ck_mmr_size (demo_checkpoint 3)"
proof -
  have "mmr_verify_consistency (mmr_root (take 2 demo_digests)) (int (nodes 2)) (mmr_root demo_digests) (int (nodes 3))
      (Some (honest_consistency demo_digests 2))"
    using mmr_consistency_complete [of 2 demo_digests] by simp
  moreover have "nodes 2 \<le> nodes 3" by (rule nodes_mono) simp
  moreover have "take 3 demo_digests = demo_digests" by (simp add: demo_digests_def)
  ultimately have "cv_ok (verify_checkpoint_chain (demo_checkpoint 2) (demo_checkpoint 3) (Some (honest_consistency demo_digests 2)) None)"
    by (simp add: verify_checkpoint_chain_def Let_def root_bytes_def json_fromhex_def demo_checkpoint_def)
  from checkpoint_chain_no_rollback [OF this, of "take 2 demo_digests" demo_digests] show ?thesis by simp
qed

text \<open>
  C20. A range proof made for the size of the checkpoint succeeds only if the digests are those of
  the records from the first to the last of the log, or two different octet strings with one SHA-256
  digest are exhibited: one hashed while the peaks are rebuilt from these digests and this proof's
  witnesses and bagged, the other hashed for the log. The peaks \<open>hs\<close> are the ones that
  \<open>reconstruct_peaks\<close> computes from the proof.
\<close>

theorem range_against_checkpoint_sound:
  assumes "rv_ok (verify_range_against_checkpoint fseq tseq bds c (Some pf) cur)" "checkpoint_of ds c"
    and "rp_size pf = ck_mmr_size c"
  shows "1 \<le> fseq \<and> fseq \<le> tseq \<and> tseq = int (length ds) \<and> bds = drop (nat (fseq - 1)) ds \<or>
    (\<exists>ws hs. rmapM parse_digest_hex (rp_witness pf) = Inr ws \<and>
       reconstruct_peaks (map peak_pos (mountains_from 0 (length ds))) 0 (fseq - 1) (tseq - 1)
         (digest_by_index (fseq - 1) bds) ws 0 = Inr (hs, length ws) \<and>
       root_from_peaks hs = Inr (mmr_root ds) \<and>
       collide (range_proof_inputs (length ds) fseq bds ws hs) (mmr_inputs ds))"
proof (rule mmr_range_sound)
  show "mmr_verify_range (mmr_root ds) fseq tseq bds (Some pf)" "rp_size pf = int (nodes (length ds))"
    using assms by (simp_all add: verify_range_against_checkpoint_def checkpoint_of_def Let_def)
qed

lemma demo_range:
  "rv_ok (verify_range_against_checkpoint 2 3 (drop 1 demo_digests) (demo_checkpoint 3) (Some (honest_range demo_digests 1)) None)"
  using mmr_range_complete [of 1 demo_digests] demo_checkpoint_3
  by (simp add: verify_range_against_checkpoint_def checkpoint_of_def Let_def)

theorem range_against_checkpoint_sound_witness:
  "drop 1 demo_digests = drop (nat (2 - 1)) demo_digests \<or>
    (\<exists>ws hs. rmapM parse_digest_hex (rp_witness (honest_range demo_digests 1)) = Inr ws \<and>
       reconstruct_peaks (map peak_pos (mountains_from 0 3)) 0 1 2 (digest_by_index 1 (drop 1 demo_digests)) ws 0
         = Inr (hs, length ws) \<and>
       collide (range_proof_inputs 3 2 (drop 1 demo_digests) ws hs) (mmr_inputs demo_digests))"
  using range_against_checkpoint_sound [OF demo_range demo_checkpoint_3]
  by (auto simp: honest_range_def demo_checkpoint_def)

text \<open>
  Without that comparison, which the code does not make, a range of one record is accepted
  beyond the end of the log: under a checkpoint of any three records the third verifies as record 5.
\<close>

theorem range_size_not_checked:
  assumes "length ds = 3" "\<forall>d \<in> set ds. length d = 32" "checkpoint_of ds c"
  shows "\<exists>pf. rp_size pf \<noteq> ck_mmr_size c \<and> rv_ok (verify_range_against_checkpoint 5 5 [ds ! 2] c (Some pf) cur)"
proof (intro exI conjI)
  have "length (ds ! 2) = 32" using assms(1,2) by simp
  then show "rv_ok (verify_range_against_checkpoint 5 5 [ds ! 2] c (Some (shifted_range ds)) cur)"
    using shifted_range_accepted [OF assms(1)] assms(3)
    by (simp add: verify_range_against_checkpoint_def checkpoint_of_def Let_def)
  show "rp_size (shifted_range ds) \<noteq> ck_mmr_size c"
    using assms(1,3) by (simp add: shifted_range_def checkpoint_of_def small_sizes)
qed

theorem range_size_not_checked_witness:
  "\<exists>pf. rp_size pf \<noteq> ck_mmr_size (demo_checkpoint 3) \<and>
     rv_ok (verify_range_against_checkpoint 5 5 [demo_digests ! 2] (demo_checkpoint 3) (Some pf) None)"
  by (rule range_size_not_checked [OF demo_size(1,3) demo_checkpoint_3])

text \<open>
  C21. The entry hash a receipt must cover commits to all nine signed fields of a checkpoint, up to
  two named pairs of octet strings that would be SHA-256 collisions.
\<close>

theorem entry_hash_commits:
  assumes "ts_entry_hash a = ts_entry_hash b" "well_typed a" "well_typed b"
  shows "same_signed_fields a b \<or>
    sha256_collision (utf8_encode (signing_body a), utf8_encode (signing_body b)) \<or>
    sha256_collision (sha256 (utf8_encode (signing_body a)), sha256 (utf8_encode (signing_body b)))"
  using assms by (rule entry_hash_binding)

lemma ascii_well_formed: "list_all (\<lambda>c. (of_char c :: nat) < 128) s \<Longrightarrow> well_formed s"
proof -
  assume a: "list_all (\<lambda>c. (of_char c :: nat) < 128) s"
  then have "s = text_of (map of_char s)" by (induction s) (auto simp: text_of_def utf8_of_def)
  moreover have "\<forall>n \<in> set (map of_char s). scalar n" using a by (auto simp: list_all_iff scalar_def)
  ultimately show ?thesis unfolding well_formed_def by blast
qed

definition plain_checkpoint :: "int \<Rightarrow> checkpoint" where
  "plain_checkpoint n =
     \<lparr>ck_v = 1, ck_kind = JStr ''k'', ck_log_id = JStr ''log'', ck_mmr_size = n, ck_root = JStr ''00'',
      ck_prev_size = 0, ck_prev_root = JStr '''', ck_key_id = JStr ''key'', ck_timestamp = JStr ''t'',
      ck_signature = JStr ''''\<rparr>"

theorem entry_hash_commits_witness:
  "same_signed_fields (plain_checkpoint 7) (plain_checkpoint 7\<lparr>ck_signature := JStr ''s''\<rparr>) \<or>
    sha256_collision (utf8_encode (signing_body (plain_checkpoint 7)), utf8_encode (signing_body (plain_checkpoint 7))) \<or>
    sha256_collision (sha256 (utf8_encode (signing_body (plain_checkpoint 7))), sha256 (utf8_encode (signing_body (plain_checkpoint 7))))"
proof -
  let ?a = "plain_checkpoint 7" and ?b = "plain_checkpoint 7\<lparr>ck_signature := JStr ''s''\<rparr>"
  have e: "signing_body ?b = signing_body ?a" by (simp add: signing_body_def plain_checkpoint_def)
  have "well_typed ?a" "well_typed ?b" by (simp_all add: well_typed_def plain_checkpoint_def ascii_well_formed)
  moreover have "ts_entry_hash ?a = ts_entry_hash ?b" by (simp add: ts_entry_hash_eq e)
  ultimately show ?thesis using entry_hash_commits [of ?a ?b] unfolding e by blast
qed

text \<open>
  The status sentence states the lag exactly when the caller knows a larger size than the one
  witnessed, and states the difference.
\<close>

theorem status_states_lag:
  "status_text (witness_status_line n (JStr t) cur) = Some
     (''witnessed up to size '' @ int_text n @ '' at time '' @ t @
      (case cur of
         Some m \<Rightarrow>
           if n < m then '' -- '' @ int_text (m - n) @ '' more entr'' @ (if m = n + 1 then ''y'' else ''ies'') @
             '' appended since, not yet witnessed'' else ''''
       | None \<Rightarrow> ''''))"
  by (auto simp: witness_status_line_def split: option.split)

end
