(* ===== verification/Machine_Mandate.thy ===== *)
theory Machine_Mandate
  imports Sha256 Json "HOL-Library.Sublist"
begin

text \<open>
  The MachineMandate profile, \<open>src/hosted_profiles/machine_mandate.py\<close>: which JSON values it
  claims, and the groups of fields it shows for each of its five shapes. A label made by an
  f-string is the list of its pieces. Taking an attribute of a value that is not an object raises
  \<open>AttributeError\<close>.
\<close>

section \<open>JSON values in the hosted profiles\<close>

datatype profile_exn = Attribute_Error | Raised py_exn

type_synonym ftext = "json list"

definition raised :: "py_exn + 'a \<Rightarrow> profile_exn + 'a" where
  "raised r = (case r of Inl e \<Rightarrow> Inl (Raised e) | Inr x \<Rightarrow> Inr x)"

lemma raised_Inr [raise_simps]: "raised r = Inr x \<longleftrightarrow> r = Inr x"
  by (cases r) (auto simp: raised_def)

text \<open>\<open>v.get(k)\<close> and \<open>v.get(k, default)\<close> of any value, and \<open>a or b\<close>.\<close>

definition obj_of :: "json \<Rightarrow> profile_exn + jobj" where
  "obj_of v = (case as_obj v of None \<Rightarrow> Inl Attribute_Error | Some d \<Rightarrow> Inr d)"

definition get_or :: "json \<Rightarrow> string \<Rightarrow> json \<Rightarrow> profile_exn + json" where
  "get_or v k dflt = rmap (\<lambda>d. jget_or d k dflt) (obj_of v)"

definition py_or :: "json \<Rightarrow> json \<Rightarrow> json" where
  "py_or a b = (if json_true a then a else b)"

lemma obj_of_Inr [raise_simps]: "obj_of v = Inr d \<longleftrightarrow> v = JObj d"
  by (auto simp: obj_of_def split: option.splits)

lemma obj_of_JObj [simp]: "obj_of (JObj d) = Inr d"
  by (simp add: obj_of_def)

text \<open>\<open>hashlib.sha256(json.dumps(obj, sort_keys=True, ...).encode()).hexdigest()\<close>\<close>

definition json_digest :: "json \<Rightarrow> string" where
  "json_digest v = to_hex (sha256 (utf8_encode (dumps_sorted v)))"

section \<open>Detection\<close>

definition MM_VCT :: string where
  "MM_VCT = ''https://vocab.tyche.institute/vct/machine-mandate''"

definition MM_PINNED_CANONICAL_DIGESTS :: "string list" where
  "MM_PINNED_CANONICAL_DIGESTS =
     [''63bc7577d7929da79db0d6b045dd1cbdd2e9fb0a708618e3a5093869b8c2bdce'',
      ''8cd9e0588b83416891ff1c4480767daeeaa2d82324dc01bda4114f6c2e98c2b3'',
      ''4ac69f7b8524a7084be503196d3b0a3aaedac99b42422ae6fe5be198ffb3b2a2'']"

definition is_machine_mandate :: "json \<Rightarrow> bool" where
  "is_machine_mandate data =
     (case as_obj data of
        None \<Rightarrow> False
      | Some d \<Rightarrow>
          jget_or d ''vct'' (JStr []) = JStr MM_VCT \<or>
          (case as_obj (jget d ''credential_claims'') of
             None \<Rightarrow> False
           | Some cred \<Rightarrow> jget_or cred ''vct'' (JStr []) = JStr MM_VCT) \<or>
          json_digest data \<in> set MM_PINNED_CANONICAL_DIGESTS)"

section \<open>What is shown\<close>

record field_group =
  fg_label :: ftext
  fg_fields :: "(string \<times> json) list"

record machine_mandate =
  mm_profile_label :: string
  mm_source_commit :: string
  mm_source_repo :: string
  mm_field_groups :: "field_group list"
  mm_raw :: json
  mm_parse_note :: string

definition new_mandate :: "string \<Rightarrow> json \<Rightarrow> machine_mandate" where
  "new_mandate label raw =
     \<lparr>mm_profile_label = label, mm_source_commit = ''524e6a3129b7f1ab850dd9471967458d3cb6f4cd'',
      mm_source_repo = ''tyche-institute/machine-mandate'', mm_field_groups = [], mm_raw = raw, mm_parse_note = []\<rparr>"

definition add_group :: "string \<Rightarrow> (string \<times> json) list \<Rightarrow> machine_mandate \<Rightarrow> machine_mandate" where
  "add_group label kvs mm =
     mm\<lparr>mm_field_groups := mm_field_groups mm @ [\<lparr>fg_label = [JStr label], fg_fields = kvs\<rparr>]\<rparr>"

text \<open>The fields of an object under their own names.\<close>

definition named :: "jobj \<Rightarrow> string list \<Rightarrow> (string \<times> json) list" where
  "named d ks = map (\<lambda>k. (k, jget d k)) ks"

definition parse_aep :: "jobj \<Rightarrow> machine_mandate" where
  "parse_aep d =
     add_group ''Binding'' (named d [''receipt_hash'', ''_output_binding_note''])
       (add_group ''Action'' (named d [''action_id'', ''status'', ''swname'', ''oemid''])
         (add_group ''Token identity''
            (named d [''eat_profile'', ''iss'', ''sub''] @
             [(''iat'', py_or (jget d ''iat_iso'') (jget d ''iat'')), (''nonce'', jget d ''nonce'')])
           (new_mandate ''MachineMandate AEP'' (JObj d))))"

definition submodule_group :: "string \<Rightarrow> json \<Rightarrow> profile_exn + field_group" where
  "submodule_group name submod =
     rbind (obj_of submod) (\<lambda>s.
     let tv = jget_or s ''ear.trustworthiness-vector'' (JObj []);
         ae = jget_or s ''ear.veraison.annotated-evidence'' (JObj [])
     in Inr \<lparr>fg_label = [JStr ''Submodule: '', JStr name],
             fg_fields = named s [''ear.status'', ''ear.appraisal-policy-id''] @
               (if as_obj tv \<noteq> None then [(''ear.trustworthiness-vector'', tv)] else []) @
               (if as_obj ae \<noteq> None then [(''ear.veraison.annotated-evidence'', ae)] else [])\<rparr>)"

definition parse_ear :: "jobj \<Rightarrow> profile_exn + machine_mandate" where
  "parse_ear d =
     (let mm = add_group ''EAR header'' (named d [''eat_profile'', ''iat'', ''eat_nonce'', ''ear.verifier-id''])
                 (new_mandate ''MachineMandate EAR (Veraison)'' (JObj d));
          submods = (case as_obj (jget_or d ''submods'' (JObj [])) of Some m \<Rightarrow> m | None \<Rightarrow> [])
      in rmap (\<lambda>gs. mm\<lparr>mm_field_groups := mm_field_groups mm @ gs\<rparr>)
           (rmapM (\<lambda>(name, submod). submodule_group name submod) submods))"

definition scope_group :: "jobj \<Rightarrow> machine_mandate \<Rightarrow> machine_mandate" where
  "scope_group d mm =
     (case as_obj (jget_or d ''scope'' (JObj [])) of
        None \<Rightarrow> mm
      | Some scope \<Rightarrow> add_group ''Scope'' (named scope [''allowed_actions'', ''max_spend'', ''action_commitments'']) mm)"

definition parse_run_credential :: "jobj \<Rightarrow> machine_mandate" where
  "parse_run_credential d =
     scope_group d
       (add_group ''Action seal'' (named d [''action_hash''])
         (add_group ''Credential identity''
            [(''vct'', jget d ''vct''), (''jti'', jget d ''jti''),
             (''iss'', py_or (jget d ''iss'') (jget d ''issuer_jwk_thumbprint'')),
             (''sub_agent_id'', jget d ''sub_agent_id''),
             (''iat'', py_or (jget d ''iat_utc'') (jget d ''iat'')),
             (''exp'', py_or (jget d ''exp_utc'') (jget d ''exp''))]
           (new_mandate ''MachineMandate Run Credential'' (JObj d))))"

definition case_group :: "json \<Rightarrow> profile_exn + field_group" where
  "case_group c =
     rmap (\<lambda>d. \<lparr>fg_label = [JStr ''Gate case: '', jget_or d ''case_id'' (JStr ''?'')],
                fg_fields = named d [''verdict'', ''expected_verdict'', ''match'', ''L1_crypto'', ''L2_attested'',
                                     ''L3_endorser_role'', ''L4_in_scope'', ''reasons'']\<rparr>)
       (obj_of c)"

definition parse_mint_record :: "jobj \<Rightarrow> profile_exn + machine_mandate" where
  "parse_mint_record d =
     (let mm = add_group ''Record identity'' (named d [''artifact'', ''minted_at_utc'', ''status'', ''boundary''])
                 (new_mandate ''MachineMandate Mint Record'' (JObj d));
          mm = (case as_obj (jget_or d ''credential_claims'' (JObj [])) of
                  None \<Rightarrow> mm
                | Some cred \<Rightarrow>
                    scope_group cred
                      (add_group ''Credential claims''
                         (named cred [''vct'', ''jti'', ''sub_agent_id'', ''action_hash'', ''iat_utc'', ''exp_utc'']) mm));
          mm = (case as_obj (jget_or d ''credential_preimage'' (JObj [])) of
                  None \<Rightarrow> mm
                | Some pre \<Rightarrow>
                    add_group ''Preimage commitment''
                      (named pre [''digest'', ''digest_alg'', ''preimage_length_bytes'', ''invariant_across_presentations'']) mm)
      in (case as_obj (jget_or d ''self_check'' (JObj [])) of
            None \<Rightarrow> Inr mm
          | Some sc \<Rightarrow>
              (let mm = add_group ''Self-check'' (named sc [''all_verdicts_as_expected'']) mm;
                   cases = (case as_list (jget_or sc ''cases'' (JList [])) of Some cs \<Rightarrow> cs | None \<Rightarrow> [])
               in rmap (\<lambda>gs. mm\<lparr>mm_field_groups := mm_field_groups mm @ gs\<rparr>) (rmapM case_group cases))))"

text \<open>\<open>isinstance(v, str) and needle in v\<close>\<close>

definition text_contains :: "string \<Rightarrow> json \<Rightarrow> bool" where
  "text_contains needle v = (case as_str v of None \<Rightarrow> False | Some s \<Rightarrow> sublist needle s)"

definition parse_machine_mandate :: "json \<Rightarrow> profile_exn + machine_mandate" where
  "parse_machine_mandate data =
     (case as_obj data of
        None \<Rightarrow> Inr ((new_mandate ''MachineMandate'' (JObj []))\<lparr>mm_parse_note := ''not a JSON object''\<rparr>)
      | Some d \<Rightarrow>
          (let eat = jget_or d ''eat_profile'' (JStr [])
           in if text_contains ''eatf.eu/aep'' eat then Inr (parse_aep d)
              else if text_contains ''veraison/ear'' eat then parse_ear d
              else if jhas d ''credential_claims'' \<and> jhas d ''credential_preimage'' then parse_mint_record d
              else if jget_or d ''vct'' (JStr []) = JStr MM_VCT then Inr (parse_run_credential d)
              else if (case as_str (jget_or d ''action_hash'' (JStr [])) of
                         None \<Rightarrow> False | Some s \<Rightarrow> prefix ''sha256:'' s) then Inr (parse_run_credential d)
              else Inr ((new_mandate ''MachineMandate'' data)
                     \<lparr>mm_parse_note := ''unrecognised MachineMandate sub-type; rendering raw fields''\<rparr>)))"

definition detect_machine_mandate :: "json \<Rightarrow> string" where
  "detect_machine_mandate data = (if is_machine_mandate data then ''machine-mandate'' else ''unknown'')"

section \<open>Every value shown comes from the payload\<close>

text \<open>The members a value has at any depth.\<close>

fun members :: "json \<Rightarrow> json list" where
  "members (JObj d) = concat (map (\<lambda>(k, v). v # members v) d)"
| "members (JList xs) = concat (map (\<lambda>v. v # members v) xs)"
| "members v = []"

definition shows_only :: "json \<Rightarrow> machine_mandate \<Rightarrow> bool" where
  "shows_only data mm \<longleftrightarrow>
     (\<forall>g \<in> set (mm_field_groups mm). \<forall>(k, v) \<in> set (fg_fields g). v = JNull \<or> v = JObj [] \<or> v \<in> set (members data))"

lemma jget_members: "jget d k = JNull \<or> jget d k \<in> set (members (JObj d))"
  by (force simp: jget_def dest: map_of_SomeD split: option.splits)

lemma jget_or_members: "jget_or d k x = x \<or> jget_or d k x \<in> set (members (JObj d))"
  by (force simp: jget_or_def dest: map_of_SomeD split: option.splits)

lemma members_trans: "x \<in> set (members y) \<Longrightarrow> y \<in> set (members z) \<Longrightarrow> x \<in> set (members z)"
  by (induction z rule: members.induct) fastforce+

text \<open>An object taken from the payload, or the empty default.\<close>

definition part_of :: "jobj \<Rightarrow> json \<Rightarrow> bool" where
  "part_of d data \<longleftrightarrow> d = [] \<or> JObj d = data \<or> JObj d \<in> set (members data)"

lemma part_of_self [simp]: "part_of d (JObj d)"
  by (simp add: part_of_def)

lemma part_member: "part_of d data \<Longrightarrow> v \<in> set (members (JObj d)) \<Longrightarrow> v \<in> set (members data)"
  by (auto simp: part_of_def simp del: members.simps(1) dest: members_trans) simp

lemma part_jget: "part_of d data \<Longrightarrow> jget d k = JNull \<or> jget d k \<in> set (members data)"
  using jget_members part_member by blast

lemma part_get_obj: "part_of d data \<Longrightarrow> jget_or d k (JObj []) = JObj e \<Longrightarrow> part_of e data"
  using jget_or_members [of d k "JObj []"] part_member unfolding part_of_def by fastforce

lemma shows_new [simp]: "shows_only data (new_mandate label raw)"
  by (simp add: shows_only_def new_mandate_def)

lemma shows_note [simp]: "shows_only data (mm\<lparr>mm_parse_note := n\<rparr>) \<longleftrightarrow> shows_only data mm"
  by (simp add: shows_only_def)

lemma shows_add:
  "shows_only data mm \<Longrightarrow> \<forall>(k, v) \<in> set fs. v = JNull \<or> v = JObj [] \<or> v \<in> set (members data) \<Longrightarrow>
     shows_only data (add_group label fs mm)"
  by (auto simp: shows_only_def add_group_def)

lemma named_shown: "part_of d data \<Longrightarrow> \<forall>(k, v) \<in> set (named d ks). v = JNull \<or> v = JObj [] \<or> v \<in> set (members data)"
  using part_jget by (fastforce simp: named_def)

lemma or_shown: "part_of d data \<Longrightarrow> py_or (jget d a) (jget d b) = JNull \<or> py_or (jget d a) (jget d b) \<in> set (members data)"
  using part_jget [of d data a] part_jget [of d data b] by (auto simp: py_or_def)

lemma shows_named: "shows_only data mm \<Longrightarrow> part_of d data \<Longrightarrow> shows_only data (add_group label (named d ks) mm)"
  by (intro shows_add named_shown)

lemma shows_scope: "shows_only data mm \<Longrightarrow> part_of d data \<Longrightarrow> shows_only data (scope_group d mm)"
  by (auto simp: scope_group_def intro!: shows_named dest: part_get_obj split: option.splits)

lemma shows_groups:
  assumes "shows_only data mm" "\<And>g. g \<in> set gs \<Longrightarrow> \<forall>(k, v) \<in> set (fg_fields g). v = JNull \<or> v = JObj [] \<or> v \<in> set (members data)"
  shows "shows_only data (mm\<lparr>mm_field_groups := mm_field_groups mm @ gs\<rparr>)"
  unfolding shows_only_def using assms(1) [unfolded shows_only_def] assms(2) by (simp add: ball_Un)

lemma shows_fields_intro:
  assumes "part_of d data" "\<forall>(k, v) \<in> set fs. \<exists>k'. v = jget d k' \<or> (\<exists>a b. v = py_or (jget d a) (jget d b))"
  shows "\<forall>(k, v) \<in> set fs. v = JNull \<or> v = JObj [] \<or> v \<in> set (members data)"
  using assms(2) part_jget [OF assms(1)] or_shown [OF assms(1)] by fastforce

lemma shows_aep: "shows_only (JObj d) (parse_aep d)"
  unfolding parse_aep_def
  by (intro shows_named part_of_self shows_add shows_new shows_fields_intro [of d]) (auto simp: named_def)

lemma shows_run_credential: "shows_only (JObj d) (parse_run_credential d)"
  unfolding parse_run_credential_def
  by (intro shows_scope shows_named part_of_self shows_add shows_new shows_fields_intro [of d]) auto

lemma member_of_list: "JList xs \<in> set (members z) \<Longrightarrow> x \<in> set xs \<Longrightarrow> x \<in> set (members z)"
  by (rule members_trans) (auto simp: image_iff)

lemma rmapM_mem: "rmapM f xs = Inr ys \<Longrightarrow> y \<in> set ys \<Longrightarrow> \<exists>x \<in> set xs. f x = Inr y"
  by (induction xs arbitrary: ys) (auto simp: rbind_Inr_iff rmap_Inr_iff)

lemma shows_ear:
  assumes "parse_ear d = Inr mm"
  shows "shows_only (JObj d) mm"
proof -
  let ?sub = "case as_obj (jget_or d ''submods'' (JObj [])) of Some m \<Rightarrow> m | None \<Rightarrow> []"
  obtain gs where gs: "rmapM (\<lambda>(name, submod). submodule_group name submod) ?sub = Inr gs"
    and mm: "mm = (let mm0 = add_group ''EAR header'' (named d [''eat_profile'', ''iat'', ''eat_nonce'', ''ear.verifier-id''])
        (new_mandate ''MachineMandate EAR (Veraison)'' (JObj d)) in mm0\<lparr>mm_field_groups := mm_field_groups mm0 @ gs\<rparr>)"
    using assms by (auto simp: parse_ear_def Let_def rmap_Inr_iff)
  have sub: "part_of ?sub (JObj d)"
    using part_get_obj [OF part_of_self, of d "''submods''"] by (auto split: option.splits simp: part_of_def)
  have shown: "\<forall>(k, v) \<in> set (fg_fields g). v = JNull \<or> v = JObj [] \<or> v \<in> set (members (JObj d))"
    if sg: "submodule_group name x = Inr g" "(name, x) \<in> set ?sub" for name x g
  proof -
    obtain s where s: "x = JObj s" using sg(1) by (cases x) (simp_all add: submodule_group_def obj_of_def)
    have "x \<in> set (members (JObj d))"
      by (rule part_member [OF sub]) (use sg(2) in \<open>force\<close>)
    then have p: "part_of s (JObj d)" by (simp add: part_of_def s del: members.simps)
    have get: "jget_or s k (JObj []) = JObj [] \<or> jget_or s k (JObj []) \<in> set (members (JObj d))" for k
      using jget_or_members part_member [OF p] by blast
    note g = sg(1) [unfolded submodule_group_def s obj_of_JObj rbind.simps Let_def sum.inject, symmetric]
    show ?thesis
      unfolding g field_group.simps set_append ball_Un
      using named_shown [OF p] get by (simp del: members.simps)
  qed
  have "\<forall>g \<in> set gs. \<exists>(name, x) \<in> set ?sub. submodule_group name x = Inr g"
    using rmapM_mem [OF gs] by (simp add: case_prod_beta')
  then show ?thesis unfolding mm Let_def
    by (intro shows_groups shows_named shows_new part_of_self) (use shown in blast)
qed

lemma shows_mint_record:
  assumes "parse_mint_record d = Inr mm"
  shows "shows_only (JObj d) mm"
proof -
  let ?D = "JObj d"
  have claims: "shows_only ?D (case as_obj (jget_or d k (JObj [])) of None \<Rightarrow> m
      | Some cred \<Rightarrow> scope_group cred (add_group l (named cred ks) m))" if "shows_only ?D m" for k m l ks
    using that by (auto intro!: shows_scope shows_named dest: part_get_obj [OF part_of_self] split: option.splits)
  have group: "shows_only ?D (case as_obj (jget_or d k (JObj [])) of None \<Rightarrow> m
      | Some pre \<Rightarrow> add_group l (named pre ks) m)" if "shows_only ?D m" for k m l ks
    using that by (auto intro!: shows_named dest: part_get_obj [OF part_of_self] split: option.splits)
  have gate: "\<forall>(k, v) \<in> set (fg_fields g). v = JNull \<or> v = JObj [] \<or> v \<in> set (members ?D)"
    if g: "case_group c = Inr g" and c: "c \<in> set (members ?D)" for c g
  proof -
    obtain e where e: "c = JObj e" "fg_fields g = named e [''verdict'', ''expected_verdict'', ''match'', ''L1_crypto'', ''L2_attested'',
        ''L3_endorser_role'', ''L4_in_scope'', ''reasons'']"
      using g by (cases c) (auto simp: case_group_def obj_of_def)
    then have "part_of e ?D" using c by (simp add: part_of_def del: members.simps)
    then show ?thesis unfolding e(2) by (rule named_shown)
  qed
  define mm2 where "mm2 = (case as_obj (jget_or d ''credential_preimage'' (JObj [])) of
      None \<Rightarrow> (case as_obj (jget_or d ''credential_claims'' (JObj [])) of
        None \<Rightarrow> add_group ''Record identity'' (named d [''artifact'', ''minted_at_utc'', ''status'', ''boundary''])
          (new_mandate ''MachineMandate Mint Record'' ?D)
      | Some cred \<Rightarrow> scope_group cred (add_group ''Credential claims''
          (named cred [''vct'', ''jti'', ''sub_agent_id'', ''action_hash'', ''iat_utc'', ''exp_utc''])
          (add_group ''Record identity'' (named d [''artifact'', ''minted_at_utc'', ''status'', ''boundary''])
            (new_mandate ''MachineMandate Mint Record'' ?D))))
    | Some pre \<Rightarrow> add_group ''Preimage commitment''
        (named pre [''digest'', ''digest_alg'', ''preimage_length_bytes'', ''invariant_across_presentations''])
        (case as_obj (jget_or d ''credential_claims'' (JObj [])) of
        None \<Rightarrow> add_group ''Record identity'' (named d [''artifact'', ''minted_at_utc'', ''status'', ''boundary''])
          (new_mandate ''MachineMandate Mint Record'' ?D)
      | Some cred \<Rightarrow> scope_group cred (add_group ''Credential claims''
          (named cred [''vct'', ''jti'', ''sub_agent_id'', ''action_hash'', ''iat_utc'', ''exp_utc''])
          (add_group ''Record identity'' (named d [''artifact'', ''minted_at_utc'', ''status'', ''boundary''])
            (new_mandate ''MachineMandate Mint Record'' ?D)))))"
  have mm2: "shows_only ?D mm2"
    unfolding mm2_def by (intro group claims shows_named shows_new part_of_self)
  show ?thesis
  proof (cases "as_obj (jget_or d ''self_check'' (JObj []))")
    case None
    then have "mm = mm2" using assms by (simp add: parse_mint_record_def Let_def mm2_def)
    then show ?thesis using mm2 by simp
  next
    case (Some sc)
    let ?cs = "case as_list (jget_or sc ''cases'' (JList [])) of Some cs \<Rightarrow> cs | None \<Rightarrow> []"
    have sc: "part_of sc ?D" using Some part_get_obj [OF part_of_self] by simp
    obtain gs where gs: "rmapM case_group ?cs = Inr gs"
      and mm: "mm = (let m = add_group ''Self-check'' (named sc [''all_verdicts_as_expected'']) mm2
          in m\<lparr>mm_field_groups := mm_field_groups m @ gs\<rparr>)"
      using assms Some by (auto simp: parse_mint_record_def Let_def mm2_def rmap_Inr_iff)
    have "c \<in> set (members ?D)" if c: "c \<in> set ?cs" for c
    proof (cases "as_list (jget_or sc ''cases'' (JList []))")
      case (Some cs)
      then have l: "jget_or sc ''cases'' (JList []) = JList cs" by simp
      have "JList cs = JList [] \<or> JList cs \<in> set (members (JObj sc))" using jget_or_members [of sc "''cases''" "JList []"] l by simp
      then have "JList cs \<in> set (members ?D)" using c Some part_member [OF sc] by (auto simp del: members.simps)
      then show ?thesis using c Some member_of_list by (simp del: members.simps)
    qed (use c in simp)
    then have "\<forall>(k, v) \<in> set (fg_fields g). v = JNull \<or> v = JObj [] \<or> v \<in> set (members ?D)" if "g \<in> set gs" for g
      using rmapM_mem [OF gs that] gate by blast
    then show ?thesis unfolding mm Let_def by (intro shows_groups shows_named mm2 sc)
  qed
qed

section \<open>Properties\<close>

text \<open>
  Whatever the shape of the payload, every value shown is a member of it at some depth, or null, or the
  empty object. Null stands for a member that is absent, the empty object for an absent
  trustworthiness vector or annotated evidence.
\<close>

theorem mandate_shows_payload_only:
  assumes "parse_machine_mandate data = Inr mm"
  shows "shows_only data mm"
proof (cases data)
  case (JObj d)
  then show ?thesis
    using assms shows_aep shows_ear shows_mint_record shows_run_credential
    by (auto simp: parse_machine_mandate_def Let_def simp del: members.simps split: if_splits)
qed (use assms in \<open>auto simp: parse_machine_mandate_def\<close>)

theorem mandate_shows_payload_only_witness:
  "\<exists>mm. parse_machine_mandate (JObj [(''vct'', JStr MM_VCT), (''jti'', JInt 1)]) = Inr mm \<and>
     shows_only (JObj [(''vct'', JStr MM_VCT), (''jti'', JInt 1)]) mm"
proof -
  obtain mm where "parse_machine_mandate (JObj [(''vct'', JStr MM_VCT), (''jti'', JInt 1)]) = Inr mm"
    by (simp add: parse_machine_mandate_def jget_or_def text_contains_def jhas_def)
  with mandate_shows_payload_only show ?thesis by blast
qed

end
