(* ===== verification/Aac.thy ===== *)
theory Aac
  imports Machine_Mandate
begin

text \<open>
  The capsule profile, \<open>src/hosted_profiles/aac.py\<close>: a capsule, or a binding of two, becomes a graph
  of digests with a log of what is withheld and what is revealed. A method that appends to the view
  is a step from a view to a view; \<open>_extract_refs\<close> threads the view and the set \<open>seen\<close> of
  identifiers through its five groups of references. The last sections hold the adapter of
  \<open>machine_mandate.py\<close> and the choice of a profile.
\<close>

section \<open>Digests\<close>

definition KNOWN_TYPES :: "string list" where
  "KNOWN_TYPES =
     [''capsule'', ''offer_terms'', ''wicket_manifest'', ''response'', ''gate_checks'', ''subject'',
      ''bilateral_subject'', ''compute_attestation'', ''agent_input'', ''agent_output'']"

text \<open>64 hexadecimal digits of either case. No character outside ASCII has such a digit as its lower case.\<close>

definition hex64_text :: "string \<Rightarrow> bool" where
  "hex64_text s \<longleftrightarrow> length s = 64 \<and> (\<forall>c \<in> set s. hex_value c \<noteq> None)"

definition hex64 :: "json \<Rightarrow> string option" where
  "hex64 v = (case as_str v of None \<Rightarrow> None | Some s \<Rightarrow> if hex64_text s then Some s else None)"

definition is_hex64 :: "json \<Rightarrow> bool" where
  "is_hex64 v \<longleftrightarrow> hex64 v \<noteq> None"

text \<open>\<open>s[:n]\<close> and \<open>s[-n:]\<close> of a text.\<close>

definition first_chars :: "nat \<Rightarrow> string \<Rightarrow> string" where
  "first_chars n s = concat (take n (utf8_chars s))"

definition last_chars :: "nat \<Rightarrow> string \<Rightarrow> string" where
  "last_chars n s = (let us = utf8_chars s in concat (drop (length us - n) us))"

definition ellipsis :: string where
  "ellipsis = map char_of [0xE2 :: nat, 0x80, 0xA6]"

definition short_digest :: "string \<Rightarrow> string" where
  "short_digest digest = first_chars 8 digest @ ellipsis @ last_chars 4 digest"

text \<open>A Disclosure Envelope is unwrapped to its capsule.\<close>

definition unwrap :: "json \<Rightarrow> json" where
  "unwrap cap =
     (case as_obj cap of
        None \<Rightarrow> cap
      | Some d \<Rightarrow> (case as_obj (jget d ''capsule'') of None \<Rightarrow> cap | Some inner \<Rightarrow> JObj inner))"

section \<open>The graph\<close>

datatype shown_payload = Revealed json | Rendered machine_mandate

record graph_node =
  gn_id :: string
  gn_type :: string
  gn_digest :: string
  gn_label :: ftext
  gn_known :: bool
  gn_withheld :: bool
  gn_payload :: "shown_payload option"

record graph_edge =
  ge_from :: string
  ge_to :: string
  ge_label :: string
  ge_type :: string

record privilege_entry =
  pe_artifact :: ftext
  pe_type :: string
  pe_digest :: string
  pe_withheld :: bool
  pe_known :: bool
  pe_match :: "bool option"
  pe_context :: ftext

record graph_view =
  gv_profile :: string
  gv_binding :: bool
  gv_nodes :: "graph_node list"
  gv_edges :: "graph_edge list"
  gv_log :: "privilege_entry list"
  gv_raw :: "json list"
  gv_unknown :: "string list"
  gv_error :: "ftext option"

definition new_view :: "string \<Rightarrow> bool \<Rightarrow> graph_view" where
  "new_view profile binding =
     \<lparr>gv_profile = profile, gv_binding = binding, gv_nodes = [], gv_edges = [], gv_log = [], gv_raw = [],
      gv_unknown = [], gv_error = None\<rparr>"

definition add_node :: "graph_node \<Rightarrow> graph_view \<Rightarrow> graph_view" where
  "add_node n v = v\<lparr>gv_nodes := gv_nodes v @ [n]\<rparr>"

definition add_edge :: "string \<Rightarrow> string \<Rightarrow> string \<Rightarrow> graph_view \<Rightarrow> graph_view" where
  "add_edge f t label v =
     v\<lparr>gv_edges := gv_edges v @ [\<lparr>ge_from = f, ge_to = t, ge_label = label, ge_type = label\<rparr>]\<rparr>"

definition add_entry :: "privilege_entry \<Rightarrow> graph_view \<Rightarrow> graph_view" where
  "add_entry e v = v\<lparr>gv_log := gv_log v @ [e]\<rparr>"

text \<open>A capsule node keeps the defaults: withheld, no payload.\<close>

definition capsule_node :: "string \<Rightarrow> string \<Rightarrow> graph_node" where
  "capsule_node label i =
     \<lparr>gn_id = i, gn_type = ''capsule'', gn_digest = i, gn_label = [JStr (label @ short_digest i)], gn_known = True,
      gn_withheld = True, gn_payload = None\<rparr>"

section \<open>References of a capsule\<close>

type_synonym refs = "graph_view \<times> string set"

text \<open>The inner function \<open>_add\<close>; its callers add an edge when it returns true.\<close>

definition add_ref :: "string \<Rightarrow> string \<Rightarrow> ftext \<Rightarrow> ftext \<Rightarrow> refs \<Rightarrow> refs \<times> bool" where
  "add_ref digest node_type label ctx s =
     (case s of (view, seen) \<Rightarrow>
        if digest \<in> seen then (s, False)
        else
          (let known = node_type \<in> set KNOWN_TYPES;
               view = (if \<not> known \<and> node_type \<notin> set (gv_unknown view)
                       then view\<lparr>gv_unknown := gv_unknown view @ [node_type]\<rparr> else view);
               view = add_node \<lparr>gn_id = digest, gn_type = node_type, gn_digest = digest,
                        gn_label = label @ [JStr ('' '' @ short_digest digest)], gn_known = known,
                        gn_withheld = True, gn_payload = None\<rparr> view;
               view = add_entry \<lparr>pe_artifact = label, pe_type = node_type, pe_digest = digest, pe_withheld = True,
                        pe_known = known, pe_match = None, pe_context = ctx\<rparr> view
           in ((view, insert digest seen), True)))"

definition add_linked :: "string \<Rightarrow> string \<Rightarrow> string \<Rightarrow> string \<Rightarrow> ftext \<Rightarrow> ftext \<Rightarrow> refs \<Rightarrow> refs" where
  "add_linked cid edge digest node_type label ctx s =
     (case add_ref digest node_type label ctx s of
        ((view, seen), added) \<Rightarrow> (if added then add_edge cid digest edge view else view, seen))"

definition chain_ref :: "jobj \<Rightarrow> string \<Rightarrow> refs \<Rightarrow> profile_exn + refs" where
  "chain_ref cap cid s =
     rmap (\<lambda>prior.
       (case (hex64 prior, s) of
          (Some p, view, seen) \<Rightarrow>
            if p \<in> seen then s
            else (add_edge cid p ''chains_to'' (add_node (capsule_node ''prior capsule '' p) view), insert p seen)
        | _ \<Rightarrow> s))
       (get_or (py_or (jget cap ''chain'') (JObj [])) ''parent_capsule_id'' (JStr []))"

definition compute_attestation :: "jobj \<Rightarrow> profile_exn + json" where
  "compute_attestation cap =
     rmap (\<lambda>ca. py_or ca (JObj []))
       (get_or (py_or (jget cap ''model_attestation'') (JObj [])) ''compute_attestation'' JNull)"

definition subject_ref :: "jobj \<Rightarrow> string \<Rightarrow> string \<Rightarrow> refs \<Rightarrow> refs" where
  "subject_ref ca cid pfx s =
     (case hex64 (jget_or ca ''subject_digest'' (JStr [])) of
        None \<Rightarrow> s
      | Some subj \<Rightarrow>
          add_linked cid ''attests_over'' subj ''subject'' [JStr ''subject'']
            [JStr (pfx @ ''compute_attestation.subject_digest'')] s)"

text \<open>A text is hashed as its octets, anything else as canonical JSON.\<close>

definition artifact_digest :: "json \<Rightarrow> string" where
  "artifact_digest v =
     (case as_str v of Some s \<Rightarrow> to_hex (sha256 (utf8_encode s)) | None \<Rightarrow> json_digest v)"

definition artifact_ref :: "jobj \<Rightarrow> jobj \<Rightarrow> string \<Rightarrow> string \<Rightarrow> string \<Rightarrow> string \<Rightarrow> string \<Rightarrow> refs \<Rightarrow> refs" where
  "artifact_ref ca disclosures cid pfx key node_type label s =
     (case (hex64 (jget_or ca key (JStr [])), s) of
        (None, _) \<Rightarrow> s
      | (Some digest, view, seen) \<Rightarrow>
          if digest \<in> seen then s
          else
            (let pre = jget disclosures node_type;
                 revealed = (pre \<noteq> JNull);
                 ctx = (if revealed then ''payload carried in fragment; recomputed against committed digest''
                        else pfx @ ''compute_attestation '' @ map char_of [0xE2 :: nat, 0x80, 0x94] @
                             '' payload not carried in the record'');
                 view = add_node \<lparr>gn_id = digest, gn_type = node_type, gn_digest = digest,
                          gn_label = [JStr (label @ '' '' @ short_digest digest)], gn_known = True,
                          gn_withheld = \<not> revealed, gn_payload = (if revealed then Some (Revealed pre) else None)\<rparr> view;
                 view = add_entry \<lparr>pe_artifact = [JStr label], pe_type = node_type, pe_digest = digest,
                          pe_withheld = \<not> revealed, pe_known = True,
                          pe_match = (if revealed then Some (artifact_digest pre = digest) else None),
                          pe_context = [JStr ctx]\<rparr> view
             in (add_edge cid digest ''attests_over'' view, insert digest seen)))"

definition response_ref :: "jobj \<Rightarrow> string \<Rightarrow> string \<Rightarrow> refs \<Rightarrow> profile_exn + refs" where
  "response_ref cap cid pfx s =
     rmap (\<lambda>resp.
       (case hex64 resp of
          None \<Rightarrow> s
        | Some digest \<Rightarrow>
            add_linked cid ''effect_response'' digest ''response'' [JStr ''response'']
              [JStr (pfx @ ''effect.response_digest'')] s))
       (get_or (py_or (jget cap ''effect'') (JObj [])) ''response_digest'' (JStr []))"

definition constraint_ref :: "string \<Rightarrow> string \<Rightarrow> json \<Rightarrow> refs \<Rightarrow> profile_exn + refs" where
  "constraint_ref cid pfx c s =
     rmap (\<lambda>d.
       (let name = jget_or d ''id'' (JStr ''constraint'')
        in case hex64 (jget_or d ''evidence_digest'' (JStr [])) of
             None \<Rightarrow> s
           | Some ev \<Rightarrow>
               add_linked cid ''commits_to'' ev ''wicket_manifest'' [JStr ''manifest ['', name, JStr '']'']
                 [JStr (pfx @ ''constraints[''), name, JStr ''].evidence_digest''] s))
       (obj_of c)"

fun constraint_refs :: "string \<Rightarrow> string \<Rightarrow> json list \<Rightarrow> refs \<Rightarrow> profile_exn + refs" where
  "constraint_refs cid pfx [] s = Inr s"
| "constraint_refs cid pfx (c # cs) s = rbind (constraint_ref cid pfx c s) (constraint_refs cid pfx cs)"

definition extract_refs :: "graph_view \<Rightarrow> jobj \<Rightarrow> string \<Rightarrow> string \<Rightarrow> jobj option \<Rightarrow> profile_exn + graph_view" where
  "extract_refs view cap cid side disclosures =
     (let disclosures = (case disclosures of None \<Rightarrow> [] | Some d \<Rightarrow> d);
          pfx = (if side = [] then [] else side @ ''.'')
      in rbind (chain_ref cap cid (view, gn_id ` set (gv_nodes view))) (\<lambda>s.
         rbind (compute_attestation cap) (\<lambda>ca.
         rbind (obj_of ca) (\<lambda>ca.
         let s = subject_ref ca cid pfx s;
             s = artifact_ref ca disclosures cid pfx ''agent_input_digest'' ''agent_input'' ''agent input'' s;
             s = artifact_ref ca disclosures cid pfx ''agent_output_digest'' ''agent_output'' ''agent output'' s
         in
         rbind (response_ref cap cid pfx s) (\<lambda>s.
         rbind (raised (json_iter (py_or (jget cap ''constraints'') (JList [])))) (\<lambda>cs.
         rmap fst (constraint_refs cid pfx cs s)))))))"

section \<open>Capsules and bindings\<close>

text \<open>The value in the error is shown with \<open>repr\<close>.\<close>

definition parse_single :: "jobj \<Rightarrow> jobj option \<Rightarrow> profile_exn + graph_view" where
  "parse_single cap disclosures =
     (let view = (new_view ''aac'' False)\<lparr>gv_raw := [JObj cap]\<rparr>;
          capsule_id = jget_or cap ''capsule_id'' (JStr [])
      in case hex64 capsule_id of
           None \<Rightarrow> Inr (view\<lparr>gv_error := Some [JStr ''capsule_id is not a 64-hex digest: '', capsule_id]\<rparr>)
         | Some cid \<Rightarrow> extract_refs (add_node (capsule_node ''capsule '' cid) view) cap cid [] disclosures)"

definition add_capsule :: "string \<Rightarrow> string option \<Rightarrow> graph_view \<Rightarrow> graph_view" where
  "add_capsule label cid view =
     (case cid of None \<Rightarrow> view | Some i \<Rightarrow> add_node (capsule_node label i) view)"

definition attests_to :: "string \<Rightarrow> string option \<Rightarrow> graph_view \<Rightarrow> graph_view" where
  "attests_to sealed cid view =
     (case cid of None \<Rightarrow> view | Some i \<Rightarrow> add_edge i sealed ''attests_over'' view)"

definition sealed_terms :: "string \<Rightarrow> json \<Rightarrow> graph_view \<Rightarrow> graph_view" where
  "sealed_terms sealed terms view =
     (let revealed = (terms \<noteq> JNull)
      in add_entry \<lparr>pe_artifact = [JStr ''sealed_terms_hash''], pe_type = ''offer_terms'', pe_digest = sealed,
             pe_withheld = \<not> revealed, pe_known = True,
             pe_match = (if revealed then Some (json_digest terms = sealed) else None),
             pe_context = [JStr ''binding.sealed_terms_hash'']\<rparr>
           (add_node \<lparr>gn_id = sealed, gn_type = ''offer_terms'', gn_digest = sealed,
             gn_label = [JStr (''offer terms '' @ short_digest sealed)], gn_known = True,
             gn_withheld = \<not> revealed, gn_payload = (if revealed then Some (Revealed terms) else None)\<rparr> view))"

definition side_refs :: "jobj \<Rightarrow> string option \<Rightarrow> string \<Rightarrow> jobj \<Rightarrow> graph_view \<Rightarrow> profile_exn + graph_view" where
  "side_refs cap cid side disclosures view =
     (case cid of
        None \<Rightarrow> Inr view
      | Some i \<Rightarrow> extract_refs view cap i side (as_obj (jget disclosures side)))"

definition parse_binding :: "jobj \<Rightarrow> profile_exn + graph_view" where
  "parse_binding data =
     (let buyer = py_or (jget data ''buyer_capsule'') (JObj []);
          seller = py_or (jget data ''seller_capsule'') (JObj []);
          view = (new_view ''aac'' True)\<lparr>gv_raw := filter json_true [buyer, seller]\<rparr>;
          sealed = hex64 (jget_or data ''sealed_terms_hash'' (JStr []));
          disclosures = (case as_obj (jget data ''disclosures'') of None \<Rightarrow> [] | Some d \<Rightarrow> d)
      in rbind (obj_of buyer) (\<lambda>buyer.
         rbind (obj_of seller) (\<lambda>seller.
         let buyer_id = hex64 (jget_or buyer ''capsule_id'' (JStr []));
             seller_id = hex64 (jget_or seller ''capsule_id'' (JStr []));
             view = add_capsule ''seller capsule '' seller_id (add_capsule ''buyer capsule '' buyer_id view);
             view = (case sealed of
                       None \<Rightarrow> view
                     | Some h \<Rightarrow> attests_to h seller_id (attests_to h buyer_id (sealed_terms h (jget data ''terms'') view)));
             view = (case (buyer_id, seller_id) of
                       (Some b, Some s) \<Rightarrow> add_edge s b ''chains_to'' view | _ \<Rightarrow> view)
         in
         rbind (side_refs buyer buyer_id ''buyer'' disclosures view)
           (side_refs seller seller_id ''seller'' disclosures))))"

definition parse_capsule :: "json \<Rightarrow> profile_exn + graph_view" where
  "parse_capsule data =
     (case as_obj data of
        None \<Rightarrow> Inr ((new_view ''aac'' False)\<lparr>gv_error := Some [JStr ''not a JSON object'']\<rparr>)
      | Some d \<Rightarrow>
          if jhas d ''buyer_capsule'' \<and> jhas d ''seller_capsule'' then parse_binding d
          else
            (case as_obj (jget d ''capsule'') of
               Some cap \<Rightarrow> parse_single cap (as_obj (jget d ''disclosures''))
             | None \<Rightarrow>
                 if jhas d ''capsule_id'' then parse_single d None
                 else Inr ((new_view ''aac'' False)\<lparr>gv_error := Some [JStr ''not an AAC capsule or binding'']\<rparr>)))"

section \<open>The other profile, and the choice between them\<close>

definition parse_as_graph_view :: "json \<Rightarrow> profile_exn + graph_view" where
  "parse_as_graph_view data =
     rmap (\<lambda>mm.
       (let digest = json_digest data;
            view = (new_view ''machine-mandate'' False)\<lparr>gv_raw := [data]\<rparr>;
            view = add_node \<lparr>gn_id = digest, gn_type = ''machine-mandate'', gn_digest = digest,
                     gn_label = [JStr (mm_profile_label mm @ '' '' @ first_chars 8 digest @ ellipsis @ last_chars 4 digest)],
                     gn_known = True, gn_withheld = False, gn_payload = Some (Rendered mm)\<rparr> view
        in if mm_parse_note mm = [] then view else view\<lparr>gv_error := Some [JStr (mm_parse_note mm)]\<rparr>))
       (parse_machine_mandate data)"

definition PROFILE_PARSERS :: "string \<Rightarrow> (json \<Rightarrow> profile_exn + graph_view) option" where
  "PROFILE_PARSERS = [''aac'' \<mapsto> parse_capsule, ''machine-mandate'' \<mapsto> parse_as_graph_view]"

definition detect_profile :: "json \<Rightarrow> string" where
  "detect_profile data =
     (case as_obj data of
        None \<Rightarrow> ''unknown''
      | Some d \<Rightarrow>
          if jhas d ''capsule_id'' \<or> jhas d ''buyer_capsule'' \<or> as_obj (jget d ''capsule'') \<noteq> None then ''aac''
          else if is_machine_mandate data then ''machine-mandate''
          else ''unknown'')"

section \<open>Well-formed graphs\<close>

text \<open>What the payload of a node is hashed as.\<close>

definition payload_digest :: "string \<Rightarrow> json \<Rightarrow> string" where
  "payload_digest node_type p = (if node_type = ''offer_terms'' then json_digest p else artifact_digest p)"

definition node_ok :: "graph_node \<Rightarrow> bool" where
  "node_ok n \<longleftrightarrow> hex64_text (gn_id n) \<and> gn_digest n = gn_id n \<and> gn_type n \<in> set KNOWN_TYPES \<and> gn_known n \<and>
     (gn_withheld n \<longleftrightarrow> gn_payload n = None)"

definition match_ok :: "graph_node \<Rightarrow> privilege_entry \<Rightarrow> bool" where
  "match_ok n e \<longleftrightarrow>
     (case pe_match e of
        None \<Rightarrow> gn_payload n = None
      | Some b \<Rightarrow> \<exists>p. gn_payload n = Some (Revealed p) \<and> b = (payload_digest (pe_type e) p = pe_digest e))"

definition entry_ok :: "graph_node set \<Rightarrow> privilege_entry \<Rightarrow> bool" where
  "entry_ok ns e \<longleftrightarrow> (pe_withheld e \<longleftrightarrow> pe_match e = None) \<and> pe_known e \<and>
     (\<exists>n \<in> ns. gn_id n = pe_digest e \<and> gn_type n = pe_type e \<and> match_ok n e)"

definition node_ids :: "graph_view \<Rightarrow> string set" where
  "node_ids v = gn_id ` set (gv_nodes v)"

definition view_ok :: "graph_view \<Rightarrow> bool" where
  "view_ok v \<longleftrightarrow> (\<forall>n \<in> set (gv_nodes v). node_ok n) \<and>
     (\<forall>e \<in> set (gv_edges v). ge_from e \<in> node_ids v \<and> ge_to e \<in> node_ids v) \<and>
     (\<forall>e \<in> set (gv_log v). entry_ok (set (gv_nodes v)) e) \<and> gv_unknown v = [] \<and> gv_error v = None"

lemma node_ids_add [simp]:
  "node_ids (add_node n v) = insert (gn_id n) (node_ids v)" "node_ids (add_edge f t l v) = node_ids v"
  "node_ids (add_entry e v) = node_ids v" "node_ids (v\<lparr>gv_raw := r\<rparr>) = node_ids v" "node_ids (new_view p b) = {}"
  by (auto simp: node_ids_def add_node_def add_edge_def add_entry_def new_view_def)

lemma view_nodes_add [simp]:
  "gv_nodes (add_node n v) = gv_nodes v @ [n]" "gv_nodes (add_edge f t l v) = gv_nodes v"
  "gv_nodes (add_entry e v) = gv_nodes v" "gv_nodes (new_view p b) = []"
  by (simp_all add: add_node_def add_edge_def add_entry_def new_view_def)

lemma unknown_add [simp]:
  "gv_unknown (add_node n v) = gv_unknown v" "gv_unknown (add_edge f t l v) = gv_unknown v"
  "gv_unknown (add_entry e v) = gv_unknown v"
  by (simp_all add: add_node_def add_edge_def add_entry_def)

lemma entry_ok_mono: "entry_ok ns e \<Longrightarrow> ns \<subseteq> ms \<Longrightarrow> entry_ok ms e"
  unfolding entry_ok_def by blast

lemma view_ok_new: "view_ok ((new_view p b)\<lparr>gv_raw := r\<rparr>)"
  by (simp add: view_ok_def new_view_def)

lemma view_ok_node: "view_ok v \<Longrightarrow> node_ok n \<Longrightarrow> view_ok (add_node n v)"
  by (auto simp: view_ok_def add_node_def node_ids_def intro: entry_ok_mono)

lemma view_ok_edge: "view_ok v \<Longrightarrow> f \<in> node_ids v \<Longrightarrow> t \<in> node_ids v \<Longrightarrow> view_ok (add_edge f t l v)"
  by (auto simp: view_ok_def add_edge_def node_ids_def)

lemma view_ok_entry: "view_ok v \<Longrightarrow> entry_ok (set (gv_nodes v)) e \<Longrightarrow> view_ok (add_entry e v)"
  by (auto simp: view_ok_def add_entry_def node_ids_def)

lemma hex64_Some: "hex64 v = Some s \<longleftrightarrow> v = JStr s \<and> hex64_text s"
  by (auto simp: hex64_def split: option.splits if_splits)

lemma capsule_node_ok: "hex64_text i \<Longrightarrow> node_ok (capsule_node label i)"
  by (simp add: node_ok_def capsule_node_def KNOWN_TYPES_def)

lemma capsule_node_id [simp]: "gn_id (capsule_node label i) = i"
  by (simp add: capsule_node_def)

section \<open>What a step adds\<close>

text \<open>The set \<open>seen\<close> is that of the nodes; with \<open>d\<close> the identifiers are distinct.\<close>

definition refs_ok :: "string \<Rightarrow> bool \<Rightarrow> refs \<Rightarrow> bool" where
  "refs_ok cid d s \<longleftrightarrow> view_ok (fst s) \<and> snd s = node_ids (fst s) \<and> cid \<in> snd s \<and>
     (d \<longrightarrow> distinct (map gn_id (gv_nodes (fst s))))"

definition grows :: "string \<Rightarrow> bool \<Rightarrow> refs \<Rightarrow> json set \<Rightarrow> refs \<Rightarrow> bool" where
  "grows cid d s D s' \<longleftrightarrow> (refs_ok cid d s \<longrightarrow> refs_ok cid d s' \<and> snd s' = snd s \<union> {i. Some i \<in> hex64 ` D})"

lemma grows_trans: "grows cid d s D s' \<Longrightarrow> grows cid d s' E s'' \<Longrightarrow> grows cid d s (D \<union> E) s''"
  unfolding grows_def by blast

lemma grows_none: "hex64 v = None \<Longrightarrow> grows cid d s {v} s"
  by (auto simp: grows_def)

lemma grows_seen: "hex64 v = Some i \<Longrightarrow> i \<in> snd s \<Longrightarrow> grows cid d s {v} s"
  by (auto simp: grows_def)

lemma grows_new:
  assumes v: "hex64 v = Some i" and n: "i \<notin> seen" "node_ok n" "gn_id n = i"
    and w: "w = add_node n view \<or> (\<exists>e. w = add_entry e (add_node n view) \<and> entry_ok {n} e)"
  shows "grows cid d (view, seen) {v} (add_edge cid i label w, insert i seen)"
  unfolding grows_def
proof
  assume ok: "refs_ok cid d (view, seen)"
  then have a: "view_ok (add_node n view)" using n by (simp add: refs_ok_def view_ok_node)
  have ids: "gv_nodes w = gv_nodes view @ [n]" "node_ids w = insert i (node_ids view)" using w n by auto
  have "view_ok w" using w a by (auto intro!: view_ok_entry elim!: entry_ok_mono)
  then have "view_ok (add_edge cid i label w)" using ok ids by (intro view_ok_edge) (auto simp: refs_ok_def)
  moreover have "d \<longrightarrow> distinct (map gn_id (gv_nodes w))" using ok n ids by (auto simp: refs_ok_def node_ids_def)
  ultimately show "refs_ok cid d (add_edge cid i label w, insert i seen) \<and>
      snd (add_edge cid i label w, insert i seen) = snd (view, seen) \<union> {j. Some j \<in> hex64 ` {v}}"
    using ok ids v by (auto simp: refs_ok_def)
qed

lemma grows_entry:
  assumes "hex64 v = Some i" "i \<notin> seen" "node_ok n" "gn_id n = i" "entry_ok {n} e"
  shows "grows cid d (view, seen) {v} (add_edge cid i label (add_entry e (add_node n view)), insert i seen)"
  using assms by (intro grows_new) auto

lemma grows_linked:
  assumes "hex64 v = Some i" "node_type \<in> set KNOWN_TYPES"
  shows "grows cid d s {v} (add_linked cid edge i node_type label ctx s)"
proof (cases s)
  case (Pair view seen)
  show ?thesis
  proof (cases "i \<in> seen")
    case True
    then show ?thesis using Pair assms grows_seen [of v i s] by (simp add: add_linked_def add_ref_def)
  next
    case False
    let ?n = "\<lparr>gn_id = i, gn_type = node_type, gn_digest = i, gn_label = label @ [JStr ('' '' @ short_digest i)],
      gn_known = True, gn_withheld = True, gn_payload = None\<rparr>"
    let ?e = "\<lparr>pe_artifact = label, pe_type = node_type, pe_digest = i, pe_withheld = True,
                        pe_known = True, pe_match = None, pe_context = ctx\<rparr>"
    have "add_linked cid edge i node_type label ctx s =
        (add_edge cid i edge (add_entry ?e (add_node ?n view)), insert i seen)"
      using Pair assms False by (simp add: add_linked_def add_ref_def)
    moreover have "node_ok ?n" "entry_ok {?n} ?e"
      using assms by (auto simp: node_ok_def entry_ok_def match_ok_def hex64_Some)
    ultimately show ?thesis using Pair assms False by (auto intro!: grows_new)
  qed
qed

section \<open>The commitments of a capsule\<close>

text \<open>The value at a path of member names, null when it is not there.\<close>

definition follow :: "json \<Rightarrow> string \<Rightarrow> json" where
  "follow v k = (case as_obj v of None \<Rightarrow> JNull | Some d \<Rightarrow> jget d k)"

definition elements :: "json \<Rightarrow> json list" where
  "elements v = (case as_list v of None \<Rightarrow> [] | Some xs \<Rightarrow> xs)"

definition compute_of :: "json \<Rightarrow> json" where
  "compute_of cap = follow (follow cap ''model_attestation'') ''compute_attestation''"

definition commitment_values :: "json \<Rightarrow> json set" where
  "commitment_values cap =
     {follow (follow cap ''chain'') ''parent_capsule_id''} \<union> {follow (compute_of cap) ''subject_digest''} \<union>
     {follow (compute_of cap) ''agent_input_digest''} \<union> {follow (compute_of cap) ''agent_output_digest''} \<union>
     {follow (follow cap ''effect'') ''response_digest''} \<union>
     (\<lambda>c. follow c ''evidence_digest'') ` set (elements (follow cap ''constraints''))"

lemma follow_obj [simp]: "follow (JObj d) k = jget d k"
  by (simp add: follow_def)

lemma follow_null [simp]: "follow JNull k = JNull"
  by (simp add: follow_def)

lemma hex64_jget_or: "hex64 (jget_or d k (JStr [])) = hex64 (jget d k)"
  by (auto simp: jget_or_def jget_def hex64_def hex64_text_def split: option.splits)

lemma hex64_simps [simp]: "hex64 (JStr []) = None" "hex64 JNull = None"
  by (simp_all add: hex64_def hex64_text_def)

lemma falsy_follow: "\<not> json_true x \<Longrightarrow> follow x k = JNull"
  by (cases x) (auto simp: follow_def jget_def)

lemma get_or_follow:
  assumes "get_or (py_or x (JObj [])) k (JStr []) = Inr r"
  shows "hex64 r = hex64 (follow x k)"
  using assms hex64_jget_or
  by (cases "json_true x") (auto simp: get_or_def raise_simps py_or_def falsy_follow jget_or_def)

lemma get_or_null: "get_or (py_or x (JObj [])) k JNull = Inr r \<Longrightarrow> r = follow x k"
  by (cases "json_true x") (auto simp: get_or_def raise_simps py_or_def falsy_follow jget_or_def jget_def)

lemma compute_attestation_follow:
  assumes "compute_attestation cap = Inr ca" "obj_of ca = Inr d"
  shows "hex64 (jget_or d k (JStr [])) = hex64 (follow (compute_of (JObj cap)) k)"
proof -
  obtain r where "get_or (py_or (jget cap ''model_attestation'') (JObj [])) ''compute_attestation'' JNull = Inr r"
    and ca: "ca = py_or r (JObj [])"
    using assms by (auto simp: compute_attestation_def raise_simps)
  then have r: "r = compute_of (JObj cap)" by (auto simp: compute_of_def dest: get_or_null)
  show ?thesis
  proof (cases "json_true r")
    case True
    then show ?thesis using assms ca r by (simp add: py_or_def raise_simps hex64_jget_or)
  next
    case False
    then show ?thesis using assms ca r by (auto simp: py_or_def raise_simps falsy_follow jget_or_def)
  qed
qed

section \<open>Every commitment becomes a node\<close>

lemma grows_chain:
  assumes "chain_ref cap cid s = Inr s'"
  shows "grows cid d s {follow (follow (JObj cap) ''chain'') ''parent_capsule_id''} s'"
proof -
  let ?v = "follow (follow (JObj cap) ''chain'') ''parent_capsule_id''"
  obtain prior where "get_or (py_or (jget cap ''chain'') (JObj [])) ''parent_capsule_id'' (JStr []) = Inr prior"
    and s': "s' = (case (hex64 prior, s) of
          (Some p, view, seen) \<Rightarrow>
            if p \<in> seen then s
            else (add_edge cid p ''chains_to'' (add_node (capsule_node ''prior capsule '' p) view), insert p seen)
        | _ \<Rightarrow> s)"
    using assms by (auto simp: chain_ref_def raise_simps)
  then have h: "hex64 prior = hex64 ?v" by (auto dest: get_or_follow)
  show ?thesis
  proof (cases "hex64 ?v")
    case None
    then show ?thesis using s' h by (simp add: grows_none)
  next
    case (Some p)
    obtain view seen where s: "s = (view, seen)" by (cases s)
    show ?thesis
    proof (cases "p \<in> seen")
      case True
      then show ?thesis using s' h Some s by (simp add: grows_seen)
    next
      case False
      have "grows cid d (view, seen) {?v}
          (add_edge cid p ''chains_to'' (add_node (capsule_node ''prior capsule '' p) view), insert p seen)"
        using Some False by (intro grows_new [where n = "capsule_node ''prior capsule '' p"]) (auto simp: hex64_Some capsule_node_ok)
      then show ?thesis using s' h Some s False by simp
    qed
  qed
qed

lemma grows_subject: "grows cid d s {jget_or ca ''subject_digest'' (JStr [])} (subject_ref ca cid pfx s)"
  by (cases "hex64 (jget_or ca ''subject_digest'' (JStr []))")
    (auto simp: subject_ref_def KNOWN_TYPES_def intro!: grows_none grows_linked)

lemma grows_artifact:
  assumes "node_type = ''agent_input'' \<or> node_type = ''agent_output''"
  shows "grows cid d s {jget_or ca key (JStr [])} (artifact_ref ca disclosures cid pfx key node_type label s)"
proof (cases "hex64 (jget_or ca key (JStr []))")
  case None
  then show ?thesis by (simp add: artifact_ref_def grows_none)
next
  case (Some i)
  obtain view seen where s: "s = (view, seen)" by (cases s)
  show ?thesis
  proof (cases "i \<in> seen")
    case True
    then show ?thesis using s Some by (simp add: artifact_ref_def grows_seen)
  next
    case False
    have "hex64_text i" using Some by (simp add: hex64_Some)
    then show ?thesis unfolding artifact_ref_def s Some Let_def option.case prod.case if_not_P [OF False]
      using assms by (intro grows_entry [OF Some False])
        (auto simp: node_ok_def entry_ok_def match_ok_def payload_digest_def KNOWN_TYPES_def)
  qed
qed

lemma grows_response:
  assumes "response_ref cap cid pfx s = Inr s'"
  shows "grows cid d s {follow (follow (JObj cap) ''effect'') ''response_digest''} s'"
proof -
  let ?v = "follow (follow (JObj cap) ''effect'') ''response_digest''"
  obtain r where "get_or (py_or (jget cap ''effect'') (JObj [])) ''response_digest'' (JStr []) = Inr r"
    and s': "s' = (case hex64 r of None \<Rightarrow> s
        | Some digest \<Rightarrow> add_linked cid ''effect_response'' digest ''response'' [JStr ''response'']
              [JStr (pfx @ ''effect.response_digest'')] s)"
    using assms by (auto simp: response_ref_def raise_simps)
  then have "hex64 r = hex64 ?v" by (auto dest: get_or_follow)
  then show ?thesis using s' by (cases "hex64 ?v") (auto simp: KNOWN_TYPES_def intro!: grows_none grows_linked)
qed

lemma grows_constraint:
  assumes "constraint_ref cid pfx c s = Inr s'"
  shows "grows cid d s {follow c ''evidence_digest''} s'"
proof -
  obtain e where c: "c = JObj e" using assms by (auto simp: constraint_ref_def raise_simps)
  then show ?thesis using assms hex64_jget_or [of e "''evidence_digest''"]
    by (cases "hex64 (jget e ''evidence_digest'')")
      (auto simp: constraint_ref_def Let_def KNOWN_TYPES_def intro!: grows_none grows_linked)
qed

lemma grows_refl: "grows cid d s {} s"
  by (simp add: grows_def)

lemma grows_constraints:
  "constraint_refs cid pfx cs s = Inr s' \<Longrightarrow> grows cid d s ((\<lambda>c. follow c ''evidence_digest'') ` set cs) s'"
proof (induction cs arbitrary: s)
  case (Cons c cs)
  then obtain t where "constraint_ref cid pfx c s = Inr t" "constraint_refs cid pfx cs t = Inr s'"
    by (auto simp: raise_simps)
  then show ?case using Cons.IH grows_trans [OF grows_constraint] by fastforce
qed (simp add: grows_refl)

lemma constraint_elements:
  assumes "raised (json_iter (py_or v (JList []))) = Inr cs" "constraint_refs cid pfx cs s = Inr s'"
  shows "cs = elements v"
proof -
  have objs: "constraint_refs cid pfx xs t = Inr t' \<Longrightarrow> \<forall>x \<in> set xs. as_obj x \<noteq> None" for xs t t'
    by (induction xs arbitrary: t) (auto simp: constraint_ref_def raise_simps)
  have falsy: "\<not> json_true v \<Longrightarrow> elements v = []" by (cases v) (auto simp: elements_def)
  show ?thesis
    using assms objs [OF assms(2)] falsy
    by (cases v; cases "json_true v") (auto simp: py_or_def raise_simps elements_def neq_Nil_conv)
qed

lemma grows_eq:
  assumes "grows cid d s D s'" "hex64 ` E = hex64 ` D"
  shows "grows cid d s E s'"
  using assms by (simp add: grows_def)

lemma extract_refs_grows:
  assumes "extract_refs view cap cid side disclosures = Inr v"
  shows "\<exists>seen. grows cid d (view, node_ids view) (commitment_values (JObj cap)) (v, seen)"
proof -
  let ?dis = "case disclosures of None \<Rightarrow> [] | Some d \<Rightarrow> d" and ?pfx = "if side = [] then [] else side @ ''.''"
  let ?v = "\<lambda>k. follow (compute_of (JObj cap)) k"
  obtain s0 ca e s4 cs s5 where s0: "chain_ref cap cid (view, node_ids view) = Inr s0"
    and ca: "compute_attestation cap = Inr ca" "obj_of ca = Inr e"
    and s4: "response_ref cap cid ?pfx
        (artifact_ref e ?dis cid ?pfx ''agent_output_digest'' ''agent_output'' ''agent output''
          (artifact_ref e ?dis cid ?pfx ''agent_input_digest'' ''agent_input'' ''agent input'' (subject_ref e cid ?pfx s0))) = Inr s4"
    and cs: "raised (json_iter (py_or (jget cap ''constraints'') (JList []))) = Inr cs"
    and s5: "constraint_refs cid ?pfx cs s4 = Inr s5" and v: "v = fst s5"
    using assms unfolding extract_refs_def Let_def rbind_Inr_iff rmap_Inr_iff node_ids_def [symmetric] by blast
  have h: "hex64 (jget_or e k (JStr [])) = hex64 (?v k)" for k by (rule compute_attestation_follow [OF ca])
  have art: "grows cid d s {?v key} (artifact_ref e ?dis cid ?pfx key ty label s)"
    if "ty = ''agent_input'' \<or> ty = ''agent_output''" for key ty label s
    by (rule grows_eq [OF grows_artifact [OF that]]) (simp add: h)
  have sub: "grows cid d s0 {?v ''subject_digest''} (subject_ref e cid ?pfx s0)"
    by (rule grows_eq [OF grows_subject]) (simp add: h)
  have el: "cs = elements (follow (JObj cap) ''constraints'')" using constraint_elements [OF cs s5] by simp
  note grows_trans [OF grows_trans [OF grows_chain [OF s0] sub] art]
  note grows_trans [OF grows_trans [OF this art] grows_response [OF s4]]
  note grows_trans [OF this grows_constraints [OF s5]]
  then have "grows cid d (view, node_ids view) (commitment_values (JObj cap)) s5"
    unfolding commitment_values_def el [symmetric] by simp
  then show ?thesis using v by (metis prod.collapse)
qed

lemma extract_refs_ok:
  assumes x: "extract_refs view cap cid side disclosures = Inr v" and view: "view_ok view" "cid \<in> node_ids view"
  shows "view_ok v" "node_ids v = node_ids view \<union> {i. Some i \<in> hex64 ` commitment_values (JObj cap)}"
    "distinct (map gn_id (gv_nodes view)) \<Longrightarrow> distinct (map gn_id (gv_nodes v))"
proof -
  have "refs_ok cid False (view, node_ids view)" using view by (simp add: refs_ok_def)
  then show "view_ok v" "node_ids v = node_ids view \<union> {i. Some i \<in> hex64 ` commitment_values (JObj cap)}"
    using extract_refs_grows [OF x, where d = False] by (auto simp: grows_def refs_ok_def)
  show "distinct (map gn_id (gv_nodes v))" if "distinct (map gn_id (gv_nodes view))"
    using extract_refs_grows [OF x, where d = True] that view by (auto simp: grows_def refs_ok_def)
qed

lemma parse_single_ok:
  assumes "parse_single cap disclosures = Inr v"
  shows "(case hex64 (jget cap ''capsule_id'') of
      None \<Rightarrow> gv_nodes v = [] \<and> gv_error v \<noteq> None
    | Some cid \<Rightarrow> view_ok v \<and> distinct (map gn_id (gv_nodes v)) \<and>
        node_ids v = insert cid {i. Some i \<in> hex64 ` commitment_values (JObj cap)})"
proof (cases "hex64 (jget cap ''capsule_id'')")
  case None
  then show ?thesis using assms by (auto simp: parse_single_def hex64_jget_or new_view_def)
next
  case (Some cid)
  let ?view = "add_node (capsule_node ''capsule '' cid) ((new_view ''aac'' False)\<lparr>gv_raw := [JObj cap]\<rparr>)"
  have x: "extract_refs ?view cap cid [] disclosures = Inr v"
    using assms Some by (simp add: parse_single_def hex64_jget_or)
  have "view_ok ?view" using Some by (auto simp: hex64_Some intro!: view_ok_node view_ok_new capsule_node_ok)
  then show ?thesis using extract_refs_ok [OF x] Some by simp
qed

section \<open>Bindings\<close>

definition id_of :: "json \<Rightarrow> string option" where
  "id_of cap = hex64 (follow cap ''capsule_id'')"

definition digests_in :: "json set \<Rightarrow> string set" where
  "digests_in vs = {i. Some i \<in> hex64 ` vs}"

text \<open>The identifiers of a capsule and of what it commits to; none when the capsule has no identifier.\<close>

definition capsule_ids :: "json \<Rightarrow> string set" where
  "capsule_ids cap = (case id_of cap of None \<Rightarrow> {} | Some cid \<Rightarrow> insert cid (digests_in (commitment_values cap)))"

definition binding_ids :: "json \<Rightarrow> string set" where
  "binding_ids data =
     capsule_ids (follow data ''buyer_capsule'') \<union> capsule_ids (follow data ''seller_capsule'') \<union>
     digests_in {follow data ''sealed_terms_hash''}"

lemma node_ids_binding [simp]:
  "node_ids (add_capsule label cid v) = node_ids v \<union> set_option cid"
  "node_ids (sealed_terms h terms v) = insert h (node_ids v)"
  "node_ids (attests_to h cid v) = node_ids v"
  by (auto simp: add_capsule_def sealed_terms_def attests_to_def Let_def split: option.splits)

lemma view_ok_add_capsule: "view_ok v \<Longrightarrow> (\<And>i. cid = Some i \<Longrightarrow> hex64_text i) \<Longrightarrow> view_ok (add_capsule label cid v)"
  by (auto simp: add_capsule_def capsule_node_ok intro!: view_ok_node split: option.splits)

lemma view_ok_sealed: "view_ok v \<Longrightarrow> hex64_text h \<Longrightarrow> view_ok (sealed_terms h terms v)"
  by (auto simp: sealed_terms_def Let_def entry_ok_def match_ok_def payload_digest_def node_ok_def KNOWN_TYPES_def
      intro!: view_ok_entry view_ok_node)

lemma view_ok_attests: "view_ok v \<Longrightarrow> set_option cid \<subseteq> node_ids v \<Longrightarrow> h \<in> node_ids v \<Longrightarrow> view_ok (attests_to h cid v)"
  by (auto simp: attests_to_def view_ok_edge split: option.splits)

lemma view_ok_side:
  assumes "side_refs cap cid side dis v = Inr w" "view_ok v" "set_option cid \<subseteq> node_ids v" "cid = id_of (JObj cap)"
  shows "view_ok w" "node_ids w = node_ids v \<union> capsule_ids (JObj cap)"
  using assms extract_refs_ok by (auto simp: side_refs_def capsule_ids_def digests_in_def split: option.splits)

lemma set_option_capsule_ids: "set_option (id_of cap) \<subseteq> capsule_ids cap"
  by (auto simp: capsule_ids_def split: option.splits)

lemma falsy_capsule: "capsule_ids (py_or v (JObj [])) = capsule_ids v"
  by (cases "json_true v") (auto simp: py_or_def capsule_ids_def id_of_def falsy_follow jget_def split: option.splits)

lemma parse_binding_ok:
  assumes p: "parse_binding data = Inr v"
  shows "view_ok v" "node_ids v = binding_ids (JObj data)"
proof -
  define bv sv where "bv = py_or (jget data ''buyer_capsule'') (JObj [])" and "sv = py_or (jget data ''seller_capsule'') (JObj [])"
  obtain b s where b: "bv = JObj b" and s: "sv = JObj s"
    using p by (auto simp: parse_binding_def Let_def raise_simps bv_def sv_def)
  define bi si where "bi = id_of (JObj b)" and "si = id_of (JObj s)"
  define h where "h = hex64 (jget data ''sealed_terms_hash'')"
  define v0 where "v0 = (new_view ''aac'' True)\<lparr>gv_raw := filter json_true [bv, sv]\<rparr>"
  define v1 where "v1 = add_capsule ''seller capsule '' si (add_capsule ''buyer capsule '' bi v0)"
  define v2 where "v2 = (case h of None \<Rightarrow> v1
      | Some h \<Rightarrow> attests_to h si (attests_to h bi (sealed_terms h (jget data ''terms'') v1)))"
  define v3 where "v3 = (case (bi, si) of (Some b, Some s) \<Rightarrow> add_edge s b ''chains_to'' v2 | _ \<Rightarrow> v2)"
  define dis where "dis = (case as_obj (jget data ''disclosures'') of None \<Rightarrow> [] | Some d \<Rightarrow> d)"
  have ids: "hex64 (jget b ''capsule_id'') = bi" "hex64 (jget s ''capsule_id'') = si"
    by (simp_all add: bi_def si_def id_of_def)
  have "rbind (side_refs b bi ''buyer'' dis v3) (side_refs s si ''seller'' dis) = Inr v"
    using p unfolding parse_binding_def Let_def bv_def [symmetric] sv_def [symmetric] b s obj_of_JObj rbind.simps
      hex64_jget_or ids v3_def v2_def v1_def v0_def dis_def h_def by simp
  then obtain v4 where v4: "side_refs b bi ''buyer'' dis v3 = Inr v4" and v: "side_refs s si ''seller'' dis v4 = Inr v"
    unfolding rbind_Inr_iff by blast
  have v0: "view_ok v0" "node_ids v0 = {}" unfolding v0_def by (simp_all add: view_ok_new)
  have hx: "bi = Some i \<Longrightarrow> hex64_text i" "si = Some i \<Longrightarrow> hex64_text i" for i
    by (simp_all add: bi_def si_def id_of_def hex64_Some)
  have v1: "view_ok v1" "node_ids v1 = set_option bi \<union> set_option si"
    using v0 hx by (auto simp: v1_def intro!: view_ok_add_capsule)
  have "h = Some k \<Longrightarrow> hex64_text k" for k by (simp add: h_def hex64_Some)
  then have v2: "view_ok v2 \<and> node_ids v2 = node_ids v1 \<union> set_option h"
    using v1 by (auto simp: v2_def intro!: view_ok_attests view_ok_sealed split: option.splits)
  have v3: "view_ok v3" "node_ids v3 = node_ids v2"
    using v1 v2 by (auto simp: v3_def intro!: view_ok_edge split: option.splits)
  have b4: "view_ok v4" "node_ids v4 = node_ids v3 \<union> capsule_ids (JObj b)"
    using view_ok_side [OF v4 v3(1)] v1 v2 v3 by (auto simp: bi_def)
  have s5: "view_ok v" "node_ids v = node_ids v4 \<union> capsule_ids (JObj s)"
    using view_ok_side [OF v b4(1)] v1 v2 v3 b4 by (auto simp: si_def)
  show "view_ok v" by (rule s5)
  have c: "capsule_ids (JObj b) = capsule_ids (jget data ''buyer_capsule'')"
    "capsule_ids (JObj s) = capsule_ids (jget data ''seller_capsule'')"
    using falsy_capsule [of "jget data ''buyer_capsule''"] falsy_capsule [of "jget data ''seller_capsule''"] b s
    by (simp_all add: bv_def sv_def)
  have "set_option h = digests_in {jget data ''sealed_terms_hash''}" by (auto simp: h_def digests_in_def)
  then show "node_ids v = binding_ids (JObj data)"
    using s5(2) b4(2) v3(2) v2 v1(2) set_option_capsule_ids [of "JObj b"] set_option_capsule_ids [of "JObj s"] c
    by (auto simp: binding_ids_def bi_def si_def)
qed

definition binding_shape :: "json \<Rightarrow> bool" where
  "binding_shape data \<longleftrightarrow>
     (case as_obj data of None \<Rightarrow> False | Some d \<Rightarrow> jhas d ''buyer_capsule'' \<and> jhas d ''seller_capsule'')"

lemma parse_single_ids:
  assumes "parse_single cap dis = Inr v"
  shows "gv_error v \<noteq> None \<and> gv_nodes v = [] \<or> view_ok v \<and> distinct (map gn_id (gv_nodes v))"
    "node_ids v = capsule_ids (JObj cap)"
  using parse_single_ok [OF assms] by (auto simp: capsule_ids_def id_of_def digests_in_def node_ids_def split: option.splits)

lemma parse_capsule_cases:
  assumes "parse_capsule data = Inr v"
  obtains (binding) d where "data = JObj d" "binding_shape data" "parse_binding d = Inr v"
  | (single) cap dis where "\<not> binding_shape data" "unwrap data = JObj cap" "parse_single cap dis = Inr v"
  | (neither) e where "\<not> binding_shape data" "id_of (unwrap data) = None" "v = (new_view ''aac'' False)\<lparr>gv_error := Some e\<rparr>"
proof (cases "as_obj data")
  case None
  then show ?thesis using assms neither
    by (auto simp: parse_capsule_def binding_shape_def unwrap_def id_of_def follow_def)
next
  case (Some d)
  show ?thesis
  proof (cases "binding_shape data")
    case True
    then show ?thesis using assms Some binding [of d] by (auto simp: parse_capsule_def binding_shape_def)
  next
    case False
    then have nb: "\<not> (jhas d ''buyer_capsule'' \<and> jhas d ''seller_capsule'')" using Some by (simp add: binding_shape_def)
    show ?thesis
    proof (cases "as_obj (jget d ''capsule'')")
      case (Some cap)
      then have "unwrap data = JObj cap" using \<open>as_obj data = Some d\<close> by (simp add: unwrap_def)
      moreover have "parse_single cap (as_obj (jget d ''disclosures'')) = Inr v"
        using assms Some nb \<open>as_obj data = Some d\<close> by (simp add: parse_capsule_def)
      ultimately show ?thesis using single False by blast
    next
      case None
      then have u: "unwrap data = JObj d" using Some by (simp add: unwrap_def)
      have v: "(if jhas d ''capsule_id'' then parse_single d None
          else Inr ((new_view ''aac'' False)\<lparr>gv_error := Some [JStr ''not an AAC capsule or binding'']\<rparr>)) = Inr v"
        using assms None Some nb by (simp add: parse_capsule_def)
      show ?thesis
      proof (cases "jhas d ''capsule_id''")
        case True
        then show ?thesis using v u single False by auto
      next
        case no: False
        then have "id_of (unwrap data) = None" using u by (auto simp: id_of_def jhas_def jget_def)
        then show ?thesis using v no neither False by auto
      qed
    qed
  qed
qed

lemma parse_capsule_ok:
  assumes "parse_capsule data = Inr v"
  shows "gv_error v \<noteq> None \<and> gv_nodes v = [] \<or> view_ok v \<and> (binding_shape data \<or> distinct (map gn_id (gv_nodes v)))"
    "node_ids v = (if binding_shape data then binding_ids data else capsule_ids (unwrap data))"
  using assms
proof (atomize (full), cases rule: parse_capsule_cases)
  case (binding d)
  then show "(gv_error v \<noteq> None \<and> gv_nodes v = [] \<or> view_ok v \<and> (binding_shape data \<or> distinct (map gn_id (gv_nodes v)))) \<and>
    node_ids v = (if binding_shape data then binding_ids data else capsule_ids (unwrap data))"
    using parse_binding_ok [of d v] by simp
next
  case (single cap dis)
  then show "(gv_error v \<noteq> None \<and> gv_nodes v = [] \<or> view_ok v \<and> (binding_shape data \<or> distinct (map gn_id (gv_nodes v)))) \<and>
    node_ids v = (if binding_shape data then binding_ids data else capsule_ids (unwrap data))"
    using parse_single_ids [OF single(3)] by auto
next
  case (neither e)
  then show "(gv_error v \<noteq> None \<and> gv_nodes v = [] \<or> view_ok v \<and> (binding_shape data \<or> distinct (map gn_id (gv_nodes v)))) \<and>
    node_ids v = (if binding_shape data then binding_ids data else capsule_ids (unwrap data))"
    by (simp add: capsule_ids_def node_ids_def)
qed

section \<open>What the flags of the log are worth\<close>

text \<open>A revealed payload is shown whether or not it matches: the node of a mismatching entry carries it.\<close>

definition mismatches_shown :: "graph_view \<Rightarrow> bool" where
  "mismatches_shown v \<longleftrightarrow>
     (\<forall>e \<in> set (gv_log v). pe_match e = Some False \<longrightarrow>
        (\<exists>n \<in> set (gv_nodes v). \<exists>p. gn_id n = pe_digest e \<and> gn_type n = pe_type e \<and>
           gn_payload n = Some (Revealed p) \<and> payload_digest (pe_type e) p \<noteq> pe_digest e))"

text \<open>The recomputed digest is in lower case and is compared as it is written: an entry is only ever
  marked as matching under a commitment in lower case.\<close>

definition matches_in_lower_case :: "graph_view \<Rightarrow> bool" where
  "matches_in_lower_case v \<longleftrightarrow>
     (\<forall>e \<in> set (gv_log v). pe_match e = Some True \<longrightarrow> lower_hex (pe_digest e))"

lemma payload_digest_lower_case: "lower_hex (payload_digest t p)"
  by (simp add: payload_digest_def artifact_digest_def json_digest_def split: option.splits)

lemma view_ok_flags:
  assumes "view_ok v"
  shows "mismatches_shown v" "matches_in_lower_case v"
proof -
  have e: "entry_ok (set (gv_nodes v)) e" if "e \<in> set (gv_log v)" for e
    using assms that by (simp add: view_ok_def)
  show "mismatches_shown v" unfolding mismatches_shown_def
  proof (intro ballI impI)
    fix e assume "e \<in> set (gv_log v)" "pe_match e = Some False"
    then show "\<exists>n \<in> set (gv_nodes v). \<exists>p. gn_id n = pe_digest e \<and> gn_type n = pe_type e \<and>
        gn_payload n = Some (Revealed p) \<and> payload_digest (pe_type e) p \<noteq> pe_digest e"
      using e [of e] by (auto simp: entry_ok_def match_ok_def)
  qed
  show "matches_in_lower_case v" unfolding matches_in_lower_case_def
  proof (intro ballI impI)
    fix e assume "e \<in> set (gv_log v)" "pe_match e = Some True"
    then obtain p where "payload_digest (pe_type e) p = pe_digest e"
      using e [of e] by (auto simp: entry_ok_def match_ok_def)
    then show "lower_hex (pe_digest e)" using payload_digest_lower_case by metis
  qed
qed

section \<open>Properties\<close>

text \<open>
  C24. The graph of any record that parses is well formed: either it is refused, with an error and
  without a node, or every node is a 64-digit digest of a known type, every edge joins two nodes, and
  every entry of the log has its node and calls an artifact withheld exactly when no payload is shown
  and matching exactly when the lower-case digest of the payload shown is, letter by letter, the
  commitment. Two consequences are stated on their own: a payload that does not match is shown all
  the same (the comment on \<open>GraphNode.revealed_payload\<close> says it is there only when the digest matches),
  and nothing is called matching under a commitment with an upper-case digit, which
  \<open>_is_hex64\<close> accepts. The nodes of a single capsule are distinct.
\<close>

theorem capsule_graph_well_formed:
  assumes "parse_capsule data = Inr v"
  shows "gv_error v \<noteq> None \<and> gv_nodes v = [] \<or>
    view_ok v \<and> mismatches_shown v \<and> matches_in_lower_case v \<and>
    (binding_shape data \<or> distinct (map gn_id (gv_nodes v)))"
  using parse_capsule_ok(1) [OF assms] view_ok_flags by blast

definition demo_capsule :: json where
  "demo_capsule =
     JObj [(''capsule_id'', JStr (replicate 64 CHR ''a'')),
           (''chain'', JObj [(''parent_capsule_id'', JStr (replicate 64 CHR ''b''))])]"

lemma demo_hex64:
  "hex64 (JStr (replicate 64 CHR ''a'')) = Some (replicate 64 CHR ''a'')"
  "hex64 (JStr (replicate 64 CHR ''b'')) = Some (replicate 64 CHR ''b'')"
  by (simp_all add: hex64_def hex64_text_def hex_value_def)

lemma demo_capsule_eval:
  "\<exists>v. parse_capsule demo_capsule = Inr v \<and> \<not> binding_shape demo_capsule \<and> gv_error v = None"
  "capsule_ids demo_capsule = {replicate 64 CHR ''a'', replicate 64 CHR ''b''}" "unwrap demo_capsule = demo_capsule"
  by (simp_all add: demo_capsule_def parse_capsule_def parse_single_def extract_refs_def chain_ref_def compute_attestation_def
      subject_ref_def artifact_ref_def response_ref_def get_or_def jget_or_def jget_def jhas_def py_or_def raised_def
      demo_hex64 capsule_ids_def id_of_def digests_in_def commitment_values_def compute_of_def
      elements_def unwrap_def add_edge_def add_node_def new_view_def capsule_node_def binding_shape_def)

text \<open>A record whose input is revealed under a commitment in upper case.\<close>

definition demo_disclosed :: json where
  "demo_disclosed =
     JObj [(''capsule'', JObj [(''capsule_id'', JStr (replicate 64 CHR ''a'')),
              (''model_attestation'', JObj [(''compute_attestation'',
                 JObj [(''agent_input_digest'', JStr (replicate 64 CHR ''A''))])])]),
           (''disclosures'', JObj [(''agent_input'', JStr ''x'')])]"

lemma demo_hex64_upper: "hex64 (JStr (replicate 64 CHR ''A'')) = Some (replicate 64 CHR ''A'')"
  by (simp add: hex64_def hex64_text_def hex_value_def)

lemma demo_disclosed_eval:
  "\<exists>v e. parse_capsule demo_disclosed = Inr v \<and> \<not> binding_shape demo_disclosed \<and> gv_error v = None \<and>
     gv_log v = [e] \<and> pe_digest e = replicate 64 CHR ''A'' \<and> pe_match e \<noteq> None"
  by (simp add: demo_disclosed_def parse_capsule_def parse_single_def extract_refs_def chain_ref_def compute_attestation_def
      subject_ref_def artifact_ref_def response_ref_def get_or_def jget_or_def jget_def jhas_def py_or_def raised_def
      demo_hex64 demo_hex64_upper id_of_def Let_def add_entry_def
      elements_def unwrap_def add_edge_def add_node_def new_view_def capsule_node_def binding_shape_def)

theorem capsule_graph_well_formed_witness:
  "\<exists>v n. parse_capsule demo_disclosed = Inr v \<and> view_ok v \<and> distinct (map gn_id (gv_nodes v)) \<and>
     n \<in> set (gv_nodes v) \<and> gn_id n = replicate 64 CHR ''A'' \<and> gn_payload n \<noteq> None \<and> map pe_match (gv_log v) = [Some False]"
proof -
  obtain v e where v: "parse_capsule demo_disclosed = Inr v" "\<not> binding_shape demo_disclosed" "gv_error v = None"
    and e: "gv_log v = [e]" "pe_digest e = replicate 64 CHR ''A''" "pe_match e \<noteq> None"
    using demo_disclosed_eval by blast
  have ok: "view_ok v \<and> mismatches_shown v \<and> matches_in_lower_case v \<and> distinct (map gn_id (gv_nodes v))"
    using capsule_graph_well_formed [OF v(1)] v(2,3) by simp
  have "\<not> lower_hex (pe_digest e)" unfolding e(2) by (simp add: lower_hex_def list_all_iff)
  then have "pe_match e = Some False"
    using ok e by (cases "pe_match e") (auto simp: matches_in_lower_case_def)
  with ok e v(1) show ?thesis unfolding mismatches_shown_def by auto
qed

text \<open>
  C25. The nodes of the graph are exactly the identifier of the capsule and the digests it commits
  to: its parent, subject, agent input and output, effect response and the evidence of its
  constraints. In a binding they are those of both capsules and the sealed terms. Nothing committed
  to is left out, and nothing else is shown.
\<close>

theorem capsule_graph_complete:
  assumes "parse_capsule data = Inr v"
  shows "gn_id ` set (gv_nodes v) = (if binding_shape data then binding_ids data else capsule_ids (unwrap data))"
  using parse_capsule_ok(2) [OF assms] by (simp add: node_ids_def)

theorem capsule_graph_complete_witness:
  "\<exists>v. parse_capsule demo_capsule = Inr v \<and>
     gn_id ` set (gv_nodes v) = {replicate 64 CHR ''a'', replicate 64 CHR ''b''}"
  using capsule_graph_complete demo_capsule_eval by fastforce

end
