(* ===== verification/Base64.thy ===== *)
theory Base64
  imports Json
begin

text \<open>
  The part of Python's \<open>base64\<close> that the hosted verifier calls: \<open>b64encode\<close>, \<open>b64decode\<close> and
  \<open>urlsafe_b64decode\<close> of a text, and \<open>str.strip\<close> of any text. Decoding is not strict: octets outside
  the alphabet are skipped, and a complete padding ends the input.
\<close>

section \<open>Encoding\<close>

definition b64_char :: "nat \<Rightarrow> char" where
  "b64_char n = ''ABCDEFGHIJKLMNOPQRSTUVWXYZabcdefghijklmnopqrstuvwxyz0123456789+/'' ! n"

fun b64encode :: "bytes \<Rightarrow> string" where
  "b64encode [] = []"
| "b64encode [a] =
     [b64_char (unat a div 4), b64_char (unat a mod 4 * 16), CHR ''='', CHR ''='']"
| "b64encode [a, b] =
     [b64_char (unat a div 4), b64_char (unat a mod 4 * 16 + unat b div 16), b64_char (unat b mod 16 * 4), CHR ''='']"
| "b64encode (a # b # c # rest) =
     [b64_char (unat a div 4), b64_char (unat a mod 4 * 16 + unat b div 16),
      b64_char (unat b mod 16 * 4 + unat c div 64), b64_char (unat c mod 64)] @ b64encode rest"

section \<open>Decoding\<close>

definition b64_value :: "char \<Rightarrow> nat option" where
  "b64_value c =
     (let n = of_char c :: nat
      in if 65 \<le> n \<and> n \<le> 90 then Some (n - 65)
         else if 97 \<le> n \<and> n \<le> 122 then Some (n - 71)
         else if 48 \<le> n \<and> n \<le> 57 then Some (n + 4)
         else if n = 43 then Some 62 else if n = 47 then Some 63 else None)"

text \<open>\<open>quad\<close> is the position in a group of four, \<open>left\<close> the bits carried over, \<open>pads\<close> the padding
  seen since the last data character.\<close>

fun b64_loop :: "nat \<Rightarrow> nat \<Rightarrow> nat \<Rightarrow> string \<Rightarrow> py_exn + bytes" where
  "b64_loop quad left pads [] = (if quad = 0 then Inr [] else Inl ValueError)"
| "b64_loop quad left pads (c # cs) =
     (if c = CHR ''='' then
        (if quad < 2 then b64_loop quad left pads cs
         else if 4 \<le> quad + Suc pads then Inr [] else b64_loop quad left (Suc pads) cs)
      else
        (case b64_value c of
           None \<Rightarrow> b64_loop quad left pads cs
         | Some v \<Rightarrow>
             if quad = 0 then b64_loop 1 v 0 cs
             else if quad = 1 then rmap (Cons (of_nat (left * 4 + v div 16))) (b64_loop 2 (v mod 16) 0 cs)
             else if quad = 2 then rmap (Cons (of_nat (left * 16 + v div 4))) (b64_loop 3 (v mod 4) 0 cs)
             else rmap (Cons (of_nat (left * 64 + v))) (b64_loop 0 0 0 cs)))"

text \<open>A text with a character outside ASCII is rejected.\<close>

definition ascii_text :: "string \<Rightarrow> bool" where
  "ascii_text s \<longleftrightarrow> (\<forall>c \<in> set s. (of_char c :: nat) < 128)"

definition b64decode :: "string \<Rightarrow> py_exn + bytes" where
  "b64decode s = (if ascii_text s then b64_loop 0 0 0 s else Inl ValueError)"

definition url_char :: "char \<Rightarrow> char" where
  "url_char c = (if c = CHR ''-'' then CHR ''+'' else if c = CHR ''_'' then CHR ''/'' else c)"

definition urlsafe_b64decode :: "string \<Rightarrow> py_exn + bytes" where
  "urlsafe_b64decode s = b64decode (map url_char s)"

section \<open>White space\<close>

definition space_point :: "nat \<Rightarrow> bool" where
  "space_point n \<longleftrightarrow>
     9 \<le> n \<and> n \<le> 13 \<or> 28 \<le> n \<and> n \<le> 32 \<or> 8192 \<le> n \<and> n \<le> 8202 \<or>
     n \<in> {133, 160, 5760, 8232, 8233, 8239, 8287, 12288}"

definition py_strip :: "string \<Rightarrow> string" where
  "py_strip s =
     (let sp = (\<lambda>u. space_point (code_point u))
      in concat (rev (dropWhile sp (rev (dropWhile sp (utf8_chars s))))))"

section \<open>Decoding inverts encoding\<close>

lemma b64_alphabet:
  "list_all2 (\<lambda>c n. b64_value c = Some n \<and> c \<noteq> CHR ''='' \<and> url_char c = c \<and> (of_char c :: nat) < 128)
     ''ABCDEFGHIJKLMNOPQRSTUVWXYZabcdefghijklmnopqrstuvwxyz0123456789+/'' [0..<64]"
  by (simp add: b64_value_def url_char_def upt_rec)

lemma b64_value_char:
  assumes "n < 64"
  shows "b64_value (b64_char n) = Some n" "b64_char n \<noteq> CHR ''=''" "url_char (b64_char n) = b64_char n"
    "(of_char (b64_char n) :: nat) < 128"
  using list_all2_nthD2 [OF b64_alphabet, of n] assms by (simp_all add: b64_char_def)

lemma b64_loop_char:
  "v < 64 \<Longrightarrow> b64_loop quad left pads (b64_char v # cs) =
     (if quad = 0 then b64_loop 1 v 0 cs
      else if quad = 1 then rmap (Cons (of_nat (left * 4 + v div 16))) (b64_loop 2 (v mod 16) 0 cs)
      else if quad = 2 then rmap (Cons (of_nat (left * 16 + v div 4))) (b64_loop 3 (v mod 4) 0 cs)
      else rmap (Cons (of_nat (left * 64 + v))) (b64_loop 0 0 0 cs))"
  by (simp add: b64_value_char)

lemma carry_div [simp]: "y < m \<Longrightarrow> x div k * k + (x mod k * m + y) div m = (x :: nat)"
  using div_mult_mod_eq [of x k] by simp

lemma carry_mod [simp]: "y < m \<Longrightarrow> (x * m + y) mod m = (y :: nat)"
  by simp

lemma carry_bound: "y < m \<Longrightarrow> x < k \<Longrightarrow> x * m + y < k * (m :: nat)"
  using mult_le_mono1 [of "Suc x" k m] by simp

lemma octet_bounds:
  fixes a :: byte
  shows "unat a div 4 < 64" "unat a div 16 < 16" "unat a div 64 < 4"
  using byte_bound [of a] by (simp_all add: less_mult_imp_div_less)

lemma sextet_bounds:
  fixes a b :: byte
  shows "unat a mod 4 * 16 < 64" "unat a mod 4 * 16 + unat b div 16 < 64"
    "unat a mod 16 * 4 < 64" "unat a mod 16 * 4 + unat b div 64 < 64" "unat a mod 64 < 64"
  using carry_bound [of 0 16 "unat a mod 4" 4] carry_bound [of "unat b div 16" 16 "unat a mod 4" 4]
    carry_bound [of 0 4 "unat a mod 16" 16] carry_bound [of "unat b div 64" 4 "unat a mod 16" 16]
    octet_bounds [of b] by simp_all

lemma sextets:
  fixes a b c :: byte
  shows "unat a div 4 * 4 + (unat a mod 4 * 16) div 16 = unat a"
    "unat a div 4 * 4 + (unat a mod 4 * 16 + unat b div 16) div 16 = unat a"
    "(unat a mod 4 * 16 + unat b div 16) mod 16 * 16 + (unat b mod 16 * 4) div 4 = unat b"
    "(unat a mod 4 * 16 + unat b div 16) mod 16 * 16 + (unat b mod 16 * 4 + unat c div 64) div 4 = unat b"
    "(unat b mod 16 * 4 + unat c div 64) mod 4 * 64 + unat c mod 64 = unat c"
  using octet_bounds [of b] octet_bounds [of c] carry_div [of 0 16 "unat a" 4] carry_div [of 0 4 "unat b" 16]
  by (simp_all only: carry_div carry_mod add_0_right div_mult_mod_eq zero_less_numeral)

lemma b64_loop_encode: "b64_loop 0 0 0 (b64encode b) = Inr b"
proof (induction b rule: b64encode.induct)
  case (2 a)
  show ?case by (simp add: b64_loop_char sextet_bounds octet_bounds sextets del: b64_loop.simps(2)) (simp add: b64_loop.simps)
next
  case (3 a b)
  show ?case by (simp add: b64_loop_char sextet_bounds octet_bounds sextets del: b64_loop.simps(2)) (simp add: b64_loop.simps)
next
  case (4 a b c rest)
  show ?case by (simp add: b64_loop_char sextet_bounds octet_bounds sextets 4 del: b64_loop.simps(2) of_nat_add of_nat_mult)
qed simp

end
