(* ===== verification/Statement.thy ===== *)
theory Statement
  imports Receipt
begin

text \<open>
  Signed and Transparent Statements, \<open>src/scitt_cose/statement.py\<close>: building a statement, parsing
  it with and without a key, attaching receipts to it and reading them back.
\<close>

section \<open>Building\<close>

definition HDR_CONTENT_TYPE :: int where "HDR_CONTENT_TYPE = 3"
definition HDR_RECEIPTS :: int where "HDR_RECEIPTS = 394"
definition CWT_ISS :: int where "CWT_ISS = 1"
definition CWT_SUB :: int where "CWT_SUB = 2"

lemmas statement_consts = HDR_CONTENT_TYPE_def HDR_RECEIPTS_def CWT_ISS_def CWT_SUB_def
  HDR_CWT_CLAIMS_def HDR_KID_def HDR_ALG_def HDR_CRIT_def

text \<open>\<open>isinstance(key, (int, str))\<close>: a bool passes.\<close>

definition claim_key :: "pyval \<Rightarrow> bool" where
  "claim_key k \<longleftrightarrow> is_int k \<or> as_text k \<noteq> None"

fun merge_extra_claims :: "pydict \<Rightarrow> pydict \<Rightarrow> cose_exn + pydict" where
  "merge_extra_claims claims [] = Inr claims"
| "merge_extra_claims claims ((key, value) # extra) =
     (if \<not> claim_key key then cose_raise Bad_Claim_Key
      else merge_extra_claims (dict_set claims key value) extra)"

definition statement_header :: "string \<Rightarrow> pydict \<Rightarrow> bytes option \<Rightarrow> pydict" where
  "statement_header content_type claims kid =
     put HDR_KID (map_option CBytes kid)
       [(CInt HDR_CONTENT_TYPE, CText content_type), (CInt HDR_CWT_CLAIMS, CDict claims)]"

definition build_signed_statement ::
  "cbor2_lib \<Rightarrow> 'k crypto_lib \<Rightarrow> bytes \<Rightarrow> string \<Rightarrow> pem \<Rightarrow> string \<Rightarrow> string \<Rightarrow> string \<Rightarrow> pydict option
     \<Rightarrow> bytes option \<Rightarrow> cose_exn + bytes" where
  "build_signed_statement L K payload alg private_key_pem issuer subject content_type extra_cwt_claims kid =
     rbind (merge_extra_claims [(CInt CWT_ISS, CText issuer), (CInt CWT_SUB, CText subject)] (or_empty extra_cwt_claims))
       (\<lambda>claims. sign_sign1 L K payload alg private_key_pem
          (Some (statement_header content_type claims kid)) (Some []) False)"

section \<open>Parsing\<close>

definition decode_text :: "pyval \<Rightarrow> string option" where
  "decode_text value =
     (case value of
        CBytes b \<Rightarrow> if utf8_valid b then Some (utf8_text b) else None
      | CText s \<Rightarrow> Some s
      | _ \<Rightarrow> None)"

definition STMT_UNDERSTOOD :: "pyval list" where
  "STMT_UNDERSTOOD = [CInt HDR_ALG, CInt HDR_CRIT, CInt HDR_CONTENT_TYPE, CInt HDR_KID, CInt HDR_CWT_CLAIMS]"

record statement_fields =
  f_issuer :: "string option"
  f_subject :: "string option"
  f_content_type :: "string option"
  f_alg :: pyval
  f_claims :: pydict
  f_payload :: "bytes option"

definition alg_display :: "pyval \<Rightarrow> pyval" where
  "alg_display alg_code =
     (if is_int alg_code then
        (case num_of alg_code of
           Some i \<Rightarrow> (case map_of ALG_CODE_TO_NAME i of Some name \<Rightarrow> CText name | None \<Rightarrow> alg_code)
         | None \<Rightarrow> alg_code)
      else alg_code)"

definition extract_fields :: "pydict \<Rightarrow> bytes option \<Rightarrow> statement_fields" where
  "extract_fields protected payload =
     (let claims = (case as_dict (get_or_none protected (CInt HDR_CWT_CLAIMS)) of Some d \<Rightarrow> d | None \<Rightarrow> []) in
      \<lparr> f_issuer = decode_text (get_or_none claims (CInt CWT_ISS)),
        f_subject = decode_text (get_or_none claims (CInt CWT_SUB)),
        f_content_type = decode_text (get_or_none protected (CInt HDR_CONTENT_TYPE)),
        f_alg = alg_display (get_or_none protected (CInt HDR_ALG)),
        f_claims = claims, f_payload = payload \<rparr>)"

definition no_fields :: statement_fields where
  "no_fields =
     \<lparr> f_issuer = None, f_subject = None, f_content_type = None, f_alg = CNull, f_claims = [], f_payload = None \<rparr>"

record parsed_statement =
  p_signature_verified :: "bool option"
  p_fields :: statement_fields
  p_unverified :: "(statement_fields \<times> nat option) option"

definition sign1_elements :: "cbor2_lib \<Rightarrow> pyval \<Rightarrow> cose_exn + (int \<times> pyval \<times> pyval \<times> pyval \<times> pyval)" where
  "sign1_elements L msg =
     rbind (strict_decode L msg) (\<lambda>(tag, inner).
       case (if tag = int COSE_SIGN1_TAG then four_of inner else None) of
         None \<Rightarrow> cose_raise Not_A_Sign1_Message | Some x \<Rightarrow> Inr (tag, x))"

text \<open>\<open>cbor2.loads\<close> of something that is not octets raises \<open>TypeError\<close>.\<close>

definition structural_protected :: "cbor2_lib \<Rightarrow> pyval \<Rightarrow> cose_exn + pydict" where
  "structural_protected L p =
     (if truthy p then
        rbind (attempt Protected_Not_Cbor
            (case as_bytes p of None \<Rightarrow> Inl ''TypeError'' | Some b \<Rightarrow> rmap plain (cbor_loads L b)))
          (\<lambda>v. Inr (case as_dict v of Some d \<Rightarrow> d | None \<Rightarrow> []))
      else Inr [])"

definition structural_parse :: "cbor2_lib \<Rightarrow> pyval \<Rightarrow> cose_exn + (pydict \<times> bytes option)" where
  "structural_parse L msg =
     rbind (sign1_elements L msg) (\<lambda>(tag, p, u, payload_slot, s).
       rmap (\<lambda>protected. (protected, as_bytes payload_slot)) (structural_protected L p))"

definition safe_structural_fields :: "cbor2_lib \<Rightarrow> pyval \<Rightarrow> string + (statement_fields \<times> nat option) option" where
  "safe_structural_fields L msg =
     (case structural_parse L msg of
        Inl (Cose_Error _) \<Rightarrow> Inr None
      | Inl (Lib_Error e) \<Rightarrow> Inl e
      | Inr (protected, payload) \<Rightarrow> Inr (Some (extract_fields protected None, map_option length payload)))"

definition parse_signed_statement ::
  "cbor2_lib \<Rightarrow> 'k crypto_lib \<Rightarrow> pyval \<Rightarrow> pem option \<Rightarrow> string + parsed_statement" where
  "parse_signed_statement L K msg public_key_pem =
     (case public_key_pem of
        Some pem \<Rightarrow>
          (case verify_sign1 L K msg pem None STMT_UNDERSTOOD of
             Inl (Cose_Error _) \<Rightarrow>
               rmap (\<lambda>u. \<lparr> p_signature_verified = Some False, p_fields = no_fields, p_unverified = u \<rparr>)
                 (safe_structural_fields L msg)
           | Inl (Lib_Error e) \<Rightarrow> Inl e
           | Inr s \<Rightarrow> Inr \<lparr> p_signature_verified = Some True,
                            p_fields = extract_fields (s_protected s) (Some (s_payload s)), p_unverified = None \<rparr>)
      | None \<Rightarrow>
          rmap (\<lambda>u. \<lparr> p_signature_verified = None, p_fields = no_fields, p_unverified = u \<rparr>)
            (safe_structural_fields L msg))"

section \<open>Receipts of a Transparent Statement\<close>

definition attach_receipts :: "cbor2_lib \<Rightarrow> pyval \<Rightarrow> bytes list \<Rightarrow> cose_exn + bytes" where
  "attach_receipts L statement receipts =
     rbind (sign1_elements L statement) (\<lambda>(tag, p, u, payload_slot, s).
       let unprotected = (case as_dict (plain u) of Some d \<Rightarrow> d | None \<Rightarrow> []);
           existing = (case as_seq (get_or_none unprotected (CInt HDR_RECEIPTS)) of Some xs \<Rightarrow> xs | None \<Rightarrow> []);
           unprotected = dict_set unprotected (CInt HDR_RECEIPTS) (CList (existing @ map CBytes receipts)) in
       lib (cbor_dumps L (CTag tag (CList [p, CDict unprotected, payload_slot, s]))))"

definition receipt_bytes :: "pyval list \<Rightarrow> cose_exn + bytes list" where
  "receipt_bytes receipts =
     rmapM (\<lambda>r. case as_bytes r of None \<Rightarrow> cose_raise Receipt_Not_Bytes | Some b \<Rightarrow> Inr b) receipts"

definition extract_receipts :: "cbor2_lib \<Rightarrow> pyval \<Rightarrow> cose_exn + bytes list" where
  "extract_receipts L transparent =
     rbind (sign1_elements L transparent) (\<lambda>(tag, p, u, payload_slot, s).
       case as_dict (plain u) of
         None \<Rightarrow> Inr []
       | Some unprotected \<Rightarrow>
           (case as_seq (get_or_none unprotected (CInt HDR_RECEIPTS)) of
              None \<Rightarrow> Inr []
            | Some receipts \<Rightarrow> receipt_bytes receipts))"

section \<open>Only authenticated values\<close>

definition statement_shape :: "parsed_statement \<Rightarrow> bool" where
  "statement_shape q \<longleftrightarrow>
     (if p_signature_verified q = Some True then p_unverified q = None \<and> f_payload (p_fields q) \<noteq> None
      else p_fields q = no_fields)"

lemma parse_shape: "parse_signed_statement L K msg key = Inr q \<Longrightarrow> statement_shape q"
  by (auto simp: parse_signed_statement_def statement_shape_def raise_simps extract_fields_def Let_def
      split: option.splits sum.splits cose_exn.splits)

lemma parse_verified:
  assumes "parse_signed_statement L K msg key = Inr q" "p_signature_verified q = Some True"
  shows "\<exists>pem s. key = Some pem \<and> verify_sign1 L K msg pem None STMT_UNDERSTOOD = Inr s \<and>
           p_fields q = extract_fields (s_protected s) (Some (s_payload s))"
  using assms
  by (auto simp: parse_signed_statement_def raise_simps split: option.splits sum.splits cose_exn.splits)

lemma parse_total:
  assumes "libs_total L K"
  shows "\<exists>q. parse_signed_statement L K msg key = Inr q"
proof -
  have e: "cose_only (sign1_elements L msg)"
    unfolding sign1_elements_def by (auto intro!: cose_only_rules simp: strict_decode_cose_only split: prod.splits)
  have "cose_only (structural_protected L p)" for p
    unfolding structural_protected_def by (auto intro!: cose_only_rules)
  with e have "cose_only (structural_parse L msg)"
    unfolding structural_parse_def by (auto intro!: cose_only_rules split: prod.splits)
  then have s: "\<exists>u. safe_structural_fields L msg = Inr u"
    by (auto simp: safe_structural_fields_def cose_only_def split: sum.splits cose_exn.splits)
  show ?thesis
  proof (cases key)
    case None
    then show ?thesis using s by (auto simp: parse_signed_statement_def)
  next
    case (Some pem)
    have "cose_only (verify_sign1 L K msg pem None STMT_UNDERSTOOD)" by (rule verify_sign1_cose_only [OF assms])
    then show ?thesis using s Some
      by (auto simp: parse_signed_statement_def cose_only_def split: sum.splits cose_exn.splits)
  qed
qed

section \<open>Built statements parse\<close>

lemma merge_extra_get:
  "merge_extra_claims claims extra = Inr merged \<Longrightarrow> dict_get extra k = None \<Longrightarrow> dict_get merged k = dict_get claims k"
proof (induction claims extra arbitrary: merged rule: merge_extra_claims.induct)
  case (2 claims key v extra)
  then have "\<not> py_eq key k" "dict_get extra k = None" by (auto split: if_splits dest: py_eq_sym)
  then show ?case using 2 by (auto simp: dict_get_set_other split: if_splits)
qed simp

lemma statement_header_get:
  "dict_get (statement_header ct claims kid) (CInt 15) = Some (CDict claims)"
  "dict_get (statement_header ct claims kid) (CInt 3) = Some (CText ct)"
  "dict_get (statement_header ct claims kid) (CInt 2) = None"
  by (auto simp: statement_header_def put_def statement_consts split: option.splits)

theorem built_statement_parses:
  assumes "cbor2_plain L" "key_match K alg private_pem public_pem"
    and claims: "merge_extra_claims [(CInt 1, CText issuer), (CInt 2, CText subject)] (or_empty extra) = Inr claims"
    and extra: "dict_get (or_empty extra) (CInt 1) = None" "dict_get (or_empty extra) (CInt 2) = None"
    and ok: "signable alg payload (Some (statement_header content_type claims kid)) (Some []) pit uit"
  shows "\<exists>msg. build_signed_statement L K payload alg private_pem issuer subject content_type extra kid = Inr msg \<and>
     parse_signed_statement L K (CBytes msg) (Some public_pem) = Inr \<lparr> p_signature_verified = Some True,
       p_fields = \<lparr> f_issuer = Some issuer, f_subject = Some subject, f_content_type = Some content_type,
                    f_alg = CText alg, f_claims = plain_dict claims, f_payload = Some payload \<rparr>,
       p_unverified = None \<rparr>"
proof -
  let ?H = "statement_header content_type claims kid"
  obtain code where code: "map_of ALG_NAME_TO_CODE alg = Some code" "map_of ALG_CODE_TO_NAME code = Some alg"
    using assms(2) by (auto simp: key_match_def alg_tables ALG_CODE_TO_NAME_def)
  have get: "dict_get (signed_header alg (Some ?H)) (CInt l) = dict_get ?H (CInt l)" if "l \<noteq> 1" for l
    using that by (simp add: signed_header_def or_empty_def HDR_ALG_def dict_get_set_other)
  have crit: "check_critical_headers (plain_dict (signed_header alg (Some ?H))) STMT_UNDERSTOOD = Inr ()"
    by (simp add: check_critical_headers_iff dict_get_plain_dict HDR_CRIT_def get statement_header_get)
  obtain msg where m: "sign_sign1 L K payload alg private_pem (Some ?H) (Some []) False = Inr msg"
    "verify_sign1 L K (CBytes msg) public_pem None STMT_UNDERSTOOD =
       Inr \<lparr> s_protected = plain_dict (signed_header alg (Some ?H)), s_unprotected = plain_dict (or_empty (Some [])),
             s_payload = payload \<rparr>"
    using sign_verify [OF assms(1,2) ok crit, of False] by auto
  have c: "dict_get claims (CInt 1) = Some (CText issuer)" "dict_get claims (CInt 2) = Some (CText subject)"
    using merge_extra_get [OF claims] extra by simp_all
  have "extract_fields (plain_dict (signed_header alg (Some ?H))) (Some payload) =
     \<lparr> f_issuer = Some issuer, f_subject = Some subject, f_content_type = Some content_type,
       f_alg = CText alg, f_claims = plain_dict claims, f_payload = Some payload \<rparr>"
    using c code signed_header_alg [OF code(1)]
    by (simp add: extract_fields_def Let_def get_or_none_def dict_get_plain_dict statement_consts get
        statement_header_get decode_text_def alg_display_def plain_dict_def [symmetric])
  then show ?thesis using m claims
    by (simp add: build_signed_statement_def statement_consts parse_signed_statement_def)
qed

section \<open>Attaching and reading receipts\<close>

text \<open>A header map that has a plain item, entry by entry.\<close>

definition plain_map :: "nat \<Rightarrow> pydict \<Rightarrow> bool" where
  "plain_map depth d \<longleftrightarrow>
     depth \<le> 16 \<and> length d < 2 ^ 64 \<and> distinct (map fst d) \<and>
     (\<forall>(k, v) \<in> set d. \<exists>a b. item_of k = Some a \<and> key_item a \<and> admits (Suc depth) False a \<and>
        item_of v = Some b \<and> admits (Suc depth) False b)"

lemma header_item_iff: "(\<exists>it. header_item depth d it) \<longleftrightarrow> plain_map depth d"
proof
  assume "\<exists>it. header_item depth d it"
  then obtain kvs where kvs: "map (\<lambda>(k, v). pair_opt (item_of k) (item_of v)) d = map Some kvs"
    "admits depth False (I_Map kvs)"
    by (auto simp: header_item_def those_Some)
  have len: "length d = length kvs" using kvs(1) by (metis length_map)
  have at: "item_of (fst (d ! i)) = Some (fst (kvs ! i)) \<and> item_of (snd (d ! i)) = Some (snd (kvs ! i))"
    if "i < length d" for i
  proof -
    have "map (\<lambda>(k, v). pair_opt (item_of k) (item_of v)) d ! i = map Some kvs ! i" using kvs(1) by simp
    then show ?thesis using that len by (auto simp: case_prod_beta')
  qed
  have "distinct (map fst d)"
  proof (rule distinct_conv_nth [THEN iffD2], intro allI impI)
    fix i j assume ij: "i < length (map fst d)" "j < length (map fst d)" "i \<noteq> j"
    have "distinct (map fst kvs)" using kvs(2) by simp
    then have "fst (kvs ! i) \<noteq> fst (kvs ! j)" using ij len by (auto simp: distinct_conv_nth)
    then show "map fst d ! i \<noteq> map fst d ! j" using at [of i] at [of j] ij by auto
  qed
  moreover have "\<exists>a b. item_of k = Some a \<and> key_item a \<and> admits (Suc depth) False a \<and>
      item_of v = Some b \<and> admits (Suc depth) False b" if m: "(k, v) \<in> set d" for k v
  proof -
    obtain i where i: "i < length d" "d ! i = (k, v)" using m by (auto simp: in_set_conv_nth)
    have "kvs ! i \<in> set kvs" using i len by simp
    then have "key_item (fst (kvs ! i))" "admits (Suc depth) False (fst (kvs ! i))" "admits (Suc depth) False (snd (kvs ! i))"
      using kvs(2) by (auto simp: case_prod_beta')
    then show ?thesis using at [OF i(1)] i(2) by auto
  qed
  ultimately show "plain_map depth d" using kvs(2) len by (auto simp: plain_map_def)
next
  assume p: "plain_map depth d"
  let ?kvs = "map (\<lambda>(k, v). (the (item_of k), the (item_of v))) d"
  have e: "pair_opt (item_of k) (item_of v) = Some (the (item_of k), the (item_of v)) \<and> key_item (the (item_of k))
      \<and> admits (Suc depth) False (the (item_of k)) \<and> admits (Suc depth) False (the (item_of v)) \<and> k = val_of (the (item_of k))"
    if "(k, v) \<in> set d" for k v
    using p that key_val_of [of k] by (fastforce simp: plain_map_def)
  have "map (\<lambda>(k, v). pair_opt (item_of k) (item_of v)) d = map Some ?kvs" using e by auto
  then have "item_of (CDict d) = Some (I_Map ?kvs)" by (simp add: those_Some del: map_map)
  moreover have "distinct (map fst ?kvs)"
  proof -
    have "inj_on (\<lambda>kv. the (item_of (fst kv))) (set d)"
    proof (rule inj_onI)
      fix x y assume xy: "x \<in> set d" "y \<in> set d" "the (item_of (fst x)) = the (item_of (fst y))"
      then have "fst x = fst y" using e [of "fst x" "snd x"] e [of "fst y" "snd y"] by (metis prod.collapse)
      then show "x = y" using p xy(1,2) by (metis eq_key_imp_eq_value plain_map_def prod.collapse)
    qed
    moreover have "distinct d" using p by (auto simp: plain_map_def distinct_map)
    ultimately show ?thesis by (simp add: distinct_map comp_def case_prod_beta')
  qed
  ultimately show "\<exists>it. header_item depth d it"
    using p e unfolding header_item_def by (intro exI [of _ "I_Map ?kvs"]) (auto simp: plain_map_def simp del: map_map)
qed

lemma plain_map_set:
  assumes "plain_map depth d" "length d + 1 < 2 ^ 64" "- (2 ^ 63) \<le> l" "l < 2 ^ 63" "depth < 16"
    and "item_of v = Some b" "admits (Suc depth) False b"
  shows "plain_map depth (dict_set d (CInt l) v)"
proof -
  have key: "item_of (CInt l) = Some (int_item l)" "key_item (int_item l)" "admits (Suc depth) False (int_item l)"
    using item_of_int [OF assms(3,4)] int_item_ok [OF assms(3,4), of "Suc depth"] assms(5) by auto
  have labels: "\<forall>k \<in> fst ` set d. is_label k"
  proof -
    obtain it where "header_item depth d it" using assms(1) header_item_iff by blast
    then show ?thesis using header_item_labels by (auto simp: list_all_iff)
  qed
  have "plain_keys d" using assms(1) labels by (auto simp: plain_map_def plain_keys_def)
  then have "distinct (map fst (dict_set d (CInt l) v))" using dict_set_plain by (auto simp: plain_keys_def)
  moreover have "length (dict_set d (CInt l) v) \<le> length d + 1"
    by (induction d) (auto split: if_splits)
  moreover have "kv \<in> set (dict_set d (CInt l) v) \<Longrightarrow> kv \<in> set d \<or> kv = (CInt l, v)" for kv
    using labels
  proof (induction d)
    case (Cons x d)
    then show ?case by (cases x; cases kv) (auto simp: py_eq_label split: if_splits)
  qed simp
  ultimately show ?thesis using assms key unfolding plain_map_def by fastforce
qed

text \<open>A statement written with plain headers, taken apart.\<close>

lemma message_elements:
  assumes L: "cbor2_plain L" and m: "admits 0 True (message_item (enc pit) uit slot sig)" "admits 0 False pit"
    and "length (enc (message_item (enc pit) uit slot sig)) \<le> MAX_MESSAGE_BYTES"
  obtains u sl where "sign1_elements L (CBytes (enc (message_item (enc pit) uit slot sig))) = Inr (18, CBytes (enc pit), u, sl, CBytes sig)"
    "plain u = val_of uit" "item_of u = Some uit" "item_of sl = Some (slot_item slot)"
proof -
  let ?m = "message_item (enc pit) uit slot sig"
  obtain inner where i: "strict_decode L (CBytes (enc ?m)) = Inr (18, inner)"
    "plain inner = CList [CBytes (enc pit), val_of uit, val_of (slot_item slot), CBytes sig]"
    by (rule strict_message_item [OF L m(1) m(2) assms(4)])
  obtain u sl where u: "four_of inner = Some (CBytes (enc pit), u, sl, CBytes sig)" "plain u = val_of uit"
    "plain sl = val_of (slot_item slot)"
    using i(2) by (cases inner) (auto simp: four_of_Some Cons_eq_map_conv)
  have a: "admits 2 False uit" "plain_item (slot_item slot)"
    using m(1) by (simp_all add: message_item_def numeral_2_eq_2, cases slot, simp_all)
  have "item_of u = item_of (val_of uit)" "item_of sl = item_of (val_of (slot_item slot))"
    using u(2,3) item_of_plain by metis+
  then have "item_of u = Some uit" "item_of sl = Some (slot_item slot)"
    using item_of_val_of admits_plain_item [OF a(1)] a(2) by simp_all
  moreover have "sign1_elements L (CBytes (enc ?m)) = Inr (18, CBytes (enc pit), u, sl, CBytes sig)"
    using i(1) u(1) by (simp add: sign1_elements_def COSE_SIGN1_TAG_def)
  ultimately show thesis using that u(2) by blast
qed

definition attached :: "pydict \<Rightarrow> bytes list \<Rightarrow> bytes list \<Rightarrow> pydict" where
  "attached d old new = dict_set d (CInt 394) (CList (map CBytes (old @ new)))"

lemma attach_receipts_message:
  assumes L: "cbor2_plain L" and m: "admits 0 True (message_item (enc pit) uit slot sig)" "admits 0 False pit"
    and len: "length (enc (message_item (enc pit) uit slot sig)) \<le> MAX_MESSAGE_BYTES"
    and u: "header_item 2 du uit" and old: "as_seq (get_or_none (plain_dict du) (CInt 394)) = Some (map CBytes old)
      \<or> as_seq (get_or_none (plain_dict du) (CInt 394)) = None \<and> old = []"
    and new: "length (old @ new) < 2 ^ 64" "\<forall>r \<in> set (old @ new). length r < 2 ^ 64" "length du + 1 < 2 ^ 64"
  obtains uit' where "attach_receipts L (CBytes (enc (message_item (enc pit) uit slot sig))) new
      = Inr (enc (message_item (enc pit) uit' slot sig))"
    "header_item 2 (attached (plain_dict du) old new) uit'" "admits 0 True (message_item (enc pit) uit' slot sig)"
proof -
  obtain u sl where e: "sign1_elements L (CBytes (enc (message_item (enc pit) uit slot sig)))
      = Inr (18, CBytes (enc pit), u, sl, CBytes sig)" "plain u = CDict (plain_dict du)" "item_of sl = Some (slot_item slot)"
    by (rule message_elements [OF L m len]) (simp add: header_item_val [OF assms(5)])
  have pd: "plain_map 2 (plain_dict du)"
  proof -
    have "item_of (CDict (plain_dict du)) = item_of (CDict du)"
      using item_of_plain [of "CDict du"] by (simp add: plain_dict_def)
    then show ?thesis using u header_item_iff by (metis header_item_def)
  qed
  let ?rs = "CList (map CBytes (old @ new))"
  have rs: "item_of ?rs = Some (I_Array (map I_Bytes (old @ new)))" by (auto simp: those_Some)
  have ra: "admits (Suc 2) False (I_Array (map I_Bytes (old @ new)))" using new by auto
  have "plain_map 2 (attached (plain_dict du) old new)" unfolding attached_def
    by (rule plain_map_set [OF pd _ _ _ _ rs ra]) (use new in \<open>simp_all add: plain_dict_def\<close>)
  then obtain uit' where u': "header_item 2 (attached (plain_dict du) old new) uit'" using header_item_iff by blast
  then have i': "item_of (CDict (attached (plain_dict du) old new)) = Some uit'" "admits 2 False uit'"
    by (simp_all add: header_item_def)
  have m': "admits 0 True (message_item (enc pit) uit' slot sig)"
    using m(1) i'(2) [unfolded numeral_2_eq_2] by (auto simp: message_item_def)
  have v: "item_of (CTag 18 (CList [CBytes (enc pit), CDict (attached (plain_dict du) old new), sl, CBytes sig]))
      = Some (message_item (enc pit) uit' slot sig)"
    using i'(1) e(3) by (simp add: message_item_def del: item_of.simps(8))
  have "attach_receipts L (CBytes (enc (message_item (enc pit) uit slot sig))) new
      = lib (cbor_dumps L (CTag 18 (CList [CBytes (enc pit), CDict (attached (plain_dict du) old new), sl, CBytes sig])))"
    using e(1,2) old by (auto simp: attach_receipts_def statement_consts attached_def Let_def)
  then show thesis using that [OF _ u' m'] cbor2_plain_dumps [OF L v admits_fits [OF m']] by simp
qed

lemma attach_extract:
  assumes L: "cbor2_plain L" and m: "admits 0 True (message_item (enc pit) uit slot sig)" "admits 0 False pit"
    and len: "length (enc (message_item (enc pit) uit slot sig)) \<le> MAX_MESSAGE_BYTES"
    and u: "header_item 2 (attached d old new) uit"
  shows "extract_receipts L (CBytes (enc (message_item (enc pit) uit slot sig))) = Inr (old @ new)"
proof -
  obtain v sl where e: "sign1_elements L (CBytes (enc (message_item (enc pit) uit slot sig)))
      = Inr (18, CBytes (enc pit), v, sl, CBytes sig)" "plain v = CDict (plain_dict (attached d old new))"
    by (rule message_elements [OF L m len]) (simp add: header_item_val [OF u])
  have "dict_get (plain_dict (attached d old new)) (CInt 394) = Some (CList (map CBytes (old @ new)))"
    by (simp add: dict_get_plain_dict attached_def comp_def)
  then show ?thesis using e
    by (simp add: extract_receipts_def get_or_none_def statement_consts receipt_bytes_def rmapM_map del: map_append)
qed

text \<open>Attaching receipts keeps what the signature covers: the verified header and payload are the
  same before and after.\<close>

lemma attach_verify:
  assumes L: "cbor2_plain L" and m: "admits 0 True (message_item (enc pit) uit slot sig)"
    and hp: "header_item 0 d pit" and hu: "header_item 2 du uit"
    and len: "length (enc (message_item (enc pit) uit slot sig)) \<le> MAX_MESSAGE_BYTES"
    and m': "admits 0 True (message_item (enc pit) uit' slot sig)" and hu': "header_item 2 du' uit'"
    and len': "length (enc (message_item (enc pit) uit' slot sig)) \<le> MAX_MESSAGE_BYTES"
    and v: "verify_sign1 L K (CBytes (enc (message_item (enc pit) uit slot sig))) pem det und = Inr s"
  shows "verify_sign1 L K (CBytes (enc (message_item (enc pit) uit' slot sig))) pem det und
           = Inr (s \<lparr> s_unprotected := plain_dict du' \<rparr>)"
proof -
  have a: "admits 0 False pit" using hp by (simp add: header_item_def)
  note env = message_envelope [OF L m a len] and env' = message_envelope [OF L m' a len']
  show ?thesis using v header_item_val [OF hu']
    unfolding verify_sign1_iff env env' unprotected_map_iff by auto
qed

lemma attach_then_extract:
  assumes L: "cbor2_plain L" and m: "admits 0 True (message_item (enc pit) uit slot sig)"
    and hp: "header_item 0 d pit" and hu: "header_item 2 du uit"
    and len: "length (enc (message_item (enc pit) uit slot sig)) \<le> MAX_MESSAGE_BYTES"
    and old: "as_seq (get_or_none (plain_dict du) (CInt 394)) = Some (map CBytes old)
      \<or> as_seq (get_or_none (plain_dict du) (CInt 394)) = None \<and> old = []"
    and new: "length (old @ new) < 2 ^ 64" "\<forall>r \<in> set (old @ new). length r < 2 ^ 64" "length du + 1 < 2 ^ 64"
  shows "\<exists>msg'. attach_receipts L (CBytes (enc (message_item (enc pit) uit slot sig))) new = Inr msg' \<and>
    (length msg' \<le> MAX_MESSAGE_BYTES \<longrightarrow> extract_receipts L (CBytes msg') = Inr (old @ new) \<and>
      (\<forall>s. verify_sign1 L K (CBytes (enc (message_item (enc pit) uit slot sig))) pem det und = Inr s \<longrightarrow>
        (\<exists>u. verify_sign1 L K (CBytes msg') pem det und = Inr (s \<lparr> s_unprotected := u \<rparr>))))"
proof -
  have a: "admits 0 False pit" using hp by (simp add: header_item_def)
  obtain uit' where u': "attach_receipts L (CBytes (enc (message_item (enc pit) uit slot sig))) new
      = Inr (enc (message_item (enc pit) uit' slot sig))"
    "header_item 2 (attached (plain_dict du) old new) uit'" "admits 0 True (message_item (enc pit) uit' slot sig)"
    by (rule attach_receipts_message [OF L m a len hu old new])
  show ?thesis
    using u'(1) attach_extract [OF L u'(3) a _ u'(2)] attach_verify [OF L m hp hu len u'(3,2)] by blast
qed

section \<open>Properties\<close>

text \<open>C13 (safety). Fields are reported only when authenticated. Unless \<open>signature_verified\<close> is true,
  issuer, subject, content type, algorithm, claims and payload are all empty; when it is true, a key
  was given, the message verified under it with the labels this layer reads understood, and the
  fields are those of the verified header and payload.\<close>

theorem parse_authenticated_only:
  assumes "parse_signed_statement L K msg key = Inr q"
  shows "statement_shape q \<and> (p_signature_verified q = Some True \<longrightarrow>
           (\<exists>pem s. key = Some pem \<and> verify_sign1 L K msg pem None STMT_UNDERSTOOD = Inr s \<and>
              p_fields q = extract_fields (s_protected s) (Some (s_payload s))))"
  using parse_shape [OF assms] parse_verified [OF assms] by blast

theorem parse_authenticated_only_witness:
  "statement_shape \<lparr> p_signature_verified = Some False, p_fields = no_fields, p_unverified = None \<rparr>"
proof -
  have "parse_signed_statement ref_cbor2 toy_crypto CNull (Some (Pem_Bytes [1]))
      = Inr \<lparr> p_signature_verified = Some False, p_fields = no_fields, p_unverified = None \<rparr>"
    by (simp add: parse_signed_statement_def verify_sign1_def decode_envelope_def strict_decode_def cose_raise_def
        safe_structural_fields_def structural_parse_def sign1_elements_def)
  from parse_authenticated_only [OF this] show ?thesis by blast
qed

text \<open>C14 (round trip). A statement built with plain headers parses under the matching public key to the
  issuer, subject, content type, algorithm, claims and payload it was built from.\<close>

theorem statement_roundtrip:
  assumes "cbor2_plain L" "key_match K alg private_pem public_pem"
    and "merge_extra_claims [(CInt 1, CText issuer), (CInt 2, CText subject)] (or_empty extra) = Inr claims"
    and "dict_get (or_empty extra) (CInt 1) = None" "dict_get (or_empty extra) (CInt 2) = None"
    and "signable alg payload (Some (statement_header content_type claims kid)) (Some []) pit uit"
  shows "\<exists>msg. build_signed_statement L K payload alg private_pem issuer subject content_type extra kid = Inr msg \<and>
     parse_signed_statement L K (CBytes msg) (Some public_pem) = Inr \<lparr> p_signature_verified = Some True,
       p_fields = \<lparr> f_issuer = Some issuer, f_subject = Some subject, f_content_type = Some content_type,
                    f_alg = CText alg, f_claims = plain_dict claims, f_payload = Some payload \<rparr>,
       p_unverified = None \<rparr>"
  using assms by (rule built_statement_parses)

theorem statement_roundtrip_witness:
  "\<exists>msg. build_signed_statement ref_cbor2 toy_crypto [1, 2] ''EdDSA'' (Pem_Bytes [1]) ''me'' ''it'' ''t/p'' None None = Inr msg \<and>
     (\<exists>q. parse_signed_statement ref_cbor2 toy_crypto (CBytes msg) (Some (Pem_Bytes [1])) = Inr q
        \<and> f_issuer (p_fields q) = Some ''me'')"
proof -
  let ?c = "[(CInt 1, CText ''me''), (CInt 2, CText ''it'')]"
  have m: "merge_extra_claims ?c (or_empty None) = Inr ?c" by (simp add: or_empty_def)
  have h: "signed_header ''EdDSA'' (Some (statement_header ''t/p'' ?c None)) =
      [(CInt 3, CText ''t/p''), (CInt 15, CDict ?c), (CInt 1, CInt (-8))]"
    by (simp add: signed_header_def or_empty_def alg_tables statement_header_def put_def statement_consts)
  have ok: "signable ''EdDSA'' [1, 2] (Some (statement_header ''t/p'' ?c None)) (Some [])
      (I_Map [(I_Uint 3, I_Text (utf8_encode ''t/p'')),
              (I_Uint 15, I_Map [(I_Uint 1, I_Text (utf8_encode ''me'')), (I_Uint 2, I_Text (utf8_encode ''it''))]),
              (I_Uint 1, I_Nint 7)]) (I_Map [])"
    unfolding signable_def header_item_def h
    by (simp add: or_empty_def those_Some pair_opt_def enc_head_def MAX_MESSAGE_BYTES_def utf8_valid_def utf8_encode_def
        byte_of_char_def)
  show ?thesis
    using statement_roundtrip [OF ref_cbor2_plain demo_key m _ _ ok] by (auto simp: or_empty_def)
qed

text \<open>C15 (round trip). Attaching receipts to a statement adds them after those already attached, reading
  them back returns exactly that list, and whatever verified before verifies after, with the same
  protected header and payload: the signature is untouched.\<close>

theorem attach_extract_roundtrip:
  assumes "cbor2_plain L" "admits 0 True (message_item (enc pit) uit slot sig)"
    and "header_item 0 d pit" "header_item 2 du uit"
    and "length (enc (message_item (enc pit) uit slot sig)) \<le> MAX_MESSAGE_BYTES"
    and "as_seq (get_or_none (plain_dict du) (CInt 394)) = Some (map CBytes old)
      \<or> as_seq (get_or_none (plain_dict du) (CInt 394)) = None \<and> old = []"
    and "length (old @ new) < 2 ^ 64" "\<forall>r \<in> set (old @ new). length r < 2 ^ 64" "length du + 1 < 2 ^ 64"
  shows "\<exists>msg'. attach_receipts L (CBytes (enc (message_item (enc pit) uit slot sig))) new = Inr msg' \<and>
    (length msg' \<le> MAX_MESSAGE_BYTES \<longrightarrow> extract_receipts L (CBytes msg') = Inr (old @ new) \<and>
      (\<forall>s. verify_sign1 L K (CBytes (enc (message_item (enc pit) uit slot sig))) pem det und = Inr s \<longrightarrow>
        (\<exists>u. verify_sign1 L K (CBytes msg') pem det und = Inr (s \<lparr> s_unprotected := u \<rparr>))))"
  using assms by (rule attach_then_extract)

theorem attach_extract_roundtrip_witness:
  "\<exists>msg'. attach_receipts ref_cbor2 (CBytes (enc (message_item (enc (I_Map [(I_Uint 1, I_Nint 7)])) (I_Map []) (Some [1]) [9]))) [[5]]
     = Inr msg'"
proof -
  let ?m = "message_item (enc (I_Map [(I_Uint 1, I_Nint 7)])) (I_Map []) (Some [1]) [9]"
  have m: "admits 0 True ?m" "length (enc ?m) \<le> MAX_MESSAGE_BYTES"
    by (simp_all add: message_item_def enc_head_def MAX_MESSAGE_BYTES_def)
  have h: "header_item 0 [(CInt 1, CInt (-8))] (I_Map [(I_Uint 1, I_Nint 7)])" "header_item 2 [] (I_Map [])"
    by (simp_all add: header_item_def those_Some pair_opt_def)
  have g: "as_seq (get_or_none (plain_dict []) (CInt 394)) = Some (map CBytes [])
      \<or> as_seq (get_or_none (plain_dict []) (CInt 394)) = None \<and> [] = ([] :: bytes list)"
    by (simp add: get_or_none_def)
  show ?thesis
    using attach_extract_roundtrip [OF ref_cbor2_plain m(1) h m(2) g,
        of "[[5]]" toy_crypto "Pem_Bytes [1]" None "[]"] by (simp del: enc.simps) blast
qed

text \<open>C24 (error). \<open>parse_signed_statement\<close> never raises when the library calls that
  \<open>verify_sign1\<close> leaves unwrapped do not.\<close>

theorem parse_statement_never_raises:
  assumes "libs_total L K"
  shows "\<exists>q. parse_signed_statement L K msg key = Inr q"
  using assms by (rule parse_total)

theorem parse_statement_never_raises_witness:
  "\<exists>q. parse_signed_statement ref_cbor2 toy_crypto (CText ''x'') (Some (Pem_Str ''k'')) = Inr q"
proof -
  have "libs_total ref_cbor2 toy_crypto"
    by (simp add: libs_total_def ref_cbor2_def ref_encode_def toy_crypto_def sig_structure_def sig_structure_value_def)
  from parse_statement_never_raises [OF this] show ?thesis .
qed

end
