(* ===== verification/Aac_Ritual.thy ===== *)
theory Aac_Ritual
  imports Aac Base64 Statement
begin

text \<open>
  The checks over a bundle of capsules, \<open>src/hosted_profiles/aac.py\<close>: the gaps in a chain, the four
  stages of the ritual and its finding, and the notes on records that cite an altered one. The walk
  up a chain of parents is a partial function; that it ends is a theorem.
\<close>

section \<open>Gaps in a chain\<close>

record chain_gap =
  cg_before :: nat
  cg_after :: nat
  cg_missing :: string

definition capsule_id_of :: "json \<Rightarrow> profile_exn + json" where
  "capsule_id_of cap = get_or cap ''capsule_id'' (JStr [])"

definition parent_of :: "json \<Rightarrow> profile_exn + json" where
  "parent_of cap =
     rbind (get_or cap ''chain'' JNull) (\<lambda>chain. get_or (py_or chain (JObj [])) ''parent_capsule_id'' (JStr []))"

fun gaps_from :: "string set \<Rightarrow> nat \<Rightarrow> json list \<Rightarrow> profile_exn + chain_gap list" where
  "gaps_from ids i [] = Inr []"
| "gaps_from ids i (cap # caps) =
     (if i = 0 then gaps_from ids (Suc i) caps
      else
        rbind (parent_of cap) (\<lambda>parent.
        rmap (\<lambda>gaps.
          (case hex64 parent of
             None \<Rightarrow> gaps
           | Some p \<Rightarrow>
               if p \<in> ids then gaps
               else \<lparr>cg_before = i - 1, cg_after = i, cg_missing = p\<rparr> # gaps))
          (gaps_from ids (Suc i) caps)))"

definition bundle_ids :: "json list \<Rightarrow> profile_exn + string set" where
  "bundle_ids caps = rmap (\<lambda>ids. {i. Some i \<in> hex64 ` set ids}) (rmapM capsule_id_of caps)"

definition find_chain_gaps :: "json list \<Rightarrow> profile_exn + chain_gap list" where
  "find_chain_gaps capsules =
     (let caps = map unwrap capsules
      in rbind (bundle_ids caps) (\<lambda>ids. gaps_from ids 0 caps))"

section \<open>Stages and findings\<close>

record ritual_stage =
  rs_name :: string
  rs_status :: string
  rs_detail :: ftext

record finding =
  fi_code :: string
  fi_stage :: string
  fi_label :: string
  fi_text :: ftext
  fi_meta :: ftext

record ritual_summary =
  ri_stages :: "ritual_stage list"
  ri_finding :: "finding option"

definition stage :: "string \<Rightarrow> string \<Rightarrow> ftext \<Rightarrow> ritual_stage" where
  "stage name status detail = \<lparr>rs_name = name, rs_status = status, rs_detail = detail\<rparr>"

text \<open>The dash and the middle dot of the texts.\<close>

definition dash :: string where
  "dash = '' '' @ map char_of [0xE2 :: nat, 0x80, 0x94] @ '' ''"

definition middot :: string where
  "middot = '' '' @ map char_of [0xC2 :: nat, 0xB7] @ '' ''"

section \<open>Authenticity\<close>

definition AUTHENTICITY_SELF_ASSERTED_DETAIL :: string where
  "AUTHENTICITY_SELF_ASSERTED_DETAIL =
     ''signature verifies against a key supplied with the record'' @ dash @
     ''this shows the bytes are unaltered since signing, not who signed them''"

text \<open>The octets of the key: a text is encoded, anything else goes through \<open>bytes(...)\<close>, where
  \<open>None\<close> is an exception. A key of null is no key, and nothing is verified.\<close>

fun octet_of :: "json \<Rightarrow> byte option" where
  "octet_of (JInt i) = (if 0 \<le> i \<and> i < 256 then Some (of_int i) else None)"
| "octet_of (JBool b) = Some (if b then 1 else 0)"
| "octet_of _ = None"

fun json_pem :: "json \<Rightarrow> bytes option" where
  "json_pem (JStr s) = Some (utf8_encode s)"
| "json_pem (JInt i) = (if 0 \<le> i then Some (replicate (nat i) 0) else None)"
| "json_pem (JBool b) = Some (if b then [0] else [])"
| "json_pem (JList xs) = those (map octet_of xs)"
| "json_pem (JObj d) = (if d = [] then Some [] else None)"
| "json_pem _ = None"

text \<open>The body of the loop: whatever is raised counts as a signature that did not verify.\<close>

definition sidecar_verified :: "cbor2_lib \<Rightarrow> 'k crypto_lib \<Rightarrow> json \<Rightarrow> bool" where
  "sidecar_verified L K sc =
     (case as_obj sc of
        None \<Rightarrow> False
      | Some d \<Rightarrow>
          (case (jget_or d ''statement_b64'' (JStr []), json_pem (jget_or d ''pubkey_pem'' (JStr []))) of
             (JStr s, Some pem) \<Rightarrow>
               (case b64decode s of
                  Inl _ \<Rightarrow> False
                | Inr stmt \<Rightarrow>
                    (case parse_signed_statement L K (CBytes stmt) (Some (Pem_Bytes pem)) of
                       Inl _ \<Rightarrow> False
                     | Inr parsed \<Rightarrow> p_signature_verified parsed = Some True))
           | _ \<Rightarrow> False))"

definition check_authenticity :: "cbor2_lib \<Rightarrow> 'k crypto_lib \<Rightarrow> json list \<Rightarrow> profile_exn + ritual_stage" where
  "check_authenticity L K capsules =
     rmap (\<lambda>all.
       (let sidecars = filter json_true all
        in if sidecars = [] then
             stage ''Authenticity'' ''skip''
               [JStr (''not checked'' @ dash @ ''no signed statement provided for this bundle'')]
           else if list_all (sidecar_verified L K) sidecars then
             stage ''Authenticity'' ''skip'' [JStr AUTHENTICITY_SELF_ASSERTED_DETAIL]
           else stage ''Authenticity'' ''fail'' [JStr ''at least one signature did not verify'']))
       (rmapM (\<lambda>c. get_or c ''signed_statement'' JNull) capsules)"

section \<open>Witnesses\<close>

text \<open>The declared state of the witnesses. \<open>hostname\<close> is \<open>urlsplit(url).hostname\<close>.\<close>

record witness =
  wi_held :: int
  wi_configured :: "int option"
  wi_reachable :: "bool option"
  wi_verified :: "bool option"
  wi_grades :: "(string \<times> string option) list option"

type_synonym hostname = "string \<Rightarrow> py_exn + string option"

definition RECEIPT_GRADE_WORDS :: "string \<Rightarrow> string option" where
  "RECEIPT_GRADE_WORDS =
     [''mmr-verified'' \<mapsto> ''consistency-verified'', ''observed-only'' \<mapsto> ''existence-and-time'',
      ''countersigned-observed'' \<mapsto> ''existence-and-time'']"

definition grade_word :: "string option \<Rightarrow> string" where
  "grade_word grade =
     (case grade of
        None \<Rightarrow> ''ungraded''
      | Some g \<Rightarrow> (case RECEIPT_GRADE_WORDS g of None \<Rightarrow> ''ungraded'' | Some w \<Rightarrow> w))"

definition grade_clause :: "hostname \<Rightarrow> string \<times> string option \<Rightarrow> py_exn + string" where
  "grade_clause hostname g =
     (case g of (url, grade) \<Rightarrow>
        rmap (\<lambda>h. grade_word grade @ '' ('' @ (case h of Some (c # s) \<Rightarrow> c # s | _ \<Rightarrow> url) @ '')'') (hostname url))"

definition witness_grade_words :: "hostname \<Rightarrow> (string \<times> string option) list option \<Rightarrow> py_exn + string" where
  "witness_grade_words hostname grades =
     (case grades of
        Some (g # gs) \<Rightarrow>
          rmap (\<lambda>parts. '': '' @ joined '', '' parts) (rmapM (grade_clause hostname) (sort_key fst (g # gs)))
      | _ \<Rightarrow> Inr [])"

definition check_witness :: "hostname \<Rightarrow> witness option \<Rightarrow> py_exn + ritual_stage" where
  "check_witness hostname w =
     (case w of
        None \<Rightarrow> Inr (stage ''Witness'' ''skip'' [JStr ''no witness data provided''])
      | Some w \<Rightarrow>
          if wi_verified w = Some False then Inr (stage ''Witness'' ''fail'' [JStr ''inclusion proof did not verify''])
          else if wi_reachable w = Some False then
            Inr (stage ''Witness'' ''skip''
                   [JStr (''independent-witness check skipped (unreachable)'' @ dash @
                          ''everything else verified; reconnect any time to complete it'')])
          else
            (let held = wi_held w;
                 configured = (case wi_configured w of
                                 Some c \<Rightarrow> if c \<noteq> 0 then c else if held \<noteq> 0 then held else 1
                               | None \<Rightarrow> if held \<noteq> 0 then held else 1)
             in rmap (\<lambda>words.
                  if held < configured then
                    stage ''Witness'' ''skip''
                      [JStr ''witnessed '', JInt held, JStr '' of '', JInt configured,
                       JStr (middot @ ''retrying'' @ dash @ ''rung held'' @ words)]
                  else stage ''Witness'' ''pass'' [JStr ''witnessed '', JInt held, JStr '' of '', JInt configured, JStr words])
                  (witness_grade_words hostname (wi_grades w))))"

section \<open>The ritual\<close>

definition mismatches :: "graph_view list \<Rightarrow> privilege_entry list" where
  "mismatches views = filter (\<lambda>e. pe_match e = Some False) (concat (map gv_log views))"

definition integrity :: "graph_view list \<Rightarrow> ritual_stage \<times> finding option" where
  "integrity views =
     (case mismatches views of
        [] \<Rightarrow> (stage ''Integrity'' ''pass'' [JStr ''every record matches its fingerprint''], None)
      | e # _ \<Rightarrow>
          (stage ''Integrity'' ''fail''
             ([JStr (''record fails at stage digest_mismatch'' @ dash)] @ pe_context e @
              [JStr '' no longer matches its fingerprint'']),
           Some \<lparr>fi_code = ''digest_mismatch'', fi_stage = ''Integrity'', fi_label = ''The finding'',
                 fi_text = pe_artifact e @ [JStr '' (''] @ pe_context e @ [JStr '') is not the value that was sealed.''],
                 fi_meta = [JStr (''failed stage: digest_mismatch'' @ middot @ ''field group: '')] @ pe_context e @
                   [JStr (middot @ ''digest '' @ first_chars 8 (pe_digest e) @ ellipsis)]\<rparr>))"

text \<open>\<open>v[:8]\<close> of any value; the key of a dict may be a slice from Python 3.12 on.\<close>

definition first_eight :: "json \<Rightarrow> py_exn + json" where
  "first_eight v =
     (case v of
        JStr s \<Rightarrow> Inr (JStr (first_chars 8 s))
      | JList xs \<Rightarrow> Inr (JList (take 8 xs))
      | JObj d \<Rightarrow> Inl KeyError
      | _ \<Rightarrow> Inl TypeError)"

definition gap_finding :: "chain_gap \<Rightarrow> json \<Rightarrow> json \<Rightarrow> py_exn + finding" where
  "gap_finding g before_id after_id =
     rbind (first_eight before_id) (\<lambda>b. rmap (\<lambda>a.
       \<lparr>fi_code = ''chain_gap'', fi_stage = ''Sequence'', fi_label = ''The finding'',
        fi_text =
          [JStr ''Whatever sits between record '', JInt (int (cg_before g) + 1), JStr '' and record '',
           JInt (int (cg_after g) + 1),
           JStr ('' is not in this bundle. That is information, not just an error: the gap has a location and '' @
                 ''two edges you can browse from.'')],
        fi_meta =
          [JStr (''failed stage: chain_gap'' @ middot @ ''window: ''), b,
           JStr (ellipsis @ map char_of [0xE2 :: nat, 0x86, 0x92]), a,
           JStr (ellipsis @ middot @ ''missing parent '' @ first_chars 8 (cg_missing g) @ ellipsis)]\<rparr>)
       (first_eight after_id))"

definition sequence_stage :: "json list \<Rightarrow> finding option \<Rightarrow> profile_exn + ritual_stage \<times> finding option" where
  "sequence_stage capsules finding =
     rbind (find_chain_gaps capsules) (\<lambda>gaps.
       (case gaps of
          [] \<Rightarrow> Inr (stage ''Sequence'' ''pass'' [JStr (''unbroken'' @ dash @ ''every record names the one before it'')], finding)
        | g # _ \<Rightarrow>
            rbind (capsule_id_of (unwrap (capsules ! cg_before g))) (\<lambda>before_id.
            rbind (capsule_id_of (unwrap (capsules ! cg_after g))) (\<lambda>after_id.
            let st = stage ''Sequence'' ''fail''
                  [JStr ''gap between record '', JInt (int (cg_before g) + 1), JStr '' and record '',
                   JInt (int (cg_after g) + 1), JStr (dash @ ''record ''), JInt (int (cg_after g) + 1),
                   JStr '' names a parent that is not here'']
            in if finding = None then rmap (\<lambda>f. (st, Some f)) (raised (gap_finding g before_id after_id))
               else Inr (st, finding)))))"

definition evaluate_ritual ::
    "cbor2_lib \<Rightarrow> 'k crypto_lib \<Rightarrow> hostname \<Rightarrow> json list \<Rightarrow> graph_view list \<Rightarrow> witness option \<Rightarrow>
     profile_exn + ritual_summary" where
  "evaluate_ritual L K hostname capsules views w =
     (let (integrity, finding) = integrity views
      in rbind (sequence_stage capsules finding) (\<lambda>(sequence, finding).
         rbind (check_authenticity L K capsules) (\<lambda>authenticity.
         rmap (\<lambda>witness. \<lparr>ri_stages = [integrity, sequence, authenticity, witness], ri_finding = finding\<rparr>)
           (raised (check_witness hostname w)))))"

section \<open>Records that cite an altered one\<close>

record record_note =
  rn_index :: nat
  rn_note :: string
  rn_altered :: bool
  rn_cites :: bool

definition altered_id :: "json list \<Rightarrow> nat \<times> graph_view \<Rightarrow> profile_exn + string option" where
  "altered_id caps iv =
     (case iv of (i, v) \<Rightarrow>
        if \<exists>e \<in> set (gv_log v). pe_match e = Some False then
          (if i < length caps then rmap hex64 (capsule_id_of (caps ! i)) else Inl (Raised IndexError))
        else Inr None)"

definition by_id :: "json list \<Rightarrow> profile_exn + (string \<Rightarrow> json option)" where
  "by_id caps =
     rmap (\<lambda>ids. map_of (rev (List.map_filter (\<lambda>(i, c). map_option (\<lambda>h. (h, c)) (hex64 i)) (zip ids caps))))
       (rmapM capsule_id_of caps)"

text \<open>\<open>None\<close> is a walk that does not end.\<close>

partial_function (option) walk ::
    "(string \<Rightarrow> json option) \<Rightarrow> string set \<Rightarrow> string set \<Rightarrow> json \<Rightarrow> (profile_exn + bool) option" where
  "walk records altered seen cur =
     (case parent_of cur of
        Inl e \<Rightarrow> Some (Inl e)
      | Inr parent \<Rightarrow>
          (case hex64 parent of
             None \<Rightarrow> Some (Inr False)
           | Some p \<Rightarrow>
               if p \<in> seen then Some (Inr False)
               else if p \<in> altered then Some (Inr True)
               else
                 (case records p of
                    None \<Rightarrow> Some (Inr False)
                  | Some c \<Rightarrow> walk records altered (insert p seen) c)))"

text \<open>A list or a dict cannot be looked up in a set.\<close>

definition unhashable :: "json \<Rightarrow> bool" where
  "unhashable v \<longleftrightarrow> as_list v \<noteq> None \<or> as_obj v \<noteq> None"

definition note_for :: "(string \<Rightarrow> json option) \<Rightarrow> string set \<Rightarrow> nat \<Rightarrow> json \<Rightarrow> (profile_exn + record_note) option" where
  "note_for records altered i cap =
     (case capsule_id_of cap of
        Inl e \<Rightarrow> Some (Inl e)
      | Inr cid \<Rightarrow>
          if unhashable cid then Some (Inl (Raised TypeError))
          else if cid \<in> JStr ` altered then
            Some (Inr \<lparr>rn_index = i, rn_note = ''digest_mismatch'', rn_altered = True, rn_cites = False\<rparr>)
          else
            map_option (rmap (\<lambda>cites.
              \<lparr>rn_index = i, rn_note = (if cites then ''cites an altered record'' else ''verifies''),
               rn_altered = False, rn_cites = cites\<rparr>)) (walk records altered {} cap))"

fun notes_from ::
    "(string \<Rightarrow> json option) \<Rightarrow> string set \<Rightarrow> nat \<Rightarrow> json list \<Rightarrow> (profile_exn + record_note list) option" where
  "notes_from records altered i [] = Some (Inr [])"
| "notes_from records altered i (cap # caps) =
     (case note_for records altered i cap of
        None \<Rightarrow> None
      | Some (Inl e) \<Rightarrow> Some (Inl e)
      | Some (Inr n) \<Rightarrow> map_option (rmap (Cons n)) (notes_from records altered (Suc i) caps))"

definition annotate_records :: "json list \<Rightarrow> graph_view list \<Rightarrow> (profile_exn + record_note list) option" where
  "annotate_records capsules views =
     (let caps = map unwrap capsules
      in case rbind (rmapM (altered_id caps) (enumerate 0 views)) (\<lambda>ids. rmap (Pair {i. Some i \<in> set ids}) (by_id caps)) of
           Inl e \<Rightarrow> Some (Inl e)
         | Inr (altered, records) \<Rightarrow> notes_from records altered 0 caps)"

section \<open>The walk ends, and finds what is reachable\<close>

lemma finite_dom_by_id: "by_id caps = Inr records \<Longrightarrow> finite (dom records)"
  by (auto simp: by_id_def raise_simps finite_dom_map_of)

lemma walk_terminates:
  assumes "finite (dom records)"
  shows "walk records altered seen cur \<noteq> None"
proof (induction "card (dom records - seen)" arbitrary: seen cur rule: less_induct)
  case less
  have "walk records altered (insert p seen) c \<noteq> None" if "p \<notin> seen" "records p = Some c" for p c
  proof (rule less)
    have "p \<in> dom records - seen" using that by auto
    then show "card (dom records - insert p seen) < card (dom records - seen)"
      using assms by (intro psubset_card_mono) auto
  qed
  then show ?case by (subst walk.simps) (auto split: sum.splits option.splits)
qed

text \<open>A record names its parent; it cites what it names, and what the records named cite.\<close>

definition names :: "json \<Rightarrow> string \<Rightarrow> bool" where
  "names cap p \<longleftrightarrow> (\<exists>parent. parent_of cap = Inr parent \<and> hex64 parent = Some p)"

inductive cites :: "(string \<Rightarrow> json option) \<Rightarrow> json \<Rightarrow> string \<Rightarrow> bool" for records where
  direct: "names cap p \<Longrightarrow> cites records cap p"
| onward: "names cap q \<Longrightarrow> records q = Some c \<Longrightarrow> cites records c p \<Longrightarrow> cites records cap p"

inductive_simps cites_iff: "cites records cap p"

lemma names_unique: "names cap p \<Longrightarrow> names cap q \<Longrightarrow> p = q"
  by (auto simp: names_def)

lemma cites_step: "names cap q \<Longrightarrow> records q = Some c \<Longrightarrow> cites records cap p \<longleftrightarrow> p = q \<or> cites records c p"
  by (subst cites_iff) (auto intro: cites.intros dest: names_unique)

text \<open>The records named so far lead to the current one or to another named so far.\<close>

definition trail :: "(string \<Rightarrow> json option) \<Rightarrow> string set \<Rightarrow> json \<Rightarrow> bool" where
  "trail records seen cur \<longleftrightarrow> (\<forall>q \<in> seen. \<forall>c. records q = Some c \<longrightarrow> c = cur \<or> (\<forall>p. names c p \<longrightarrow> p \<in> seen))"

lemma trail_closed:
  assumes "cites records cur p" "trail records seen cur0" "\<forall>q. names cur0 q \<longrightarrow> q \<in> seen" "\<forall>q. names cur q \<longrightarrow> q \<in> seen"
  shows "p \<in> seen"
  using assms
proof (induction rule: cites.induct)
  case (onward cap q c p)
  then have "q \<in> seen" by blast
  then have "\<forall>r. names c r \<longrightarrow> r \<in> seen" using onward by (auto simp: trail_def)
  then show ?case using onward by blast
qed blast

lemma walk_cites_all:
  assumes "walk records altered seen cur = Some y"
  shows "\<forall>b. y = Inr b \<longrightarrow> trail records seen cur \<longrightarrow> seen \<inter> altered = {} \<longrightarrow>
       (b \<longleftrightarrow> (\<exists>p \<in> altered. cites records cur p))"
  using assms
proof (induction records altered seen cur y rule: walk.raw_induct [rotated 1, consumes 1])
  case (1 f records altered seen cur y)
  show ?case
  proof (intro allI impI)
    fix b assume y: "y = Inr b" and tr: "trail records seen cur" and dis: "seen \<inter> altered = {}"
    note step = 1(2) [unfolded y]
    obtain parent where parent: "parent_of cur = Inr parent" using step by (cases "parent_of cur") auto
    show "b \<longleftrightarrow> (\<exists>p \<in> altered. cites records cur p)"
    proof (cases "hex64 parent")
      case None
      then have no: "\<not> names cur p" for p using parent by (auto simp: names_def)
      have "\<not> cites records cur q" for q by (subst cites_iff) (simp add: no)
      then show ?thesis using step None parent by auto
    next
      case (Some p)
      then have p: "names cur p" using parent by (simp add: names_def)
      then have only: "names cur q \<longleftrightarrow> q = p" for q using names_unique by blast
      consider (old) "p \<in> seen" | (hit) "p \<notin> seen" "p \<in> altered" | (gone) "p \<notin> seen" "p \<notin> altered" "records p = None"
        | (more) c where "p \<notin> seen" "p \<notin> altered" "records p = Some c" by blast
      then show ?thesis
      proof cases
        case old
        then have "\<forall>q. names cur q \<longrightarrow> q \<in> seen" using only by simp
        then have "cites records cur q \<Longrightarrow> q \<in> seen" for q using trail_closed [OF _ tr] by blast
        then have "\<not> (\<exists>q \<in> altered. cites records cur q)" using dis by blast
        then show ?thesis using step parent Some old by auto
      next
        case hit
        then show ?thesis using step parent Some p by (auto intro: cites.direct)
      next
        case gone
        have "q = p" if "cites records cur q" for q using that by cases (use only gone in auto)
        then have "\<not> (\<exists>q \<in> altered. cites records cur q)" using gone by blast
        then show ?thesis using step parent Some gone by simp
      next
        case (more c)
        have "d = c \<or> (\<forall>r. names d r \<longrightarrow> r \<in> insert p seen)" if "q \<in> insert p seen" "records q = Some d" for q d
        proof (cases "q = p")
          case False
          then have "d = cur \<or> (\<forall>r. names d r \<longrightarrow> r \<in> seen)" using that tr by (auto simp: trail_def)
          then show ?thesis using only by auto
        qed (use that more in simp)
        then have "trail records (insert p seen) c" by (simp add: trail_def)
        moreover have "f records altered (insert p seen) c = Some (Inr b)" using step parent Some more by simp
        ultimately have "b \<longleftrightarrow> (\<exists>q \<in> altered. cites records c q)" using 1(1) dis more by auto
        then show ?thesis using cites_step [of cur p records c, OF p more(3)] more by auto
      qed
    qed
  qed
qed

lemma walk_cites:
  assumes "walk records altered {} cur = Some (Inr b)"
  shows "b \<longleftrightarrow> (\<exists>p \<in> altered. cites records cur p)"
  using walk_cites_all [OF assms] by (simp add: trail_def)

section \<open>The notes\<close>

definition altered_ids :: "json list \<Rightarrow> graph_view list \<Rightarrow> string set" where
  "altered_ids capsules views =
     {i. \<exists>k < length views. mismatches [views ! k] \<noteq> [] \<and> id_of (unwrap (capsules ! k)) = Some i}"

definition note_ok :: "(string \<Rightarrow> json option) \<Rightarrow> string set \<Rightarrow> json \<Rightarrow> record_note \<Rightarrow> bool" where
  "note_ok records altered cap n \<longleftrightarrow>
     (rn_altered n \<longleftrightarrow> (\<exists>i \<in> altered. id_of cap = Some i)) \<and>
     (rn_cites n \<longleftrightarrow> \<not> rn_altered n \<and> (\<exists>p \<in> altered. cites records cap p)) \<and>
     rn_note n = (if rn_altered n then ''digest_mismatch'' else if rn_cites n then ''cites an altered record'' else ''verifies'')"

lemma capsule_id_of_id: "capsule_id_of cap = Inr v \<Longrightarrow> hex64 v = id_of cap"
  by (auto simp: capsule_id_of_def get_or_def raise_simps id_of_def hex64_jget_or)

lemma capsule_id_of_obj: "capsule_id_of cap = Inr v \<Longrightarrow> cap = JObj d \<Longrightarrow> v = jget_or d ''capsule_id'' (JStr [])"
  by (auto simp: capsule_id_of_def get_or_def raise_simps)

lemma altered_id_Inr:
  "altered_id caps (k, v) = Inr x \<longleftrightarrow>
     (if mismatches [v] \<noteq> [] then k < length caps \<and> (\<exists>u. capsule_id_of (caps ! k) = Inr u \<and> x = hex64 u) else x = None)"
  by (auto simp: altered_id_def mismatches_def filter_empty_conv raise_simps)

lemma altered_set:
  assumes "rmapM (altered_id (map unwrap capsules)) (enumerate 0 views) = Inr ids"
  shows "{i. Some i \<in> set ids} = altered_ids capsules views"
proof -
  have len: "length ids = length views" using rmapM_length [OF assms] by simp
  have nth: "altered_id (map unwrap capsules) (k, views ! k) = Inr (ids ! k)" if "k < length views" for k
    using rmapM_nth [OF assms, of k] that by (simp add: nth_enumerate_eq)
  then have k: "ids ! k = (if mismatches [views ! k] \<noteq> [] then id_of (unwrap (capsules ! k)) else None)"
    if "k < length views" for k
    using nth [OF that] by (auto simp: altered_id_Inr capsule_id_of_id)
  show ?thesis unfolding altered_ids_def set_conv_nth using len k by (auto split: if_splits) (metis option.discI)+
qed

lemma note_for_ok:
  assumes n: "note_for records altered i cap = Some (Inr n)" and hex: "\<forall>i \<in> altered. hex64_text i"
  shows "rn_index n = i \<and> note_ok records altered cap n"
proof -
  obtain cid where cid: "capsule_id_of cap = Inr cid" "\<not> unhashable cid"
    using n by (auto simp: note_for_def split: sum.splits if_splits)
  then have own: "cid \<in> JStr ` altered \<longleftrightarrow> (\<exists>i \<in> altered. id_of cap = Some i)"
    using hex unfolding capsule_id_of_id [OF cid(1), symmetric] by (auto simp: hex64_Some)
  show ?thesis
  proof (cases "cid \<in> JStr ` altered")
    case True
    then show ?thesis using n cid own by (auto simp: note_for_def note_ok_def)
  next
    case False
    then obtain b where w: "walk records altered {} cap = Some (Inr b)"
      and nb: "n = \<lparr>rn_index = i, rn_note = (if b then ''cites an altered record'' else ''verifies''),
               rn_altered = False, rn_cites = b\<rparr>"
      using n cid by (auto simp: note_for_def raise_simps)
    have "b \<longleftrightarrow> (\<exists>p \<in> altered. cites records cap p)"
      using w by (rule walk_cites)
    then show ?thesis using own False nb by (auto simp: note_ok_def)
  qed
qed

lemma notes_from_ok:
  assumes "notes_from records altered i caps = Some (Inr out)" "\<forall>i \<in> altered. hex64_text i"
  shows "list_all2 (note_ok records altered) caps out \<and> map rn_index out = [i..<i + length caps]"
  using assms
proof (induction caps arbitrary: i out)
  case (Cons cap caps)
  then obtain n ns where n: "note_for records altered i cap = Some (Inr n)" "out = n # ns"
    and ns: "notes_from records altered (Suc i) caps = Some (Inr ns)"
    by (auto simp: raise_simps split: option.splits sum.splits)
  then show ?case using Cons.IH [OF ns] Cons.prems note_for_ok [OF n(1)] n(2) by (simp add: upt_conv_Cons del: upt_Suc)
qed simp

lemma notes_from_total: "finite (dom records) \<Longrightarrow> notes_from records altered i caps \<noteq> None"
proof (induction caps arbitrary: i)
  case (Cons cap caps)
  have "note_for records altered i cap \<noteq> None"
    using walk_terminates [OF Cons.prems] by (auto simp: note_for_def split: sum.splits)
  then show ?case using Cons by (auto split: sum.splits)
qed simp

lemma annotate_total: "annotate_records capsules views \<noteq> None"
  using notes_from_total finite_dom_by_id
  by (auto simp: annotate_records_def Let_def raise_simps split: sum.splits)

lemma annotate_ok:
  assumes "annotate_records capsules views = Some (Inr notes)"
  shows "\<exists>records. by_id (map unwrap capsules) = Inr records \<and> map rn_index notes = [0..<length capsules] \<and>
    list_all2 (note_ok records (altered_ids capsules views)) (map unwrap capsules) notes"
proof -
  let ?caps = "map unwrap capsules"
  obtain ids records where ids: "rmapM (altered_id ?caps) (enumerate 0 views) = Inr ids" and r: "by_id ?caps = Inr records"
    and n: "notes_from records {i. Some i \<in> set ids} 0 ?caps = Some (Inr notes)"
    using assms by (auto simp: annotate_records_def Let_def raise_simps split: sum.splits)
  have "\<forall>i \<in> altered_ids capsules views. hex64_text i" by (auto simp: altered_ids_def id_of_def hex64_Some)
  then show ?thesis using notes_from_ok [OF n] r unfolding altered_set [OF ids] by auto
qed

text \<open>What the notes say of one record, by its place in the bundle.\<close>

lemma notes_by_id:
  assumes n: "list_all2 (note_ok records (altered_ids capsules views)) (map unwrap capsules) out"
  shows "\<forall>k < length capsules.
       (id_of (unwrap (capsules ! k)) = None \<longrightarrow> \<not> rn_altered (out ! k)) \<and>
       (k < length views \<longrightarrow> mismatches [views ! k] \<noteq> [] \<longrightarrow> id_of (unwrap (capsules ! k)) \<noteq> None \<longrightarrow>
          rn_note (out ! k) = ''digest_mismatch'')"
proof (intro allI impI)
  fix k assume k: "k < length capsules"
  then have "note_ok records (altered_ids capsules views) (unwrap (capsules ! k)) (out ! k)"
    using list_all2_nthD [OF n, of k] by simp
  then show "(id_of (unwrap (capsules ! k)) = None \<longrightarrow> \<not> rn_altered (out ! k)) \<and>
       (k < length views \<longrightarrow> mismatches [views ! k] \<noteq> [] \<longrightarrow> id_of (unwrap (capsules ! k)) \<noteq> None \<longrightarrow>
          rn_note (out ! k) = ''digest_mismatch'')"
    by (cases "id_of (unwrap (capsules ! k))") (simp_all add: note_ok_def altered_ids_def, blast)
qed

section \<open>What the stages say\<close>

definition ids_in :: "json list \<Rightarrow> string set" where
  "ids_in capsules = {i. \<exists>c \<in> set capsules. id_of (unwrap c) = Some i}"

text \<open>A record after the first names a parent that is not in the bundle.\<close>

definition broken_chain :: "json list \<Rightarrow> bool" where
  "broken_chain capsules \<longleftrightarrow>
     (\<exists>i < length capsules. 0 < i \<and> (\<exists>p. names (unwrap (capsules ! i)) p \<and> p \<notin> ids_in capsules))"

text \<open>No record after the first names a parent at all, as in a bundle of one record.\<close>

definition unlinked :: "json list \<Rightarrow> bool" where
  "unlinked capsules \<longleftrightarrow> (\<forall>c \<in> set (tl capsules). \<forall>p. \<not> names (unwrap c) p)"

definition unbroken :: ritual_stage where
  "unbroken = \<lparr>rs_name = ''Sequence'', rs_status = ''pass'',
     rs_detail = [JStr (''unbroken'' @ dash @ ''every record names the one before it'')]\<rparr>"

lemma unlinked_not_broken: "unlinked capsules \<Longrightarrow> \<not> broken_chain capsules"
proof
  assume u: "unlinked capsules" and "broken_chain capsules"
  then obtain i p where i: "i < length capsules" "0 < i" "names (unwrap (capsules ! i)) p"
    by (auto simp: broken_chain_def)
  then have "capsules ! i \<in> set (tl capsules)" by (cases capsules) (auto simp: nth_Cons')
  with u i(3) show False by (auto simp: unlinked_def)
qed

definition altered_payload :: "graph_view list \<Rightarrow> bool" where
  "altered_payload views \<longleftrightarrow> (\<exists>v \<in> set views. \<exists>e \<in> set (gv_log v). pe_match e = Some False)"

text \<open>The statement a capsule carries, if any.\<close>

definition sidecars :: "json list \<Rightarrow> json set" where
  "sidecars capsules = {sc. \<exists>c \<in> set capsules. sc = follow c ''signed_statement'' \<and> json_true sc}"

lemma ex_less_Suc_shift: "(\<exists>k < Suc n. P k) \<longleftrightarrow> P 0 \<or> (\<exists>k < n. P (Suc k))"
  by (auto simp: less_Suc_eq_0_disj)

lemma gaps_from_Nil:
  "gaps_from ids i caps = Inr gaps \<Longrightarrow>
     gaps = [] \<longleftrightarrow> \<not> (\<exists>k < length caps. 0 < i + k \<and> (\<exists>p. names (caps ! k) p \<and> p \<notin> ids))"
proof (induction caps arbitrary: i gaps)
  case (Cons cap caps)
  show ?case
  proof (cases "i = 0")
    case True
    then show ?thesis using Cons.IH [of 1 gaps] Cons.prems by (simp add: ex_less_Suc_shift)
  next
    case False
    then obtain parent rest where "parent_of cap = Inr parent" and rest: "gaps_from ids (Suc i) caps = Inr rest"
      and "gaps = (case hex64 parent of None \<Rightarrow> rest
           | Some p \<Rightarrow> if p \<in> ids then rest else \<lparr>cg_before = i - 1, cg_after = i, cg_missing = p\<rparr> # rest)"
      using Cons.prems by (auto simp: raise_simps)
    then have "gaps = [] \<longleftrightarrow> rest = [] \<and> \<not> (\<exists>p. names cap p \<and> p \<notin> ids)"
      by (auto simp: names_def split: option.splits)
    then show ?thesis using Cons.IH [OF rest] False by (auto simp: ex_less_Suc_shift)
  qed
qed simp

lemma bundle_ids_in:
  assumes "bundle_ids (map unwrap capsules) = Inr ids"
  shows "ids = ids_in capsules"
proof -
  obtain vs where vs: "rmapM capsule_id_of (map unwrap capsules) = Inr vs" and ids: "ids = {i. Some i \<in> hex64 ` set vs}"
    using assms by (auto simp: bundle_ids_def raise_simps)
  have "length vs = length capsules" using rmapM_length [OF vs] by simp
  moreover have "hex64 (vs ! k) = id_of (unwrap (capsules ! k))" if "k < length capsules" for k
    using rmapM_nth [OF vs, of k] that by (auto dest: capsule_id_of_id)
  ultimately have "map hex64 vs = map (\<lambda>c. id_of (unwrap c)) capsules" by (intro nth_equalityI) auto
  then have "hex64 ` set vs = (\<lambda>c. id_of (unwrap c)) ` set capsules" by (metis set_map)
  then show ?thesis unfolding ids ids_in_def by (auto simp: image_iff) metis
qed

lemma chain_gaps_Nil:
  assumes "find_chain_gaps capsules = Inr gaps"
  shows "gaps = [] \<longleftrightarrow> \<not> broken_chain capsules"
proof -
  obtain ids where "bundle_ids (map unwrap capsules) = Inr ids" "gaps_from ids 0 (map unwrap capsules) = Inr gaps"
    using assms by (auto simp: find_chain_gaps_def raise_simps Let_def)
  then show ?thesis using gaps_from_Nil bundle_ids_in by (fastforce simp: broken_chain_def)
qed

lemma sequence_stage_ok:
  assumes "sequence_stage capsules finding = Inr (st, finding')"
  shows "rs_name st = ''Sequence'' \<and> rs_status st = (if broken_chain capsules then ''fail'' else ''pass'') \<and>
    (\<not> broken_chain capsules \<longrightarrow> st = unbroken) \<and>
    (finding' = None \<longleftrightarrow> finding = None \<and> \<not> broken_chain capsules)"
proof -
  obtain gaps where g: "find_chain_gaps capsules = Inr gaps" using assms by (auto simp: sequence_stage_def raise_simps)
  show ?thesis
  proof (cases gaps)
    case Nil
    then show ?thesis using assms g chain_gaps_Nil [OF g] by (auto simp: sequence_stage_def stage_def unbroken_def)
  next
    case (Cons x xs)
    then show ?thesis using assms g chain_gaps_Nil [OF g]
      by (auto simp: sequence_stage_def stage_def raise_simps Let_def split: if_splits)
  qed
qed

lemma integrity_ok:
  "rs_name (fst (integrity views)) = ''Integrity''"
  "rs_status (fst (integrity views)) = (if altered_payload views then ''fail'' else ''pass'')"
  "snd (integrity views) = None \<longleftrightarrow> \<not> altered_payload views"
proof -
  have "mismatches views = [] \<longleftrightarrow> \<not> altered_payload views"
    by (auto simp: mismatches_def altered_payload_def filter_empty_conv)
  then show "rs_name (fst (integrity views)) = ''Integrity''"
    "rs_status (fst (integrity views)) = (if altered_payload views then ''fail'' else ''pass'')"
    "snd (integrity views) = None \<longleftrightarrow> \<not> altered_payload views"
    by (auto simp: integrity_def stage_def split: list.splits)
qed

lemma signed_statements:
  "rmapM (\<lambda>c. get_or c ''signed_statement'' JNull) capsules = Inr vs \<Longrightarrow> set (filter json_true vs) = sidecars capsules"
proof (induction capsules arbitrary: vs)
  case (Cons c cs)
  then obtain d us where "c = JObj d" "vs = jget_or d ''signed_statement'' JNull # us"
    and us: "rmapM (\<lambda>c. get_or c ''signed_statement'' JNull) cs = Inr us"
    by (auto simp: raise_simps get_or_def)
  moreover have "jget_or d ''signed_statement'' JNull = jget d ''signed_statement''" by (simp add: jget_or_def jget_def)
  ultimately show ?case using Cons.IH [OF us] by (auto simp: sidecars_def)
qed (simp add: sidecars_def)

lemma authenticity_ok:
  assumes "check_authenticity L K capsules = Inr st"
  shows "rs_name st = ''Authenticity'' \<and>
    rs_status st = (if \<forall>sc \<in> sidecars capsules. sidecar_verified L K sc then ''skip'' else ''fail'')"
proof -
  obtain vs where vs: "rmapM (\<lambda>c. get_or c ''signed_statement'' JNull) capsules = Inr vs"
    and st: "check_authenticity L K capsules = Inr st" using assms by (auto simp: check_authenticity_def raise_simps)
  show ?thesis using st unfolding check_authenticity_def vs rmap.simps signed_statements [OF vs, symmetric]
    by (auto simp: stage_def Let_def list_all_iff filter_empty_conv split: if_splits)
qed

definition fully_witnessed :: "witness option \<Rightarrow> bool" where
  "fully_witnessed w \<longleftrightarrow>
     (\<exists>x. w = Some x \<and> wi_verified x \<noteq> Some False \<and> wi_reachable x \<noteq> Some False \<and>
        (if wi_configured x \<in> {None, Some 0} then wi_held x \<noteq> 0 else the (wi_configured x) \<le> wi_held x))"

lemma witness_ok:
  assumes "check_witness hostname w = Inr st"
  shows "rs_name st = ''Witness'' \<and> (rs_status st = ''pass'' \<longleftrightarrow> fully_witnessed w) \<and>
    (rs_status st = ''fail'' \<longleftrightarrow> (\<exists>x. w = Some x \<and> wi_verified x = Some False))"
  using assms
  by (auto simp: check_witness_def fully_witnessed_def stage_def Let_def raise_simps split: option.splits if_splits)

lemma ritual_ok:
  assumes "evaluate_ritual L K hostname capsules views w = Inr r"
  shows "map rs_name (ri_stages r) = [''Integrity'', ''Sequence'', ''Authenticity'', ''Witness''] \<and>
    rs_status (ri_stages r ! 0) = (if altered_payload views then ''fail'' else ''pass'') \<and>
    rs_status (ri_stages r ! 1) = (if broken_chain capsules then ''fail'' else ''pass'') \<and>
    (\<not> broken_chain capsules \<longrightarrow> ri_stages r ! 1 = unbroken) \<and>
    (unlinked capsules \<longrightarrow> ri_stages r ! 1 = unbroken) \<and>
    rs_status (ri_stages r ! 2) = (if \<forall>sc \<in> sidecars capsules. sidecar_verified L K sc then ''skip'' else ''fail'') \<and>
    (rs_status (ri_stages r ! 3) = ''pass'' \<longleftrightarrow> fully_witnessed w) \<and>
    (ri_finding r = None \<longleftrightarrow> \<not> altered_payload views \<and> \<not> broken_chain capsules)"
proof -
  obtain sq f a wi where sq: "sequence_stage capsules (snd (integrity views)) = Inr (sq, f)"
    and a: "check_authenticity L K capsules = Inr a" and wi: "check_witness hostname w = Inr wi"
    and r: "r = \<lparr>ri_stages = [fst (integrity views), sq, a, wi], ri_finding = f\<rparr>"
    using assms by (cases "integrity views") (auto simp: evaluate_ritual_def raise_simps)
  show ?thesis using sequence_stage_ok [OF sq] authenticity_ok [OF a] witness_ok [OF wi] integrity_ok [of views] unlinked_not_broken r
    by simp
qed

section \<open>Properties\<close>

text \<open>
  C26. The ritual has its four stages in order. Integrity fails exactly when a payload shown does not
  hash to its commitment, Sequence exactly when a record after the first names a parent that is not
  in the bundle, Authenticity exactly when a statement carried with a record does not verify, and it
  never passes; Witness passes only when the configured receipts are held. There is a finding exactly
  when Integrity or Sequence fails.

  Sequence has two values here, and its pass is the absence of a gap: whenever it does not fail, its
  text is that every record names the one before it, for a bundle in which no record names any parent,
  and for a single record, as well. The page's script has the third value for such bundles, and the
  docstring of \<open>_check_authenticity\<close> calls Sequence three-valued; this code does not.
\<close>

theorem ritual_stages_mean:
  assumes "evaluate_ritual L K hostname capsules views w = Inr r"
  shows "map rs_name (ri_stages r) = [''Integrity'', ''Sequence'', ''Authenticity'', ''Witness''] \<and>
    rs_status (ri_stages r ! 0) = (if altered_payload views then ''fail'' else ''pass'') \<and>
    rs_status (ri_stages r ! 1) = (if broken_chain capsules then ''fail'' else ''pass'') \<and>
    (\<not> broken_chain capsules \<longrightarrow> ri_stages r ! 1 = unbroken) \<and>
    (unlinked capsules \<longrightarrow> ri_stages r ! 1 = unbroken) \<and>
    rs_status (ri_stages r ! 2) = (if \<forall>sc \<in> sidecars capsules. sidecar_verified L K sc then ''skip'' else ''fail'') \<and>
    (rs_status (ri_stages r ! 3) = ''pass'' \<longleftrightarrow> fully_witnessed w) \<and>
    (ri_finding r = None \<longleftrightarrow> \<not> altered_payload views \<and> \<not> broken_chain capsules)"
  using assms by (rule ritual_ok)

lemma demo_ritual:
  "\<exists>r. evaluate_ritual ref_cbor2 toy_crypto (\<lambda>u. Inr None) [demo_capsule, demo_capsule] [] None = Inr r"
  by (simp add: evaluate_ritual_def integrity_def mismatches_def sequence_stage_def find_chain_gaps_def bundle_ids_def
      demo_capsule_def unwrap_def capsule_id_of_def get_or_def jget_or_def jget_def parent_of_def py_or_def demo_hex64
      Let_def check_authenticity_def check_witness_def raised_def gap_finding_def first_eight_def)

theorem ritual_stages_mean_witness:
  "\<exists>r. evaluate_ritual ref_cbor2 toy_crypto (\<lambda>u. Inr None) [demo_capsule, demo_capsule] [] None = Inr r \<and>
     ri_finding r \<noteq> None"
proof -
  obtain r where r: "evaluate_ritual ref_cbor2 toy_crypto (\<lambda>u. Inr None) [demo_capsule, demo_capsule] [] None = Inr r"
    using demo_ritual by blast
  have "names demo_capsule (replicate 64 CHR ''b'')"
    by (simp add: names_def parent_of_def demo_capsule_def get_or_def jget_or_def py_or_def demo_hex64)
  moreover have "id_of demo_capsule = Some (replicate 64 CHR ''a'')"
    by (simp add: id_of_def demo_capsule_def jget_def demo_hex64)
  ultimately have "broken_chain [demo_capsule, demo_capsule]"
    using demo_capsule_eval(3) unfolding broken_chain_def ids_in_def by (intro exI [of _ 1]) (auto simp: replicate_eq_replicate)
  then show ?thesis using ritual_stages_mean [OF r] r by blast
qed

text \<open>
  C27. Annotating a bundle ends, whatever the parents its records name, cycles included.
\<close>

theorem annotate_records_terminates: "annotate_records capsules views \<noteq> None"
  by (rule annotate_total)

text \<open>
  C28. Every record gets its note, by its identifier. The altered identifiers are those of the records
  whose view has a mismatch. A record is marked altered exactly when its identifier is one of them;
  otherwise it is marked as citing an altered record exactly when an altered identifier can be
  reached from it by following parents through the records of the bundle; otherwise it verifies.
  So a record with an identifier and a mismatch is always marked altered. Two things follow from
  going by identifiers that the docstring (a record that itself fails Integrity is a mismatch) does
  not say: a record without an identifier, such as a binding, is never marked altered, whatever its
  view shows, and of two records with one identifier both are marked when one has a mismatch.
\<close>

theorem annotate_records_reachability:
  assumes "annotate_records capsules views = Some (Inr out)"
  shows "\<exists>records. by_id (map unwrap capsules) = Inr records \<and> map rn_index out = [0..<length capsules] \<and>
    list_all2 (note_ok records (altered_ids capsules views)) (map unwrap capsules) out \<and>
    (\<forall>k < length capsules.
       (id_of (unwrap (capsules ! k)) = None \<longrightarrow> \<not> rn_altered (out ! k)) \<and>
       (k < length views \<longrightarrow> mismatches [views ! k] \<noteq> [] \<longrightarrow> id_of (unwrap (capsules ! k)) \<noteq> None \<longrightarrow>
          rn_note (out ! k) = ''digest_mismatch''))"
  using annotate_ok [OF assms] notes_by_id by blast

text \<open>An altered record, its child, and an altered record without an identifier.\<close>

definition demo_child :: json where
  "demo_child =
     JObj [(''capsule_id'', JStr (replicate 64 CHR ''c'')),
           (''chain'', JObj [(''parent_capsule_id'', JStr (replicate 64 CHR ''a''))])]"

definition demo_altered_view :: graph_view where
  "demo_altered_view = add_entry
     \<lparr>pe_artifact = [], pe_type = ''agent_input'', pe_digest = [], pe_withheld = False, pe_known = True,
      pe_match = Some False, pe_context = []\<rparr> (new_view ''aac'' False)"

definition demo_bundle :: "json list" where
  "demo_bundle = [demo_capsule, demo_child, JObj []]"

definition demo_views :: "graph_view list" where
  "demo_views = [demo_altered_view, new_view ''aac'' False, demo_altered_view]"

lemma demo_hex64_c: "hex64 (JStr (replicate 64 CHR ''c'')) = Some (replicate 64 CHR ''c'')" "hex64 (JStr []) = None"
  by (simp_all add: hex64_def hex64_text_def hex_value_def)

lemma demo_bundle_ids:
  "map (\<lambda>c. id_of (unwrap c)) demo_bundle = [Some (replicate 64 CHR ''a''), Some (replicate 64 CHR ''c''), None]"
  by (simp add: demo_bundle_def demo_capsule_def demo_child_def unwrap_def id_of_def jget_def demo_hex64 demo_hex64_c)

lemma demo_mismatches: "map (\<lambda>v. mismatches [v] \<noteq> []) demo_views = [True, False, True]"
  by (simp add: demo_views_def demo_altered_view_def mismatches_def add_entry_def new_view_def)

lemma demo_annotated: "\<exists>out. annotate_records demo_bundle demo_views = Some (Inr out)"
  by (simp add: annotate_records_def by_id_def capsule_id_of_def demo_bundle_def demo_views_def demo_altered_view_def
      demo_capsule_def demo_child_def unwrap_def get_or_def jget_or_def jget_def altered_id_def add_entry_def new_view_def
      note_for_def unhashable_def walk.simps parent_of_def py_or_def demo_hex64 demo_hex64_c raised_def rmap_Inr_iff
      replicate_eq_replicate List.map_filter_def image_iff)

theorem annotate_records_reachability_witness:
  "\<exists>out. annotate_records demo_bundle demo_views = Some (Inr out) \<and>
     rn_note (out ! 0) = ''digest_mismatch'' \<and> \<not> rn_altered (out ! 2)"
proof -
  obtain out where out: "annotate_records demo_bundle demo_views = Some (Inr out)" using demo_annotated by blast
  have l: "length demo_bundle = 3" "length demo_views = 3" by (simp_all add: demo_bundle_def demo_views_def)
  have "id_of (unwrap (demo_bundle ! 0)) \<noteq> None" "id_of (unwrap (demo_bundle ! 2)) = None" "mismatches [demo_views ! 0] \<noteq> []"
    using arg_cong [OF demo_bundle_ids, of "\<lambda>xs. xs ! 0"] arg_cong [OF demo_bundle_ids, of "\<lambda>xs. xs ! 2"]
      arg_cong [OF demo_mismatches, of "\<lambda>xs. xs ! 0"] l by (simp_all del: list.map)
  then show ?thesis using annotate_records_reachability [OF out] out l by force
qed

end
