(* ===== verification/Hosted_Verify.thy ===== *)
theory Hosted_Verify
  imports Aac_Ritual
begin

text \<open>
  The verification behind \<open>POST /verify\<close> of \<open>src/hosted_profiles/hosted.py\<close>: \<open>_b64\<close>,
  \<open>verify_payload\<close> and \<open>verify_request_bytes\<close>. A request is the JSON object; \<open>json.loads\<close> of the body
  is a parameter. What the code catches is a reason; the name of the exception in a text is left out.
\<close>

section \<open>Base64 of a request\<close>

definition request_b64 :: "string \<Rightarrow> py_exn + bytes" where
  "request_b64 value =
     (let s = py_strip value;
          pad = replicate (nat (- int (length (utf8_chars s)) mod 4)) CHR ''=''
      in case urlsafe_b64decode (s @ pad) of
           Inr b \<Rightarrow> Inr b
         | Inl _ \<Rightarrow> b64decode (s @ pad))"

section \<open>Values of any JSON type\<close>

text \<open>
  The two verifiers are given what the request holds. A key that is no text goes through
  \<open>bytes(...)\<close> where it is loaded: what that rejects cannot be loaded. A leaf that is no text makes
  \<open>bytes.fromhex\<close> raise \<open>TypeError\<close> where a text that is not hexadecimal makes it raise \<open>ValueError\<close>,
  which \<open>verify_receipt\<close> reports for an RFC 9162 proof and does not catch for a CCF proof.
\<close>

definition unloadable :: "'k crypto_lib \<Rightarrow> 'k crypto_lib" where
  "unloadable K = K\<lparr>load_public := \<lambda>_. Inl ''TypeError''\<rparr>"

definition parse_with_key :: "cbor2_lib \<Rightarrow> 'k crypto_lib \<Rightarrow> bytes \<Rightarrow> json \<Rightarrow> string + parsed_statement" where
  "parse_with_key L K stmt pub =
     (if pub = JNull then parse_signed_statement L K (CBytes stmt) None
      else
        (case json_pem pub of
           Some pem \<Rightarrow> parse_signed_statement L K (CBytes stmt) (Some (Pem_Bytes pem))
         | None \<Rightarrow> parse_signed_statement L (unloadable K) (CBytes stmt) (Some (Pem_Bytes []))))"

definition receipt_with_key :: "cbor2_lib \<Rightarrow> 'k crypto_lib \<Rightarrow> bytes \<Rightarrow> string \<Rightarrow> json \<Rightarrow> string + receipt_result" where
  "receipt_with_key L K receipt leaf pub =
     (case json_pem pub of
        Some pem \<Rightarrow> verify_receipt L K (CBytes receipt) leaf (Pem_Bytes pem)
      | None \<Rightarrow> verify_receipt L (unloadable K) (CBytes receipt) leaf (Pem_Bytes []))"

definition type_error :: "receipt_finding \<Rightarrow> receipt_finding" where
  "type_error f = (case f of Proof_Not_Evaluated ValueError \<Rightarrow> Proof_Not_Evaluated TypeError | _ \<Rightarrow> f)"

definition receipt_with_leaf :: "cbor2_lib \<Rightarrow> 'k crypto_lib \<Rightarrow> bytes \<Rightarrow> json \<Rightarrow> json \<Rightarrow> string + receipt_result" where
  "receipt_with_leaf L K receipt leaf pub =
     (case as_str leaf of
        Some s \<Rightarrow> receipt_with_key L K receipt s pub
      | None \<Rightarrow>
          rbind (receipt_with_key L K receipt ''g'' pub) (\<lambda>r.
            if Leaf_Not_Hex \<in> set (r_errors r) then Inl ''TypeError''
            else Inr (r\<lparr>r_errors := map type_error (r_errors r)\<rparr>)))"

section \<open>The verdict\<close>

datatype reason =
    Supply_One | Signature_False | Signature_Unchecked | Statement_Malformed
  | Receipt_Options | Receipt_Finding receipt_finding | Receipt_Malformed | Not_Json string | Not_Object

text \<open>A report, or the one left by an exception.\<close>

datatype statement_answer =
    Statement_Report statement_fields "bool option" "nat option" | Statement_Failed

datatype receipt_answer =
    Receipt_Report bool "string option" "int option" "int option" "receipt_finding list" | Receipt_Failed

datatype verdict =
    Bad_Request "reason list"
  | Verdict bool "statement_answer option" "receipt_answer option" "reason list"

fun signature_verified :: "statement_answer \<Rightarrow> bool option" where
  "signature_verified (Statement_Report f v n) = v"
| "signature_verified Statement_Failed = Some False"

fun receipt_verified :: "receipt_answer \<Rightarrow> bool" where
  "receipt_verified (Receipt_Report ok root n i es) = ok"
| "receipt_verified Receipt_Failed = False"

text \<open>The claims and the payload are not among the fields that are answered.\<close>

definition answered_fields :: "statement_fields \<Rightarrow> statement_fields" where
  "answered_fields f = f\<lparr>f_claims := [], f_payload := None\<rparr>"

definition check_statement :: "cbor2_lib \<Rightarrow> 'k crypto_lib \<Rightarrow> jobj \<Rightarrow> statement_answer \<times> reason list" where
  "check_statement L K request =
     (case as_str (jget request ''statement_b64'') of
        None \<Rightarrow> (Statement_Failed, [Statement_Malformed])
      | Some s \<Rightarrow>
          (case request_b64 s of
             Inl _ \<Rightarrow> (Statement_Failed, [Statement_Malformed])
           | Inr stmt \<Rightarrow>
               (case parse_with_key L K stmt (jget request ''statement_pubkey_pem'') of
                  Inl _ \<Rightarrow> (Statement_Failed, [Statement_Malformed])
                | Inr parsed \<Rightarrow>
                    (Statement_Report (answered_fields (p_fields parsed)) (p_signature_verified parsed)
                       (map_option length (f_payload (p_fields parsed))),
                     (case p_signature_verified parsed of
                        Some False \<Rightarrow> [Signature_False] | None \<Rightarrow> [Signature_Unchecked] | Some True \<Rightarrow> [])))))"

definition check_receipt :: "cbor2_lib \<Rightarrow> 'k crypto_lib \<Rightarrow> jobj \<Rightarrow> receipt_answer \<times> reason list" where
  "check_receipt L K request =
     (let log_pub = jget request ''log_pubkey_pem'';
          leaf = jget request ''leaf_entry_hex''
      in if \<not> json_true log_pub \<or> \<not> json_true leaf then (Receipt_Failed, [Receipt_Options])
         else
           (case as_str (jget request ''receipt_b64'') of
              None \<Rightarrow> (Receipt_Failed, [Receipt_Malformed])
            | Some s \<Rightarrow>
                (case rbind (case request_b64 s of Inl _ \<Rightarrow> Inl ''ValueError'' | Inr b \<Rightarrow> Inr b)
                        (\<lambda>receipt. receipt_with_leaf L K receipt leaf log_pub) of
                   Inl _ \<Rightarrow> (Receipt_Failed, [Receipt_Malformed])
                 | Inr res \<Rightarrow>
                     (Receipt_Report (r_ok res) (r_root res) (r_tree_size res) (r_leaf_index res) (r_errors res),
                      if r_ok res then [] else map Receipt_Finding (r_errors res)))))"

definition verify_payload :: "cbor2_lib \<Rightarrow> 'k crypto_lib \<Rightarrow> jobj \<Rightarrow> verdict" where
  "verify_payload L K request =
     (let has_statement = json_true (jget request ''statement_b64'');
          has_receipt = json_true (jget request ''receipt_b64'')
      in if \<not> has_statement \<and> \<not> has_receipt then Bad_Request [Supply_One]
         else
           (let (statement, reasons) =
                  (if has_statement then (case check_statement L K request of (a, rs) \<Rightarrow> (Some a, rs)) else (None, []));
                (receipt, reasons') =
                  (if has_receipt then (case check_receipt L K request of (a, rs) \<Rightarrow> (Some a, rs)) else (None, []));
                components =
                  (case statement of None \<Rightarrow> [] | Some a \<Rightarrow> [signature_verified a = Some True]) @
                  (case receipt of None \<Rightarrow> [] | Some a \<Rightarrow> [receipt_verified a])
            in Verdict (components \<noteq> [] \<and> list_all id components) statement receipt (reasons @ reasons')))"

definition verify_request_bytes ::
    "(bytes \<Rightarrow> string + json) \<Rightarrow> cbor2_lib \<Rightarrow> 'k crypto_lib \<Rightarrow> bytes \<Rightarrow> verdict" where
  "verify_request_bytes loads L K body =
     (case loads body of
        Inl e \<Rightarrow> Bad_Request [Not_Json e]
      | Inr v \<Rightarrow> (case as_obj v of None \<Rightarrow> Bad_Request [Not_Object] | Some request \<Rightarrow> verify_payload L K request))"

section \<open>What a verdict stands for\<close>

lemma unloadable_rejects [simp]: "verify_sign1 L (unloadable K) msg pem detached understood \<noteq> Inr s"
  by (simp add: verify_sign1_iff unloadable_def)

lemma unloadable_statement: "parse_signed_statement L (unloadable K) msg key = Inr q \<Longrightarrow> p_signature_verified q \<noteq> Some True"
  using parse_verified by fastforce

lemma unloadable_receipt: "verify_receipt L (unloadable K) msg leaf pem = Inr r \<Longrightarrow> \<not> r_ok r"
  by (rule notI) (erule (1) verify_receipt_ok; simp)

lemma bad_leaf_rejected: "verify_receipt L K msg ''g'' pem = Inr r \<Longrightarrow> \<not> r_ok r"
proof
  assume v: "verify_receipt L K msg ''g'' pem = Inr r" and ok: "r_ok r"
  have bad: "fromhex ''g'' = Inl ValueError" by (simp add: fromhex_eval)
  from v ok show False
    by (cases rule: verify_receipt_ok) (auto simp: bad root_from_inclusion_proof_def split: if_splits)
qed

lemma parse_with_key_ok:
  "(\<exists>q. parse_with_key L K stmt pub = Inr q \<and> p_signature_verified q = Some True) \<longleftrightarrow>
     (\<exists>pem s. json_pem pub = Some pem \<and> verify_sign1 L K (CBytes stmt) (Pem_Bytes pem) None STMT_UNDERSTOOD = Inr s)"
  (is "?l = ?r")
proof
  assume ?l
  then obtain q where q: "parse_with_key L K stmt pub = Inr q" "p_signature_verified q = Some True" by blast
  then have "pub \<noteq> JNull" using parse_verified by (fastforce simp: parse_with_key_def)
  then obtain pem where "json_pem pub = Some pem"
    using q unloadable_statement by (fastforce simp: parse_with_key_def split: option.splits)
  then show ?r using q parse_verified [of L K "CBytes stmt" "Some (Pem_Bytes pem)" q] \<open>pub \<noteq> JNull\<close>
    by (auto simp: parse_with_key_def)
next
  assume ?r
  then show ?l by (auto simp: parse_with_key_def parse_signed_statement_def)
qed

lemma receipt_with_leaf_ok:
  "(\<exists>r. receipt_with_leaf L K receipt leaf pub = Inr r \<and> r_ok r) \<longleftrightarrow>
     (\<exists>s pem r. leaf = JStr s \<and> json_pem pub = Some pem \<and>
        verify_receipt L K (CBytes receipt) s (Pem_Bytes pem) = Inr r \<and> r_ok r)"
proof (cases "as_str leaf")
  case None
  have "\<not> r_ok r" if "receipt_with_key L K receipt ''g'' pub = Inr r" for r
    using that by (auto simp: receipt_with_key_def dest: bad_leaf_rejected split: option.splits)
  then show ?thesis using None by (auto simp: receipt_with_leaf_def raise_simps split: if_splits)
next
  case (Some s)
  then show ?thesis using unloadable_receipt
    by (auto simp: receipt_with_leaf_def receipt_with_key_def dest: unloadable_receipt split: option.splits)
qed

text \<open>The statement, or the receipt, of the request verifies under the key the request gives.\<close>

definition statement_accepted :: "cbor2_lib \<Rightarrow> 'k crypto_lib \<Rightarrow> jobj \<Rightarrow> bool" where
  "statement_accepted L K request \<longleftrightarrow>
     (\<exists>s stmt pem v. jget request ''statement_b64'' = JStr s \<and> request_b64 s = Inr stmt \<and>
        json_pem (jget request ''statement_pubkey_pem'') = Some pem \<and>
        verify_sign1 L K (CBytes stmt) (Pem_Bytes pem) None STMT_UNDERSTOOD = Inr v)"

definition receipt_accepted :: "cbor2_lib \<Rightarrow> 'k crypto_lib \<Rightarrow> jobj \<Rightarrow> bool" where
  "receipt_accepted L K request \<longleftrightarrow>
     (\<exists>s receipt leaf pem r. jget request ''receipt_b64'' = JStr s \<and> request_b64 s = Inr receipt \<and>
        jget request ''leaf_entry_hex'' = JStr leaf \<and> leaf \<noteq> [] \<and> json_true (jget request ''log_pubkey_pem'') \<and>
        json_pem (jget request ''log_pubkey_pem'') = Some pem \<and>
        verify_receipt L K (CBytes receipt) leaf (Pem_Bytes pem) = Inr r \<and> r_ok r)"

lemma check_statement_ok:
  "signature_verified (fst (check_statement L K request)) = Some True \<longleftrightarrow> statement_accepted L K request"
proof (cases "as_str (jget request ''statement_b64'')")
  case (Some s)
  show ?thesis
  proof (cases "request_b64 s")
    case (Inr stmt)
    have "signature_verified (fst (check_statement L K request)) = Some True \<longleftrightarrow>
        (\<exists>q. parse_with_key L K stmt (jget request ''statement_pubkey_pem'') = Inr q \<and> p_signature_verified q = Some True)"
      using Some Inr by (auto simp: check_statement_def split: sum.splits)
    then show ?thesis unfolding parse_with_key_ok using Some Inr by (auto simp: statement_accepted_def)
  qed (use Some in \<open>auto simp: check_statement_def statement_accepted_def\<close>)
qed (auto simp: check_statement_def statement_accepted_def)

lemma check_statement_reasons:
  "snd (check_statement L K request) = [] \<longleftrightarrow> signature_verified (fst (check_statement L K request)) = Some True"
  by (auto simp: check_statement_def split: option.splits sum.splits bool.splits)

lemma check_receipt_ok: "receipt_verified (fst (check_receipt L K request)) \<longleftrightarrow> receipt_accepted L K request"
proof (cases "json_true (jget request ''log_pubkey_pem'') \<and> json_true (jget request ''leaf_entry_hex'')")
  case t: True
  show ?thesis
  proof (cases "\<exists>s receipt. jget request ''receipt_b64'' = JStr s \<and> request_b64 s = Inr receipt")
    case True
    then obtain s receipt where s: "jget request ''receipt_b64'' = JStr s" "request_b64 s = Inr receipt" by blast
    have "receipt_verified (fst (check_receipt L K request)) \<longleftrightarrow>
        (\<exists>r. receipt_with_leaf L K receipt (jget request ''leaf_entry_hex'') (jget request ''log_pubkey_pem'') = Inr r \<and> r_ok r)"
      using s t by (auto simp: check_receipt_def split: sum.splits)
    then show ?thesis unfolding receipt_with_leaf_ok using s t by (auto simp: receipt_accepted_def)
  next
    case False
    then show ?thesis using t
      by (auto simp: check_receipt_def receipt_accepted_def split: option.splits sum.splits)
  qed
qed (auto simp: check_receipt_def receipt_accepted_def)

lemma with_leaf_errors: "receipt_with_leaf L K receipt leaf pub = Inr r \<Longrightarrow> \<not> r_ok r \<Longrightarrow> r_errors r \<noteq> []"
proof -
  have k: "r_errors r \<noteq> []" if "receipt_with_key L K receipt s pub = Inr r" "\<not> r_ok r" for s r
    using that verify_receipt_shape by (fastforce simp: receipt_with_key_def result_shape_def failed_shape_def split: option.splits)
  show "receipt_with_leaf L K receipt leaf pub = Inr r \<Longrightarrow> \<not> r_ok r \<Longrightarrow> r_errors r \<noteq> []"
    using k by (auto simp: receipt_with_leaf_def raise_simps split: option.splits if_splits)
qed

lemma check_receipt_reasons:
  "snd (check_receipt L K request) = [] \<longleftrightarrow> receipt_verified (fst (check_receipt L K request))"
  by (auto simp: check_receipt_def Let_def dest: with_leaf_errors split: option.splits sum.splits)

lemma verify_payload_verdict:
  "verify_payload L K request =
     (let st = json_true (jget request ''statement_b64''); rc = json_true (jget request ''receipt_b64'')
      in if \<not> st \<and> \<not> rc then Bad_Request [Supply_One]
         else Verdict ((st \<longrightarrow> statement_accepted L K request) \<and> (rc \<longrightarrow> receipt_accepted L K request))
                (if st then Some (fst (check_statement L K request)) else None)
                (if rc then Some (fst (check_receipt L K request)) else None)
                ((if st then snd (check_statement L K request) else []) @ (if rc then snd (check_receipt L K request) else [])))"
  unfolding check_statement_ok [symmetric] check_receipt_ok [symmetric]
  by (cases "check_statement L K request"; cases "check_receipt L K request") (auto simp: verify_payload_def Let_def)

section \<open>Spellings of base64\<close>

text \<open>The encoding without its padding, and with the URL-safe characters.\<close>

definition unpadded :: "string \<Rightarrow> string" where
  "unpadded s = takeWhile (\<lambda>c. c \<noteq> CHR ''='') s"

definition url_spelling :: "string \<Rightarrow> string" where
  "url_spelling s = map (\<lambda>c. if c = CHR ''+'' then CHR ''-'' else if c = CHR ''/'' then CHR ''_'' else c) s"

definition b64_alpha :: "char \<Rightarrow> bool" where
  "b64_alpha c \<longleftrightarrow> (\<exists>n < 64. c = b64_char n)"

lemma b64_alphaI [simp, intro]: "n < 64 \<Longrightarrow> b64_alpha (b64_char n)"
  by (auto simp: b64_alpha_def)

lemma b64encode_shape:
  "\<exists>u. b64encode b = u @ replicate (nat (- int (length u) mod 4)) CHR ''='' \<and> list_all b64_alpha u"
proof (induction b rule: b64encode.induct)
  case 1
  show ?case by simp
next
  case (2 a)
  show ?case
    by (rule exI [of _ "[b64_char (unat a div 4), b64_char (unat a mod 4 * 16)]"])
      (simp add: sextet_bounds octet_bounds numeral_2_eq_2)
next
  case (3 a b)
  show ?case
    by (rule exI [of _ "[b64_char (unat a div 4), b64_char (unat a mod 4 * 16 + unat b div 16), b64_char (unat b mod 16 * 4)]"])
      (simp add: sextet_bounds octet_bounds)
next
  case (4 a b c rest)
  then obtain u where u: "b64encode rest = u @ replicate (nat (- int (length u) mod 4)) CHR ''=''" "list_all b64_alpha u" by blast
  let ?g = "[b64_char (unat a div 4), b64_char (unat a mod 4 * 16 + unat b div 16),
      b64_char (unat b mod 16 * 4 + unat c div 64), b64_char (unat c mod 64)]"
  have "- int (length (?g @ u)) mod 4 = - int (length u) mod 4"
    using mod_add_self2 [of "- int (length u) - 4" 4] by (simp add: algebra_simps)
  moreover have "list_all b64_alpha (?g @ u)" using u by (simp add: sextet_bounds octet_bounds)
  ultimately show ?case using u by (intro exI [of _ "?g @ u"]) simp
qed

lemma alpha_facts:
  assumes "b64_alpha c"
  shows "c \<noteq> CHR ''=''" "url_char c = c" "(of_char c :: nat) < 128" "\<not> space_point (of_char c)"
proof -
  obtain n where n: "n < 64" "c = b64_char n" using assms by (auto simp: b64_alpha_def)
  then show "c \<noteq> CHR ''=''" "url_char c = c" "(of_char c :: nat) < 128" using b64_value_char by auto
  have "b64_value c \<noteq> None" using n b64_value_char by simp
  then show "\<not> space_point (of_char c)" by (auto simp: b64_value_def space_point_def Let_def split: if_splits)
qed

text \<open>Characters that stand for themselves through \<open>strip\<close> and the ASCII check.\<close>

definition plain_char :: "char \<Rightarrow> bool" where
  "plain_char c \<longleftrightarrow> (of_char c :: nat) < 128 \<and> \<not> space_point (of_char c)"

lemma utf8_chars_plain: "list_all plain_char s \<Longrightarrow> utf8_chars s = map (\<lambda>c. [c]) s"
  by (induction s) (auto simp: plain_char_def cont_char_def list_all_iff split: list.splits)

lemma py_strip_plain:
  assumes "list_all plain_char s"
  shows "py_strip s = s"
proof -
  have "dropWhile (\<lambda>u. space_point (code_point u)) (map (\<lambda>c. [c]) t) = map (\<lambda>c. [c]) t" if "list_all plain_char t" for t
    using that by (cases t) (auto simp: plain_char_def)
  from this [of s] this [of "rev s"] show ?thesis using assms
    by (simp add: py_strip_def utf8_chars_plain rev_map [symmetric])
qed

lemma request_b64_plain:
  assumes "list_all plain_char s" "s @ replicate (nat (- int (length s) mod 4)) CHR ''='' = t"
    "map url_char t = b64encode b"
  shows "request_b64 s = Inr b"
proof -
  have "ascii_text (b64encode b)"
  proof -
    obtain u n where "b64encode b = u @ replicate n CHR ''=''" "list_all b64_alpha u" using b64encode_shape by blast
    then show ?thesis using alpha_facts(3) by (auto simp: ascii_text_def list_all_iff)
  qed
  then have "urlsafe_b64decode t = Inr b"
    unfolding urlsafe_b64decode_def assms(3) by (simp add: b64decode_def b64_loop_encode)
  then show ?thesis using assms(1,2) by (simp add: request_b64_def py_strip_plain utf8_chars_plain)
qed

lemma request_b64_all:
  "request_b64 (b64encode b) = Inr b" "request_b64 (unpadded (b64encode b)) = Inr b"
  "request_b64 (url_spelling (b64encode b)) = Inr b" "request_b64 (url_spelling (unpadded (b64encode b))) = Inr b"
proof -
  obtain u where e: "b64encode b = u @ replicate (nat (- int (length u) mod 4)) CHR ''=''" and u: "list_all b64_alpha u"
    using b64encode_shape by blast
  let ?pad = "replicate (nat (- int (length u) mod 4)) CHR ''=''"
  have un: "unpadded (b64encode b) = u"
  proof -
    have "takeWhile (\<lambda>c. c \<noteq> CHR ''='') (u @ ?pad) = u" using u alpha_facts(1)
      by (subst takeWhile_append2) (auto simp: list_all_iff takeWhile_replicate)
    then show ?thesis by (simp add: unpadded_def e)
  qed
  have len: "nat (- int (length (u @ ?pad)) mod 4) = 0"
  proof -
    have "- int (length u) mod 4 = (- int (length u)) mod 4" by simp
    then have "(- int (length u) - (- int (length u) mod 4)) mod 4 = 0" by (simp add: mod_diff_right_eq)
    then show ?thesis by (simp add: algebra_simps)
  qed
  have eq: "plain_char CHR ''=''" "plain_char CHR ''-''" "plain_char CHR ''_''"
    by (simp_all add: plain_char_def space_point_def)
  have pl: "list_all plain_char u" using u alpha_facts(3,4) by (auto simp: list_all_iff plain_char_def)
  then have ps: "list_all plain_char (b64encode b)" using eq by (auto simp: e list_all_iff)
  have sp: "list_all plain_char (url_spelling s)" if "list_all plain_char s" for s
    using that eq by (auto simp: url_spelling_def list_all_iff)
  have uc: "url_char c = c" if "c \<in> set (u @ ?pad)" for c
    using that u alpha_facts(2) [of c] by (auto simp: list_all_iff url_char_def)
  then have id: "map url_char (u @ ?pad) = u @ ?pad" by (rule map_idI)
  have inv: "url_char (if c = CHR ''+'' then CHR ''-'' else if c = CHR ''/'' then CHR ''_'' else c) = c" if "url_char c = c" for c
    using that by (auto simp: url_char_def)
  have sp_id: "map url_char (url_spelling (u @ ?pad)) = u @ ?pad"
    unfolding url_spelling_def map_map comp_def by (intro map_idI inv uc)
  have su: "url_spelling u @ replicate (nat (- int (length (url_spelling u)) mod 4)) CHR ''='' = url_spelling (u @ ?pad)"
    by (simp add: url_spelling_def)
  show "request_b64 (b64encode b) = Inr b" using ps id len by (intro request_b64_plain [OF ps refl]) (simp add: e)
  show "request_b64 (unpadded (b64encode b)) = Inr b" unfolding un using id by (intro request_b64_plain [OF pl refl]) (simp add: e)
  show "request_b64 (url_spelling (b64encode b)) = Inr b"
    using sp_id len by (intro request_b64_plain [OF sp [OF ps] refl]) (simp add: e url_spelling_def)
  show "request_b64 (url_spelling (unpadded (b64encode b))) = Inr b"
    unfolding un by (rule request_b64_plain [OF sp [OF pl] su]) (simp add: sp_id e)
qed

section \<open>Properties\<close>

text \<open>
  C29. Verification fails closed. Of a request that is an object, a verdict is valid exactly when every
  component the request carries, and it carries one, verifies with the neutral library: the
  statement's signature under the key given, the receipt under the log's key for the leaf given.
  Anything missing, malformed or unverified makes it invalid, and it is invalid exactly when there
  is a reason.
\<close>

theorem verdict_fails_closed:
  assumes "loads body = Inr (JObj request)" "verify_request_bytes loads L K body = Verdict valid st rc reasons"
  shows "(st \<noteq> None \<longleftrightarrow> json_true (jget request ''statement_b64'')) \<and>
    (rc \<noteq> None \<longleftrightarrow> json_true (jget request ''receipt_b64'')) \<and> (st \<noteq> None \<or> rc \<noteq> None) \<and>
    (valid \<longleftrightarrow> (st \<noteq> None \<longrightarrow> statement_accepted L K request) \<and> (rc \<noteq> None \<longrightarrow> receipt_accepted L K request)) \<and>
    (valid \<longleftrightarrow> reasons = [])"
  using assms
  by (auto simp: verify_request_bytes_def verify_payload_verdict Let_def check_statement_reasons check_receipt_reasons
      check_statement_ok check_receipt_ok split: if_splits)

definition demo_request :: "bytes \<Rightarrow> jobj" where
  "demo_request receipt =
     [(''receipt_b64'', JStr (b64encode receipt)), (''log_pubkey_pem'', JStr [char_of_byte 1]), (''leaf_entry_hex'', JStr ''0b'')]"

lemma empty_receipt: "verify_receipt L K (CBytes []) leaf pem = Inr r \<Longrightarrow> \<not> r_ok r"
proof
  assume v: "verify_receipt L K (CBytes []) leaf pem = Inr r" and ok: "r_ok r"
  have "check_rule [] what outer \<noteq> Inr ()" for what outer
    by (simp add: check_rule_def rule_check_def rule_item.simps rule_head_def)
  then have "receipt_header L (CBytes []) \<noteq> Inr x" for x
    by (auto simp: receipt_header_def raise_simps split: option.splits if_splits sum.splits cose_exn.splits)
  with v ok show False by (cases rule: verify_receipt_ok) auto
qed

theorem verdict_fails_closed_witness:
  "\<exists>request rc. verify_request_bytes (\<lambda>body. Inr (JObj request)) ref_cbor2 toy_crypto [] = Verdict True None (Some rc) []"
proof -
  obtain receipt where r: "verify_receipt ref_cbor2 toy_crypto (CBytes receipt) ''0b'' (Pem_Bytes [1]) = Inr demo_result"
    by (rule demo_receipt)
  let ?q = "demo_request receipt"
  have ne: "receipt \<noteq> []" using r by (auto simp: demo_result_def dest: empty_receipt)
  then have s: "jget ?q ''statement_b64'' = JNull" "jget ?q ''receipt_b64'' = JStr (b64encode receipt)"
    "json_true (jget ?q ''receipt_b64'')" "jget ?q ''leaf_entry_hex'' = JStr ''0b''"
    "jget ?q ''log_pubkey_pem'' = JStr [char_of_byte 1]"
    by (auto simp: demo_request_def jget_def elim: b64encode.elims)
  obtain valid rc reasons where v: "verify_request_bytes (\<lambda>body. Inr (JObj ?q)) ref_cbor2 toy_crypto [] = Verdict valid None (Some rc) reasons"
    using s by (simp add: verify_request_bytes_def verify_payload_verdict)
  have "receipt_accepted ref_cbor2 toy_crypto ?q" unfolding receipt_accepted_def
    using s r request_b64_all(1) by (intro exI [of _ "b64encode receipt"] exI [of _ receipt] exI [of _ "''0b''"] exI [of _ "[1]"]
        exI [of _ demo_result]) (simp add: utf8_encode_def demo_result_def)
  then have "valid" "reasons = []" using verdict_fails_closed [OF refl v] by auto
  then show ?thesis using v by (intro exI [of _ ?q] exI [of _ rc]) simp
qed

text \<open>
  A request may spell its octets in base64 with or without padding and in the standard or the
  URL-safe alphabet: \<open>_b64\<close> reads all four back.
\<close>

theorem request_b64_spellings:
  "request_b64 (b64encode b) = Inr b \<and> request_b64 (unpadded (b64encode b)) = Inr b \<and>
   request_b64 (url_spelling (b64encode b)) = Inr b \<and> request_b64 (url_spelling (unpadded (b64encode b))) = Inr b"
  using request_b64_all by blast

end
