(* ===== verification/Rate_Gate.thy ===== *)
theory Rate_Gate
  imports Json Complex_Main
begin

text \<open>
  The rate backstop of \<open>POST /verify\<close>, class \<open>_RateGate\<close> of \<open>src/hosted_profiles/hosted.py\<close>: a
  counter over a window of 60 seconds that starts with the first request after the last window. The
  clock \<open>time.monotonic()\<close> is an input, a real number; the rounding of floating-point differences is
  left out. A run of the gate is a list of the times at which \<open>allow\<close> is called.
\<close>

section \<open>The gate\<close>

record rate_gate =
  rg_per_minute :: int
  rg_window_start :: real
  rg_count :: int

text \<open>\<open>__init__\<close>: without a limit it is the integer in \<open>SCITT_VERIFY_RPM\<close>, or 600.\<close>

definition new_gate :: "int option \<Rightarrow> string option \<Rightarrow> py_exn + rate_gate" where
  "new_gate per_minute environ =
     rmap (\<lambda>n. \<lparr>rg_per_minute = n, rg_window_start = 0, rg_count = 0\<rparr>)
       (case per_minute of
          Some n \<Rightarrow> Inr n
        | None \<Rightarrow> int_of_text (case environ of None \<Rightarrow> ''600'' | Some s \<Rightarrow> s))"

definition allow :: "real \<Rightarrow> rate_gate \<Rightarrow> bool \<times> rate_gate" where
  "allow now g =
     (if rg_per_minute g \<le> 0 then (True, g)
      else
        (let g = (if 60 \<le> now - rg_window_start g then g\<lparr>rg_window_start := now, rg_count := 0\<rparr> else g);
             g = g\<lparr>rg_count := rg_count g + 1\<rparr>
         in (rg_count g \<le> rg_per_minute g, g)))"

fun allow_all :: "real list \<Rightarrow> rate_gate \<Rightarrow> bool list \<times> rate_gate" where
  "allow_all [] g = ([], g)"
| "allow_all (t # ts) g =
     (case allow t g of (b, g) \<Rightarrow> (case allow_all ts g of (bs, g) \<Rightarrow> (b # bs, g)))"

abbreviation verdicts :: "real list \<Rightarrow> rate_gate \<Rightarrow> bool list" where
  "verdicts ts g \<equiv> fst (allow_all ts g)"

lemma verdicts_Cons: "verdicts (t # ts) g = fst (allow t g) # verdicts ts (snd (allow t g))"
  by (simp split: prod.splits)

lemma length_verdicts [simp]: "length (verdicts ts g) = length ts"
  by (induction ts arbitrary: g) (simp_all add: verdicts_Cons del: allow_all.simps(2))

section \<open>The windows a run is cut into\<close>

text \<open>Abstractly, the times fall into windows: those less than 60 seconds after the start of the
  current one, and then, from the first time that is not, those less than 60 seconds after it.\<close>

function windows :: "real list \<Rightarrow> real list list" where
  "windows [] = []"
| "windows (t # ts) =
     (t # takeWhile (\<lambda>x. x < t + 60) ts) # windows (dropWhile (\<lambda>x. x < t + 60) ts)"
  by pat_completeness auto
termination
  by (relation "measure length") (auto simp: less_Suc_eq_le length_dropWhile_le)

text \<open>The first \<open>n\<close> requests of a window are served.\<close>

definition served :: "int \<Rightarrow> nat \<Rightarrow> bool list" where
  "served n k = map (\<lambda>i. int i < n) [0..<k]"

lemma served_Suc: "served n (Suc k) = served n k @ [int k < n]"
  by (simp add: served_def)

lemma length_served [simp]: "length (served n k) = k"
  by (simp add: served_def)

lemma allow_in_window:
  assumes "0 < rg_per_minute g" "t < rg_window_start g + 60"
  shows "allow t g = (rg_count g < rg_per_minute g, g\<lparr>rg_count := rg_count g + 1\<rparr>)"
  using assms by (auto simp: allow_def)

lemma allow_new_window:
  assumes "0 < rg_per_minute g" "\<not> t < rg_window_start g + 60"
  shows "allow t g = (True, g\<lparr>rg_window_start := t, rg_count := 1\<rparr>)"
  using assms by (simp add: allow_def)

lemma verdicts_window:
  assumes "0 < rg_per_minute g" "0 \<le> rg_count g" "\<forall>t \<in> set ts. t < rg_window_start g + 60"
  shows "verdicts (ts @ us) g =
    map (\<lambda>i. rg_count g + int i < rg_per_minute g) [0..<length ts] @ verdicts us (g\<lparr>rg_count := rg_count g + int (length ts)\<rparr>)"
  using assms
proof (induction ts arbitrary: g)
  case (Cons t ts)
  let ?g = "g\<lparr>rg_count := rg_count g + 1\<rparr>"
  have a: "allow t g = (rg_count g < rg_per_minute g, ?g)" using Cons.prems by (intro allow_in_window) auto
  have "verdicts (ts @ us) ?g = map (\<lambda>i. rg_count ?g + int i < rg_per_minute ?g) [0..<length ts] @
      verdicts us (?g\<lparr>rg_count := rg_count ?g + int (length ts)\<rparr>)"
    using Cons.prems by (intro Cons.IH) auto
  moreover have "[0..<length (t # ts)] = 0 # map Suc [0..<length ts]" by (simp add: upt_conv_Cons map_Suc_upt del: upt_Suc)
  ultimately show ?case by (simp add: verdicts_Cons a comp_def ac_simps del: allow_all.simps(2) upt_Suc)
qed simp

lemma verdicts_windows:
  assumes "0 < rg_per_minute g"
  shows "ts = [] \<or> \<not> hd ts < rg_window_start g + 60 \<Longrightarrow>
    verdicts ts g = concat (map (\<lambda>w. served (rg_per_minute g) (length w)) (windows ts))"
  using assms
proof (induction ts arbitrary: g rule: windows.induct)
  case (2 t ts)
  let ?n = "rg_per_minute g" and ?g = "g\<lparr>rg_window_start := t, rg_count := 1\<rparr>"
  let ?w = "takeWhile (\<lambda>x. x < t + 60) ts" and ?r = "dropWhile (\<lambda>x. x < t + 60) ts"
  let ?h = "g\<lparr>rg_window_start := t, rg_count := 1 + int (length ?w)\<rparr>"
  have a: "allow t g = (True, ?g)" using "2.prems" by (intro allow_new_window) auto
  have "verdicts (?w @ ?r) ?g = map (\<lambda>i. rg_count ?g + int i < rg_per_minute ?g) [0..<length ?w] @
      verdicts ?r (?g\<lparr>rg_count := rg_count ?g + int (length ?w)\<rparr>)"
    using "2.prems" by (intro verdicts_window) (auto dest: set_takeWhileD)
  then have w: "verdicts ts ?g = map (\<lambda>i. 1 + int i < ?n) [0..<length ?w] @ verdicts ?r ?h"
    by simp
  have r: "verdicts ?r ?h = concat (map (\<lambda>w. served (rg_per_minute ?h) (length w)) (windows ?r))"
    using "2.prems" hd_dropWhile [of "\<lambda>x. x < t + 60" ts] by (intro "2.IH") auto
  have s: "served ?n (Suc (length ?w)) = True # map (\<lambda>i. 1 + int i < ?n) [0..<length ?w]"
    using "2.prems" by (simp add: served_def upt_conv_Cons map_Suc_upt [symmetric] comp_def ac_simps del: upt_Suc)
  show ?case by (simp add: verdicts_Cons a w r s del: allow_all.simps(2))
qed simp

text \<open>A gate just made, at the times of a clock that started at 0: the first window may have begun
  before its first request.\<close>

definition first_windows :: "real list \<Rightarrow> real list list" where
  "first_windows ts = takeWhile (\<lambda>x. x < 60) ts # windows (dropWhile (\<lambda>x. x < 60) ts)"

lemma gate_windows:
  assumes "new_gate (Some n) environ = Inr g" "0 < n"
  shows "verdicts ts g = concat (map (\<lambda>w. served n (length w)) (first_windows ts))"
proof -
  let ?w = "takeWhile (\<lambda>x. x < 60) ts" and ?r = "dropWhile (\<lambda>x. x < 60) ts"
  have g: "g = \<lparr>rg_per_minute = n, rg_window_start = 0, rg_count = 0\<rparr>" using assms by (simp add: new_gate_def)
  have "verdicts (?w @ ?r) g = map (\<lambda>i. rg_count g + int i < rg_per_minute g) [0..<length ?w] @
      verdicts ?r (g\<lparr>rg_count := rg_count g + int (length ?w)\<rparr>)"
    using assms g by (intro verdicts_window) (auto dest: set_takeWhileD)
  moreover have "verdicts ?r (g\<lparr>rg_count := rg_count g + int (length ?w)\<rparr>) =
      concat (map (\<lambda>w. served (rg_per_minute (g\<lparr>rg_count := rg_count g + int (length ?w)\<rparr>)) (length w)) (windows ?r))"
    using assms g hd_dropWhile [of "\<lambda>x. x < 60" ts] by (intro verdicts_windows) auto
  ultimately show ?thesis by (simp add: g first_windows_def served_def)
qed

section \<open>How much is let through, and when\<close>

text \<open>The requests served in the 60 seconds from \<open>lo\<close>.\<close>

definition in_minute :: "real \<Rightarrow> real \<times> bool \<Rightarrow> bool" where
  "in_minute lo xb \<longleftrightarrow> (case xb of (x, b) \<Rightarrow> b \<and> lo \<le> x \<and> x < lo + 60)"

definition admitted :: "real \<Rightarrow> real list \<Rightarrow> bool list \<Rightarrow> nat" where
  "admitted lo ts bs = length (filter (in_minute lo) (zip ts bs))"

lemma admitted_append: "length ts = length bs \<Longrightarrow> admitted lo (ts @ us) (bs @ cs) = admitted lo ts bs + admitted lo us cs"
  by (simp add: admitted_def)

lemma admitted_none: "(\<And>x. x \<in> set ts \<Longrightarrow> x < lo \<or> lo + 60 \<le> x) \<Longrightarrow> admitted lo ts bs = 0"
  by (fastforce simp: admitted_def filter_empty_conv in_minute_def dest: set_zip_leftD)

lemma count_served: "length (filter (\<lambda>b. b) (served n k)) \<le> nat n"
proof (induction k)
  case (Suc k)
  show ?case
  proof (cases "int k < n")
    case True
    have "length (filter (\<lambda>b. b) (served n k)) \<le> k" using length_filter_le [of "\<lambda>b. b" "served n k"] by simp
    then show ?thesis using True by (simp add: served_Suc)
  qed (use Suc in \<open>simp add: served_Suc\<close>)
qed (simp add: served_def)

lemma length_filter_mono: "(\<And>x. P x \<Longrightarrow> Q x) \<Longrightarrow> length (filter P xs) \<le> length (filter Q xs)"
  by (induction xs) auto

lemma filter_zip_snd: "length (filter (\<lambda>xb. snd xb) (zip ts bs)) \<le> length (filter (\<lambda>b. b) bs)"
proof (induction ts arbitrary: bs)
  case (Cons t ts)
  then show ?case by (cases bs) (auto simp: le_SucI)
qed simp

lemma admitted_served: "admitted lo ts (served n (length ts)) \<le> nat n"
proof -
  have "admitted lo ts (served n (length ts)) \<le> length (filter (\<lambda>xb. snd xb) (zip ts (served n (length ts))))"
    unfolding admitted_def by (rule length_filter_mono) (auto simp: in_minute_def split: prod.splits)
  also have "\<dots> \<le> length (filter (\<lambda>b. b) (served n (length ts)))" by (rule filter_zip_snd)
  finally show ?thesis using count_served [of n "length ts"] by simp
qed

text \<open>A window of 60 seconds from \<open>s\<close> and later windows that are bounded.\<close>

definition bounded_run :: "nat \<Rightarrow> real \<Rightarrow> real list \<Rightarrow> bool list \<Rightarrow> bool" where
  "bounded_run n s ts bs \<longleftrightarrow> (\<forall>lo. admitted lo ts bs \<le> (if lo \<le> s then n else 2 * n))"

lemma bounded_run_Cons:
  assumes w: "\<forall>x \<in> set ws. x < s + 60" and r: "\<forall>x \<in> set us. r \<le> x" "us \<noteq> [] \<Longrightarrow> s + 60 \<le> r"
    and b: "us \<noteq> [] \<Longrightarrow> bounded_run (nat n) r us cs"
  shows "bounded_run (nat n) s (ws @ us) (served n (length ws) @ cs)"
  unfolding bounded_run_def
proof
  fix lo
  have split: "admitted lo (ws @ us) (served n (length ws) @ cs) = admitted lo ws (served n (length ws)) + admitted lo us cs"
    by (rule admitted_append) simp
  have first: "admitted lo ws (served n (length ws)) \<le> nat n" by (rule admitted_served)
  show "admitted lo (ws @ us) (served n (length ws) @ cs) \<le> (if lo \<le> s then nat n else 2 * nat n)"
  proof (cases "us = []")
    case True
    then show ?thesis using split first by (simp add: admitted_def)
  next
    case us: False
    then have sr: "s + 60 \<le> r" using r by blast
    have rest: "admitted lo us cs \<le> (if lo \<le> r then nat n else 2 * nat n)" using b [OF us] by (auto simp: bounded_run_def)
    show ?thesis
    proof (cases "lo \<le> s")
      case True
      then have "x < lo \<or> lo + 60 \<le> x" if "x \<in> set us" for x using r(1) that sr by fastforce
      then show ?thesis using split first True admitted_none [of us lo cs] by simp
    next
      case False
      show ?thesis
      proof (cases "lo \<le> r")
        case True
        then show ?thesis using False split first rest by simp
      next
        case late: False
        then have "x < lo \<or> lo + 60 \<le> x" if "x \<in> set ws" for x using w that sr by fastforce
        then show ?thesis using False late split rest admitted_none [of ws lo] by simp
      qed
    qed
  qed
qed

lemma dropWhile_sorted: "sorted ts \<Longrightarrow> x \<in> set (dropWhile P ts) \<Longrightarrow> hd (dropWhile P ts) \<le> x"
  using sorted_dropWhile [of ts P] by (cases "dropWhile P ts") auto

lemma windows_bounded:
  "sorted ts \<Longrightarrow> ts \<noteq> [] \<Longrightarrow>
     bounded_run (nat n) (hd ts) ts (concat (map (\<lambda>w. served n (length w)) (windows ts)))"
proof (induction ts rule: windows.induct)
  case (2 t ts)
  let ?w = "takeWhile (\<lambda>x. x < t + 60) ts" and ?r = "dropWhile (\<lambda>x. x < t + 60) ts"
  have "bounded_run (nat n) t ((t # ?w) @ ?r) (served n (length (t # ?w)) @ concat (map (\<lambda>w. served n (length w)) (windows ?r)))"
  proof (rule bounded_run_Cons [where r = "hd ?r"])
    show "\<forall>x \<in> set (t # ?w). x < t + 60" by (auto dest: set_takeWhileD)
    show "\<forall>x \<in> set ?r. hd ?r \<le> x" using 2 dropWhile_sorted [of ts] by auto
    show "?r \<noteq> [] \<Longrightarrow> t + 60 \<le> hd ?r" using hd_dropWhile [of "\<lambda>x. x < t + 60" ts] by auto
    show "?r \<noteq> [] \<Longrightarrow> bounded_run (nat n) (hd ?r) ?r (concat (map (\<lambda>w. served n (length w)) (windows ?r)))"
      using 2 by (intro "2.IH") (auto intro: sorted_dropWhile)
  qed
  then show ?case by simp
qed simp

lemma gate_bounded:
  assumes "new_gate (Some n) environ = Inr g" "0 < n" "sorted ts"
  shows "admitted lo ts (verdicts ts g) \<le> 2 * nat n"
proof -
  let ?w = "takeWhile (\<lambda>x. x < 60) ts" and ?r = "dropWhile (\<lambda>x. x < 60) ts"
  have "bounded_run (nat n) 0 (?w @ ?r) (served n (length ?w) @ concat (map (\<lambda>w. served n (length w)) (windows ?r)))"
  proof (rule bounded_run_Cons [where r = "hd ?r"])
    show "\<forall>x \<in> set ?w. x < 0 + 60" by (auto dest: set_takeWhileD)
    show "\<forall>x \<in> set ?r. hd ?r \<le> x" using assms dropWhile_sorted by auto
    show "?r \<noteq> [] \<Longrightarrow> 0 + 60 \<le> hd ?r" using hd_dropWhile [of "\<lambda>x. x < 60" ts] by auto
    show "?r \<noteq> [] \<Longrightarrow> bounded_run (nat n) (hd ?r) ?r (concat (map (\<lambda>w. served n (length w)) (windows ?r)))"
      using assms by (intro windows_bounded) (auto intro: sorted_dropWhile)
  qed
  then have "bounded_run (nat n) 0 ts (verdicts ts g)"
    unfolding gate_windows [OF assms(1,2)] by (simp add: first_windows_def)
  then have "admitted lo ts (verdicts ts g) \<le> (if lo \<le> 0 then nat n else 2 * nat n)" unfolding bounded_run_def by (rule spec)
  then show ?thesis by (simp split: if_splits)
qed

section \<open>A refusal does not last\<close>

lemma next_window_serves:
  assumes "0 < rg_per_minute g" "j < length us" "rg_window_start g + 60 \<le> us ! j"
  shows "\<exists>i \<le> j. verdicts us g ! i"
  using assms
proof (induction us arbitrary: g j)
  case (Cons u us)
  show ?case
  proof (cases "u < rg_window_start g + 60")
    case True
    then obtain j' where j: "j = Suc j'" using Cons.prems by (cases j) auto
    have a: "allow u g = (rg_count g < rg_per_minute g, g\<lparr>rg_count := rg_count g + 1\<rparr>)"
      using True Cons.prems by (intro allow_in_window)
    have "\<exists>i \<le> j'. verdicts us (g\<lparr>rg_count := rg_count g + 1\<rparr>) ! i" using Cons.prems j by (intro Cons.IH) auto
    then obtain i where "i \<le> j'" "verdicts us (g\<lparr>rg_count := rg_count g + 1\<rparr>) ! i" by blast
    then show ?thesis using j a by (intro exI [of _ "Suc i"]) (simp add: verdicts_Cons del: allow_all.simps(2))
  next
    case False
    then have "fst (allow u g)" using Cons.prems by (simp add: allow_new_window)
    then show ?thesis by (intro exI [of _ 0]) (simp add: verdicts_Cons del: allow_all.simps(2))
  qed
qed simp

lemma refusal_ends:
  assumes "0 < rg_per_minute g" "sorted ts" "\<forall>t \<in> set ts. rg_window_start g \<le> t"
    "k < j" "j < length ts" "\<not> verdicts ts g ! k" "ts ! k + 60 \<le> ts ! j"
  shows "\<exists>i. k < i \<and> i \<le> j \<and> verdicts ts g ! i"
  using assms
proof (induction ts arbitrary: g k j)
  case (Cons t ts)
  obtain j' where j: "j = Suc j'" using Cons.prems by (cases j) auto
  let ?g = "snd (allow t g)"
  have pm: "rg_per_minute ?g = rg_per_minute g" by (simp add: allow_def Let_def)
  have ws: "rg_window_start ?g = rg_window_start g \<or> rg_window_start ?g = t" by (simp add: allow_def Let_def)
  show ?case
  proof (cases k)
    case 0
    then have refused: "\<not> fst (allow t g)" using Cons.prems by (simp add: verdicts_Cons del: allow_all.simps(2))
    have "rg_window_start ?g + 60 \<le> ts ! j'" using Cons.prems 0 j ws by auto
    then have "\<exists>i \<le> j'. verdicts ts ?g ! i" using Cons.prems j pm by (intro next_window_serves) auto
    then obtain i where "i \<le> j'" "verdicts ts ?g ! i" by blast
    then show ?thesis using 0 j by (intro exI [of _ "Suc i"]) (simp add: verdicts_Cons del: allow_all.simps(2))
  next
    case (Suc k')
    have "\<exists>i. k' < i \<and> i \<le> j' \<and> verdicts ts ?g ! i"
      using Cons.prems Suc j pm ws
      by (intro Cons.IH) (auto simp: verdicts_Cons simp del: allow_all.simps(2))
    then obtain i where "k' < i" "i \<le> j'" "verdicts ts ?g ! i" by blast
    then show ?thesis using Suc j by (intro exI [of _ "Suc i"]) (simp add: verdicts_Cons del: allow_all.simps(2))
  qed
qed simp

section \<open>Properties\<close>

text \<open>
  C30. The gate refines the windows: whatever the times, it serves of each window of 60 seconds the
  first \<open>per_minute\<close> requests and refuses the others.
\<close>

theorem rate_gate_refines_windows:
  assumes "new_gate (Some n) environ = Inr g" "0 < n"
  shows "verdicts ts g = concat (map (\<lambda>w. served n (length w)) (first_windows ts))"
  using assms by (rule gate_windows)

definition demo_gate :: rate_gate where
  "demo_gate = \<lparr>rg_per_minute = 1, rg_window_start = 0, rg_count = 0\<rparr>"

lemma demo_gate_new: "new_gate (Some 1) None = Inr demo_gate"
  by (simp add: new_gate_def demo_gate_def)

theorem rate_gate_refines_windows_witness: "verdicts [1, 2, 70] demo_gate = [True, False, True]"
  using rate_gate_refines_windows [OF demo_gate_new, of "[1, 2, 70]"] by (simp add: first_windows_def served_def)

text \<open>
  C31. With a clock that does not run backwards, at most twice \<open>per_minute\<close> requests are served in
  any 60 seconds, wherever they start: a fixed window lets through a full count at the end of one
  window and another at the start of the next, and never more.
\<close>

theorem rate_gate_bound:
  assumes "new_gate (Some n) environ = Inr g" "0 < n" "sorted ts"
  shows "int (length (filter (\<lambda>(t, b). b \<and> lo \<le> t \<and> t < lo + 60) (zip ts (verdicts ts g)))) \<le> 2 * n"
proof -
  have "in_minute lo = (\<lambda>(t, b). b \<and> lo \<le> t \<and> t < lo + 60)" by (auto simp: in_minute_def fun_eq_iff)
  then show ?thesis using gate_bounded [OF assms, of lo] assms(2) by (simp add: admitted_def)
qed

theorem rate_gate_bound_witness:
  "int (length (filter (\<lambda>(t, b). b \<and> 50 \<le> t \<and> t < 50 + 60) (zip [59 :: real, 60, 61] (verdicts [59, 60, 61] demo_gate)))) \<le> 2 * 1 \<and>
   verdicts [59, 60, 61] demo_gate = [True, True, False]"
proof
  show "int (length (filter (\<lambda>(t, b). b \<and> 50 \<le> t \<and> t < 50 + 60) (zip [59 :: real, 60, 61] (verdicts [59, 60, 61] demo_gate)))) \<le> 2 * 1"
    by (rule rate_gate_bound [OF demo_gate_new]) simp_all
  show "verdicts [59, 60, 61] demo_gate = [True, True, False]" by (simp add: demo_gate_def allow_def)
qed

text \<open>
  C32. No client is shut out for good: after a refusal, by the time a request comes 60 seconds later,
  it or a request in between is served.
\<close>

theorem rate_gate_recovers:
  assumes "0 < rg_per_minute g" "sorted ts" "\<forall>t \<in> set ts. rg_window_start g \<le> t"
    "k < j" "j < length ts" "\<not> verdicts ts g ! k" "ts ! k + 60 \<le> ts ! j"
  shows "\<exists>i. k < i \<and> i \<le> j \<and> verdicts ts g ! i"
  using assms by (rule refusal_ends)

theorem rate_gate_recovers_witness: "\<exists>i. 1 < i \<and> i \<le> 2 \<and> verdicts [1, 2, 70] demo_gate ! i"
  by (rule rate_gate_recovers) (simp_all add: demo_gate_def allow_def)

end
