(* ===== verification/Hosted.thy ===== *)
theory Hosted
  imports Hosted_Verify Rate_Gate "HOL-Library.AList"
begin

text \<open>
  The server around the verification, \<open>src/hosted_profiles/hosted.py\<close>: the anonymous counters, the
  look-up of a capsule at the anchor, and the two wrappers that route requests, the handler of
  \<open>http.server\<close> and the ASGI application. Pages and scripts are constructors; the host name of a
  URL, the network and \<open>json.loads\<close> are parameters of an environment.
\<close>

section \<open>Text\<close>

text \<open>\<open>s.strip(c)\<close> and its one-sided forms for one character, \<open>s.split(c)\<close>, \<open>c.join(parts)\<close>.\<close>

definition lstrip_char :: "char \<Rightarrow> string \<Rightarrow> string" where
  "lstrip_char c s = dropWhile (\<lambda>d. d = c) s"

definition rstrip_char :: "char \<Rightarrow> string \<Rightarrow> string" where
  "rstrip_char c s = rev (dropWhile (\<lambda>d. d = c) (rev s))"

fun split_char :: "char \<Rightarrow> string \<Rightarrow> string list" where
  "split_char c [] = [[]]"
| "split_char c (d # s) =
     (if d = c then [] # split_char c s
      else (case split_char c s of [] \<Rightarrow> [[d]] | p # ps \<Rightarrow> (d # p) # ps))"

definition to_lower :: "char \<Rightarrow> char" where
  "to_lower c = (let n = of_char c :: nat in if 65 \<le> n \<and> n \<le> 90 then char_of (n + 32) else c)"

text \<open>\<open>_esc\<close> of the pages.\<close>

definition esc :: "string \<Rightarrow> string" where
  "esc s =
     concat (map (\<lambda>c. if c = CHR ''&'' then ''&amp;'' else if c = CHR ''<'' then ''&lt;''
                      else if c = CHR ''>'' then ''&gt;'' else [c]) s)"

section \<open>The environment and the state\<close>

datatype fetch_exn = HTTP_Error int | Fetch_Failed string

record environment =
  ev_hostname :: "string \<Rightarrow> py_exn + string option"
  ev_fetch :: "string \<Rightarrow> fetch_exn + json"
  ev_loads :: "bytes \<Rightarrow> string + json"

record server =
  sv_gate :: rate_gate
  sv_requests :: int
  sv_views :: int
  sv_referrers :: "(string \<times> int) list"

section \<open>Counters\<close>

definition OWN_HOSTS :: "string list" where
  "OWN_HOSTS = [''verify.agentactioncapsule.org'', ''verify.actionstate.ai'', ''localhost'', ''127.0.0.1'']"

definition referrer_domain :: "(string \<Rightarrow> py_exn + string option) \<Rightarrow> string \<Rightarrow> string option" where
  "referrer_domain hostname referer =
     (if referer = [] then None
      else
        (case hostname referer of
           Inl _ \<Rightarrow> None
         | Inr h \<Rightarrow>
             (let host = (case h of None \<Rightarrow> [] | Some s \<Rightarrow> s)
              in if host = [] \<or> host \<in> set OWN_HOSTS then None
                 else
                   (let parts = split_char CHR ''.'' (rstrip_char CHR ''.'' host)
                    in Some (if 2 \<le> length parts then joined ''.'' (drop (length parts - 2) parts) else host)))))"

definition instrument_capsule_view :: "(string \<Rightarrow> py_exn + string option) \<Rightarrow> string \<Rightarrow> server \<Rightarrow> server" where
  "instrument_capsule_view hostname referer sv =
     (let sv = sv\<lparr>sv_views := sv_views sv + 1\<rparr>
      in case referrer_domain hostname referer of
           None \<Rightarrow> sv
         | Some [] \<Rightarrow> sv
         | Some domain \<Rightarrow>
             sv\<lparr>sv_referrers :=
               AList.update domain ((case map_of (sv_referrers sv) domain of None \<Rightarrow> 0 | Some n \<Rightarrow> n) + 1) (sv_referrers sv)\<rparr>)"

section \<open>Capsules\<close>

text \<open>\<open>_capsule_id_from_path\<close>; the digits of either case become lower case.\<close>

definition capsule_id_from_path :: "string \<Rightarrow> string \<Rightarrow> string option" where
  "capsule_id_from_path path pre =
     (let stripped = lstrip_char CHR ''/'' path;
          pre = lstrip_char CHR ''/'' pre
      in if \<not> prefix pre stripped then None
         else
           (let cid = rstrip_char CHR ''/'' (lstrip_char CHR ''/'' (drop (length pre) stripped))
            in if hex64_text cid then Some (map to_lower cid) else None))"

text \<open>\<open>_capsule_has_hitl\<close>: a person disposed of the action.\<close>

definition capsule_has_hitl :: "json \<Rightarrow> profile_exn + bool" where
  "capsule_has_hitl cap =
     (let disposition = (case as_obj (unwrap cap) of None \<Rightarrow> JNull | Some d \<Rightarrow> jget d ''disposition'')
      in if \<not> json_true disposition then Inr False
         else
           rmap (\<lambda>d. jget d ''human_disposed'' = JBool True \<or> jget d ''approver'' = JStr ''human'') (obj_of disposition))"

text \<open>\<open>_capsule_has_sd\<close>: something is withheld. The operands of \<open>or\<close> are evaluated in turn.\<close>

fun any_evidence :: "json list \<Rightarrow> profile_exn + bool" where
  "any_evidence [] = Inr False"
| "any_evidence (c # cs) =
     rbind (get_or c ''evidence_digest'' JNull) (\<lambda>v. if json_true v then Inr True else any_evidence cs)"

definition capsule_has_sd :: "json \<Rightarrow> profile_exn + bool" where
  "capsule_has_sd cap =
     (case as_obj (unwrap cap) of
        None \<Rightarrow> Inr False
      | Some d \<Rightarrow>
          rbind (compute_attestation d) (\<lambda>ca.
          if json_true (jget d ''withheld_commitments'') then Inr True
          else
            rbind (raised (json_iter (py_or (jget d ''constraints'') (JList [])))) (\<lambda>cs.
            rbind (any_evidence cs) (\<lambda>b.
            if b then Inr True
            else
              rmap (\<lambda>ca. is_hex64 (jget_or ca ''agent_input_digest'' (JStr [])) \<or>
                         is_hex64 (jget_or ca ''agent_output_digest'' (JStr []))) (obj_of ca)))))"

text \<open>\<open>_render_reg_panel\<close>: the properties whose rows are shown, sorted by name.\<close>

definition active_props :: "bool \<Rightarrow> bool \<Rightarrow> bool \<Rightarrow> string list" where
  "active_props has_receipt has_hitl has_withheld =
     (if has_withheld then [''disclosure-transparency-record''] else []) @
     (if has_hitl then [''human-oversight-record''] else []) @
     [''per-action-attribution''] @
     (if has_receipt then [''tamper-evident-log''] else [])"

section \<open>The anchor\<close>

definition ANCHOR_BASE :: string where
  "ANCHOR_BASE = ''https://anchor.agentactioncapsule.org''"

definition ed25519_hex_to_pem :: "string \<Rightarrow> py_exn + string" where
  "ed25519_hex_to_pem raw_hex =
     rbind (fromhex raw_hex) (\<lambda>raw.
     rmap (\<lambda>header.
       ''-----BEGIN PUBLIC KEY-----'' @ [char_of (10 :: nat)] @ b64encode (header @ raw) @ [char_of (10 :: nat)] @
       ''-----END PUBLIC KEY-----'' @ [char_of (10 :: nat)])
       (fromhex ''302a300506032b6570032100''))"

datatype anchor_fault = Anchor_Http int | Anchor_Failed string | Anchor_Raised profile_exn

record anchor_status =
  an_capsule_id :: string
  an_anchored :: bool
  an_receipt_verified :: bool
  an_log_index :: json
  an_leaf_index :: json
  an_tree_size :: json
  an_error :: "anchor_fault option"
  an_rung :: "string option"
  an_receipt_errors :: "receipt_finding list option"
  an_verify_error :: "anchor_fault option"

definition new_status :: "string \<Rightarrow> anchor_status" where
  "new_status capsule_id =
     \<lparr>an_capsule_id = capsule_id, an_anchored = False, an_receipt_verified = False, an_log_index = JNull,
      an_leaf_index = JNull, an_tree_size = JNull, an_error = None, an_rung = Some ''standalone'',
      an_receipt_errors = None, an_verify_error = None\<rparr>"

text \<open>\<open>len(v)\<close>\<close>

fun json_len :: "json \<Rightarrow> py_exn + nat" where
  "json_len (JStr s) = Inr (length (utf8_chars s))"
| "json_len (JList xs) = Inr (length xs)"
| "json_len (JObj d) = Inr (length d)"
| "json_len _ = Inl TypeError"

definition fetched :: "fetch_exn + 'a \<Rightarrow> anchor_fault + 'a" where
  "fetched r =
     (case r of Inl (HTTP_Error n) \<Rightarrow> Inl (Anchor_Http n) | Inl (Fetch_Failed e) \<Rightarrow> Inl (Anchor_Failed e) | Inr x \<Rightarrow> Inr x)"

definition an_raised :: "profile_exn + 'a \<Rightarrow> anchor_fault + 'a" where
  "an_raised r = (case r of Inl e \<Rightarrow> Inl (Anchor_Raised e) | Inr x \<Rightarrow> Inr x)"

text \<open>The inner \<open>try\<close>: the receipt is checked under the key the anchor publishes.\<close>

definition anchor_receipt ::
    "environment \<Rightarrow> cbor2_lib \<Rightarrow> 'k crypto_lib \<Rightarrow> json \<Rightarrow> json \<Rightarrow> anchor_fault + receipt_result option" where
  "anchor_receipt env L K receipt_b64 entry_hash =
     rbind (fetched (ev_fetch env (ANCHOR_BASE @ ''/anchor/authority-pubkey''))) (\<lambda>pubkey_data.
     rbind (an_raised (get_or pubkey_data ''pubkey_hex'' (JStr []))) (\<lambda>pubkey_hex.
     rbind (an_raised (raised (json_len pubkey_hex))) (\<lambda>n.
     if n \<noteq> 64 then Inr None
     else
       rbind (an_raised (raised (case as_str pubkey_hex of None \<Rightarrow> Inl TypeError | Some s \<Rightarrow> ed25519_hex_to_pem s))) (\<lambda>log_pem.
       rbind (an_raised (raised (case as_str receipt_b64 of None \<Rightarrow> Inl TypeError | Some s \<Rightarrow> b64decode (s @ ''==''))))
         (\<lambda>receipt_bytes.
       case receipt_with_leaf L K receipt_bytes entry_hash (JStr log_pem) of
         Inl e \<Rightarrow> Inl (Anchor_Failed e)
       | Inr vr \<Rightarrow> Inr (Some vr))))))"

definition VISIBILITY_TO_RUNG :: "string \<Rightarrow> string option" where
  "VISIBILITY_TO_RUNG = [''local'' \<mapsto> ''local-anchored'', ''counterparty'' \<mapsto> ''counterparty-visible'', ''public'' \<mapsto> ''publicly-anchored'']"

definition rung_of :: "json \<Rightarrow> string" where
  "rung_of visibility =
     (case as_str visibility of
        None \<Rightarrow> ''publicly-anchored''
      | Some s \<Rightarrow> (case VISIBILITY_TO_RUNG s of None \<Rightarrow> ''publicly-anchored'' | Some r \<Rightarrow> r))"

definition anchor_proxy ::
    "environment \<Rightarrow> cbor2_lib \<Rightarrow> 'k crypto_lib \<Rightarrow> string \<Rightarrow> anchor_status" where
  "anchor_proxy env L K capsule_id =
     (let st = new_status capsule_id;
          failed = (\<lambda>e st. st\<lparr>an_error := Some e, an_rung := None\<rparr>)
      in case ev_fetch env (ANCHOR_BASE @ ''/v1/inclusion/'' @ capsule_id) of
           Inl (HTTP_Error n) \<Rightarrow> (if n = 404 then st else failed (Anchor_Http n) st)
         | Inl (Fetch_Failed e) \<Rightarrow> failed (Anchor_Failed e) st
         | Inr inclusion \<Rightarrow>
             (let st = st\<lparr>an_anchored := True\<rparr>
              in case as_obj inclusion of
                   None \<Rightarrow> failed (Anchor_Raised Attribute_Error) st
                 | Some d \<Rightarrow>
                     (let st = st\<lparr>an_leaf_index := jget d ''leaf_index'', an_tree_size := jget d ''tree_size'',
                                 an_log_index := jget d ''leaf_index''\<rparr>
                      in if unhashable (jget d ''visibility'') then failed (Anchor_Raised (Raised TypeError)) st
                         else
                           (let st = st\<lparr>an_rung := Some (rung_of (jget d ''visibility''))\<rparr>;
                                receipt_b64 = jget_or d ''receipt_b64'' (JStr []);
                                entry_hash = jget_or d ''entry_hash'' (JStr [])
                            in if json_true receipt_b64 \<and> json_true entry_hash then
                                 (case anchor_receipt env L K receipt_b64 entry_hash of
                                    Inl e \<Rightarrow> st\<lparr>an_verify_error := Some e\<rparr>
                                  | Inr None \<Rightarrow> st
                                  | Inr (Some vr) \<Rightarrow>
                                      st\<lparr>an_receipt_verified := r_ok vr,
                                         an_receipt_errors := (if r_ok vr then None else Some (r_errors vr))\<rparr>)
                               else st))))"

end
