(* ===== verification/Hosted_Routes.thy ===== *)
theory Hosted_Routes
  imports Hosted
begin

text \<open>
  The two wrappers of \<open>src/hosted_profiles/hosted.py\<close>: \<open>make_handler\<close> for \<open>http.server\<close> and
  \<open>make_asgi_app\<close>. A response is a status and a content; the content decides the headers. What a page
  or a script contains is not modelled, only which one is served. The last sections compare the two
  and say what a \<open>POST\<close> can be answered with.
\<close>

section \<open>Responses\<close>

datatype content =
    Health | Script string | Bundle_Page bool | Landing_Page | Capabilities | Instrumentation_Policy
  | Capsule_Page string | Anchor_Page anchor_status | Error_Page string
  | Rate_Limited | Body_Too_Large | Verdict_Page verdict

record response =
  hr_status :: int
  hr_content :: content

definition respond :: "int \<Rightarrow> content \<Rightarrow> response" where
  "respond code c = \<lparr>hr_status = code, hr_content = c\<rparr>"

text \<open>A word in single quotes.\<close>

definition csp_word :: "string \<Rightarrow> string" where
  "csp_word s = [char_of (39 :: nat)] @ s @ [char_of (39 :: nat)]"

definition SECURITY_HEADERS :: "(string \<times> string) list" where
  "SECURITY_HEADERS =
     [(''Strict-Transport-Security'', ''max-age=31536000; includeSubDomains''),
      (''X-Content-Type-Options'', ''nosniff''),
      (''X-Frame-Options'', ''DENY''),
      (''Content-Security-Policy'',
       ''default-src '' @ csp_word ''none'' @ ''; script-src '' @ csp_word ''self'' @
       ''; connect-src '' @ csp_word ''self'' @ ''; style-src '' @ csp_word ''unsafe-inline'' @
       ''; img-src '' @ csp_word ''none'' @ ''; frame-ancestors '' @ csp_word ''none'' @
       ''; base-uri '' @ csp_word ''none'' @ ''; form-action '' @ csp_word ''self''),
      (''Referrer-Policy'', ''no-referrer'')]"

text \<open>\<open>_send_json\<close>, \<open>_send_html\<close> and \<open>_send_js\<close> differ in the content type. \<open>size\<close> is the number of
  octets of the body.\<close>

fun content_type :: "content \<Rightarrow> string" where
  "content_type (Script name) = ''application/javascript; charset=utf-8''"
| "content_type (Bundle_Page offline) = ''text/html; charset=utf-8''"
| "content_type Landing_Page = ''text/html; charset=utf-8''"
| "content_type (Capsule_Page cid) = ''text/html; charset=utf-8''"
| "content_type c = ''application/json''"

definition handler_headers :: "nat \<Rightarrow> content \<Rightarrow> (string \<times> string) list" where
  "handler_headers n c =
     [(''Content-Type'', content_type c), (''Content-Length'', nat_text n), (''Cache-Control'', ''no-store'')] @
     SECURITY_HEADERS"

definition asgi_headers :: "content \<Rightarrow> (string \<times> string) list" where
  "asgi_headers c =
     [(''content-type'', content_type c), (''cache-control'', ''no-store'')] @
     map (\<lambda>(name, v). (map to_lower name, v)) SECURITY_HEADERS"

section \<open>The handler\<close>

definition text_in :: "string \<Rightarrow> string \<Rightarrow> bool" where
  "text_in needle s \<longleftrightarrow> sublist needle s"

definition header_text :: "string option \<Rightarrow> string" where
  "header_text x = (case x of None \<Rightarrow> [] | Some s \<Rightarrow> s)"

text \<open>\<open>do_GET\<close>: the path as the request line has it, the headers \<open>Accept\<close> and \<open>Referer\<close>.\<close>

record get_request =
  gq_path :: string
  gq_accept :: "string option"
  gq_referer :: "string option"

definition do_get ::
    "environment \<Rightarrow> cbor2_lib \<Rightarrow> 'k crypto_lib \<Rightarrow> server \<Rightarrow> get_request \<Rightarrow> response \<times> server" where
  "do_get env L K sv q =
     (let path = gq_path q;
          trimmed = rstrip_char CHR ''/'' path
      in if trimmed = ''/health'' \<or> trimmed = ''/healthz'' then (respond 200 Health, sv)
         else if path = ''/static/verify.js'' then (respond 200 (Script ''verify.js''), sv)
         else if path = ''/static/aac-crypto.js'' then (respond 200 (Script ''aac-crypto.js''), sv)
         else if path = ''/static/capsule.js'' then (respond 200 (Script ''capsule.js''), sv)
         else if path = ''/static/mmr.js'' then (respond 200 (Script ''mmr.js''), sv)
         else if path = ''/static/bundle.js'' then (respond 200 (Script ''bundle.js''), sv)
         else if path = ''/static/witness-check.js'' then (respond 200 (Script ''witness-check.js''), sv)
         else if path = ''/static/witness-list.js'' then (respond 200 (Script ''witness-list.js''), sv)
         else if trimmed = ''/bundle'' then (respond 200 (Bundle_Page False), sv)
         else if path = ''/bundle/offline-shell'' then (respond 200 (Bundle_Page True), sv)
         else if trimmed = [] \<or> trimmed = ''/verify'' then
           (if text_in ''text/html'' (header_text (gq_accept q)) then (respond 200 Landing_Page, sv)
            else (respond 200 Capabilities, sv))
         else if path = ''/instrumentation-policy'' then (respond 200 Instrumentation_Policy, sv)
         else
           (case capsule_id_from_path path ''v/'' of
              Some cid \<Rightarrow>
                (respond 200 (Capsule_Page cid), instrument_capsule_view (ev_hostname env) (header_text (gq_referer q)) sv)
            | None \<Rightarrow>
                (case capsule_id_from_path path ''anchor-status/'' of
                   Some cid \<Rightarrow> (respond 200 (Anchor_Page (anchor_proxy env L K cid)), sv)
                 | None \<Rightarrow> (respond 404 (Error_Page ''not found''), sv))))"

text \<open>\<open>do_POST\<close>: the path, the header \<open>Content-Length\<close> and what the connection will still deliver.
  \<open>rfile\<close> is a \<open>BufferedReader\<close>: \<open>read(-1)\<close> reads to the end, any length below raises
  \<open>ValueError\<close>. An exception ends the request without an answer.\<close>

record post_request =
  pq_path :: string
  pq_length :: "string option"
  pq_stream :: bytes

definition read_stream :: "int \<Rightarrow> bytes \<Rightarrow> py_exn + bytes" where
  "read_stream n stream =
     (if n < - 1 then Inl ValueError
      else if n = - 1 then Inr stream
      else Inr (take (nat n) stream))"

definition answer :: "verdict \<Rightarrow> response" where
  "answer v = respond (case v of Bad_Request rs \<Rightarrow> 400 | Verdict valid st rc rs \<Rightarrow> 200) (Verdict_Page v)"

definition do_post ::
    "environment \<Rightarrow> cbor2_lib \<Rightarrow> 'k crypto_lib \<Rightarrow> real \<Rightarrow> server \<Rightarrow> post_request \<Rightarrow> (py_exn + response) \<times> server" where
  "do_post env L K now sv q =
     (if rstrip_char CHR ''/'' (pq_path q) \<noteq> ''/verify'' then (Inr (respond 404 (Error_Page ''POST /verify'')), sv)
      else
        (let (allowed, gate) = allow now (sv_gate sv);
             sv = sv\<lparr>sv_gate := gate\<rparr>
         in if \<not> allowed then (Inr (respond 429 Rate_Limited), sv)
            else
              (case int_of_text (case pq_length q of None \<Rightarrow> ''0'' | Some s \<Rightarrow> if s = [] then ''0'' else s) of
                 Inl e \<Rightarrow> (Inl e, sv)
               | Inr n \<Rightarrow>
                   if n > 1000000 then (Inr (respond 413 Body_Too_Large), sv)
                   else
                     (case read_stream n (pq_stream q) of
                        Inl e \<Rightarrow> (Inl e, sv)
                      | Inr body \<Rightarrow>
                          (Inr (answer (verify_request_bytes (ev_loads env) L K body)),
                           sv\<lparr>sv_requests := sv_requests sv + 1\<rparr>)))))"

section \<open>The ASGI application\<close>

text \<open>Lifespan events are answered until the shutdown; the value says whether the application has
  returned.\<close>

fun lifespan :: "string list \<Rightarrow> string list \<times> bool" where
  "lifespan [] = ([], False)"
| "lifespan (m # ms) =
     (if m = ''lifespan.startup'' then
        (case lifespan ms of (sent, ended) \<Rightarrow> (''lifespan.startup.complete'' # sent, ended))
      else if m = ''lifespan.shutdown'' then ([''lifespan.shutdown.complete''], True)
      else lifespan ms)"

record scope =
  sc_method :: string
  sc_path :: string
  sc_root :: string
  sc_headers :: "(string \<times> string) list"

definition accepts_html :: "scope \<Rightarrow> bool" where
  "accepts_html sc \<longleftrightarrow> (\<exists>(name, v) \<in> set (sc_headers sc). name = ''accept'' \<and> text_in ''text/html'' v)"

text \<open>The last \<open>referer\<close> counts. The host name of the environment is that of the decoded header.\<close>

definition asgi_referer :: "scope \<Rightarrow> string" where
  "asgi_referer sc = header_text (map_of (rev (sc_headers sc)) ''referer'')"

definition asgi_path :: "scope \<Rightarrow> string" where
  "asgi_path sc =
     (let path = sc_path sc;
          path = (if sc_root sc \<noteq> [] \<and> prefix (sc_root sc) path then drop (length (sc_root sc)) path else path);
          path = rstrip_char CHR ''/'' path
      in if path = [] then ''/'' else path)"

text \<open>The \<open>GET\<close> routes; \<open>None\<close> when none applies.\<close>

definition asgi_get ::
    "environment \<Rightarrow> cbor2_lib \<Rightarrow> 'k crypto_lib \<Rightarrow> server \<Rightarrow> scope \<Rightarrow> (response \<times> server) option" where
  "asgi_get env L K sv sc =
     (let path = asgi_path sc
      in if path = ''/health'' \<or> path = ''/healthz'' then Some (respond 200 Health, sv)
         else if path = ''/static/verify.js'' then Some (respond 200 (Script ''verify.js''), sv)
         else if path = ''/static/aac-crypto.js'' then Some (respond 200 (Script ''aac-crypto.js''), sv)
         else if path = ''/static/capsule.js'' then Some (respond 200 (Script ''capsule.js''), sv)
         else if path = ''/static/mmr.js'' then Some (respond 200 (Script ''mmr.js''), sv)
         else if path = ''/static/bundle.js'' then Some (respond 200 (Script ''bundle.js''), sv)
         else if path = ''/static/witness-check.js'' then Some (respond 200 (Script ''witness-check.js''), sv)
         else if path = ''/static/witness-list.js'' then Some (respond 200 (Script ''witness-list.js''), sv)
         else if path = ''/bundle'' then Some (respond 200 (Bundle_Page False), sv)
         else if path = ''/bundle/offline-shell'' then Some (respond 200 (Bundle_Page True), sv)
         else if path = ''/'' \<or> path = ''/verify'' then
           Some (respond 200 (if accepts_html sc then Landing_Page else Capabilities), sv)
         else if path = ''/instrumentation-policy'' then Some (respond 200 Instrumentation_Policy, sv)
         else
           (case capsule_id_from_path path ''v/'' of
              Some cid \<Rightarrow>
                Some (respond 200 (Capsule_Page cid), instrument_capsule_view (ev_hostname env) (asgi_referer sc) sv)
            | None \<Rightarrow>
                (case capsule_id_from_path path ''anchor-status/'' of
                   Some cid \<Rightarrow> Some (respond 200 (Anchor_Page (anchor_proxy env L K cid)), sv)
                 | None \<Rightarrow> None)))"

text \<open>The body comes in messages: the octets of each and whether it announces that more follow. The type
  of a message is not looked at, so one without either, such as a disconnect, is an empty last piece.
  \<open>None\<close> is an application that still waits, \<open>Some None\<close> a body over the limit.\<close>

fun read_body :: "bytes \<Rightarrow> (bytes \<times> bool) list \<Rightarrow> bytes option option" where
  "read_body body [] = None"
| "read_body body ((chunk, follows) # ms) =
     (let body = body @ chunk
      in if 1000000 < length body then Some None
         else if \<not> follows then Some (Some body)
         else read_body body ms)"

definition asgi_http ::
    "environment \<Rightarrow> cbor2_lib \<Rightarrow> 'k crypto_lib \<Rightarrow> real \<Rightarrow> server \<Rightarrow> scope \<Rightarrow> (bytes \<times> bool) list \<Rightarrow>
     response option \<times> server" where
  "asgi_http env L K now sv sc messages =
     (case (if sc_method sc = ''GET'' then asgi_get env L K sv sc else None) of
        Some (r, sv) \<Rightarrow> (Some r, sv)
      | None \<Rightarrow>
          if sc_method sc \<noteq> ''POST'' \<or> asgi_path sc \<noteq> ''/verify'' then
            (Some (respond 404 (Error_Page ''POST /verify'')), sv)
          else
            (let (allowed, gate) = allow now (sv_gate sv);
                 sv = sv\<lparr>sv_gate := gate\<rparr>
             in if \<not> allowed then (Some (respond 429 Rate_Limited), sv)
                else
                  (case read_body [] messages of
                     None \<Rightarrow> (None, sv)
                   | Some None \<Rightarrow> (Some (respond 413 Body_Too_Large), sv)
                   | Some (Some body) \<Rightarrow> (Some (answer (verify_request_bytes (ev_loads env) L K body)), sv))))"

section \<open>The two wrappers compared\<close>

text \<open>A request as both see it. The application may be mounted below a prefix, which the scope's path
  then begins with; the handler's path is as the request line has it, so it has no query and no
  escapes.\<close>

definition same_request :: "get_request \<Rightarrow> scope \<Rightarrow> bool" where
  "same_request q sc \<longleftrightarrow> sc_path sc = sc_root sc @ gq_path q \<and> sc_method sc = ''GET'' \<and>
     accepts_html sc = text_in ''text/html'' (header_text (gq_accept q)) \<and> asgi_referer sc = header_text (gq_referer q)"

text \<open>The path without slashes at its end; the root keeps its slash.\<close>

definition slashless :: "string \<Rightarrow> string" where
  "slashless path = (let p = rstrip_char CHR ''/'' path in if p = [] then ''/'' else p)"

text \<open>What the application answers where the handler answers \<open>x\<close>: the same, but the message of a 404.\<close>

definition as_asgi :: "server \<Rightarrow> response \<times> server \<Rightarrow> response option \<times> server" where
  "as_asgi sv x =
     (if hr_status (fst x) = 404 then (Some (respond 404 (Error_Page ''POST /verify'')), sv)
      else (Some (fst x), snd x))"

lemma rstrip_slash [simp]: "rstrip_char c (rstrip_char c s) = rstrip_char c s"
  by (simp add: rstrip_char_def dropWhile_idem)

lemma rstrip_slashless: "rstrip_char CHR ''/'' (slashless path) = (if slashless path = ''/'' then [] else slashless path)"
proof (cases "rstrip_char CHR ''/'' path = []")
  case True
  then show ?thesis by (simp add: slashless_def Let_def) (simp add: rstrip_char_def)
next
  case False
  have "rstrip_char CHR ''/'' ''/'' = []" by (simp add: rstrip_char_def)
  with False have "rstrip_char CHR ''/'' path \<noteq> ''/''" by (metis rstrip_slash)
  with False show ?thesis by (simp add: slashless_def Let_def)
qed

lemma slashless_not_Nil: "slashless path \<noteq> []"
  by (simp add: slashless_def Let_def)

lemma capsule_id_root: "capsule_id_from_path ''/'' pre = None"
  by (cases "lstrip_char CHR ''/'' pre")
    (auto simp: capsule_id_from_path_def lstrip_char_def rstrip_char_def hex64_text_def)

lemma asgi_path_slashless: "same_request q sc \<Longrightarrow> asgi_path sc = slashless (gq_path q)"
  by (auto simp: same_request_def asgi_path_def slashless_def Let_def)

lemma routes_agree:
  assumes "same_request q sc"
  shows "asgi_get env L K sv sc =
    (let x = do_get env L K sv (q\<lparr>gq_path := slashless (gq_path q)\<rparr>)
     in if hr_status (fst x) = 404 then None else Some x)"
proof -
  have p: "asgi_path sc = slashless (gq_path q)" by (rule asgi_path_slashless [OF assms])
  have q: "gq_path (q\<lparr>gq_path := p\<rparr>) = p" "gq_accept (q\<lparr>gq_path := p\<rparr>) = gq_accept q"
    "gq_referer (q\<lparr>gq_path := p\<rparr>) = gq_referer q" for p by simp_all
  have h: "accepts_html sc = text_in ''text/html'' (header_text (gq_accept q))" "asgi_referer sc = header_text (gq_referer q)"
    using assms by (simp_all add: same_request_def)
  show ?thesis unfolding asgi_get_def do_get_def Let_def p q h rstrip_slashless using slashless_not_Nil
    by (simp add: respond_def capsule_id_root split: option.split)
qed

lemma wrappers_agree:
  assumes "same_request q sc"
  shows "asgi_http env L K now sv sc messages = as_asgi sv (do_get env L K sv (q\<lparr>gq_path := slashless (gq_path q)\<rparr>))"
  using assms routes_agree [OF assms, of env L K sv]
  by (cases "do_get env L K sv (q\<lparr>gq_path := slashless (gq_path q)\<rparr>)")
    (simp add: asgi_http_def as_asgi_def Let_def same_request_def)

text \<open>The paths the handler compares as they are.\<close>

definition exact_routes :: "string list" where
  "exact_routes =
     [''/static/verify.js'', ''/static/aac-crypto.js'', ''/static/capsule.js'', ''/static/mmr.js'', ''/static/bundle.js'',
      ''/static/witness-check.js'', ''/static/witness-list.js'', ''/bundle/offline-shell'', ''/instrumentation-policy'']"

lemma exact_routes_no_capsule:
  assumes "path \<in> set exact_routes"
  shows "capsule_id_from_path (path @ ''/'') ''v/'' = None" "capsule_id_from_path (path @ ''/'') ''anchor-status/'' = None"
proof -
  have "\<forall>p \<in> set exact_routes. hd p = CHR ''/'' \<and> hd (tl p) \<in> {CHR ''s'', CHR ''b'', CHR ''i''} \<and> tl p \<noteq> []"
    by (simp add: exact_routes_def)
  then have "hd path = CHR ''/''" "hd (tl path) \<in> {CHR ''s'', CHR ''b'', CHR ''i''}" "tl path \<noteq> []" using assms by auto
  then obtain c cs where "path = CHR ''/'' # c # cs" "c \<in> {CHR ''s'', CHR ''b'', CHR ''i''}"
    by (cases path; cases "tl path") auto
  then show "capsule_id_from_path (path @ ''/'') ''v/'' = None" "capsule_id_from_path (path @ ''/'') ''anchor-status/'' = None"
    by (auto simp: capsule_id_from_path_def lstrip_char_def)
qed

lemma exact_routes_ends:
  "\<forall>path \<in> set exact_routes. rstrip_char CHR ''/'' path = path \<and> rstrip_char CHR ''/'' (path @ ''/'') = path"
  by (simp add: exact_routes_def rstrip_char_def)

lemma exact_routes_other:
  "\<forall>path \<in> set exact_routes. path \<notin> {[], ''/'', ''/health'', ''/healthz'', ''/bundle'', ''/verify''} \<and> path @ ''/'' \<notin> set exact_routes"
  by (simp add: exact_routes_def)

lemma exact_routes_slash:
  assumes "path \<in> set exact_routes"
  shows "hr_status (fst (do_get env L K sv (q\<lparr>gq_path := path @ ''/''\<rparr>))) = 404"
    "hr_status (fst (do_get env L K sv (q\<lparr>gq_path := path\<rparr>))) = 200" "slashless (path @ ''/'') = path"
proof -
  have p: "rstrip_char CHR ''/'' path = path" "rstrip_char CHR ''/'' (path @ ''/'') = path"
    "path \<notin> {[], ''/'', ''/health'', ''/healthz'', ''/bundle'', ''/verify''}" "path @ ''/'' \<notin> set exact_routes"
    using exact_routes_ends exact_routes_other assms by blast+
  show "slashless (path @ ''/'') = path" using p by (simp add: slashless_def)
  show "hr_status (fst (do_get env L K sv (q\<lparr>gq_path := path @ ''/''\<rparr>))) = 404"
    using p(3,4) unfolding do_get_def Let_def
    by (simp add: p(2) exact_routes_no_capsule [OF assms] respond_def exact_routes_def)
  show "hr_status (fst (do_get env L K sv (q\<lparr>gq_path := path\<rparr>))) = 200"
    using assms p(3) unfolding do_get_def Let_def
    by (simp add: p(1) respond_def exact_routes_def) (elim disjE; simp)
qed

lemma slash_differs:
  assumes "same_request q sc"
  shows "\<forall>path \<in> set exact_routes. gq_path q = path @ ''/'' \<longrightarrow>
       hr_status (fst (do_get env L K sv q)) = 404 \<and>
       (\<exists>r. fst (asgi_http env L K now sv sc messages) = Some r \<and> hr_status r = 200)"
proof (intro ballI impI)
  fix path assume p: "path \<in> set exact_routes" "gq_path q = path @ ''/''"
  then have "hr_status (fst (do_get env L K sv q)) = 404"
    using exact_routes_slash(1) [OF p(1), of env L K sv q] by (cases q) simp
  moreover have "hr_status (fst (do_get env L K sv (q\<lparr>gq_path := slashless (gq_path q)\<rparr>))) = 200"
    using exact_routes_slash(2,3) [OF p(1)] p(2) by simp
  ultimately show "hr_status (fst (do_get env L K sv q)) = 404 \<and>
       (\<exists>r. fst (asgi_http env L K now sv sc messages) = Some r \<and> hr_status r = 200)"
    unfolding wrappers_agree [OF assms] by (simp add: as_asgi_def)
qed

section \<open>What a POST is answered with\<close>

text \<open>The body of a request: the octets of its messages up to the first that does not announce more.\<close>

definition whole_body :: "(bytes \<times> bool) list \<Rightarrow> bytes" where
  "whole_body ms = concat (map fst (takeWhile snd ms)) @ fst (hd (dropWhile snd ms))"

definition complete :: "(bytes \<times> bool) list \<Rightarrow> bool" where
  "complete ms \<longleftrightarrow> dropWhile snd ms \<noteq> []"

lemma whole_body_Cons:
  "whole_body ((chunk, follows) # ms) = (if follows then chunk @ whole_body ms else chunk)"
  "complete ((chunk, follows) # ms) \<longleftrightarrow> (follows \<longrightarrow> complete ms)"
  by (simp_all add: whole_body_def complete_def)

lemma read_body_iff:
  "read_body body ms = Some (Some b) \<longleftrightarrow>
     complete ms \<and> b = body @ whole_body ms \<and> length b \<le> 1000000"
proof (induction body ms rule: read_body.induct)
  case (2 body chunk follows ms)
  then show ?case by (auto simp: Let_def whole_body_Cons)
qed (simp add: complete_def)

lemma asgi_get_no_verdict: "asgi_get env L K sv sc = Some (r, sv') \<Longrightarrow> hr_content r \<noteq> Verdict_Page v"
  unfolding asgi_get_def Let_def by (auto simp: respond_def split: if_splits option.splits)

lemma answer_parts: "hr_content (answer v) = Verdict_Page v" "hr_status (answer v) = (case v of Bad_Request rs \<Rightarrow> 400 | _ \<Rightarrow> 200)"
  by (simp_all add: answer_def respond_def split: verdict.splits)

lemma asgi_post_verdict:
  "(\<exists>r. asgi_http env L K now sv sc messages = (Some r, sv') \<and> hr_content r = Verdict_Page v) \<longleftrightarrow>
    sc_method sc = ''POST'' \<and> asgi_path sc = ''/verify'' \<and> fst (allow now (sv_gate sv)) \<and>
    complete messages \<and> length (whole_body messages) \<le> 1000000 \<and>
    v = verify_request_bytes (ev_loads env) L K (whole_body messages) \<and>
    sv' = sv\<lparr>sv_gate := snd (allow now (sv_gate sv))\<rparr>"
  (is "?lhs \<longleftrightarrow> ?rhs")
proof
  obtain ok gate where al: "allow now (sv_gate sv) = (ok, gate)" by (cases "allow now (sv_gate sv)")
  {
    assume ?lhs
    then obtain r where a: "asgi_http env L K now sv sc messages = (Some r, sv')" and c: "hr_content r = Verdict_Page v"
      by blast
    have g: "(if sc_method sc = ''GET'' then asgi_get env L K sv sc else None) = None"
      using a c asgi_get_no_verdict unfolding asgi_http_def by (fastforce split: option.splits if_splits)
    have m: "sc_method sc = ''POST''" "asgi_path sc = ''/verify''" "ok"
      using a c al unfolding asgi_http_def g Let_def by (auto simp: respond_def split: if_splits)
    obtain body where b: "read_body [] messages = Some (Some body)"
      and r: "r = answer (verify_request_bytes (ev_loads env) L K body)" "sv' = sv\<lparr>sv_gate := gate\<rparr>"
      using a c al m unfolding asgi_http_def g Let_def by (auto simp: respond_def split: option.splits)
    then show ?rhs using m al c by (auto simp: answer_parts read_body_iff)
  }
  assume r: ?rhs
  then have "read_body [] messages = Some (Some (whole_body messages))" by (simp add: read_body_iff)
  with r al show ?lhs by (simp add: asgi_http_def answer_parts)
qed

lemma handler_read:
  assumes "rstrip_char CHR ''/'' (pq_path q) = ''/verify''" "fst (allow now (sv_gate sv))"
    "pq_length q = Some s" "s \<noteq> []" "int_of_text s = Inr n"
  shows "do_post env L K now sv q =
    (let sv = sv\<lparr>sv_gate := snd (allow now (sv_gate sv))\<rparr>
     in if n > 1000000 then (Inr (respond 413 Body_Too_Large), sv)
        else (case read_stream n (pq_stream q) of
                Inl e \<Rightarrow> (Inl e, sv)
              | Inr body \<Rightarrow> (Inr (answer (verify_request_bytes (ev_loads env) L K body)),
                              sv\<lparr>sv_requests := sv_requests sv + 1\<rparr>)))"
  using assms by (cases "allow now (sv_gate sv)") (simp add: do_post_def)

lemma read_capped: "n \<noteq> - 1 \<Longrightarrow> n \<le> 1000000 \<Longrightarrow> read_stream n xs = Inr body \<Longrightarrow> prefix body xs \<and> length body \<le> 1000000"
  by (auto simp: read_stream_def take_is_prefix split: if_splits)

section \<open>Properties\<close>

text \<open>
  C33. How the ASGI application routes a \<open>GET\<close> that the handler would see too, mounted below a prefix or
  not: it answers, and counts, as the handler does for the path without slashes at its end, up to
  the message of a 404. So on a path without a slash at its end (the root has only that) the two
  agree. On the routes that the handler compares as they are, the scripts, the offline shell and the
  policy, they do not: with a slash added the handler answers 404 and the application 200.
\<close>

theorem wrappers_route_alike:
  assumes "same_request q sc"
  shows "asgi_http env L K now sv sc messages = as_asgi sv (do_get env L K sv (q\<lparr>gq_path := slashless (gq_path q)\<rparr>)) \<and>
    (slashless (gq_path q) = gq_path q \<longrightarrow> asgi_http env L K now sv sc messages = as_asgi sv (do_get env L K sv q)) \<and>
    (\<forall>path \<in> set exact_routes. gq_path q = path @ ''/'' \<longrightarrow>
       hr_status (fst (do_get env L K sv q)) = 404 \<and>
       (\<exists>r. fst (asgi_http env L K now sv sc messages) = Some r \<and> hr_status r = 200))"
proof (intro conjI slash_differs [OF assms] impI)
  show w: "asgi_http env L K now sv sc messages = as_asgi sv (do_get env L K sv (q\<lparr>gq_path := slashless (gq_path q)\<rparr>))"
    by (rule wrappers_agree [OF assms])
  show "asgi_http env L K now sv sc messages = as_asgi sv (do_get env L K sv q)" if "slashless (gq_path q) = gq_path q"
    using w unfolding that by simp
qed

definition demo_env :: environment where
  "demo_env = \<lparr>ev_hostname = (\<lambda>url. Inr None), ev_fetch = (\<lambda>url. Inl (HTTP_Error 404)), ev_loads = (\<lambda>body. Inr JNull)\<rparr>"

definition demo_server :: server where
  "demo_server = \<lparr>sv_gate = demo_gate, sv_requests = 0, sv_views = 0, sv_referrers = []\<rparr>"

theorem wrappers_route_alike_witness:
  "fst (asgi_http demo_env ref_cbor2 toy_crypto 1 demo_server
       \<lparr>sc_method = ''GET'', sc_path = ''/scitt-verify/healthz'', sc_root = ''/scitt-verify'', sc_headers = []\<rparr> []) =
     Some (respond 200 Health)"
proof -
  let ?q = "\<lparr>gq_path = ''/healthz'', gq_accept = None, gq_referer = None\<rparr>"
  let ?sc = "\<lparr>sc_method = ''GET'', sc_path = ''/scitt-verify/healthz'', sc_root = ''/scitt-verify'', sc_headers = []\<rparr>"
  have "same_request ?q ?sc"
    by (simp add: same_request_def accepts_html_def asgi_referer_def header_text_def text_in_def)
  moreover have "do_get demo_env ref_cbor2 toy_crypto demo_server ?q = (respond 200 Health, demo_server)"
    by (simp add: do_get_def rstrip_char_def Let_def)
  moreover have "slashless ''/healthz'' = ''/healthz''" by (simp add: slashless_def rstrip_char_def)
  ultimately show ?thesis
    using wrappers_route_alike [of ?q ?sc demo_env ref_cbor2 toy_crypto 1 demo_server "[]"]
    by (simp add: respond_def as_asgi_def)
qed

text \<open>
  C34. Exactly when the ASGI application sends a verdict: for an admitted \<open>POST\<close> of \<open>/verify\<close> whose
  messages come to an end and carry at most 1,000,000 octets together. It is the verdict of the whole
  body, the octets of all messages up to the first that does not announce more, and the only state
  that changes is the rate gate.
\<close>

theorem asgi_verdict_is_of_the_body:
  "(\<exists>r. asgi_http env L K now sv sc messages = (Some r, sv') \<and> hr_content r = Verdict_Page v) \<longleftrightarrow>
    sc_method sc = ''POST'' \<and> asgi_path sc = ''/verify'' \<and> fst (allow now (sv_gate sv)) \<and>
    complete messages \<and> length (whole_body messages) \<le> 1000000 \<and>
    v = verify_request_bytes (ev_loads env) L K (whole_body messages) \<and>
    sv' = sv\<lparr>sv_gate := snd (allow now (sv_gate sv))\<rparr>"
  by (rule asgi_post_verdict)

text \<open>
  C35. The handler's cap on the size of a request has one hole: it compares the announced length with
  1,000,000 but not with 0. A request that announces -1 is read to the end of the connection and
  verified, however long it is. A length below -1 makes the read raise, and the request ends without
  an answer, with only the rate gate changed. For any other announced length a verdict is of at most
  1,000,000 octets, those that come first.
\<close>

theorem handler_size_cap_bypassed:
  assumes "rstrip_char CHR ''/'' (pq_path q) = ''/verify''" "fst (allow now (sv_gate sv))"
    "pq_length q = Some s" "s \<noteq> []" "int_of_text s = Inr n"
  shows "(n = - 1 \<longrightarrow> fst (do_post env L K now sv q) = Inr (answer (verify_request_bytes (ev_loads env) L K (pq_stream q)))) \<and>
    (n < - 1 \<longrightarrow> do_post env L K now sv q = (Inl ValueError, sv\<lparr>sv_gate := snd (allow now (sv_gate sv))\<rparr>)) \<and>
    (\<forall>r v. n \<noteq> - 1 \<longrightarrow> fst (do_post env L K now sv q) = Inr r \<longrightarrow> hr_content r = Verdict_Page v \<longrightarrow>
       (\<exists>body. prefix body (pq_stream q) \<and> length body \<le> 1000000 \<and> v = verify_request_bytes (ev_loads env) L K body))"
proof (intro conjI allI impI)
  show "fst (do_post env L K now sv q) = Inr (answer (verify_request_bytes (ev_loads env) L K (pq_stream q)))" if "n = - 1"
    using that by (simp add: handler_read [OF assms] read_stream_def Let_def)
  show "do_post env L K now sv q = (Inl ValueError, sv\<lparr>sv_gate := snd (allow now (sv_gate sv))\<rparr>)" if "n < - 1"
    using that by (simp add: handler_read [OF assms] read_stream_def Let_def)
  show "\<exists>body. prefix body (pq_stream q) \<and> length body \<le> 1000000 \<and> v = verify_request_bytes (ev_loads env) L K body"
    if h: "n \<noteq> - 1" "fst (do_post env L K now sv q) = Inr r" "hr_content r = Verdict_Page v" for r v
  proof -
    obtain body where "n \<le> 1000000" "read_stream n (pq_stream q) = Inr body"
      "r = answer (verify_request_bytes (ev_loads env) L K body)"
      using h(2,3) unfolding handler_read [OF assms] Let_def by (auto simp: respond_def split: if_splits sum.splits)
    then show ?thesis using read_capped [OF h(1)] h(3) by (auto simp: answer_parts)
  qed
qed

lemma demo_lengths: "int_of_text ''-1'' = Inr (- 1)" "int_of_text ''-2'' = Inr (- 2)"
  by (simp_all add: int_of_text_def strip_def text_space_def ascii_space_def digits_nat_def digit_value_def)

theorem handler_size_cap_bypassed_witness:
  "fst (do_post demo_env ref_cbor2 toy_crypto 1 demo_server
      \<lparr>pq_path = ''/verify'', pq_length = Some ''-1'', pq_stream = replicate 1000001 0\<rparr>) =
   Inr (answer (verify_request_bytes (ev_loads demo_env) ref_cbor2 toy_crypto (replicate 1000001 0))) \<and>
   fst (do_post demo_env ref_cbor2 toy_crypto 1 demo_server
      \<lparr>pq_path = ''/verify'', pq_length = Some ''-2'', pq_stream = []\<rparr>) = Inl ValueError"
proof -
  let ?q = "\<lambda>s b. \<lparr>pq_path = ''/verify'', pq_length = Some s, pq_stream = b\<rparr>"
  have h: "rstrip_char CHR ''/'' (pq_path (?q s b)) = ''/verify''" "fst (allow 1 (sv_gate demo_server))"
    "pq_length (?q s b) = Some s" for s b
    by (simp_all add: rstrip_char_def demo_server_def demo_gate_def allow_def)
  show ?thesis
    using handler_size_cap_bypassed [OF h(1,2,3) _ demo_lengths(1), of demo_env ref_cbor2 toy_crypto "replicate 1000001 0"]
      handler_size_cap_bypassed [OF h(1,2,3) _ demo_lengths(2), of demo_env ref_cbor2 toy_crypto "[]"]
    by simp
qed

end
