(* ===== verification/Verify_Cli.thy ===== *)
theory Verify_Cli
  imports Statement
begin

text \<open>
  The two command-line programs of the package: \<open>src/scitt_cose/cli.py\<close>, which verifies a statement
  and a receipt read from files, and \<open>src/scitt_cose/vectors.py\<close>, which runs the test vectors. The
  files are a map from paths to octets; a path without octets raises \<open>OSError\<close>. A line that is
  printed is the list of its pieces, literal text and values put through \<open>str\<close>.
\<close>

section \<open>The verifier\<close>

record cli_args =
  a_statement :: "string option"
  a_statement_pubkey :: "string option"
  a_receipt :: "string option"
  a_receipt_log_pubkey :: "string option"
  a_leaf_entry_hex :: "string option"
  a_json :: bool

text \<open>A path or an option that is absent or empty is false.\<close>

definition given :: "string option \<Rightarrow> string option" where
  "given x = (case x of Some (c # s) \<Rightarrow> Some (c # s) | _ \<Rightarrow> None)"

datatype cli_exn = OS_Error string | Cose_Failed cose_fault | Uncaught string

type_synonym files = "string \<Rightarrow> bytes option"

definition read_file :: "files \<Rightarrow> string \<Rightarrow> cli_exn + bytes" where
  "read_file fs path = (case fs path of None \<Rightarrow> Inl (OS_Error path) | Some b \<Rightarrow> Inr b)"

text \<open>\<open>p_fields\<close> without the payload and the claims, and the length of the payload.\<close>

record statement_report =
  sr_signature_verified :: "bool option"
  sr_issuer :: "string option"
  sr_subject :: "string option"
  sr_content_type :: "string option"
  sr_alg :: pyval
  sr_unverified :: "(statement_fields \<times> nat option) option"
  sr_payload_len :: "nat option"

definition uncaught :: "string + 'a \<Rightarrow> cli_exn + 'a" where
  "uncaught r = (case r of Inl e \<Rightarrow> Inl (Uncaught e) | Inr x \<Rightarrow> Inr x)"

definition verify_statement ::
    "cbor2_lib \<Rightarrow> 'k crypto_lib \<Rightarrow> files \<Rightarrow> cli_args \<Rightarrow> cli_exn + statement_report option" where
  "verify_statement L K fs args =
     (case given (a_statement args) of
        None \<Rightarrow> Inr None
      | Some path \<Rightarrow>
          rbind (read_file fs path) (\<lambda>msg.
          rbind (case given (a_statement_pubkey args) of
                   None \<Rightarrow> Inr None
                 | Some key_path \<Rightarrow> rmap Some (read_file fs key_path)) (\<lambda>pub.
          rbind (uncaught (parse_signed_statement L K (CBytes msg) (map_option Pem_Bytes pub))) (\<lambda>parsed.
          Inr (Some \<lparr>sr_signature_verified = p_signature_verified parsed,
                     sr_issuer = f_issuer (p_fields parsed), sr_subject = f_subject (p_fields parsed),
                     sr_content_type = f_content_type (p_fields parsed), sr_alg = f_alg (p_fields parsed),
                     sr_unverified = p_unverified parsed,
                     sr_payload_len = map_option length (f_payload (p_fields parsed))\<rparr>)))))"

datatype receipt_error = Missing_Options | Finding receipt_finding

record receipt_report =
  rr_ok :: bool
  rr_root :: "string option"
  rr_tree_size :: "int option"
  rr_leaf_index :: "int option"
  rr_failed_at :: "string option"
  rr_errors :: "receipt_error list"

definition cli_verify_receipt ::
    "cbor2_lib \<Rightarrow> 'k crypto_lib \<Rightarrow> files \<Rightarrow> cli_args \<Rightarrow> cli_exn + receipt_report option" where
  "cli_verify_receipt L K fs args =
     (case given (a_receipt args) of
        None \<Rightarrow> Inr None
      | Some path \<Rightarrow>
          (case (given (a_receipt_log_pubkey args), given (a_leaf_entry_hex args)) of
             (Some key_path, Some leaf_entry_hex) \<Rightarrow>
               rbind (read_file fs path) (\<lambda>receipt.
               rbind (read_file fs key_path) (\<lambda>log_pub.
               rbind (uncaught (verify_receipt L K (CBytes receipt) leaf_entry_hex (Pem_Bytes log_pub))) (\<lambda>result.
               Inr (Some \<lparr>rr_ok = r_ok result, rr_root = r_root result, rr_tree_size = r_tree_size result,
                          rr_leaf_index = r_leaf_index result, rr_failed_at = r_failed_at result,
                          rr_errors = map Finding (r_errors result)\<rparr>))))
           | _ \<Rightarrow>
               Inr (Some \<lparr>rr_ok = False, rr_root = None, rr_tree_size = None, rr_leaf_index = None,
                          rr_failed_at = None, rr_errors = [Missing_Options]\<rparr>)))"

text \<open>What is printed.\<close>

datatype piece = Lit string | Shown pyval | Notice | Err receipt_error

type_synonym line = "piece list"

definition opt_text :: "string option \<Rightarrow> pyval" where
  "opt_text x = (case x of None \<Rightarrow> CNull | Some s \<Rightarrow> CText s)"

definition opt_int :: "int option \<Rightarrow> pyval" where
  "opt_int x = (case x of None \<Rightarrow> CNull | Some i \<Rightarrow> CInt i)"

definition rule_line :: line where
  "rule_line = [Lit (replicate 72 CHR ''-'')]"

text \<open>The four fields, authenticated ones or those fenced as unverified, or none.\<close>

definition shown_fields :: "statement_report \<Rightarrow> pyval list" where
  "shown_fields s =
     (if sr_signature_verified s = Some True then
        [opt_text (sr_issuer s), opt_text (sr_subject s), opt_text (sr_content_type s), sr_alg s]
      else
        (case sr_unverified s of
           Some (f, _) \<Rightarrow> [opt_text (f_issuer f), opt_text (f_subject f), opt_text (f_content_type f), f_alg f]
         | None \<Rightarrow> [CNull, CNull, CNull, CNull]))"

definition statement_lines :: "statement_report \<Rightarrow> line list" where
  "statement_lines s =
     (let sv = sr_signature_verified s;
          sv_text = (case sv of None \<Rightarrow> ''SKIPPED (no pubkey)'' | Some b \<Rightarrow> if b then ''PASS'' else ''FAIL'');
          tag = (if sv = Some True then '''' else ''  [UNVERIFIED]'')
      in [Lit ''  Signed Statement''] #
         map2 (\<lambda>name v. [Lit name, Shown v, Lit tag])
           [''    issuer (iss)   : '', ''    subject (sub)  : '', ''    content_type   : '', ''    alg            : '']
           (shown_fields s) @
         [[Lit ''    signature      : '', Lit sv_text]])"

definition receipt_lines :: "receipt_report \<Rightarrow> line list" where
  "receipt_lines r =
     [[Lit ''  Receipt''],
      [Lit ''    ok             : '', Shown (CBool (rr_ok r))],
      [Lit ''    root           : '', Shown (opt_text (rr_root r))],
      [Lit ''    tree_size      : '', Shown (opt_int (rr_tree_size r))],
      [Lit ''    leaf_index     : '', Shown (opt_int (rr_leaf_index r))]] @
     map (\<lambda>e. [Lit ''    [ERR] '', Err e]) (rr_errors r)"

definition print_human :: "statement_report option \<Rightarrow> receipt_report option \<Rightarrow> line list" where
  "print_human s r =
     [[Lit ''scitt-cose''], [Lit ''  '', Notice], rule_line] @
     (case s of None \<Rightarrow> [] | Some s \<Rightarrow> statement_lines s) @
     (case r of None \<Rightarrow> [] | Some r \<Rightarrow> receipt_lines r) @ [rule_line]"

text \<open>What \<open>main\<close> leaves: the exit code and what was written to standard output. With \<open>--json\<close> the
  reports themselves are written. An exception it does not catch ends the program.\<close>

datatype cli_output = Human "line list" | Json_Report "statement_report option" "receipt_report option" | Silent

definition cli_main :: "cbor2_lib \<Rightarrow> 'k crypto_lib \<Rightarrow> files \<Rightarrow> cli_args \<Rightarrow> string + int \<times> cli_output" where
  "cli_main L K fs args =
     (if given (a_statement args) = None \<and> given (a_receipt args) = None then Inr (2, Silent)
      else
        (case rbind (verify_statement L K fs args) (\<lambda>s. rmap (Pair s) (cli_verify_receipt L K fs args)) of
           Inl (OS_Error _) \<Rightarrow> Inr (2, Silent)
         | Inl (Cose_Failed _) \<Rightarrow> Inr (1, Silent)
         | Inl (Uncaught e) \<Rightarrow> Inl e
         | Inr (s, r) \<Rightarrow>
             (let ok = \<not> ((case s of None \<Rightarrow> False | Some s \<Rightarrow> sr_signature_verified s = Some False) \<or>
                         (case r of None \<Rightarrow> False | Some r \<Rightarrow> \<not> rr_ok r))
              in Inr (if ok then 0 else 1, if a_json args then Json_Report s r else Human (print_human s r)))))"

section \<open>The test-vector runner\<close>

text \<open>The files of a vector, its \<open>expected.json\<close> and its entry in the manifest, as records of
  the fields their schema has.\<close>

record vector_files =
  vf_payload :: bytes
  vf_statement :: bytes
  vf_receipt :: bytes
  vf_issuer_pub :: bytes
  vf_log_pub :: bytes

record expected_header =
  eh_alg :: "string option"
  eh_issuer :: "string option"
  eh_subject :: "string option"
  eh_content_type :: "string option"

record expected =
  e_payload_sha256 :: string
  e_leaf_entry :: string
  e_header :: expected_header
  e_statement_signature_valid :: bool
  e_receipt_valid :: bool
  e_reconstructed_root :: "string option"
  e_tree_size :: "int option"
  e_leaf_index :: "int option"
  e_result :: string
  e_failure_code :: "string option"

datatype mismatch =
    Payload_Digest string | Leaf_Not_Statement string | Signature_Verdict "bool option"
  | Header_Field string pyval | Payload_Differs | Receipt_Verdict bool | Root_Differs "string option"
  | Position_Differs "int option" "int option" | Overall_Verdict bool
  | Manifest_Result string | Manifest_Code "string option"

definition hex_sha256 :: "bytes \<Rightarrow> string" where
  "hex_sha256 b = to_hex (sha256 b)"

text \<open>\<open>mismatches.append(m)\<close> under a condition.\<close>

definition mismatch_if :: "bool \<Rightarrow> mismatch \<Rightarrow> mismatch list" where
  "mismatch_if b m = (if b then [m] else [])"

text \<open>An exception of \<open>parse_signed_statement\<close> counts as a signature that did not verify.\<close>

definition failed_parse :: parsed_statement where
  "failed_parse = \<lparr>p_signature_verified = Some False, p_fields = no_fields, p_unverified = None\<rparr>"

definition header_mismatches :: "statement_fields \<Rightarrow> expected_header \<Rightarrow> mismatch list" where
  "header_mismatches f h =
     mismatch_if (f_alg f \<noteq> opt_text (eh_alg h)) (Header_Field ''alg'' (f_alg f)) @
     mismatch_if (f_issuer f \<noteq> eh_issuer h) (Header_Field ''issuer'' (opt_text (f_issuer f))) @
     mismatch_if (f_subject f \<noteq> eh_subject h) (Header_Field ''subject'' (opt_text (f_subject f))) @
     mismatch_if (f_content_type f \<noteq> eh_content_type h) (Header_Field ''content_type'' (opt_text (f_content_type f)))"

definition statement_mismatches :: "parsed_statement \<Rightarrow> bytes \<Rightarrow> expected_header \<Rightarrow> mismatch list" where
  "statement_mismatches parsed payload h =
     (let verified = (p_signature_verified parsed = Some True)
      in case (if verified then Some (p_fields parsed) else map_option fst (p_unverified parsed)) of
           None \<Rightarrow> []
         | Some src \<Rightarrow>
             header_mismatches src h @
             mismatch_if (verified \<and> f_payload (p_fields parsed) \<noteq> None \<and> f_payload (p_fields parsed) \<noteq> Some payload)
               Payload_Differs)"

definition check_vector ::
    "cbor2_lib \<Rightarrow> 'k crypto_lib \<Rightarrow> vector_files \<Rightarrow> expected \<Rightarrow> string + mismatch list" where
  "check_vector L K fs e =
     (let digest = hex_sha256 (vf_payload fs);
          leaf = hex_sha256 (vf_statement fs);
          parsed = (case parse_signed_statement L K (CBytes (vf_statement fs)) (Some (Pem_Bytes (vf_issuer_pub fs))) of
                      Inl _ \<Rightarrow> failed_parse | Inr p \<Rightarrow> p)
      in rbind (verify_receipt L K (CBytes (vf_receipt fs)) (e_leaf_entry e) (Pem_Bytes (vf_log_pub fs))) (\<lambda>res.
         let overall_valid = (p_signature_verified parsed = Some True \<and> r_ok res)
         in Inr (
           mismatch_if (digest \<noteq> e_payload_sha256 e) (Payload_Digest digest) @
           mismatch_if (leaf \<noteq> e_leaf_entry e) (Leaf_Not_Statement leaf) @
           mismatch_if (p_signature_verified parsed \<noteq> Some (e_statement_signature_valid e))
             (Signature_Verdict (p_signature_verified parsed)) @
           statement_mismatches parsed (vf_payload fs) (e_header e) @
           mismatch_if (r_ok res \<noteq> e_receipt_valid e) (Receipt_Verdict (r_ok res)) @
           (if e_receipt_valid e \<and> r_ok res then
              mismatch_if (r_root res \<noteq> e_reconstructed_root e) (Root_Differs (r_root res)) @
              mismatch_if (r_tree_size res \<noteq> e_tree_size e \<or> r_leaf_index res \<noteq> e_leaf_index e)
                (Position_Differs (r_tree_size res) (r_leaf_index res))
            else []) @
           mismatch_if (overall_valid \<noteq> (e_result e = ''VALID'')) (Overall_Verdict overall_valid))))"

record manifest_entry =
  m_id :: string
  m_expected_result :: string
  m_failure_code :: "string option"

text \<open>One entry of the report: its identifier and its mismatches.\<close>

definition run_vector ::
    "cbor2_lib \<Rightarrow> 'k crypto_lib \<Rightarrow> manifest_entry \<times> vector_files \<times> expected \<Rightarrow> string + string \<times> mismatch list" where
  "run_vector L K v =
     (case v of (m, fs, e) \<Rightarrow>
        rmap (\<lambda>ms. (m_id m, ms @
            mismatch_if (m_expected_result m \<noteq> e_result e) (Manifest_Result (m_expected_result m)) @
            mismatch_if (m_failure_code m \<noteq> e_failure_code e) (Manifest_Code (m_failure_code m))))
          (check_vector L K fs e))"

text \<open>The exit code: 2 without a manifest, 1 when there is a mismatch, 0 otherwise. Without \<open>--json\<close> the
  width of the table is the \<open>max\<close> of the identifiers' lengths, and the \<open>max\<close> of none raises.\<close>

definition vectors_main ::
    "cbor2_lib \<Rightarrow> 'k crypto_lib \<Rightarrow> bool \<Rightarrow> (manifest_entry \<times> vector_files \<times> expected) list option \<Rightarrow>
     string + int \<times> (string \<times> mismatch list) list" where
  "vectors_main L K as_json manifest =
     (case manifest of
        None \<Rightarrow> Inr (2, [])
      | Some vs \<Rightarrow>
          rbind (rmapM (run_vector L K) vs) (\<lambda>report.
            if \<not> as_json \<and> report = [] then Inl ''max() arg is an empty sequence''
            else Inr (if sum_list (map (\<lambda>(i, ms). length ms) report) = 0 then 0 else 1, report)))"

section \<open>What the exit codes say\<close>

lemma uncaught_Inr [raise_simps]: "uncaught r = Inr x \<longleftrightarrow> r = Inr x"
  by (cases r) (auto simp: uncaught_def)

lemma read_file_Inr [raise_simps]: "read_file fs path = Inr b \<longleftrightarrow> fs path = Some b"
  by (auto simp: read_file_def split: option.splits)

lemma parse_with_key: "parse_signed_statement L K msg (Some pem) = Inr q \<Longrightarrow> p_signature_verified q \<noteq> None"
  by (auto simp: parse_signed_statement_def raise_simps split: sum.splits cose_exn.splits)

text \<open>A statement and a receipt that the program was asked to check, checked.\<close>

definition statement_checked :: "cbor2_lib \<Rightarrow> 'k crypto_lib \<Rightarrow> files \<Rightarrow> string \<Rightarrow> string \<Rightarrow> bool" where
  "statement_checked L K fs path key_path \<longleftrightarrow>
     (\<exists>msg key q. fs path = Some msg \<and> fs key_path = Some key \<and>
        parse_signed_statement L K (CBytes msg) (Some (Pem_Bytes key)) = Inr q \<and> p_signature_verified q = Some True)"

definition receipt_checked :: "cbor2_lib \<Rightarrow> 'k crypto_lib \<Rightarrow> files \<Rightarrow> string \<Rightarrow> cli_args \<Rightarrow> bool" where
  "receipt_checked L K fs path args \<longleftrightarrow>
     (\<exists>key_path leaf receipt key r. given (a_receipt_log_pubkey args) = Some key_path \<and>
        given (a_leaf_entry_hex args) = Some leaf \<and> fs path = Some receipt \<and> fs key_path = Some key \<and>
        verify_receipt L K (CBytes receipt) leaf (Pem_Bytes key) = Inr r \<and> r_ok r)"

lemma cli_receipt_ok:
  assumes "cli_verify_receipt L K fs args = Inr r" "given (a_receipt args) = Some path" "r = None \<or> rr_ok (the r)"
  shows "receipt_checked L K fs path args"
  using assms
  by (auto simp: cli_verify_receipt_def receipt_checked_def raise_simps split: option.splits)

lemma cli_statement_ok:
  assumes "verify_statement L K fs args = Inr (Some s)" "given (a_statement args) = Some path"
    and "given (a_statement_pubkey args) = Some key_path" "sr_signature_verified s \<noteq> Some False"
  shows "statement_checked L K fs path key_path"
  using assms parse_with_key
  by (fastforce simp: verify_statement_def statement_checked_def raise_simps)

lemma cli_statement_some:
  "verify_statement L K fs args = Inr s \<Longrightarrow> given (a_statement args) = Some path \<Longrightarrow> \<exists>s'. s = Some s'"
  by (auto simp: verify_statement_def raise_simps)

lemma cli_exit_0:
  assumes "cli_main L K fs args = Inr (0, out)"
  shows "(given (a_statement args) \<noteq> None \<or> given (a_receipt args) \<noteq> None) \<and>
    (\<forall>path. given (a_receipt args) = Some path \<longrightarrow> receipt_checked L K fs path args) \<and>
    (\<forall>path key_path. given (a_statement args) = Some path \<and> given (a_statement_pubkey args) = Some key_path \<longrightarrow>
       statement_checked L K fs path key_path)"
proof -
  obtain s r where sr: "verify_statement L K fs args = Inr s" "cli_verify_receipt L K fs args = Inr r"
    "case s of None \<Rightarrow> True | Some s \<Rightarrow> sr_signature_verified s \<noteq> Some False" "r = None \<or> rr_ok (the r)"
    "given (a_statement args) \<noteq> None \<or> given (a_receipt args) \<noteq> None"
    using assms by (auto simp: cli_main_def raise_simps Let_def split: if_splits sum.splits cli_exn.splits option.splits)
  show ?thesis
    using sr cli_receipt_ok [OF sr(2) _ sr(4)] cli_statement_some [OF sr(1)] cli_statement_ok [of L K fs args] by auto
qed

text \<open>A vector whose verdicts, fields and digests are the published ones.\<close>

definition header_agrees :: "statement_fields \<Rightarrow> expected_header \<Rightarrow> bool" where
  "header_agrees f h \<longleftrightarrow> f_alg f = opt_text (eh_alg h) \<and> f_issuer f = eh_issuer h \<and>
     f_subject f = eh_subject h \<and> f_content_type f = eh_content_type h"

definition vector_agrees :: "parsed_statement \<Rightarrow> receipt_result \<Rightarrow> vector_files \<Rightarrow> expected \<Rightarrow> bool" where
  "vector_agrees parsed res fs e \<longleftrightarrow>
     hex_sha256 (vf_payload fs) = e_payload_sha256 e \<and> hex_sha256 (vf_statement fs) = e_leaf_entry e \<and>
     p_signature_verified parsed = Some (e_statement_signature_valid e) \<and>
     (if p_signature_verified parsed = Some True then
        header_agrees (p_fields parsed) (e_header e) \<and> f_payload (p_fields parsed) = Some (vf_payload fs)
      else \<forall>f n. p_unverified parsed = Some (f, n) \<longrightarrow> header_agrees f (e_header e)) \<and>
     r_ok res = e_receipt_valid e \<and>
     (r_ok res \<longrightarrow> r_root res = e_reconstructed_root e \<and> r_tree_size res = e_tree_size e \<and> r_leaf_index res = e_leaf_index e) \<and>
     (p_signature_verified parsed = Some True \<and> r_ok res \<longleftrightarrow> e_result e = ''VALID'')"

lemma mismatch_if_Nil [simp]: "mismatch_if b m = [] \<longleftrightarrow> \<not> b"
  by (simp add: mismatch_if_def)

lemma header_mismatches_Nil: "header_mismatches f h = [] \<longleftrightarrow> header_agrees f h"
  by (auto simp: header_mismatches_def header_agrees_def)

lemma statement_mismatches_Nil:
  assumes "statement_shape p"
  shows "statement_mismatches p payload h = [] \<longleftrightarrow>
    (if p_signature_verified p = Some True then header_agrees (p_fields p) h \<and> f_payload (p_fields p) = Some payload
     else \<forall>f n. p_unverified p = Some (f, n) \<longrightarrow> header_agrees f h)"
proof (cases "p_signature_verified p = Some True")
  case True
  then show ?thesis using assms by (simp add: statement_mismatches_def statement_shape_def header_mismatches_Nil)
next
  case False
  then show ?thesis
    by (cases "p_unverified p") (auto simp: statement_mismatches_def header_mismatches_Nil Let_def)
qed

lemma check_vector_Nil:
  assumes "check_vector L K fs e = Inr ms"
  shows "\<exists>parsed res. statement_shape parsed \<and>
    (parse_signed_statement L K (CBytes (vf_statement fs)) (Some (Pem_Bytes (vf_issuer_pub fs))) = Inr parsed \<or> parsed = failed_parse) \<and>
    verify_receipt L K (CBytes (vf_receipt fs)) (e_leaf_entry e) (Pem_Bytes (vf_log_pub fs)) = Inr res \<and>
    (ms = [] \<longleftrightarrow> vector_agrees parsed res fs e)"
proof -
  define parsed where "parsed = (case parse_signed_statement L K (CBytes (vf_statement fs)) (Some (Pem_Bytes (vf_issuer_pub fs))) of
      Inl _ \<Rightarrow> failed_parse | Inr p \<Rightarrow> p)"
  have p: "parse_signed_statement L K (CBytes (vf_statement fs)) (Some (Pem_Bytes (vf_issuer_pub fs))) = Inr parsed \<or> parsed = failed_parse"
    by (auto simp: parsed_def split: sum.split)
  then have shape: "statement_shape parsed"
  proof
    assume "parsed = failed_parse"
    then show ?thesis by (simp add: failed_parse_def statement_shape_def)
  qed (rule parse_shape)
  obtain res where res: "verify_receipt L K (CBytes (vf_receipt fs)) (e_leaf_entry e) (Pem_Bytes (vf_log_pub fs)) = Inr res"
    using assms by (auto simp: check_vector_def Let_def raise_simps)
  have "ms = [] \<longleftrightarrow> vector_agrees parsed res fs e"
  proof -
    have "ms = [] \<longleftrightarrow>
        hex_sha256 (vf_payload fs) = e_payload_sha256 e \<and> hex_sha256 (vf_statement fs) = e_leaf_entry e \<and>
        p_signature_verified parsed = Some (e_statement_signature_valid e) \<and>
        statement_mismatches parsed (vf_payload fs) (e_header e) = [] \<and> r_ok res = e_receipt_valid e \<and>
        (e_receipt_valid e \<and> r_ok res \<longrightarrow> r_root res = e_reconstructed_root e \<and>
           r_tree_size res = e_tree_size e \<and> r_leaf_index res = e_leaf_index e) \<and>
        (p_signature_verified parsed = Some True \<and> r_ok res \<longleftrightarrow> e_result e = ''VALID'')"
      using assms unfolding check_vector_def Let_def parsed_def [symmetric] res rbind.simps sum.inject
      by (cases "e_receipt_valid e \<and> r_ok res") auto
    then show ?thesis unfolding statement_mismatches_Nil [OF shape] vector_agrees_def by blast
  qed
  then show ?thesis using p shape res by blast
qed

lemma run_vector_length:
  "(sum_list (map (\<lambda>(i, ms). length ms) report) = 0) = (\<forall>(i, ms) \<in> set report. ms = [])"
  by (induction report) auto

lemma vectors_exit:
  assumes "vectors_main L K as_json (Some vs) = Inr (code, report)"
  shows "code = 0 \<and> (\<forall>(m, fs, e) \<in> set vs. m_expected_result m = e_result e \<and> m_failure_code m = e_failure_code e \<and>
      check_vector L K fs e = Inr []) \<or>
    code = 1 \<and> (\<exists>(m, fs, e) \<in> set vs. m_expected_result m \<noteq> e_result e \<or> m_failure_code m \<noteq> e_failure_code e \<or>
      (\<exists>ms. check_vector L K fs e = Inr ms \<and> ms \<noteq> []))"
proof -
  have r: "rmapM (run_vector L K) vs = Inr report" and c: "code = (if \<forall>(i, ms) \<in> set report. ms = [] then 0 else 1)"
    using assms unfolding vectors_main_def option.case rbind_Inr_iff run_vector_length by (auto split: if_splits)
  have "(\<forall>(i, ms) \<in> set report. ms = []) \<longleftrightarrow>
    (\<forall>(m, fs, e) \<in> set vs. m_expected_result m = e_result e \<and> m_failure_code m = e_failure_code e \<and>
      check_vector L K fs e = Inr [])"
    using r by (induction vs arbitrary: report) (auto simp: raise_simps run_vector_def rmap_Inr_iff)
  moreover have "\<forall>(m, fs, e) \<in> set vs. \<exists>ms. check_vector L K fs e = Inr ms"
    using r by (induction vs arbitrary: report) (auto simp: raise_simps run_vector_def rmap_Inr_iff)
  ultimately show ?thesis using c by (fastforce split: if_splits)
qed

section \<open>Properties\<close>

text \<open>
  C22. The verifier exits with 0 only if it was given something to check, the receipt it was given
  verified under the log key it was given, and the statement it was given with a key verified under
  that key.
\<close>

theorem exit_0_means_verified:
  assumes "cli_main L K fs args = Inr (0, out)"
  shows "(given (a_statement args) \<noteq> None \<or> given (a_receipt args) \<noteq> None) \<and>
    (\<forall>path. given (a_receipt args) = Some path \<longrightarrow> receipt_checked L K fs path args) \<and>
    (\<forall>path key_path. given (a_statement args) = Some path \<and> given (a_statement_pubkey args) = Some key_path \<longrightarrow>
       statement_checked L K fs path key_path)"
  using assms by (rule cli_exit_0)

definition demo_args :: cli_args where
  "demo_args =
     \<lparr>a_statement = None, a_statement_pubkey = None, a_receipt = Some ''r'', a_receipt_log_pubkey = Some ''k'',
      a_leaf_entry_hex = Some ''0b'', a_json = True\<rparr>"

theorem exit_0_means_verified_witness:
  "\<exists>receipt. receipt_checked ref_cbor2 toy_crypto [''r'' \<mapsto> receipt, ''k'' \<mapsto> [1]] ''r'' demo_args"
proof -
  obtain receipt where r: "verify_receipt ref_cbor2 toy_crypto (CBytes receipt) ''0b'' (Pem_Bytes [1]) = Inr demo_result"
    by (rule demo_receipt)
  have "\<exists>out. cli_main ref_cbor2 toy_crypto [''r'' \<mapsto> receipt, ''k'' \<mapsto> [1]] demo_args = Inr (0, out)"
    using r by (simp add: cli_main_def verify_statement_def cli_verify_receipt_def read_file_def demo_args_def given_def
        uncaught_def demo_result_def)
  then obtain out where "cli_main ref_cbor2 toy_crypto [''r'' \<mapsto> receipt, ''k'' \<mapsto> [1]] demo_args = Inr (0, out)" ..
  from exit_0_means_verified [OF this] show ?thesis by (auto simp: demo_args_def given_def)
qed

text \<open>
  The vector runner exits with 0 if every vector agrees with what is published for it and with
  the manifest, and with 1 otherwise; a vector without mismatches has the published digests,
  signature verdict, header fields, receipt verdict, root and position, and verifies exactly when it
  is published as valid.
\<close>

theorem vector_runner_exit:
  assumes "vectors_main L K as_json (Some vs) = Inr (code, report)"
  shows "(code = 0 \<and> (\<forall>(m, fs, e) \<in> set vs. m_expected_result m = e_result e \<and> m_failure_code m = e_failure_code e \<and>
        check_vector L K fs e = Inr []) \<or>
      code = 1 \<and> (\<exists>(m, fs, e) \<in> set vs. m_expected_result m \<noteq> e_result e \<or> m_failure_code m \<noteq> e_failure_code e \<or>
        (\<exists>ms. check_vector L K fs e = Inr ms \<and> ms \<noteq> []))) \<and>
    (\<forall>fs e ms. check_vector L K fs e = Inr ms \<longrightarrow>
       (\<exists>parsed res. (parse_signed_statement L K (CBytes (vf_statement fs)) (Some (Pem_Bytes (vf_issuer_pub fs))) = Inr parsed \<or>
            parsed = failed_parse) \<and>
          verify_receipt L K (CBytes (vf_receipt fs)) (e_leaf_entry e) (Pem_Bytes (vf_log_pub fs)) = Inr res \<and>
          (ms = [] \<longleftrightarrow> vector_agrees parsed res fs e)))"
  by (intro conjI allI impI; (rule vectors_exit [OF assms] | (drule check_vector_Nil, elim exE conjE, intro exI conjI; assumption)))

definition demo_expected :: expected where
  "demo_expected =
     \<lparr>e_payload_sha256 = '''', e_leaf_entry = ''0b'',
      e_header = \<lparr>eh_alg = None, eh_issuer = None, eh_subject = None, eh_content_type = None\<rparr>,
      e_statement_signature_valid = True, e_receipt_valid = True, e_reconstructed_root = None, e_tree_size = None,
      e_leaf_index = None, e_result = ''INVALID'', e_failure_code = None\<rparr>"

definition demo_manifest :: manifest_entry where
  "demo_manifest = \<lparr>m_id = ''1'', m_expected_result = ''VALID'', m_failure_code = None\<rparr>"

theorem vector_runner_exit_witness:
  "\<exists>fs report. vectors_main ref_cbor2 toy_crypto False (Some [(demo_manifest, fs, demo_expected)]) = Inr (1, report)"
proof -
  obtain receipt where r: "verify_receipt ref_cbor2 toy_crypto (CBytes receipt) ''0b'' (Pem_Bytes [1]) = Inr demo_result"
    by (rule demo_receipt)
  let ?fs = "\<lparr>vf_payload = [], vf_statement = [], vf_receipt = receipt, vf_issuer_pub = [1], vf_log_pub = [1]\<rparr>"
  obtain code report where v: "vectors_main ref_cbor2 toy_crypto False (Some [(demo_manifest, ?fs, demo_expected)]) = Inr (code, report)"
  proof -
    have "e_leaf_entry demo_expected = ''0b''" by (simp add: demo_expected_def)
    then obtain ms where "check_vector ref_cbor2 toy_crypto ?fs demo_expected = Inr ms"
      using r by (simp add: check_vector_def Let_def)
    then show thesis using that by (simp add: vectors_main_def run_vector_def)
  qed
  have "code = 1" using vector_runner_exit [OF v] by (simp add: demo_manifest_def demo_expected_def)
  then show ?thesis using v by blast
qed

end
