(* ===== verification/Vector_Mint.thy ===== *)
theory Vector_Mint
  imports Verify_Cli Json
begin

text \<open>
  The generator of the cross-implementation test vectors, \<open>src/scripts/generate_test_vectors.py\<close>: how
  a vector is minted, the three ways one is spoilt, what is published about it, and the check of the
  generator against the runner of \<open>src/scitt_cose/vectors.py\<close>. The generator handles no exception:
  \<open>None\<close> is one that ends it. The keys it generates are parameters, and the files it writes are the
  records the runner reads back.
\<close>

section \<open>Minting\<close>

definition TREE_SIZE :: nat where "TREE_SIZE = 8"
definition LEAF_INDEX :: nat where "LEAF_INDEX = 2"

text \<open>The private and public halves of the issuer's and of the log's key, in PEM.\<close>

record vector_keys =
  vk_issuer_priv :: bytes
  vk_issuer_pub :: bytes
  vk_log_priv :: bytes
  vk_log_pub :: bytes

record minted =
  mt_alg :: string
  mt_keys :: vector_keys
  mt_payload :: bytes
  mt_statement :: bytes
  mt_entries :: "string list"
  mt_leaf :: string
  mt_path :: "string list"
  mt_root :: string
  mt_receipt :: bytes

text \<open>A result whose exception ends the generator.\<close>

definition returned :: "'e + 'a \<Rightarrow> 'a option" where
  "returned r = (case r of Inl _ \<Rightarrow> None | Inr x \<Rightarrow> Some x)"

lemma returned_simps [simp]: "returned (Inr x) = Some x" "returned (Inl e) = None"
  by (simp_all add: returned_def)

lemma returned_Some: "returned r = Some x \<longleftrightarrow> r = Inr x"
  by (cases r) auto

definition vector_prefix :: string where
  "vector_prefix = ''scitt-cose test vectors v1 :: ''"

definition filler_leaf :: "string \<Rightarrow> nat \<Rightarrow> string" where
  "filler_leaf vector_id i =
     hex_sha256 (utf8_encode (vector_prefix @ vector_id @ '' :: filler leaf '' @ nat_text i))"

definition tree_entries :: "string \<Rightarrow> bytes \<Rightarrow> string list" where
  "tree_entries vector_id statement =
     map (\<lambda>i. if i = LEAF_INDEX then hex_sha256 statement else filler_leaf vector_id i) [0..<TREE_SIZE]"

text \<open>\<open>b[offset] ^= 0x01\<close>; a negative offset counts from the end.\<close>

definition flip_byte :: "bytes \<Rightarrow> int \<Rightarrow> bytes option" where
  "flip_byte data offset =
     (let i = (if offset < 0 then offset + int (length data) else offset)
      in if 0 \<le> i \<and> i < int (length data) then Some (data[nat i := xor (data ! nat i) 1]) else None)"

text \<open>\<open>json.dumps({"vector": ..., "note": ...}, sort_keys=True).encode()\<close>, with the default separators. The
  note has an em dash.\<close>

definition payload_note :: string where
  "payload_note = ''opaque payload '' @ map char_of [0xE2 :: nat, 0x80, 0x94] @ '' scitt-cose treats these bytes as opaque''"

definition vector_payload :: "string \<Rightarrow> bytes" where
  "vector_payload vector_id =
     utf8_encode (''{'' @ quoted ''note'' @ '': '' @ quoted payload_note @ '', '' @
                  quoted ''vector'' @ '': '' @ quoted vector_id @ ''}'')"

definition vector_issuer :: string where
  "vector_issuer = ''https://test-vectors.scitt-cose.invalid''"

definition vector_subject :: "string \<Rightarrow> string" where
  "vector_subject vector_id = ''urn:scitt-cose:test-vectors:v1:'' @ vector_id"

definition mint ::
    "cbor2_lib \<Rightarrow> 'k crypto_lib \<Rightarrow> vector_keys \<Rightarrow> string \<Rightarrow> string \<Rightarrow> (bytes \<Rightarrow> bytes option) option \<Rightarrow> minted option" where
  "mint L K keys vector_id alg transform_statement =
     (let payload = vector_payload vector_id in
      Option.bind (returned (build_signed_statement L K payload alg (Pem_Bytes (vk_issuer_priv keys))
          vector_issuer (vector_subject vector_id) ''application/json'' None None)) (\<lambda>statement.
      Option.bind (case transform_statement of None \<Rightarrow> Some statement | Some f \<Rightarrow> f statement) (\<lambda>statement.
      let entries = tree_entries vector_id statement; leaf = entries ! LEAF_INDEX in
      Option.bind (returned (build_receipt L K leaf (int LEAF_INDEX) entries alg (Pem_Bytes (vk_log_priv keys))
          True None None None None None)) (\<lambda>receipt.
      Option.bind (returned (inclusion_proof entries (int LEAF_INDEX))) (\<lambda>path.
      Option.bind (returned (merkle_root entries)) (\<lambda>root.
      Some \<lparr>mt_alg = alg, mt_keys = keys, mt_payload = payload, mt_statement = statement, mt_entries = entries,
            mt_leaf = leaf, mt_path = path, mt_root = root, mt_receipt = receipt\<rparr>))))))"

section \<open>Spoiling\<close>

text \<open>\<open>tag = cbor2.loads(b)\<close> and \<open>list(tag.value)\<close> unpacked into four.\<close>

definition load_sign1 :: "cbor2_lib \<Rightarrow> bytes \<Rightarrow> (int \<times> pyval \<times> pyval \<times> pyval \<times> pyval) option" where
  "load_sign1 L b =
     (case cbor_loads L b of
        Inr (CTag t v) \<Rightarrow> map_option (Pair t) (four_of v)
      | _ \<Rightarrow> None)"

text \<open>Something with \<open>items()\<close>: a dict or a \<open>frozendict\<close>.\<close>

fun as_mapping :: "pyval \<Rightarrow> pydict option" where
  "as_mapping (CDict d) = Some d"
| "as_mapping (CFrozen d) = Some d"
| "as_mapping _ = None"

text \<open>The first of the proofs in the unprotected header, with its first node flipped.\<close>

definition tampered_blob :: "cbor2_lib \<Rightarrow> pydict \<Rightarrow> bytes option" where
  "tampered_blob L vdp =
     (case Option.bind (dict_get vdp (CInt VDP_INCLUSION_PROOFS)) as_seq of
        Some (v # _) \<Rightarrow>
          Option.bind (as_bytes v) (\<lambda>blob.
          Option.bind (returned (cbor_loads L blob)) (\<lambda>value.
          Option.bind (three_of value) (\<lambda>(tree_size, leaf_index, path).
          Option.bind (Option.bind (as_seq path) (\<lambda>ps. those (map as_bytes ps))) (\<lambda>path.
          case path of
            [] \<Rightarrow> None
          | p # ps \<Rightarrow>
              Option.bind (flip_byte p 0) (\<lambda>p.
              returned (cbor_dumps L (CList [tree_size, leaf_index, CList (map CBytes (p # ps))])))))))
      | _ \<Rightarrow> None)"

definition tamper_inclusion_path :: "cbor2_lib \<Rightarrow> bytes \<Rightarrow> bytes option" where
  "tamper_inclusion_path L receipt =
     Option.bind (load_sign1 L receipt) (\<lambda>(t, prot, unprot, payload, sig).
     Option.bind (as_mapping unprot) (\<lambda>unprotected.
     Option.bind (Option.bind (dict_get unprotected (CInt HDR_VDP)) as_mapping) (\<lambda>vdp.
     Option.bind (tampered_blob L vdp) (\<lambda>blob.
     returned (cbor_dumps L (CTag t (CList
       [prot, CDict (dict_set unprotected (CInt HDR_VDP)
                (CDict (dict_set vdp (CInt VDP_INCLUSION_PROOFS) (CList [CBytes blob])))), payload, sig])))))))"

text \<open>The first node of an audit path flipped, as it is published with the vector.\<close>

definition flipped_path :: "string list \<Rightarrow> string list option" where
  "flipped_path path =
     (case path of
        [] \<Rightarrow> None
      | p # ps \<Rightarrow>
          Option.bind (returned (fromhex p)) (\<lambda>b. map_option (\<lambda>b. to_hex b # ps) (flip_byte b 0)))"

definition tamper_signature :: "cbor2_lib \<Rightarrow> bytes \<Rightarrow> bytes option" where
  "tamper_signature L statement =
     Option.bind (load_sign1 L statement) (\<lambda>(t, prot, unprot, payload, sig).
     Option.bind (as_bytes sig) (\<lambda>sig.
     Option.bind (flip_byte sig (- 1)) (\<lambda>sig.
     returned (cbor_dumps L (CTag t (CList [prot, unprot, payload, CBytes sig]))))))"

definition mint_unsupported_vds_receipt :: "cbor2_lib \<Rightarrow> 'k crypto_lib \<Rightarrow> minted \<Rightarrow> bytes option" where
  "mint_unsupported_vds_receipt L K m =
     Option.bind (returned (encode_inclusion_proof L (int TREE_SIZE) (int LEAF_INDEX) (mt_path m))) (\<lambda>blob.
     Option.bind (returned (fromhex (mt_root m))) (\<lambda>root.
     returned (sign_sign1 L K root (mt_alg m) (Pem_Bytes (vk_log_priv (mt_keys m)))
       (Some [(CInt HDR_VDS, CInt 2)]) (Some (receipt_unprotected blob)) True)))"

section \<open>Publishing\<close>

definition expected_of ::
    "string \<Rightarrow> minted \<Rightarrow> string \<Rightarrow> string option \<Rightarrow> bool \<Rightarrow> bool \<Rightarrow> expected" where
  "expected_of vector_id m result failure_code statement_sig_valid receipt_valid =
     \<lparr>e_payload_sha256 = hex_sha256 (mt_payload m), e_leaf_entry = mt_leaf m,
      e_header = \<lparr>eh_alg = Some (mt_alg m), eh_issuer = Some vector_issuer,
                  eh_subject = Some (vector_subject vector_id), eh_content_type = Some ''application/json''\<rparr>,
      e_statement_signature_valid = statement_sig_valid, e_receipt_valid = receipt_valid,
      e_reconstructed_root = (if receipt_valid then Some (mt_root m) else None),
      e_tree_size = Some (int TREE_SIZE), e_leaf_index = Some (int LEAF_INDEX),
      e_result = result, e_failure_code = failure_code\<rparr>"

text \<open>\<open>_write_vector\<close>: the files of a vector.\<close>

definition vector_of :: "minted \<Rightarrow> bytes \<Rightarrow> bytes \<Rightarrow> vector_files" where
  "vector_of m statement receipt =
     \<lparr>vf_payload = mt_payload m, vf_statement = statement, vf_receipt = receipt,
      vf_issuer_pub = vk_issuer_pub (mt_keys m), vf_log_pub = vk_log_pub (mt_keys m)\<rparr>"

text \<open>\<open>register\<close>: the entry in the manifest.\<close>

definition register :: "string \<Rightarrow> expected \<Rightarrow> manifest_entry" where
  "register vector_id e = \<lparr>m_id = vector_id, m_expected_result = e_result e, m_failure_code = e_failure_code e\<rparr>"

type_synonym vector = "manifest_entry \<times> vector_files \<times> expected"

definition published :: "string \<Rightarrow> minted \<Rightarrow> bytes \<Rightarrow> expected \<Rightarrow> vector" where
  "published vector_id m receipt e = (register vector_id e, vector_of m (mt_statement m) receipt, e)"

definition valid_vector :: "cbor2_lib \<Rightarrow> 'k crypto_lib \<Rightarrow> vector_keys \<Rightarrow> string \<Rightarrow> string \<Rightarrow> vector option" where
  "valid_vector L K keys vector_id alg =
     Option.bind (mint L K keys vector_id alg None) (\<lambda>m.
     Some (published vector_id m (mt_receipt m) (expected_of vector_id m ''VALID'' None True True)))"

definition tampered_path_vector :: "cbor2_lib \<Rightarrow> 'k crypto_lib \<Rightarrow> vector_keys \<Rightarrow> string \<Rightarrow> vector option" where
  "tampered_path_vector L K keys vector_id =
     Option.bind (mint L K keys vector_id ''EdDSA'' None) (\<lambda>m.
     Option.bind (tamper_inclusion_path L (mt_receipt m)) (\<lambda>receipt.
     Option.bind (flipped_path (mt_path m)) (\<lambda>_.
     Some (published vector_id m receipt
       (expected_of vector_id m ''INVALID'' (Some ''TAMPERED_INCLUSION_PATH'') True False)))))"

definition unsupported_vds_vector :: "cbor2_lib \<Rightarrow> 'k crypto_lib \<Rightarrow> vector_keys \<Rightarrow> string \<Rightarrow> vector option" where
  "unsupported_vds_vector L K keys vector_id =
     Option.bind (mint L K keys vector_id ''EdDSA'' None) (\<lambda>m.
     Option.bind (mint_unsupported_vds_receipt L K m) (\<lambda>receipt.
     Some (published vector_id m receipt (expected_of vector_id m ''INVALID'' (Some ''UNSUPPORTED_VDS'') True False))))"

definition bad_signature_vector :: "cbor2_lib \<Rightarrow> 'k crypto_lib \<Rightarrow> vector_keys \<Rightarrow> string \<Rightarrow> vector option" where
  "bad_signature_vector L K keys vector_id =
     Option.bind (mint L K keys vector_id ''EdDSA'' (Some (tamper_signature L))) (\<lambda>m.
     Some (published vector_id m (mt_receipt m)
       (expected_of vector_id m ''INVALID'' (Some ''BAD_STATEMENT_SIGNATURE'') False True)))"

text \<open>
  \<open>main\<close>. It refuses to touch a published version, or identifiers that the manifest (\<open>manifest_ids\<close>)
  already has, and otherwise ends with the check of what it wrote. Each vector has fresh keys.
\<close>

definition generated_vectors :: "cbor2_lib \<Rightarrow> 'k crypto_lib \<Rightarrow> (nat \<Rightarrow> vector_keys) \<Rightarrow> vector list option" where
  "generated_vectors L K keys =
     those [valid_vector L K (keys 0) ''valid-eddsa'' ''EdDSA'',
            valid_vector L K (keys 1) ''valid-es256'' ''ES256'',
            tampered_path_vector L K (keys 2) ''fail-tampered-path'',
            unsupported_vds_vector L K (keys 3) ''fail-unsupported-vds'',
            bad_signature_vector L K (keys 4) ''fail-bad-statement-sig'']"

definition generate ::
    "cbor2_lib \<Rightarrow> 'k crypto_lib \<Rightarrow> bool \<Rightarrow> string list \<Rightarrow> (nat \<Rightarrow> vector_keys) \<Rightarrow> (int \<times> vector list) option" where
  "generate L K version_exists manifest_ids keys =
     (if version_exists then Some (1, [])
      else Option.bind (generated_vectors L K keys) (\<lambda>vs.
        if list_ex (\<lambda>(m, _). m_id m \<in> set manifest_ids) vs then Some (1, vs)
        else Option.bind (those (map (\<lambda>(m, fs, e). returned (check_vector L K fs e)) vs)) (\<lambda>failures.
          Some (if concat failures = [] then 0 else 1, vs))))"

section \<open>What is minted verifies\<close>

lemma mint_text_iff: "mint_text (Some t) \<longleftrightarrow> utf8_valid (utf8_encode t) \<and> length t \<le> 2 ^ 20"
  by (simp add: mint_text_def)

text \<open>A statement with the issuer, subject and content type as its only claims can be signed.\<close>

definition statement_entries :: "string \<Rightarrow> string \<Rightarrow> string \<Rightarrow> (int \<times> pyval) list" where
  "statement_entries issuer subject content_type =
     [(3, CText content_type), (15, CDict (labelled [(1, CText issuer), (2, CText subject)]))]"

lemma statement_header_entries:
  "statement_header ct [(CInt 1, CText issuer), (CInt 2, CText subject)] None = labelled (statement_entries issuer subject ct)"
  by (simp add: statement_header_def statement_entries_def put_def labelled_def statement_consts receipt_consts)

lemma signed_statement_header:
  "map_of ALG_NAME_TO_CODE alg = Some code \<Longrightarrow>
     signed_header alg (Some (labelled (statement_entries issuer subject ct)))
       = labelled (statement_entries issuer subject ct @ [(1, CInt code)])"
  by (simp add: signed_header_def or_empty_def HDR_ALG_def dict_set_labelled statement_entries_def)

lemma statement_signable:
  assumes alg: "map_of ALG_NAME_TO_CODE alg = Some code" "code \<in> {-8, -7, -35}"
    and t: "mint_text (Some issuer)" "mint_text (Some subject)" "mint_text (Some ct)" "length payload \<le> 2 ^ 20"
  shows "\<exists>pit. signable alg payload (Some (statement_header ct [(CInt 1, CText issuer), (CInt 2, CText subject)] None))
           (Some []) pit (I_Map [])"
proof -
  let ?c = "[(1 :: int, CText issuer), (2, CText subject)]"
  let ?es = "statement_entries issuer subject ct @ [(1, CInt code)]"
  have pc: "plain_entries 1 ?c" using t by (simp add: plain_entries_def mint_text_iff)
  have c: "item_of (CDict (labelled ?c)) = Some (entries_item ?c)" "admits 1 False (entries_item ?c)"
    using header_item_entries [OF pc] by (simp_all add: header_item_def)
  have k: "item_of (CInt code) = Some (int_item code)" "admits 1 False (int_item code)"
    using item_of_int [of code] int_item_ok [of code 1] alg(2) by auto
  have pe: "plain_entries 0 ?es"
    using t c k by (simp add: plain_entries_def statement_entries_def mint_text_iff del: item_of.simps(8))
  have lc: "length (enc (entries_item ?c)) \<le> 2 ^ 21 + 100"
    using t length_enc_entries [of ?c] length_enc_text(1) [of "utf8_encode issuer"] length_enc_text(1) [of "utf8_encode subject"]
    by (simp add: mint_text_iff del: enc.simps)
  have le: "length (enc (entries_item ?es)) \<le> 2 ^ 22 + 300"
    using t lc k c length_enc_entries [of ?es] length_enc_text(1) [of "utf8_encode ct"] length_enc_int [of code]
    by (simp add: mint_text_iff statement_entries_def del: enc.simps item_of.simps(8))
  have lm: "length (enc (I_Map [])) \<le> 9" using length_enc_head [of 5 0] by simp
  show ?thesis
    using header_item_entries [OF pe] le t(4) lm
    by (intro exI [of _ "entries_item ?es"])
      (simp add: signable_def statement_header_entries signed_statement_header [OF alg(1)] or_empty_def MAX_MESSAGE_BYTES_def
        header_item_def del: enc.simps)
qed

lemma key_match_code:
  "key_match K alg sk pk \<Longrightarrow> \<exists>code. map_of ALG_NAME_TO_CODE alg = Some code \<and> code \<in> {-8, -7, -35}"
  by (auto simp: key_match_def alg_tables)

text \<open>The payload is short.\<close>

lemma length_point_text: "length (point_text n) \<le> 12"
  by (simp add: point_text_def u_escape_def)

lemma length_utf8_chars: "length (utf8_chars s) \<le> length s"
  by (induction s) (auto split: list.splits)

lemma length_quoted: "length (quoted s) \<le> 12 * length s + 2"
proof -
  have "length (concat (map (\<lambda>c. point_text (code_point c)) us)) \<le> 12 * length us" for us
  proof (induction us)
    case (Cons u us)
    then show ?case using length_point_text [of "code_point u"] by simp
  qed simp
  then show ?thesis using length_utf8_chars [of s] by (simp add: quoted_def order_trans [of _ "12 * length (utf8_chars s)"])
qed

definition good_id :: "string \<Rightarrow> bool" where
  "good_id vector_id \<longleftrightarrow> utf8_valid (utf8_encode vector_id) \<and> length vector_id \<le> 1000"

lemma length_vector_payload: "good_id vid \<Longrightarrow> length (vector_payload vid) \<le> 2 ^ 20"
  using length_quoted [of "''note''"] length_quoted [of "payload_note"] length_quoted [of "''vector''"] length_quoted [of vid]
  by (simp add: vector_payload_def good_id_def payload_note_def)

lemma utf8_subject: "good_id vid \<Longrightarrow> mint_text (Some (vector_subject vid))"
  by (simp add: mint_text_iff good_id_def vector_subject_def utf8_valid_def utf8_encode_def byte_of_char_def)

lemma utf8_fixed: "mint_text (Some vector_issuer)" "mint_text (Some ''application/json'')"
  by (simp_all add: mint_text_iff vector_issuer_def utf8_valid_def utf8_encode_def byte_of_char_def)

definition statement_args_ok :: "string \<Rightarrow> item \<Rightarrow> string \<Rightarrow> bool" where
  "statement_args_ok alg pit vid \<longleftrightarrow>
     signable alg (vector_payload vid)
       (Some (statement_header ''application/json'' [(CInt 1, CText vector_issuer), (CInt 2, CText (vector_subject vid))] None))
       (Some []) pit (I_Map [])"

lemma minted_args:
  assumes "key_match K alg sk pk" "good_id vid"
  obtains pit where "statement_args_ok alg pit vid"
  using key_match_code [OF assms(1)] statement_signable [OF _ _ utf8_fixed(1) utf8_subject [OF assms(2)] utf8_fixed(2)
      length_vector_payload [OF assms(2)]]
  unfolding statement_args_ok_def by blast

definition minted_fields :: "string \<Rightarrow> string \<Rightarrow> statement_fields" where
  "minted_fields alg vid =
     \<lparr> f_issuer = Some vector_issuer, f_subject = Some (vector_subject vid), f_content_type = Some ''application/json'',
       f_alg = CText alg, f_claims = [(CInt 1, CText vector_issuer), (CInt 2, CText (vector_subject vid))],
       f_payload = Some (vector_payload vid) \<rparr>"

lemma minted_statement:
  assumes "cbor2_plain L" "key_match K alg (Pem_Bytes sk) (Pem_Bytes pk)" "good_id vid"
  shows "\<exists>st. build_signed_statement L K (vector_payload vid) alg (Pem_Bytes sk) vector_issuer (vector_subject vid)
           ''application/json'' None None = Inr st \<and>
         parse_signed_statement L K (CBytes st) (Some (Pem_Bytes pk)) =
           Inr \<lparr> p_signature_verified = Some True, p_fields = minted_fields alg vid, p_unverified = None \<rparr>"
proof -
  obtain pit where p: "statement_args_ok alg pit vid" by (rule minted_args [OF assms(2,3)])
  show ?thesis
    using built_statement_parses [OF assms(1,2) _ _ _ p [unfolded statement_args_ok_def], where extra = None]
    by (simp add: or_empty_def minted_fields_def plain_dict_def)
qed

lemma nth_tree_entries: "tree_entries vid st ! LEAF_INDEX = hex_sha256 st" "length (tree_entries vid st) = TREE_SIZE"
  by (simp_all add: tree_entries_def LEAF_INDEX_def TREE_SIZE_def)

lemma tree_entries_root: "\<exists>root. merkle_root (tree_entries vid st) = Inr root"
proof -
  have "\<exists>ents. rmapM fromhex (map (\<lambda>i. if i = LEAF_INDEX then hex_sha256 st else filler_leaf vid i) is) = Inr ents" for "is"
    by (induction "is") (auto simp: hex_sha256_def filler_leaf_def)
  from this [of "[0..<TREE_SIZE]"] show ?thesis by (auto simp: merkle_root_def entry_leaves_eq tree_entries_def)
qed

lemma minted_log:
  assumes "cbor2_plain L" "key_match K alg (Pem_Bytes sk) (Pem_Bytes pk)"
  shows "\<exists>receipt path root r. build_receipt L K (hex_sha256 st) (int LEAF_INDEX) (tree_entries vid st) alg (Pem_Bytes sk) True
           None None None None None = Inr receipt \<and>
         inclusion_proof (tree_entries vid st) (int LEAF_INDEX) = Inr path \<and> merkle_root (tree_entries vid st) = Inr root \<and>
         verify_receipt L K (CBytes receipt) (hex_sha256 st) (Pem_Bytes pk) = Inr r \<and> r_ok r \<and> r_root r = Some root \<and>
         r_tree_size r = Some (int TREE_SIZE) \<and> r_leaf_index r = Some (int LEAF_INDEX)"
proof -
  obtain root where root: "merkle_root (tree_entries vid st) = Inr root" using tree_entries_root by blast
  have i: "0 \<le> int LEAF_INDEX" "int LEAF_INDEX < int (length (tree_entries vid st))"
    "int (length (tree_entries vid st)) \<le> MAX_TREE_SIZE"
    by (simp_all add: nth_tree_entries LEAF_INDEX_def TREE_SIZE_def MAX_TREE_SIZE_def)
  have none: "mintable None None None None None" by (simp add: mintable_def mint_text_def)
  obtain nodes where "inclusion_proof (tree_entries vid st) (int LEAF_INDEX) = Inr (map to_hex nodes)"
    by (rule minted_proof [OF root i])
  then show ?thesis
    using minted_receipt_verifies [OF assms root i none] root by (fastforce simp: nth_tree_entries)
qed

text \<open>What the verifiers say of a vector: the verdict on the statement's signature, where an exception
  counts as a failure, and on the receipt, with the step it failed at.\<close>

definition statement_verdict :: "cbor2_lib \<Rightarrow> 'k crypto_lib \<Rightarrow> vector_files \<Rightarrow> bool option" where
  "statement_verdict L K fs =
     p_signature_verified
       (case parse_signed_statement L K (CBytes (vf_statement fs)) (Some (Pem_Bytes (vf_issuer_pub fs))) of
          Inl _ \<Rightarrow> failed_parse | Inr p \<Rightarrow> p)"

definition receipt_of :: "cbor2_lib \<Rightarrow> 'k crypto_lib \<Rightarrow> vector_files \<Rightarrow> expected \<Rightarrow> string + receipt_result" where
  "receipt_of L K fs e = verify_receipt L K (CBytes (vf_receipt fs)) (e_leaf_entry e) (Pem_Bytes (vf_log_pub fs))"

definition receipt_verdict ::
    "cbor2_lib \<Rightarrow> 'k crypto_lib \<Rightarrow> vector_files \<Rightarrow> expected \<Rightarrow> string + bool \<times> string option" where
  "receipt_verdict L K fs e = rmap (\<lambda>r. (r_ok r, r_failed_at r)) (receipt_of L K fs e)"

lemma ok_not_failed: "verify_receipt L K receipt leaf pem = Inr r \<Longrightarrow> r_ok r \<Longrightarrow> r_failed_at r = None"
  using verify_receipt_shape by (fastforce simp: result_shape_def)

text \<open>A valid vector passes the runner.\<close>

lemma check_vector_passes:
  assumes "parse_signed_statement L K (CBytes (vf_statement fs)) (Some (Pem_Bytes (vf_issuer_pub fs))) = Inr p \<or>
      parse_signed_statement L K (CBytes (vf_statement fs)) (Some (Pem_Bytes (vf_issuer_pub fs))) = Inl err \<and> p = failed_parse"
    and "verify_receipt L K (CBytes (vf_receipt fs)) (e_leaf_entry e) (Pem_Bytes (vf_log_pub fs)) = Inr res"
    and "vector_agrees p res fs e"
  shows "check_vector L K fs e = Inr []"
proof -
  have "statement_shape failed_parse" by (simp add: failed_parse_def statement_shape_def)
  then have "statement_shape p" using assms(1) parse_shape by blast
  then have "statement_mismatches p (vf_payload fs) (e_header e) = []"
    using assms(3) by (simp add: statement_mismatches_Nil vector_agrees_def)
  then show ?thesis using assms by (auto simp: check_vector_def vector_agrees_def Let_def)
qed

lemma valid_vector_passes:
  assumes "cbor2_plain L" "key_match K alg (Pem_Bytes (vk_issuer_priv keys)) (Pem_Bytes (vk_issuer_pub keys))"
    and "key_match K alg (Pem_Bytes (vk_log_priv keys)) (Pem_Bytes (vk_log_pub keys))" "good_id vid"
  shows "\<exists>m fs e. valid_vector L K keys vid alg = Some (m, fs, e) \<and> check_vector L K fs e = Inr [] \<and> run_vector L K (m, fs, e) = Inr (vid, []) \<and>
    e_result e = ''VALID'' \<and> e_failure_code e = None \<and>
    statement_verdict L K fs = Some True \<and> receipt_verdict L K fs e = Inr (True, None)"
proof -
  obtain st where st: "build_signed_statement L K (vector_payload vid) alg (Pem_Bytes (vk_issuer_priv keys)) vector_issuer
      (vector_subject vid) ''application/json'' None None = Inr st"
    "parse_signed_statement L K (CBytes st) (Some (Pem_Bytes (vk_issuer_pub keys))) =
       Inr \<lparr> p_signature_verified = Some True, p_fields = minted_fields alg vid, p_unverified = None \<rparr>"
    using minted_statement [OF assms(1,2,4)] by blast
  obtain receipt path root r where r: "build_receipt L K (hex_sha256 st) (int LEAF_INDEX) (tree_entries vid st) alg
      (Pem_Bytes (vk_log_priv keys)) True None None None None None = Inr receipt"
    "inclusion_proof (tree_entries vid st) (int LEAF_INDEX) = Inr path" "merkle_root (tree_entries vid st) = Inr root"
    "verify_receipt L K (CBytes receipt) (hex_sha256 st) (Pem_Bytes (vk_log_pub keys)) = Inr r" "r_ok r" "r_root r = Some root"
    "r_tree_size r = Some (int TREE_SIZE)" "r_leaf_index r = Some (int LEAF_INDEX)"
    using minted_log [OF assms(1,3)] by metis
  define m where "m = \<lparr>mt_alg = alg, mt_keys = keys, mt_payload = vector_payload vid, mt_statement = st,
    mt_entries = tree_entries vid st, mt_leaf = hex_sha256 st, mt_path = path, mt_root = root, mt_receipt = receipt\<rparr>"
  define e where "e = expected_of vid m ''VALID'' None True True"
  have "mint L K keys vid alg None = Some m"
    using st(1) r(1-3) by (simp add: mint_def m_def nth_tree_entries Let_def)
  then have v: "valid_vector L K keys vid alg = Some (register vid e, vector_of m st receipt, e)"
    by (simp add: valid_vector_def published_def e_def m_def)
  moreover have "check_vector L K (vector_of m st receipt) e = Inr []"
    using st(2) r(4-8)
    by (intro check_vector_passes [where res = r and p = "\<lparr> p_signature_verified = Some True, p_fields = minted_fields alg vid, p_unverified = None \<rparr>"])
      (simp_all add: e_def m_def vector_of_def expected_of_def vector_agrees_def header_agrees_def minted_fields_def opt_text_def)
  moreover have "statement_verdict L K (vector_of m st receipt) = Some True" "receipt_verdict L K (vector_of m st receipt) e = Inr (True, None)"
    using st(2) r(4,5) ok_not_failed [OF r(4,5)]
    by (simp_all add: statement_verdict_def receipt_verdict_def receipt_of_def e_def m_def vector_of_def expected_of_def)
  moreover have "e_result e = ''VALID''" "e_failure_code e = None" by (simp_all add: e_def expected_of_def)
  ultimately show ?thesis by (auto simp: run_vector_def register_def)
qed

text \<open>
  A receipt that names the CCF tree over an RFC 9162 proof is rejected without a look at its
  signature: the proof is not a CCF proof.
\<close>

definition vds2_entries :: "int \<Rightarrow> (int \<times> pyval) list" where
  "vds2_entries code = [(395, CInt 2), (1, CInt code)]"

lemma vds2_header:
  assumes "code \<in> {-8, -7, -35}"
  shows "header_item 0 (labelled (vds2_entries code)) (entries_item (vds2_entries code))"
    and "length (enc (entries_item (vds2_entries code))) \<le> 100"
    and "plain_dict (labelled (vds2_entries code)) = labelled (vds2_entries code)"
proof -
  have k: "item_of (CInt c) = Some (int_item c) \<and> admits 1 False (int_item c)" if "c \<in> {2, -8, -7, -35}" for c
    using item_of_int [of c] int_item_ok [of c 1] that by auto
  show "header_item 0 (labelled (vds2_entries code)) (entries_item (vds2_entries code))"
    using assms k [of 2] k [of code] by (intro header_item_entries) (simp add: plain_entries_def vds2_entries_def del: item_of.simps(1))
  show "length (enc (entries_item (vds2_entries code))) \<le> 100"
    using length_enc_entries [of "vds2_entries code"] k [of 2] k [of code] assms length_enc_int [of 2] length_enc_int [of code]
    by (simp add: vds2_entries_def del: item_of.simps(1))
  show "plain_dict (labelled (vds2_entries code)) = labelled (vds2_entries code)"
    by (rule labelled_plain) (auto simp: vds2_entries_def)
qed

lemma vds2_rejected:
  assumes L: "cbor2_plain L" and m: "admits 0 True (message_item (enc (entries_item (vds2_entries code))) uit None sig)"
    and len: "length (enc (message_item (enc (entries_item (vds2_entries code))) uit None sig)) \<le> MAX_MESSAGE_BYTES"
    and code: "code \<in> {-8, -7, -35}" and b: "admits 0 False (blob_item n i nodes)" "0 \<le> i" "i < n"
    and uit: "header_item 2 (receipt_unprotected (enc (blob_item n i nodes))) uit" and leaf: "fromhex leaf = Inr claim"
  shows "\<exists>r. verify_receipt L K (CBytes (enc (message_item (enc (entries_item (vds2_entries code))) uit None sig))) leaf pem = Inr r
           \<and> \<not> r_ok r \<and> r_failed_at r = Some ''structure'' \<and> r_errors r = [Bad_Proof Ccf_Not_Map]"
proof -
  let ?H = "labelled (vds2_entries code)" and ?b = "enc (blob_item n i nodes)"
  have look: "dict_get ?H (CInt 1) = Some (CInt code)" "dict_get ?H (CInt 2) = None" "vds_of ?H = Some 2"
    by (simp_all add: vds2_entries_def dict_get_labelled vds_of_Some)
  have h: "receipt_header L (CBytes (enc (message_item (enc (entries_item (vds2_entries code))) uit None sig))) = Inr (?H, val_of uit)"
    by (rule minted_header [OF L m vds2_header(1) [OF code] len vds2_header(3) [OF code] look(2)]) (simp add: look)
  have "val_of uit = CDict (plain_dict (receipt_unprotected ?b))" by (rule header_item_val [OF uit])
  then have "header_blobs (val_of uit) [?b]"
    using b(1) by (auto simp: header_blobs_def receipt_unprotected_def receipt_consts plain_dict_def get_or_none_def rule_check_iff)
  then have bl: "receipt_proofs (val_of uit) = Inr [?b]" by (simp add: receipt_proofs_Inr)
  obtain v where v: "cbor_loads L ?b = Inr v" "item_of v = Some (blob_item n i nodes)"
    using cbor2_plain_decode [OF L admits_outer [OF b(1)]] by blast
  have "as_dict (plain v) = None" using plain_val_of [OF v(2) b(1)] by (simp add: blob_item_def)
  then have "verify_ccf_v1_proof L ?b claim = Inl Ccf_Not_Map" using v(1) by (simp add: verify_ccf_v1_proof_def)
  then have "verify_receipt_steps L K (CBytes (enc (message_item (enc (entries_item (vds2_entries code))) uit None sig))) leaf pem
      = stop_at (Bad_Proof Ccf_Not_Map)"
    using h bl look leaf by (simp add: verify_receipt_steps_def verify_ccf_def receipt_consts)
  then show ?thesis by (simp add: verify_receipt_def stop_at_def add_errors_def empty_result_def)
qed

lemma unsupported_vds_receipt:
  assumes L: "cbor2_plain L" and K: "key_match K alg (Pem_Bytes (vk_log_priv (mt_keys m))) (Pem_Bytes pk)"
    and m: "mt_alg m = alg" "inclusion_proof (tree_entries vid st) (int LEAF_INDEX) = Inr (mt_path m)"
      "merkle_root (tree_entries vid st) = Inr (mt_root m)"
  shows "\<exists>receipt r. mint_unsupported_vds_receipt L K m = Some receipt \<and>
     verify_receipt L K (CBytes receipt) (hex_sha256 st) pem = Inr r \<and>
     \<not> r_ok r \<and> r_failed_at r = Some ''structure'' \<and> r_errors r = [Bad_Proof Ccf_Not_Map]"
proof -
  have i: "0 \<le> int LEAF_INDEX" "int LEAF_INDEX < int (length (tree_entries vid st))"
    "int (length (tree_entries vid st)) \<le> MAX_TREE_SIZE"
    by (simp_all add: nth_tree_entries LEAF_INDEX_def TREE_SIZE_def MAX_TREE_SIZE_def)
  obtain nodes payload where p: "mt_path m = map to_hex nodes" "mt_root m = to_hex payload" "length payload = 32"
    "\<forall>x \<in> set nodes. length x = 32" "length nodes \<le> 62"
    using minted_proof [OF m(3) i] m(2) by (metis sum.inject(2))
  have i2: "int LEAF_INDEX < int TREE_SIZE" "int TREE_SIZE \<le> 2 ^ 62" by (simp_all add: LEAF_INDEX_def TREE_SIZE_def)
  have b: "item_of (inclusion_proof_value (int TREE_SIZE) (int LEAF_INDEX) nodes) = Some (blob_item (int TREE_SIZE) (int LEAF_INDEX) nodes)"
    "admits 0 False (blob_item (int TREE_SIZE) (int LEAF_INDEX) nodes)"
    "length (enc (blob_item (int TREE_SIZE) (int LEAF_INDEX) nodes)) \<le> 3000"
    using blob_item_ok [OF i(1) i2 p(5,4)] by simp_all
  let ?b = "enc (blob_item (int TREE_SIZE) (int LEAF_INDEX) nodes)"
  have eb: "encode_inclusion_proof L (int TREE_SIZE) (int LEAF_INDEX) (mt_path m) = Inr ?b"
    using cbor2_plain_dumps [OF L b(1) admits_fits [OF b(2)]] p(1)
    by (simp add: encode_inclusion_proof_def hex_nodes_def rmapM_map py_def)
  obtain code where code: "map_of ALG_NAME_TO_CODE alg = Some code" "code \<in> {-8, -7, -35}"
    using key_match_code [OF K] by blast
  let ?uit = "entries_item [(396, CDict (labelled [(-1, CList [CBytes ?b])]))]"
  have hu: "header_item 2 (receipt_unprotected ?b) ?uit" "length (enc ?uit) \<le> 3100"
    using unprotected_plain [OF b(3)] by simp_all
  have H: "signed_header alg (Some [(CInt HDR_VDS, CInt 2)]) = labelled (vds2_entries code)"
    using code(1) by (simp add: signed_header_def or_empty_def vds2_entries_def labelled_def HDR_ALG_def receipt_consts)
  have "signable alg payload (Some [(CInt HDR_VDS, CInt 2)]) (Some (receipt_unprotected ?b)) (entries_item (vds2_entries code)) ?uit"
    using hu vds2_header [OF code(2)] p(3) by (simp add: signable_def H or_empty_def MAX_MESSAGE_BYTES_def)
  then obtain sig where s: "sign_sign1 L K payload alg (Pem_Bytes (vk_log_priv (mt_keys m))) (Some [(CInt HDR_VDS, CInt 2)])
      (Some (receipt_unprotected ?b)) True = Inr (enc (message_item (enc (entries_item (vds2_entries code))) ?uit None sig))"
    "admits 0 True (message_item (enc (entries_item (vds2_entries code))) ?uit None sig)"
    "length (enc (message_item (enc (entries_item (vds2_entries code))) ?uit None sig)) \<le> MAX_MESSAGE_BYTES"
    using sign_sign1_message [OF L K, where detached = True and payload = payload] by (metis (full_types))
  have "fromhex (hex_sha256 st) = Inr (sha256 st)" by (simp add: hex_sha256_def)
  from vds2_rejected [OF L s(2,3) code(2) b(2) i(1) i2(1) hu(1) this] s(1) eb p(2) m(1)
  show ?thesis by (auto simp: mint_unsupported_vds_receipt_def)
qed

text \<open>A statement whose signature is flipped: the message around it is the same.\<close>

lemma load_sign1_message:
  assumes L: "cbor2_plain L" and m: "admits 0 True (message_item pb u slot sig)"
  obtains x sl where "load_sign1 L (enc (message_item pb u slot sig)) = Some (18, CBytes pb, x, sl, CBytes sig)"
    "item_of x = Some u" "item_of sl = Some (slot_item slot)"
proof -
  obtain v where v: "cbor_loads L (enc (message_item pb u slot sig)) = Inr v" "item_of v = Some (message_item pb u slot sig)"
    using cbor2_plain_decode [OF L m] by blast
  obtain inner where i: "v = CTag 18 inner" "item_of inner = Some (I_Array [I_Bytes pb, u, slot_item slot, I_Bytes sig])"
    using v(2) by (cases v) (auto simp: message_item_def split: if_splits)
  obtain xs where xs: "as_seq inner = Some xs" "map item_of xs = map Some [I_Bytes pb, u, slot_item slot, I_Bytes sig]"
    using i(2) by (cases inner) (auto simp: those_Some split: if_splits)
  have b: "w = CBytes c" if "item_of w = Some (I_Bytes c)" for w c
    using that by (cases w) (auto split: if_splits)
  obtain p x sl s where q: "xs = [p, x, sl, s]" "item_of p = Some (I_Bytes pb)" "item_of x = Some u"
      "item_of sl = Some (slot_item slot)" "item_of s = Some (I_Bytes sig)"
    using xs(2) by (auto simp: map_eq_Cons_conv)
  have "four_of inner = Some (CBytes pb, x, sl, CBytes sig)"
    using xs(1) q b by (simp add: four_of_Some)
  then show thesis using that q(3,4) v(1) i(1) by (simp add: load_sign1_def)
qed

lemma message_resigned:
  assumes "admits 0 True (message_item pb u slot sig)" "length sig' = length sig"
  shows "admits 0 True (message_item pb u slot sig')"
    and "length (enc (message_item pb u slot sig')) = length (enc (message_item pb u slot sig))"
  using assms by (auto simp: message_item_def)

lemma tamper_signature_message:
  assumes L: "cbor2_plain L" and m: "admits 0 True (message_item pb u slot sig)" and f: "flip_byte sig (- 1) = Some sig'"
  shows "tamper_signature L (enc (message_item pb u slot sig)) = Some (enc (message_item pb u slot sig'))"
proof -
  obtain x sl where l: "load_sign1 L (enc (message_item pb u slot sig)) = Some (18, CBytes pb, x, sl, CBytes sig)"
    "item_of x = Some u" "item_of sl = Some (slot_item slot)"
    by (rule load_sign1_message [OF L m])
  have "length sig' = length sig" using f by (auto simp: flip_byte_def Let_def split: if_splits)
  then have m': "admits 0 True (message_item pb u slot sig')" by (rule message_resigned [OF m])
  have "item_of (CTag 18 (CList [CBytes pb, x, sl, CBytes sig'])) = Some (message_item pb u slot sig')"
    using l(2,3) by (simp add: message_item_def)
  then show ?thesis using l(1) f cbor2_plain_dumps [OF L _ admits_fits [OF m']] by (simp add: tamper_signature_def)
qed

text \<open>The key accepts the flipped signature over the octets the issuer signed.\<close>

definition flip_accepted :: "cbor2_lib \<Rightarrow> 'k crypto_lib \<Rightarrow> bytes \<Rightarrow> pem \<Rightarrow> bool" where
  "flip_accepted L K statement pem \<longleftrightarrow>
     (\<exists>pb u payload sig sig' pk tbs. decode_envelope L (CBytes statement) = Inr (CBytes pb, u, CBytes payload, CBytes sig) \<and>
        flip_byte sig (- 1) = Some sig' \<and> sig_structure L pb payload = Inr tbs \<and>
        load_public K (pem_bytes pem) = Inr pk \<and> signature_accepted K (- 8) pk sig' tbs)"

text \<open>Without a verified signature, the fields of a decoded statement are those of its header.\<close>

lemma structural_fields:
  assumes L: "cbor2_plain L" and m: "admits 0 True (message_item (enc pit) uit (Some payload) sig)"
    and h: "header_item 0 d pit" and len: "length (enc (message_item (enc pit) uit (Some payload) sig)) \<le> MAX_MESSAGE_BYTES"
  shows "\<exists>n. safe_structural_fields L (CBytes (enc (message_item (enc pit) uit (Some payload) sig)))
           = Inr (Some (extract_fields (plain_dict d) None, n))"
proof -
  have a: "admits 0 False pit" using h by (simp add: header_item_def)
  obtain u sl where e: "sign1_elements L (CBytes (enc (message_item (enc pit) uit (Some payload) sig)))
      = Inr (18, CBytes (enc pit), u, sl, CBytes sig)"
    by (rule message_elements [OF L m a len])
  obtain w where w: "cbor_loads L (enc pit) = Inr w" "item_of w = Some pit"
    using cbor2_plain_decode [OF L admits_outer [OF a]] by blast
  have p: "plain w = CDict (plain_dict d)" using plain_val_of [OF w(2) a] header_item_val [OF h] by simp
  have "enc pit \<noteq> []" using h by (cases pit) (auto simp: header_item_def enc_head_def)
  then have "structural_protected L (CBytes (enc pit)) = Inr (plain_dict d)"
    using w(1) p by (simp add: structural_protected_def)
  then show ?thesis using e by (simp add: safe_structural_fields_def structural_parse_def)
qed

text \<open>
  The vector with a spoilt statement signature passes the runner, unless the issuer's key accepts the
  flipped signature over the same octets.
\<close>

lemma minted_statement_message:
  assumes "cbor2_plain L" "key_match K ''EdDSA'' (Pem_Bytes sk) (Pem_Bytes pk)" "good_id vid"
  obtains pit sig where
    "header_item 0 (labelled (statement_entries vector_issuer (vector_subject vid) ''application/json'' @ [(1, CInt (- 8))])) pit"
    "build_signed_statement L K (vector_payload vid) ''EdDSA'' (Pem_Bytes sk) vector_issuer (vector_subject vid)
       ''application/json'' None None = Inr (enc (message_item (enc pit) (I_Map []) (Some (vector_payload vid)) sig))"
    "admits 0 True (message_item (enc pit) (I_Map []) (Some (vector_payload vid)) sig)"
    "length (enc (message_item (enc pit) (I_Map []) (Some (vector_payload vid)) sig)) \<le> MAX_MESSAGE_BYTES" "64 \<le> length sig"
proof -
  let ?c = "[(CInt 1, CText vector_issuer), (CInt 2, CText (vector_subject vid))]"
  obtain pit where p: "statement_args_ok ''EdDSA'' pit vid" by (rule minted_args [OF assms(2,3)])
  have h: "header_item 0 (labelled (statement_entries vector_issuer (vector_subject vid) ''application/json'' @ [(1, CInt (- 8))])) pit"
    using p by (simp add: statement_args_ok_def signable_def statement_header_entries signed_statement_header [of "''EdDSA''" "- 8"]
        alg_tables)
  obtain sig where "sign_sign1 L K (vector_payload vid) ''EdDSA'' (Pem_Bytes sk) (Some (statement_header ''application/json'' ?c None))
      (Some []) False = Inr (enc (message_item (enc pit) (I_Map []) (Some (vector_payload vid)) sig))"
    "admits 0 True (message_item (enc pit) (I_Map []) (Some (vector_payload vid)) sig)"
    "length (enc (message_item (enc pit) (I_Map []) (Some (vector_payload vid)) sig)) \<le> MAX_MESSAGE_BYTES" "64 \<le> length sig"
    using sign_sign1_message [OF assms(1,2) p [unfolded statement_args_ok_def], where detached = False] by (metis (full_types))
  then show thesis using that h by (simp add: build_signed_statement_def or_empty_def statement_consts)
qed

lemma statement_fields_of:
  "extract_fields (plain_dict (labelled (statement_entries i s ct @ [(1, CInt (- 8))]))) None =
     \<lparr> f_issuer = Some i, f_subject = Some s, f_content_type = Some ct, f_alg = CText ''EdDSA'',
       f_claims = [(CInt 1, CText i), (CInt 2, CText s)], f_payload = None \<rparr>"
proof -
  have "plain_dict (labelled (statement_entries i s ct @ [(1, CInt (- 8))])) =
      [(CInt 3, CText ct), (CInt 15, CDict [(CInt 1, CText i), (CInt 2, CText s)]), (CInt 1, CInt (- 8))]"
    by (simp add: plain_dict_def labelled_def statement_entries_def)
  then show ?thesis
    by (simp add: extract_fields_def Let_def get_or_none_def statement_consts receipt_consts decode_text_def alg_display_def
        ALG_CODE_TO_NAME_def alg_tables HDR_ALG_def)
qed

lemma flip_byte_last: "sig \<noteq> [] \<Longrightarrow> \<exists>sig'. flip_byte sig (- 1) = Some sig' \<and> length sig' = length sig"
  by (auto simp: flip_byte_def Let_def)

lemma bad_signature_parse:
  assumes L: "cbor2_plain L" and m: "admits 0 True (message_item (enc pit) (I_Map []) (Some payload) sig)"
    and h: "header_item 0 (labelled (statement_entries i s ct @ [(1, CInt (- 8))])) pit"
    and len: "length (enc (message_item (enc pit) (I_Map []) (Some payload) sig)) \<le> MAX_MESSAGE_BYTES"
    and f: "flip_byte sig (- 1) = Some sig'" and no: "\<not> flip_accepted L K (enc (message_item (enc pit) (I_Map []) (Some payload) sig)) pem"
  obtains p err where "parse_signed_statement L K (CBytes (enc (message_item (enc pit) (I_Map []) (Some payload) sig'))) (Some pem) = Inr p \<or>
      parse_signed_statement L K (CBytes (enc (message_item (enc pit) (I_Map []) (Some payload) sig'))) (Some pem) = Inl err \<and> p = failed_parse"
    "p_signature_verified p = Some False"
    "\<forall>f n. p_unverified p = Some (f, n) \<longrightarrow>
       header_agrees f \<lparr>eh_alg = Some ''EdDSA'', eh_issuer = Some i, eh_subject = Some s, eh_content_type = Some ct\<rparr>"
proof -
  let ?m = "message_item (enc pit) (I_Map []) (Some payload) sig"
  let ?m' = "message_item (enc pit) (I_Map []) (Some payload) sig'"
  let ?d = "labelled (statement_entries i s ct @ [(1, CInt (- 8))])"
  have ls: "length sig' = length sig" using f by (auto simp: flip_byte_def Let_def split: if_splits)
  have m': "admits 0 True ?m'" "length (enc ?m') \<le> MAX_MESSAGE_BYTES"
    by (rule message_resigned(1) [OF m ls], rule ord_eq_le_trans [OF message_resigned(2) [OF m ls] len])
  have a: "admits 0 False pit" using h by (simp add: header_item_def)
  note env = message_envelope [OF L m a len] and env' = message_envelope [OF L m'(1) a m'(2)]
  have "verify_sign1 L K (CBytes (enc ?m')) pem None STMT_UNDERSTOOD \<noteq> Inr r" for r
  proof
    assume "verify_sign1 L K (CBytes (enc ?m')) pem None STMT_UNDERSTOOD = Inr r"
    then obtain pk tbs alg where v: "decode_protected L (enc pit) = Inr (s_protected r)" "s_payload r = payload"
      "sig_structure L (enc pit) payload = Inr tbs" "dict_get (s_protected r) (CInt 1) = Some (CInt alg)"
      "load_public K (pem_bytes pem) = Inr pk" "signature_accepted K alg pk sig' tbs"
      using verify_authentic env' by fastforce
    have "dict_get (plain_dict ?d) (CInt 1) = Some (CInt (- 8))"
      by (simp add: dict_get_plain_dict dict_get_labelled statement_entries_def)
    then have "alg = - 8" using v(1,4) decode_protected_enc [OF L h] by simp
    then show False using no v env f by (auto simp: flip_accepted_def)
  qed
  then consider f where "verify_sign1 L K (CBytes (enc ?m')) pem None STMT_UNDERSTOOD = Inl (Cose_Error f)"
    | e where "verify_sign1 L K (CBytes (enc ?m')) pem None STMT_UNDERSTOOD = Inl (Lib_Error e)"
    by (metis sum.exhaust cose_exn.exhaust)
  then show thesis
  proof cases
    case 1
    obtain n where "safe_structural_fields L (CBytes (enc ?m')) = Inr (Some (extract_fields (plain_dict ?d) None, n))"
      using structural_fields [OF L m'(1) h m'(2)] by blast
    then have "parse_signed_statement L K (CBytes (enc ?m')) (Some pem) = Inr \<lparr>p_signature_verified = Some False,
        p_fields = no_fields, p_unverified = Some (extract_fields (plain_dict ?d) None, n)\<rparr>"
      using 1 by (simp add: parse_signed_statement_def)
    then show ?thesis by (rule that [OF disjI1]) (simp_all add: statement_fields_of header_agrees_def opt_text_def)
  next
    case 2
    then show ?thesis using that [of failed_parse e] by (simp add: parse_signed_statement_def failed_parse_def)
  qed
qed

lemma bad_signature_vector_passes:
  assumes "cbor2_plain L" "key_match K ''EdDSA'' (Pem_Bytes (vk_issuer_priv keys)) (Pem_Bytes (vk_issuer_pub keys))"
    and "key_match K ''EdDSA'' (Pem_Bytes (vk_log_priv keys)) (Pem_Bytes (vk_log_pub keys))" "good_id vid"
  shows "\<exists>st m fs e. build_signed_statement L K (vector_payload vid) ''EdDSA'' (Pem_Bytes (vk_issuer_priv keys)) vector_issuer
        (vector_subject vid) ''application/json'' None None = Inr st \<and>
      bad_signature_vector L K keys vid = Some (m, fs, e) \<and> register vid e = m \<and>
      e_result e = ''INVALID'' \<and> e_failure_code e = Some ''BAD_STATEMENT_SIGNATURE'' \<and>
      (check_vector L K fs e = Inr [] \<and> statement_verdict L K fs = Some False \<and> receipt_verdict L K fs e = Inr (True, None) \<or>
       flip_accepted L K st (Pem_Bytes (vk_issuer_pub keys)))"
proof -
  let ?e = "message_item"
  obtain pit sig where b: "header_item 0 (labelled (statement_entries vector_issuer (vector_subject vid) ''application/json'' @ [(1, CInt (- 8))])) pit"
    "build_signed_statement L K (vector_payload vid) ''EdDSA'' (Pem_Bytes (vk_issuer_priv keys)) vector_issuer (vector_subject vid)
       ''application/json'' None None = Inr (enc (message_item (enc pit) (I_Map []) (Some (vector_payload vid)) sig))"
    "admits 0 True (message_item (enc pit) (I_Map []) (Some (vector_payload vid)) sig)"
    "length (enc (message_item (enc pit) (I_Map []) (Some (vector_payload vid)) sig)) \<le> MAX_MESSAGE_BYTES" "64 \<le> length sig"
    by (rule minted_statement_message [OF assms(1,2,4)])
  obtain sig' where f: "flip_byte sig (- 1) = Some sig'" using flip_byte_last [of sig] b(5) by fastforce
  let ?st = "enc (message_item (enc pit) (I_Map []) (Some (vector_payload vid)) sig')"
  note t = tamper_signature_message [OF assms(1) b(3) f]
  obtain receipt path root r where r: "build_receipt L K (hex_sha256 ?st) (int LEAF_INDEX) (tree_entries vid ?st) ''EdDSA''
      (Pem_Bytes (vk_log_priv keys)) True None None None None None = Inr receipt"
    "inclusion_proof (tree_entries vid ?st) (int LEAF_INDEX) = Inr path" "merkle_root (tree_entries vid ?st) = Inr root"
    "verify_receipt L K (CBytes receipt) (hex_sha256 ?st) (Pem_Bytes (vk_log_pub keys)) = Inr r" "r_ok r" "r_root r = Some root"
    "r_tree_size r = Some (int TREE_SIZE)" "r_leaf_index r = Some (int LEAF_INDEX)"
    using minted_log [OF assms(1,3)] by metis
  define m where "m = \<lparr>mt_alg = ''EdDSA'', mt_keys = keys, mt_payload = vector_payload vid, mt_statement = ?st,
    mt_entries = tree_entries vid ?st, mt_leaf = hex_sha256 ?st, mt_path = path, mt_root = root, mt_receipt = receipt\<rparr>"
  define e where "e = expected_of vid m ''INVALID'' (Some ''BAD_STATEMENT_SIGNATURE'') False True"
  have "mint L K keys vid ''EdDSA'' (Some (tamper_signature L)) = Some m"
    using b(2) t r(1-3) by (simp add: mint_def m_def nth_tree_entries Let_def)
  then have v: "bad_signature_vector L K keys vid = Some (register vid e, vector_of m ?st receipt, e)"
    by (simp add: bad_signature_vector_def published_def e_def m_def)
  have "check_vector L K (vector_of m ?st receipt) e = Inr [] \<and> statement_verdict L K (vector_of m ?st receipt) = Some False"
    if no: "\<not> flip_accepted L K (enc (message_item (enc pit) (I_Map []) (Some (vector_payload vid)) sig)) (Pem_Bytes (vk_issuer_pub keys))"
  proof -
    obtain p err where p: "parse_signed_statement L K (CBytes ?st) (Some (Pem_Bytes (vk_issuer_pub keys))) = Inr p \<or>
        parse_signed_statement L K (CBytes ?st) (Some (Pem_Bytes (vk_issuer_pub keys))) = Inl err \<and> p = failed_parse"
      "p_signature_verified p = Some False"
      "\<forall>f n. p_unverified p = Some (f, n) \<longrightarrow> header_agrees f \<lparr>eh_alg = Some ''EdDSA'', eh_issuer = Some vector_issuer,
          eh_subject = Some (vector_subject vid), eh_content_type = Some ''application/json''\<rparr>"
      by (rule bad_signature_parse [OF assms(1) b(3,1,4) f no])
    have "check_vector L K (vector_of m ?st receipt) e = Inr []" using p r(4-8)
      by (intro check_vector_passes [where res = r and p = p])
        (simp_all add: e_def m_def vector_of_def expected_of_def vector_agrees_def)
    moreover have "statement_verdict L K (vector_of m ?st receipt) = Some False"
      using p(1,2) by (auto simp: statement_verdict_def m_def vector_of_def failed_parse_def)
    ultimately show ?thesis ..
  qed
  moreover have "receipt_verdict L K (vector_of m ?st receipt) e = Inr (True, None)"
    using r(4,5) ok_not_failed [OF r(4,5)]
    by (simp add: receipt_verdict_def receipt_of_def e_def m_def vector_of_def expected_of_def)
  ultimately show ?thesis using b(2) v by (auto simp: register_def e_def expected_of_def)
qed

text \<open>A receipt whose proof has a flipped node: the message around the proof is the same.\<close>

lemma item_of_shapes:
  "item_of w = Some (I_Bytes c) \<longleftrightarrow> w = CBytes c"
  "item_of w = Some (I_Array its) \<Longrightarrow> \<exists>xs. as_seq w = Some xs \<and> map item_of xs = map Some its"
  "item_of w = Some (I_Map kvs) \<Longrightarrow> \<exists>d. as_mapping w = Some d \<and> map (\<lambda>(k, v). pair_opt (item_of k) (item_of v)) d = map Some kvs"
  by (cases w; auto simp: those_Some split: if_splits)+

lemma item_of_int_item:
  assumes "item_of w = Some (int_item l)" "- (2 ^ 63) \<le> l" "l < 2 ^ 63"
  shows "w = CInt l"
  using assms by (cases w) (auto simp: int_item_def split: if_splits)

lemma those_bytes [simp]: "those (map (\<lambda>x. Some (I_Bytes x)) ps) = Some (map I_Bytes ps)"
  by (simp add: those_Some)

lemma three_of_seq: "as_seq v = Some [a, b, c] \<Longrightarrow> three_of v = Some (a, b, c)"
  by (simp add: three_of_def)

lemma blob_value:
  assumes "item_of v = Some (blob_item n i nodes)"
  obtains a b w ps where "three_of v = Some (a, b, w)" "as_seq w = Some ps" "those (map as_bytes ps) = Some nodes"
    "item_of a = Some (I_Uint (nat n))" "item_of b = Some (I_Uint (nat i))"
proof -
  obtain xs where xs: "as_seq v = Some xs" "map item_of xs = map Some [I_Uint (nat n), I_Uint (nat i), I_Array (map I_Bytes nodes)]"
    using item_of_shapes(2) assms unfolding blob_item_def by blast
  obtain a b w where w: "xs = [a, b, w]" "item_of a = Some (I_Uint (nat n))" "item_of b = Some (I_Uint (nat i))"
      "item_of w = Some (I_Array (map I_Bytes nodes))"
    using xs(2) by (auto simp: map_eq_Cons_conv)
  obtain ps where ps: "as_seq w = Some ps" "map item_of ps = map Some (map I_Bytes nodes)"
    using item_of_shapes(2) [OF w(4)] by blast
  have "map as_bytes ps = map Some nodes"
    using ps(2) by (induction ps arbitrary: nodes) (auto simp: item_of_shapes(1) Cons_eq_map_conv)
  then show thesis using that three_of_seq xs(1) w ps(1) those_Some by metis
qed

lemma proof_item_map: "proof_item n i nodes =
    I_Map [(I_Uint 396, I_Map [(I_Nint 0, I_Array [I_Bytes (enc (blob_item n i nodes))])])]"
  by (simp add: proof_item_def entries_item_def labelled_def int_item_def those_Some pair_opt_def)

lemma proof_value:
  assumes "item_of x = Some (proof_item n i nodes)"
  obtains v w ps where "as_mapping x = Some [(CInt 396, v)]" "as_mapping v = Some [(CInt (- 1), w)]"
    "as_seq w = Some [CBytes (enc (blob_item n i nodes))]"
proof -
  obtain d where d: "as_mapping x = Some d" "map (\<lambda>(k, v). pair_opt (item_of k) (item_of v)) d =
      map Some [(I_Uint 396, I_Map [(I_Nint 0, I_Array [I_Bytes (enc (blob_item n i nodes))])])]"
    using item_of_shapes(3) assms unfolding proof_item_map by blast
  then obtain k v where k: "d = [(k, v)]" "item_of k = Some (int_item 396)"
      "item_of v = Some (I_Map [(I_Nint 0, I_Array [I_Bytes (enc (blob_item n i nodes))])])"
    by (auto simp: map_eq_Cons_conv int_item_def)
  obtain d' where d': "as_mapping v = Some d'" "map (\<lambda>(k, v). pair_opt (item_of k) (item_of v)) d' =
      map Some [(I_Nint 0, I_Array [I_Bytes (enc (blob_item n i nodes))])]"
    using item_of_shapes(3) k(3) by blast
  then obtain k' w where w: "d' = [(k', w)]" "item_of k' = Some (int_item (- 1))"
      "item_of w = Some (I_Array [I_Bytes (enc (blob_item n i nodes))])"
    by (auto simp: map_eq_Cons_conv int_item_def)
  obtain ps where ps: "as_seq w = Some ps" "map item_of ps = map Some [I_Bytes (enc (blob_item n i nodes))]"
    using item_of_shapes(2) w(3) by blast
  then have "ps = [CBytes (enc (blob_item n i nodes))]" by (auto simp: map_eq_Cons_conv item_of_shapes(1))
  then show thesis
    using that [of v w] d(1) d'(1) k(1) w(1) ps(1) item_of_int_item [OF k(2)] item_of_int_item [OF w(2)] by simp
qed

lemma tamper_inclusion_path_message:
  assumes L: "cbor2_plain L" and m: "admits 0 True (message_item pb (proof_item n i (p # ps)) None sig)"
    and n: "0 \<le> i" "i < n" "n \<le> 2 ^ 62" "length (p # ps) \<le> 62" "\<forall>x \<in> set (p # ps). length x = 32"
    and f: "flip_byte p 0 = Some p'"
    and m': "admits 0 True (message_item pb (proof_item n i (p' # ps)) None sig)"
  shows "tamper_inclusion_path L (enc (message_item pb (proof_item n i (p # ps)) None sig)) =
           Some (enc (message_item pb (proof_item n i (p' # ps)) None sig))"
proof -
  obtain x sl where l: "load_sign1 L (enc (message_item pb (proof_item n i (p # ps)) None sig)) = Some (18, CBytes pb, x, sl, CBytes sig)"
    "item_of x = Some (proof_item n i (p # ps))" "item_of sl = Some (slot_item None)"
    by (rule load_sign1_message [OF L m])
  obtain v w where x: "as_mapping x = Some [(CInt 396, v)]" "as_mapping v = Some [(CInt (- 1), w)]"
    "as_seq w = Some [CBytes (enc (blob_item n i (p # ps)))]"
    by (rule proof_value [OF l(2)])
  have b: "admits 0 False (blob_item n i (p # ps))" using blob_item_ok [OF n] by blast
  obtain q where q: "cbor_loads L (enc (blob_item n i (p # ps))) = Inr q" "item_of q = Some (blob_item n i (p # ps))"
    using cbor2_plain_decode [OF L admits_outer [OF b]] by blast
  obtain a c t qs where t: "three_of q = Some (a, c, t)" "as_seq t = Some qs" "those (map as_bytes qs) = Some (p # ps)"
    "item_of a = Some (I_Uint (nat n))" "item_of c = Some (I_Uint (nat i))"
    by (rule blob_value [OF q(2)])
  have lp: "length p' = 32" using f n(5) by (auto simp: flip_byte_def Let_def split: if_splits)
  have b': "admits 0 False (blob_item n i (p' # ps))" using blob_item_ok [OF n(1-3), of "p' # ps"] n(4,5) lp by simp
  have i': "item_of (CList [a, c, CList (map CBytes (p' # ps))]) = Some (blob_item n i (p' # ps))"
    using t(4,5) by (simp add: blob_item_def those_Some comp_def)
  have tb: "tampered_blob L [(CInt (- 1), w)] = Some (enc (blob_item n i (p' # ps)))"
    using x(3) q(1) t(1-3) f cbor2_plain_dumps [OF L i' admits_fits [OF b']]
    by (simp add: tampered_blob_def receipt_consts)
  have "item_of (CTag 18 (CList [CBytes pb, CDict [(CInt 396, CDict [(CInt (- 1), CList [CBytes (enc (blob_item n i (p' # ps)))])])],
      sl, CBytes sig])) = Some (message_item pb (proof_item n i (p' # ps)) None sig)"
    using l(3) by (simp add: message_item_def proof_item_map pair_opt_def)
  from cbor2_plain_dumps [OF L this admits_fits [OF m']] show ?thesis
    using l(1) x(1,2) tb by (simp add: tamper_inclusion_path_def receipt_consts)
qed

text \<open>The log's key accepts the signature of a receipt over another root.\<close>

definition root_accepted :: "cbor2_lib \<Rightarrow> 'k crypto_lib \<Rightarrow> bytes \<Rightarrow> pem \<Rightarrow> string \<Rightarrow> bool" where
  "root_accepted L K receipt pem root \<longleftrightarrow>
     (\<exists>pb u sig alg pk payload tbs. decode_envelope L (CBytes receipt) = Inr (CBytes pb, u, CNull, CBytes sig) \<and>
        root = to_hex payload \<and> sig_structure L pb payload = Inr tbs \<and>
        load_public K (pem_bytes pem) = Inr pk \<and> signature_accepted K alg pk sig tbs)"

text \<open>With one proof that rebuilds a root, a receipt can only fail at its signature.\<close>

lemma single_proof_fails_at_signature:
  assumes h: "receipt_header L receipt = Inr (H, u)" "receipt_proofs u = Inr [b]" "vds_of H = Some 1"
    and b: "decode_inclusion_proof L b = Inr (n, i, path)"
      "root_from_inclusion_proof leaf i n path = Inr (Some (to_hex payload))"
    and r: "verify_receipt L K receipt leaf pem = Inr r" "\<not> r_ok r"
  shows "r_failed_at r = Some ''signature''"
proof (cases "verify_sign1 L K receipt pem (Some payload) RECEIPT_UNDERSTOOD")
  case (Inr s)
  then have "r_ok r" using h b r(1)
    by (auto simp: verify_receipt_def verify_receipt_steps_def verify_rfc9162_def decode_candidates_def reconstruct_root_def
        receipt_consts py_def Let_def accept_def split: if_splits)
  then show ?thesis using r(2) by simp
next
  case (Inl x)
  then show ?thesis using h b r
    by (cases x) (auto simp: verify_receipt_def verify_receipt_steps_def verify_rfc9162_def decode_candidates_def
        reconstruct_root_def receipt_consts py_def Let_def at_position_def add_errors_def empty_result_def)
qed

lemma tampered_proof_rejected:
  assumes L: "cbor2_plain L" and K: "libs_total L K"
    and m: "admits 0 True (message_item (enc pit) (proof_item n i (p # ps)) None sig)"
      "length (enc (message_item (enc pit) (proof_item n i (p # ps)) None sig)) \<le> MAX_MESSAGE_BYTES"
    and m': "admits 0 True (message_item (enc pit) (proof_item n i (p' # ps)) None sig)"
      "length (enc (message_item (enc pit) (proof_item n i (p' # ps)) None sig)) \<le> MAX_MESSAGE_BYTES"
    and n: "0 \<le> i" "i < n" "n \<le> 2 ^ 62" "length (p # ps) \<le> 62" "\<forall>x \<in> set (p # ps). length x = 32"
    and len: "length (p # ps) = expected_inclusion_path_len (nat n) (nat i)" "length p' = 32" "p' \<noteq> p"
    and h: "header_item 0 d pit" "dict_get d (CInt 395) = Some (CInt 1)"
    and d: "plain_dict d = d" "dict_get d (CInt 2) = None" "dict_get d (CInt 1) \<noteq> None"
    and root: "root_from_inclusion_proof leaf i n (map to_hex (p # ps)) = Inr (Some root)"
  shows "\<exists>r. verify_receipt L K (CBytes (enc (message_item (enc pit) (proof_item n i (p' # ps)) None sig))) leaf pem = Inr r \<and>
     (\<not> r_ok r \<and> r_failed_at r = Some ''signature'' \<or> collide (inclusion_inputs leaf i n (map to_hex (p # ps))) (inclusion_inputs leaf i n (map to_hex (p' # ps))) \<or>
      (\<exists>root'. root_from_inclusion_proof leaf i n (map to_hex (p' # ps)) = Inr (Some root') \<and> root' \<noteq> root \<and>
         root_accepted L K (enc (message_item (enc pit) (proof_item n i (p # ps)) None sig)) pem root'))"
proof -
  let ?r = "enc (message_item (enc pit) (proof_item n i (p # ps)) None sig)"
  let ?r' = "enc (message_item (enc pit) (proof_item n i (p' # ps)) None sig)"
  let ?b' = "enc (blob_item n i (p' # ps))"
  obtain r where r: "verify_receipt L K (CBytes ?r') leaf pem = Inr r" using verify_receipt_total [OF K] by blast
  have a: "admits 0 False pit" using h(1) by (simp add: header_item_def)
  note env = message_envelope [OF L m(1) a m(2)] and env' = message_envelope [OF L m'(1) a m'(2)]
  have n': "length (p' # ps) \<le> 62" "\<forall>x \<in> set (p' # ps). length x = 32" using n(4,5) len(2) by auto
  have v: "val_of (proof_item n i (p' # ps)) = CDict (plain_dict (receipt_unprotected ?b'))"
    by (rule header_item_val [OF proof_item_ok(1) [OF n(1-3) n']])
  show ?thesis
  proof (cases "r_ok r")
    case True
    obtain blobs payload s vds where s: "accepted L K (CBytes ?r') pem blobs payload s vds" "r_root r = Some (to_hex payload)"
      "vds = 1 \<and> (\<exists>n i path blob. r_tree_size r = Some n \<and> r_leaf_index r = Some i \<and> blob \<in> set blobs \<and>
          decode_inclusion_proof L blob = Inr (n, i, path) \<and> root_from_inclusion_proof leaf i n path = Inr (Some (to_hex payload)))
       \<or> vds = 2"
      using receipt_sound [OF r True] by blast
    obtain und where und: "header_blobs (val_of (proof_item n i (p' # ps))) blobs"
      "verify_sign1 L K (CBytes ?r') pem (Some payload) und = Inr s" "s_payload s = payload"
      "dict_get (s_protected s) (CInt 395) = Some (CInt vds)"
      using s(1) env' by (auto simp: accepted_def)
    have bl: "blobs = [?b']"
      using und(1) by (auto simp: v header_blobs_def receipt_unprotected_def receipt_consts plain_dict_def get_or_none_def
          map_eq_Cons_conv)
    obtain alg pk tbs where sg: "decode_protected L (enc pit) = Inr (s_protected s)" "sig_structure L (enc pit) payload = Inr tbs"
      "load_public K (pem_bytes pem) = Inr pk" "signature_accepted K alg pk sig tbs"
      using verify_authentic [OF und(2)] env' und(3) by fastforce
    have "s_protected s = plain_dict d" using sg(1) decode_protected_enc [OF L h(1)] by simp
    then have "vds = 1" using und(4) h(2) by (simp add: dict_get_plain_dict)
    moreover have "decode_inclusion_proof L ?b' = Inr (n, i, map to_hex (p' # ps))"
      by (rule decode_blob [OF L n(1-3) n']) (use len(1) in simp)
    ultimately have rt: "root_from_inclusion_proof leaf i n (map to_hex (p' # ps)) = Inr (Some (to_hex payload))"
      using s(3) bl by auto
    show ?thesis
    proof (cases "to_hex payload = root")
      case True
      have "verify_inclusion leaf i n (map to_hex (p # ps)) root = Inr True"
        "verify_inclusion leaf i n (map to_hex (p' # ps)) root = Inr True"
        using root rt True by (simp_all add: verify_inclusion_def)
      from verify_inclusion_unique [OF this] show ?thesis using r len(3) by (auto simp: rmapM_map)
    next
      case False
      have "root_accepted L K ?r pem (to_hex payload)"
        using env sg(2-4) by (auto simp: root_accepted_def)
      then show ?thesis using r rt False by blast
    qed
  next
    case False
    have hd: "receipt_header L (CBytes ?r') = Inr (d, val_of (proof_item n i (p' # ps)))"
      by (rule minted_header [OF L m'(1) h(1) m'(2) d])
    have b': "admits 0 False (blob_item n i (p' # ps))" using blob_item_ok [OF n(1-3) n'] by blast
    have "header_blobs (val_of (proof_item n i (p' # ps))) [?b']"
      using b' by (auto simp: v header_blobs_def receipt_unprotected_def receipt_consts plain_dict_def get_or_none_def rule_check_iff)
    then have bl: "receipt_proofs (val_of (proof_item n i (p' # ps))) = Inr [?b']" by (simp add: receipt_proofs_Inr)
    have dec: "decode_inclusion_proof L ?b' = Inr (n, i, map to_hex (p' # ps))"
      by (rule decode_blob [OF L n(1-3) n']) (use len(1) in simp)
    obtain payload where "root_from_inclusion_proof leaf i n (map to_hex (p' # ps)) = Inr (Some (to_hex payload))"
      using root len(1) by (auto simp: root_from_inclusion_proof_eq rmapM_map raise_simps split: if_splits)
    from single_proof_fails_at_signature [OF hd bl _ dec this r False] show ?thesis
      using r False h(2) by (simp add: vds_of_Some)
  qed
qed

lemma length_enc_bytes: "length (enc (I_Bytes b)) = length (enc_head 2 (length b)) + length b"
  by simp

lemma message_reproved:
  assumes m: "admits 0 True (message_item pb (proof_item n i (p # ps)) None sig)"
    and n: "0 \<le> i" "i < n" "n \<le> 2 ^ 62" "length (p # ps) \<le> 62" "\<forall>x \<in> set (p # ps). length x = 32" and p: "length p' = 32"
  shows "admits 0 True (message_item pb (proof_item n i (p' # ps)) None sig)"
    and "length (enc (message_item pb (proof_item n i (p' # ps)) None sig)) = length (enc (message_item pb (proof_item n i (p # ps)) None sig))"
proof -
  have n': "length (p' # ps) \<le> 62" "\<forall>x \<in> set (p' # ps). length x = 32" using n(4,5) p by auto
  have "admits 2 False (proof_item n i (p' # ps))"
    using proof_item_ok(1) [OF n(1-3) n'] by (simp add: header_item_def)
  then show "admits 0 True (message_item pb (proof_item n i (p' # ps)) None sig)"
    using m unfolding message_item_def numeral_2_eq_2 by simp
  have "length (enc (blob_item n i (p' # ps))) = length (enc (blob_item n i (p # ps)))"
    using n(5) p by (simp add: blob_item_def)
  then have "length (enc (proof_item n i (p' # ps))) = length (enc (proof_item n i (p # ps)))"
    by (simp add: proof_item_map)
  then show "length (enc (message_item pb (proof_item n i (p' # ps)) None sig)) = length (enc (message_item pb (proof_item n i (p # ps)) None sig))"
    by (simp add: message_item_def)
qed

lemma flip_byte_first: "b \<noteq> [] \<Longrightarrow> \<exists>b'. flip_byte b 0 = Some b' \<and> length b' = length b \<and> b' \<noteq> b"
proof -
  assume "b \<noteq> []"
  have "xor (b ! 0) 1 \<noteq> b ! 0"
  proof
    assume e: "xor (b ! 0) 1 = b ! 0"
    have "(1 :: byte) = xor (xor (b ! 0) 1) (b ! 0)" by (simp add: xor.assoc xor.left_commute)
    then show False using e by simp
  qed
  then show ?thesis using \<open>b \<noteq> []\<close> by (auto simp: flip_byte_def Let_def list_update_same_conv)
qed

lemma path_len_8: "expected_inclusion_path_len 8 2 = 3"
  by code_simp

lemma header_395: "dict_get (labelled (minted_entries iss sub kid iat grade code)) (CInt 395) = Some (CInt 1)"
  by (simp add: minted_entries_def header_lookup)

text \<open>
  The vector with a flipped path node passes the runner, unless two different node strings collide or
  the log's key accepts its signature over the other root.
\<close>

lemma tampered_path_vector_passes:
  assumes L: "cbor2_plain L" and K: "libs_total L K"
    and keys: "key_match K ''EdDSA'' (Pem_Bytes (vk_issuer_priv keys)) (Pem_Bytes (vk_issuer_pub keys))"
      "key_match K ''EdDSA'' (Pem_Bytes (vk_log_priv keys)) (Pem_Bytes (vk_log_pub keys))" and vid: "good_id vid"
  shows "\<exists>m path' v fs e. mint L K keys vid ''EdDSA'' None = Some m \<and> flipped_path (mt_path m) = Some path' \<and>
      tampered_path_vector L K keys vid = Some (v, fs, e) \<and> register vid e = v \<and>
      e_result e = ''INVALID'' \<and> e_failure_code e = Some ''TAMPERED_INCLUSION_PATH'' \<and>
      (check_vector L K fs e = Inr [] \<and> statement_verdict L K fs = Some True \<and>
         receipt_verdict L K fs e = Inr (False, Some ''signature'') \<or>
       collide (inclusion_inputs (mt_leaf m) 2 8 (mt_path m)) (inclusion_inputs (mt_leaf m) 2 8 path') \<or>
       (\<exists>root'. root_from_inclusion_proof (mt_leaf m) 2 8 path' = Inr (Some root') \<and> root' \<noteq> mt_root m \<and>
          root_accepted L K (mt_receipt m) (Pem_Bytes (vk_log_pub keys)) root'))"
proof -
  obtain st where st: "build_signed_statement L K (vector_payload vid) ''EdDSA'' (Pem_Bytes (vk_issuer_priv keys)) vector_issuer
      (vector_subject vid) ''application/json'' None None = Inr st"
    "parse_signed_statement L K (CBytes st) (Some (Pem_Bytes (vk_issuer_pub keys))) =
       Inr \<lparr> p_signature_verified = Some True, p_fields = minted_fields ''EdDSA'' vid, p_unverified = None \<rparr>"
    using minted_statement [OF L keys(1) vid] by blast
  let ?es = "tree_entries vid st"
  obtain root where root: "merkle_root ?es = Inr root" using tree_entries_root by blast
  have i: "0 \<le> int LEAF_INDEX" "int LEAF_INDEX < int (length ?es)" "int (length ?es) \<le> MAX_TREE_SIZE"
    and eight: "int (length ?es) = 8" "int LEAF_INDEX = 2"
    by (simp_all add: nth_tree_entries LEAF_INDEX_def TREE_SIZE_def MAX_TREE_SIZE_def)
  have none: "mintable None None None None None" by (simp add: mintable_def mint_text_def)
  obtain nodes payload code pit sig pk tbs where b:
    "inclusion_proof ?es (int LEAF_INDEX) = Inr (map to_hex nodes)" "root = to_hex payload" "length nodes \<le> 62"
    "\<forall>x \<in> set nodes. length x = 32" "length nodes = expected_inclusion_path_len (length ?es) (nat (int LEAF_INDEX))"
    "root_from_inclusion_proof (?es ! nat (int LEAF_INDEX)) (int LEAF_INDEX) (int (length ?es)) (map to_hex nodes) = Inr (Some root)"
    "map_of ALG_NAME_TO_CODE ''EdDSA'' = Some code" "header_item 0 (labelled (minted_entries None None None None None code)) pit"
    "build_receipt L K (?es ! nat (int LEAF_INDEX)) (int LEAF_INDEX) ?es ''EdDSA'' (Pem_Bytes (vk_log_priv keys)) True None None None None None =
       Inr (enc (message_item (enc pit) (proof_item (int (length ?es)) (int LEAF_INDEX) nodes) None sig))"
    "admits 0 True (message_item (enc pit) (proof_item (int (length ?es)) (int LEAF_INDEX) nodes) None sig)"
    "length (enc (message_item (enc pit) (proof_item (int (length ?es)) (int LEAF_INDEX) nodes) None sig)) \<le> MAX_MESSAGE_BYTES"
    "sig_structure L (enc pit) payload = Inr tbs" "load_public K (pem_bytes (Pem_Bytes (vk_log_pub keys))) = Inr pk"
    "signature_accepted K code pk sig tbs" "length payload = 32"
    by (rule built_receipt_message [OF L keys(2) root i none])
  note b = b [unfolded eight]
  have "nodes \<noteq> []" using b(5) by (auto simp: nth_tree_entries TREE_SIZE_def path_len_8)
  then obtain p ps where nodes: "nodes = p # ps" by (cases nodes) auto
  have leaf: "?es ! nat 2 = hex_sha256 st" using nth_tree_entries(1) [of vid st] by (simp add: LEAF_INDEX_def)
  have "p \<noteq> []" using b(4) nodes by auto
  then obtain p' where p': "flip_byte p 0 = Some p'" "length p' = 32" "p' \<noteq> p"
    using flip_byte_first [of p] b(4) nodes by auto
  have n: "(0 :: int) \<le> 2" "(2 :: int) < 8" "(8 :: int) \<le> 2 ^ 62" "length (p # ps) \<le> 62" "\<forall>x \<in> set (p # ps). length x = 32"
    using b(3,4) nodes by simp_all
  note m = b(10,11) [unfolded nodes]
  note m' = message_reproved [OF m(1) n p'(2)]
  let ?r = "enc (message_item (enc pit) (proof_item 8 2 (p # ps)) None sig)"
  let ?r' = "enc (message_item (enc pit) (proof_item 8 2 (p' # ps)) None sig)"
  define mm where "mm = \<lparr>mt_alg = ''EdDSA'', mt_keys = keys, mt_payload = vector_payload vid, mt_statement = st,
    mt_entries = ?es, mt_leaf = hex_sha256 st, mt_path = map to_hex (p # ps), mt_root = root, mt_receipt = ?r\<rparr>"
  define e where "e = expected_of vid mm ''INVALID'' (Some ''TAMPERED_INCLUSION_PATH'') True False"
  have mint: "mint L K keys vid ''EdDSA'' None = Some mm"
    using st(1) b(1,9) root nodes leaf by (simp add: mint_def mm_def nth_tree_entries eight Let_def)
  have fp: "flipped_path (mt_path mm) = Some (map to_hex (p' # ps))" using p'(1) by (simp add: mm_def flipped_path_def)
  have t: "tamper_inclusion_path L ?r = Some ?r'"
    by (rule tamper_inclusion_path_message [OF L m(1) n p'(1) m'(1)])
  have v: "tampered_path_vector L K keys vid = Some (register vid e, vector_of mm st ?r', e)"
    using mint t fp by (simp add: tampered_path_vector_def published_def e_def mm_def)
  have rt: "root_from_inclusion_proof (hex_sha256 st) 2 8 (map to_hex (p # ps)) = Inr (Some root)"
    using b(6) nodes leaf by simp
  have el: "length (p # ps) = expected_inclusion_path_len (nat 8) (nat 2)" using b(5) nodes eight(1) by simp
  have d: "plain_dict (labelled (minted_entries None None None None None code)) = labelled (minted_entries None None None None None code)"
    "dict_get (labelled (minted_entries None None None None None code)) (CInt 2) = None"
    "dict_get (labelled (minted_entries None None None None None code)) (CInt 1) \<noteq> None"
    using header_lookup(1-3) [of None None None None None code] by (simp_all add: header_plain minted_entries_def)
  obtain r where r: "verify_receipt L K (CBytes ?r') (hex_sha256 st) (Pem_Bytes (vk_log_pub keys)) = Inr r"
    "\<not> r_ok r \<and> r_failed_at r = Some ''signature'' \<or> collide (inclusion_inputs (hex_sha256 st) 2 8 (map to_hex (p # ps))) (inclusion_inputs (hex_sha256 st) 2 8 (map to_hex (p' # ps))) \<or>
      (\<exists>root'. root_from_inclusion_proof (hex_sha256 st) 2 8 (map to_hex (p' # ps)) = Inr (Some root') \<and> root' \<noteq> root \<and>
         root_accepted L K ?r (Pem_Bytes (vk_log_pub keys)) root')"
    using tampered_proof_rejected [OF L K m m'(1) m(2) [folded m'(2)] n el p'(2,3) b(8) header_395 d rt] by blast
  have "check_vector L K (vector_of mm st ?r') e = Inr []" if "\<not> r_ok r"
    using st(2) r(1) that
    by (intro check_vector_passes [where res = r and p = "\<lparr> p_signature_verified = Some True, p_fields = minted_fields ''EdDSA'' vid, p_unverified = None \<rparr>"])
      (simp_all add: e_def mm_def vector_of_def expected_of_def vector_agrees_def header_agrees_def minted_fields_def opt_text_def)
  moreover have "statement_verdict L K (vector_of mm st ?r') = Some True"
    using st(2) by (simp add: statement_verdict_def mm_def vector_of_def)
  moreover have "receipt_verdict L K (vector_of mm st ?r') e = Inr (False, Some ''signature'')"
    if "\<not> r_ok r \<and> r_failed_at r = Some ''signature''"
    using r(1) that by (simp add: receipt_verdict_def receipt_of_def e_def mm_def vector_of_def expected_of_def)
  moreover have "e_result e = ''INVALID''" by (simp add: e_def expected_of_def)
  moreover have "mt_leaf mm = hex_sha256 st" "mt_path mm = map to_hex (p # ps)" "mt_root mm = root" "mt_receipt mm = ?r"
    by (simp_all add: mm_def)
  moreover have "e_failure_code e = Some ''TAMPERED_INCLUSION_PATH''" by (simp add: e_def expected_of_def)
  ultimately show ?thesis using mint fp v r(2) by metis
qed

lemma unsupported_vds_vector_passes:
  assumes "cbor2_plain L" "key_match K ''EdDSA'' (Pem_Bytes (vk_issuer_priv keys)) (Pem_Bytes (vk_issuer_pub keys))"
    and "key_match K ''EdDSA'' (Pem_Bytes (vk_log_priv keys)) (Pem_Bytes (vk_log_pub keys))" "good_id vid"
  shows "\<exists>m fs e. unsupported_vds_vector L K keys vid = Some (m, fs, e) \<and> register vid e = m \<and>
      e_result e = ''INVALID'' \<and> e_failure_code e = Some ''UNSUPPORTED_VDS'' \<and> check_vector L K fs e = Inr [] \<and>
      statement_verdict L K fs = Some True \<and> receipt_verdict L K fs e = Inr (False, Some ''structure'') \<and>
      rmap r_errors (receipt_of L K fs e) = Inr [Bad_Proof Ccf_Not_Map]"
proof -
  obtain st where st: "build_signed_statement L K (vector_payload vid) ''EdDSA'' (Pem_Bytes (vk_issuer_priv keys)) vector_issuer
      (vector_subject vid) ''application/json'' None None = Inr st"
    "parse_signed_statement L K (CBytes st) (Some (Pem_Bytes (vk_issuer_pub keys))) =
       Inr \<lparr> p_signature_verified = Some True, p_fields = minted_fields ''EdDSA'' vid, p_unverified = None \<rparr>"
    using minted_statement [OF assms(1,2,4)] by blast
  obtain receipt path root where r: "build_receipt L K (hex_sha256 st) (int LEAF_INDEX) (tree_entries vid st) ''EdDSA''
      (Pem_Bytes (vk_log_priv keys)) True None None None None None = Inr receipt"
    "inclusion_proof (tree_entries vid st) (int LEAF_INDEX) = Inr path" "merkle_root (tree_entries vid st) = Inr root"
    using minted_log [OF assms(1,3)] by metis
  define m where "m = \<lparr>mt_alg = ''EdDSA'', mt_keys = keys, mt_payload = vector_payload vid, mt_statement = st,
    mt_entries = tree_entries vid st, mt_leaf = hex_sha256 st, mt_path = path, mt_root = root, mt_receipt = receipt\<rparr>"
  define e where "e = expected_of vid m ''INVALID'' (Some ''UNSUPPORTED_VDS'') True False"
  have mint: "mint L K keys vid ''EdDSA'' None = Some m"
    using st(1) r by (simp add: mint_def m_def nth_tree_entries Let_def)
  have K: "key_match K ''EdDSA'' (Pem_Bytes (vk_log_priv (mt_keys m))) (Pem_Bytes (vk_log_pub keys))"
    using assms(3) by (simp add: m_def)
  obtain bad res where b: "mint_unsupported_vds_receipt L K m = Some bad"
    "verify_receipt L K (CBytes bad) (hex_sha256 st) (Pem_Bytes (vk_log_pub keys)) = Inr res" "\<not> r_ok res"
    "r_failed_at res = Some ''structure''" "r_errors res = [Bad_Proof Ccf_Not_Map]"
    using unsupported_vds_receipt [OF assms(1) K, where vid = vid and st = st and pem = "Pem_Bytes (vk_log_pub keys)"] r(2,3)
    by (auto simp: m_def)
  have "check_vector L K (vector_of m st bad) e = Inr []"
    using st(2) b(2,3)
    by (intro check_vector_passes [where res = res and p = "\<lparr> p_signature_verified = Some True, p_fields = minted_fields ''EdDSA'' vid, p_unverified = None \<rparr>"])
      (simp_all add: e_def m_def vector_of_def expected_of_def vector_agrees_def header_agrees_def minted_fields_def opt_text_def)
  moreover have "statement_verdict L K (vector_of m st bad) = Some True"
    "receipt_verdict L K (vector_of m st bad) e = Inr (False, Some ''structure'')"
    "rmap r_errors (receipt_of L K (vector_of m st bad) e) = Inr [Bad_Proof Ccf_Not_Map]"
    using st(2) b(2-5)
    by (simp_all add: statement_verdict_def receipt_verdict_def receipt_of_def e_def m_def vector_of_def expected_of_def)
  moreover have "unsupported_vds_vector L K keys vid = Some (register vid e, vector_of m st bad, e)"
    using mint b(1) by (simp add: unsupported_vds_vector_def published_def e_def m_def)
  ultimately show ?thesis by (auto simp: e_def expected_of_def)
qed

section \<open>The whole set\<close>

text \<open>A spoilt vector that the keys accept after all, or two node strings that collide.\<close>

definition spoilt_accepted :: "cbor2_lib \<Rightarrow> 'k crypto_lib \<Rightarrow> (nat \<Rightarrow> vector_keys) \<Rightarrow> bool" where
  "spoilt_accepted L K keys \<longleftrightarrow>
     (\<exists>m path'. mint L K (keys 2) ''fail-tampered-path'' ''EdDSA'' None = Some m \<and> flipped_path (mt_path m) = Some path' \<and>
        (collide (inclusion_inputs (mt_leaf m) 2 8 (mt_path m)) (inclusion_inputs (mt_leaf m) 2 8 path') \<or>
         (\<exists>root'. root_from_inclusion_proof (mt_leaf m) 2 8 path' = Inr (Some root') \<and> root' \<noteq> mt_root m \<and>
            root_accepted L K (mt_receipt m) (Pem_Bytes (vk_log_pub (keys 2))) root'))) \<or>
     (\<exists>st. build_signed_statement L K (vector_payload ''fail-bad-statement-sig'') ''EdDSA'' (Pem_Bytes (vk_issuer_priv (keys 4)))
          vector_issuer (vector_subject ''fail-bad-statement-sig'') ''application/json'' None None = Inr st \<and>
        flip_accepted L K st (Pem_Bytes (vk_issuer_pub (keys 4))))"

definition vector_ids :: "string list" where
  "vector_ids = [''valid-eddsa'', ''valid-es256'', ''fail-tampered-path'', ''fail-unsupported-vds'', ''fail-bad-statement-sig'']"

definition vector_alg :: "nat \<Rightarrow> string" where
  "vector_alg j = (if j = 1 then ''ES256'' else ''EdDSA'')"

definition keys_match :: "'k crypto_lib \<Rightarrow> (nat \<Rightarrow> vector_keys) \<Rightarrow> bool" where
  "keys_match K keys \<longleftrightarrow>
     (\<forall>j < 5. key_match K (vector_alg j) (Pem_Bytes (vk_issuer_priv (keys j))) (Pem_Bytes (vk_issuer_pub (keys j))) \<and>
              key_match K (vector_alg j) (Pem_Bytes (vk_log_priv (keys j))) (Pem_Bytes (vk_log_pub (keys j))))"

text \<open>The entry of the manifest for a vector, with what the verifiers say of its files.\<close>

definition vector_verdict ::
    "cbor2_lib \<Rightarrow> 'k crypto_lib \<Rightarrow> vector \<Rightarrow>
     string \<times> string \<times> string option \<times> bool option \<times> (string + bool \<times> string option)" where
  "vector_verdict L K v =
     (case v of (m, fs, e) \<Rightarrow>
        (m_id m, m_expected_result m, m_failure_code m, statement_verdict L K fs, receipt_verdict L K fs e))"

text \<open>What a reader of the published set is to find: each spoilt vector fails in one place only, the
  flipped path at the receipt's signature and the foreign tree at the receipt's structure.\<close>

definition published_verdicts ::
    "(string \<times> string \<times> string option \<times> bool option \<times> (string + bool \<times> string option)) list" where
  "published_verdicts =
     [(''valid-eddsa'', ''VALID'', None, Some True, Inr (True, None)),
      (''valid-es256'', ''VALID'', None, Some True, Inr (True, None)),
      (''fail-tampered-path'', ''INVALID'', Some ''TAMPERED_INCLUSION_PATH'', Some True, Inr (False, Some ''signature'')),
      (''fail-unsupported-vds'', ''INVALID'', Some ''UNSUPPORTED_VDS'', Some True, Inr (False, Some ''structure'')),
      (''fail-bad-statement-sig'', ''INVALID'', Some ''BAD_STATEMENT_SIGNATURE'', Some False, Inr (True, None))]"

text \<open>The errors reported for the receipt of a vector.\<close>

definition receipt_errors :: "cbor2_lib \<Rightarrow> 'k crypto_lib \<Rightarrow> vector \<Rightarrow> string + receipt_finding list" where
  "receipt_errors L K v = (case v of (m, fs, e) \<Rightarrow> rmap r_errors (receipt_of L K fs e))"

lemma published_ids: "map (vector_verdict L K) vs = published_verdicts \<Longrightarrow> map (\<lambda>(m, _). m_id m) vs = vector_ids"
proof -
  assume "map (vector_verdict L K) vs = published_verdicts"
  then have "map fst (map (vector_verdict L K) vs) = map fst published_verdicts" by simp
  then show ?thesis by (simp add: vector_verdict_def published_verdicts_def vector_ids_def case_prod_beta' comp_def)
qed

lemma good_ids: "vid \<in> set vector_ids \<Longrightarrow> good_id vid"
  by (auto simp: vector_ids_def good_id_def utf8_valid_def utf8_encode_def byte_of_char_def)

lemma generated_vectors_pass:
  assumes L: "cbor2_plain L" and K: "libs_total L K" "keys_match K keys" and ok: "\<not> spoilt_accepted L K keys"
  shows "\<exists>vs. generated_vectors L K keys = Some vs \<and> map (vector_verdict L K) vs = published_verdicts \<and>
    receipt_errors L K (vs ! 3) = Inr [Bad_Proof Ccf_Not_Map] \<and>
    (\<forall>(m, fs, e) \<in> set vs. m = register (m_id m) e \<and> check_vector L K fs e = Inr [])"
proof -
  have k: "key_match K (vector_alg j) (Pem_Bytes (vk_issuer_priv (keys j))) (Pem_Bytes (vk_issuer_pub (keys j)))"
    "key_match K (vector_alg j) (Pem_Bytes (vk_log_priv (keys j))) (Pem_Bytes (vk_log_pub (keys j)))" if "j < 5" for j
    using K(2) that by (simp_all add: keys_match_def)
  note k = k [unfolded vector_alg_def]
  have g: "good_id vid" if "vid \<in> set vector_ids" for vid using good_ids that .
  have valid: "\<exists>fs e. valid_vector L K (keys j) vid alg = Some (register vid e, fs, e) \<and> check_vector L K fs e = Inr [] \<and>
      vector_verdict L K (register vid e, fs, e) = (vid, ''VALID'', None, Some True, Inr (True, None))"
    if ks: "key_match K alg (Pem_Bytes (vk_issuer_priv (keys j))) (Pem_Bytes (vk_issuer_pub (keys j)))"
      "key_match K alg (Pem_Bytes (vk_log_priv (keys j))) (Pem_Bytes (vk_log_pub (keys j)))" "good_id vid" for j vid alg
  proof -
    obtain m fs e where v: "valid_vector L K (keys j) vid alg = Some (m, fs, e)" "check_vector L K fs e = Inr []"
      "e_result e = ''VALID''" "e_failure_code e = None" "statement_verdict L K fs = Some True"
      "receipt_verdict L K fs e = Inr (True, None)"
      using valid_vector_passes [OF L ks] by blast
    then have "m = register vid e" by (auto simp: valid_vector_def published_def bind_eq_Some_conv)
    then show ?thesis using v by (auto simp: vector_verdict_def register_def)
  qed
  obtain fs0 e0 where v0: "valid_vector L K (keys 0) ''valid-eddsa'' ''EdDSA'' = Some (register ''valid-eddsa'' e0, fs0, e0)"
    "check_vector L K fs0 e0 = Inr []"
    "vector_verdict L K (register ''valid-eddsa'' e0, fs0, e0) = (''valid-eddsa'', ''VALID'', None, Some True, Inr (True, None))"
    using valid [of "''EdDSA''" 0 "''valid-eddsa''"] k [of 0] g by (auto simp: vector_ids_def)
  obtain fs1 e1 where v1: "valid_vector L K (keys 1) ''valid-es256'' ''ES256'' = Some (register ''valid-es256'' e1, fs1, e1)"
    "check_vector L K fs1 e1 = Inr []"
    "vector_verdict L K (register ''valid-es256'' e1, fs1, e1) = (''valid-es256'', ''VALID'', None, Some True, Inr (True, None))"
    using valid [of "''ES256''" 1 "''valid-es256''"] k [of 1] g by (auto simp: vector_ids_def)
  obtain fs2 e2 where v2: "tampered_path_vector L K (keys 2) ''fail-tampered-path'' = Some (register ''fail-tampered-path'' e2, fs2, e2)"
    "check_vector L K fs2 e2 = Inr []"
    "e_result e2 = ''INVALID''" "e_failure_code e2 = Some ''TAMPERED_INCLUSION_PATH''" "statement_verdict L K fs2 = Some True"
    "receipt_verdict L K fs2 e2 = Inr (False, Some ''signature'')"
    using tampered_path_vector_passes [OF L K(1), of "keys 2" "''fail-tampered-path''"] k [of 2] g ok
    by (auto simp: vector_ids_def spoilt_accepted_def)
  obtain fs3 e3 where v3: "unsupported_vds_vector L K (keys 3) ''fail-unsupported-vds'' = Some (register ''fail-unsupported-vds'' e3, fs3, e3)"
    "check_vector L K fs3 e3 = Inr []"
    "e_result e3 = ''INVALID''" "e_failure_code e3 = Some ''UNSUPPORTED_VDS''" "statement_verdict L K fs3 = Some True"
    "receipt_verdict L K fs3 e3 = Inr (False, Some ''structure'')"
    "rmap r_errors (receipt_of L K fs3 e3) = Inr [Bad_Proof Ccf_Not_Map]"
    using unsupported_vds_vector_passes [OF L, of K "keys 3" "''fail-unsupported-vds''"] k [of 3] g by (auto simp: vector_ids_def)
  obtain fs4 e4 where v4: "bad_signature_vector L K (keys 4) ''fail-bad-statement-sig'' = Some (register ''fail-bad-statement-sig'' e4, fs4, e4)"
    "check_vector L K fs4 e4 = Inr []"
    "e_result e4 = ''INVALID''" "e_failure_code e4 = Some ''BAD_STATEMENT_SIGNATURE''" "statement_verdict L K fs4 = Some False"
    "receipt_verdict L K fs4 e4 = Inr (True, None)"
    using bad_signature_vector_passes [OF L, of K "keys 4" "''fail-bad-statement-sig''"] k [of 4] g ok
    by (auto simp: vector_ids_def spoilt_accepted_def)
  let ?vs = "[(register ''valid-eddsa'' e0, fs0, e0), (register ''valid-es256'' e1, fs1, e1),
    (register ''fail-tampered-path'' e2, fs2, e2), (register ''fail-unsupported-vds'' e3, fs3, e3),
    (register ''fail-bad-statement-sig'' e4, fs4, e4)]"
  have "generated_vectors L K keys = Some ?vs"
    using v0(1) v1(1) v2(1) v3(1) v4(1) by (simp add: generated_vectors_def)
  moreover have "map (vector_verdict L K) ?vs = published_verdicts"
    using v0(3) v1(3) v2(3-6) v3(3-6) v4(3-6) by (simp add: published_verdicts_def) (simp add: vector_verdict_def register_def)
  moreover have "receipt_errors L K (?vs ! 3) = Inr [Bad_Proof Ccf_Not_Map]"
    using v3(7) by (simp add: receipt_errors_def)
  moreover have "\<forall>(m, fs, e) \<in> set ?vs. m = register (m_id m) e \<and> check_vector L K fs e = Inr []"
    using v0(2) v1(2) v2(2) v3(2) v4(2) by (simp add: register_def)
  ultimately show ?thesis by blast
qed

lemma those_checks:
  "\<forall>(m, fs, e) \<in> set vs. check_vector L K fs e = Inr [] \<Longrightarrow>
     those (map (\<lambda>(m, fs, e). returned (check_vector L K fs e)) vs) = Some (map (\<lambda>_. []) vs)"
  by (induction vs) auto

lemma set_is_minted:
  assumes "cbor2_plain L" "libs_total L K" "keys_match K keys" "\<forall>i \<in> set vector_ids. i \<notin> set manifest_ids"
  shows "spoilt_accepted L K keys \<or>
    (\<exists>vs. generate L K False manifest_ids keys = Some (0, vs) \<and> map (vector_verdict L K) vs = published_verdicts \<and>
       receipt_errors L K (vs ! 3) = Inr [Bad_Proof Ccf_Not_Map] \<and>
       vectors_main L K as_json (Some vs) = Inr (0, map (\<lambda>i. (i, [])) vector_ids))"
proof (cases "spoilt_accepted L K keys")
  case False
  obtain vs where g: "generated_vectors L K keys = Some vs" "map (vector_verdict L K) vs = published_verdicts"
    "receipt_errors L K (vs ! 3) = Inr [Bad_Proof Ccf_Not_Map]"
    "\<forall>(m, fs, e) \<in> set vs. m = register (m_id m) e \<and> check_vector L K fs e = Inr []"
    using generated_vectors_pass [OF assms(1-3) False] by blast
  note vs = g(1) published_ids [OF g(2)] g(4)
  have "\<not> list_ex (\<lambda>(m, _). m_id m \<in> set manifest_ids) vs"
    using assms(4) unfolding vs(2) [symmetric] by (auto simp: list_ex_iff)
  moreover have "those (map (\<lambda>(m, fs, e). returned (check_vector L K fs e)) vs) = Some (map (\<lambda>_. []) vs)"
    by (rule those_checks) (use vs(3) in auto)
  ultimately have "generate L K False manifest_ids keys = Some (0, vs)"
    using vs(1) by (simp add: generate_def)
  moreover have "rmapM (run_vector L K) vs' = Inr (map (\<lambda>(m, _). (m_id m, [])) vs')"
    if "\<forall>(m, fs, e) \<in> set vs'. m = register (m_id m) e \<and> check_vector L K fs e = Inr []" for vs'
    using that
  proof (induction vs')
    case (Cons v vs')
    obtain m fs e where v: "v = (m, fs, e)" by (cases v)
    have c: "m = register (m_id m) e" "check_vector L K fs e = Inr []" using Cons.prems v by auto
    have "m_expected_result m = e_result e" "m_failure_code m = e_failure_code e"
      using c(1) by (metis register_def manifest_entry.select_convs)+
    then have "run_vector L K v = Inr (m_id m, [])" using c(2) by (simp add: run_vector_def v)
    then show ?case using Cons v by simp
  qed simp
  from this [OF vs(3)] have "rmapM (run_vector L K) vs = Inr (map (\<lambda>i. (i, [])) vector_ids)"
    unfolding vs(2) [symmetric] by (simp add: case_prod_beta comp_def)
  then have "vectors_main L K as_json (Some vs) = Inr (0, map (\<lambda>i. (i, [])) vector_ids)"
    by (simp add: vectors_main_def vector_ids_def)
  ultimately show ?thesis using g(2,3) by blast
qed simp

section \<open>Properties\<close>

text \<open>
  C23. The generator agrees with the runner. Whatever the keys it draws, as long as each private key
  goes with its public key, the generator mints its five vectors, finds no failure in its own check and
  exits with 0, and the runner over the published set reports no mismatch and exits with 0. What is
  published and what the verifiers say of it is stated vector by vector: two valid ones whose
  statement and receipt verify; one marked as a tampered path, whose statement verifies and whose
  receipt fails at its signature; one marked as an unsupported tree, whose statement verifies and whose
  receipt fails at its structure; and one marked as a bad statement signature, whose receipt verifies.
  The receipt with the unsupported tree is not refused for its tree, as the description says, but
  because its proof is not a CCF proof. The alternative is explicit: the keys accept the flipped
  signature or the flipped root, or two of the hashed strings collide.
\<close>

theorem minted_set_passes:
  assumes "cbor2_plain L" "libs_total L K" "keys_match K keys" "\<forall>i \<in> set vector_ids. i \<notin> set manifest_ids"
  shows "spoilt_accepted L K keys \<or>
    (\<exists>vs. generate L K False manifest_ids keys = Some (0, vs) \<and> map (vector_verdict L K) vs = published_verdicts \<and>
       receipt_errors L K (vs ! 3) = Inr [Bad_Proof Ccf_Not_Map] \<and>
       vectors_main L K as_json (Some vs) = Inr (0, map (\<lambda>i. (i, [])) vector_ids))"
  using assms by (rule set_is_minted)

definition demo_keys :: "nat \<Rightarrow> vector_keys" where
  "demo_keys j =
     (let k = (if j = 1 then [2] else [1]) in \<lparr>vk_issuer_priv = k, vk_issuer_pub = k, vk_log_priv = k, vk_log_pub = k\<rparr>)"

theorem minted_set_passes_witness:
  "spoilt_accepted ref_cbor2 toy_crypto demo_keys \<or>
    (\<exists>vs. generate ref_cbor2 toy_crypto False [''valid-es384''] demo_keys = Some (0, vs) \<and>
       map (vector_verdict ref_cbor2 toy_crypto) vs = published_verdicts \<and>
       vectors_main ref_cbor2 toy_crypto True (Some vs) = Inr (0, map (\<lambda>i. (i, [])) vector_ids))"
proof -
  have t: "libs_total ref_cbor2 toy_crypto"
    by (simp add: libs_total_def ref_cbor2_def ref_encode_def toy_crypto_def sig_structure_def sig_structure_value_def)
  have e: "key_match toy_crypto ''ES256'' (Pem_Bytes [2]) (Pem_Bytes [2])"
    using toy_ec_pair [of "[2]"] by (simp add: key_match_def toy_crypto_def)
  have k: "keys_match toy_crypto demo_keys"
    using e demo_key by (simp add: keys_match_def demo_keys_def vector_alg_def Let_def)
  from minted_set_passes [OF ref_cbor2_plain t k, of "[''valid-es384'']" True]
  show ?thesis by (auto simp: vector_ids_def)
qed

end
