(* ===== verification/Lint_Text.thy ===== *)
theory Lint_Text
  imports Json
begin

text \<open>
  What the repository's line-based checks (\<open>src/.github/*.py\<close>) share: texts as lists of code points
  with the parts of \<open>str\<close> and \<open>re\<close> they call, and the interface of a scan that reads the lines of a
  list of files and reports on each. The locale \<open>line_scan\<close> states that interface, and \<open>allowlist_scan\<close>
  that of a check with an allowlist; the checks interpret them.
\<close>

section \<open>Text\<close>

text \<open>A \<open>str\<close> as its code points. \<open>ascii\<close> is for the literals of the sources, \<open>points\<close> reads the octets of
  a JSON string.\<close>

type_synonym pystr = "nat list"

definition ascii :: "string \<Rightarrow> pystr" where
  "ascii s = map of_char s"

definition points :: "string \<Rightarrow> pystr" where
  "points s = map code_point (utf8_chars s)"

text \<open>The Unicode database, as far as the checks read it: \<open>str.lower\<close>, which characters
  \<open>re.IGNORECASE\<close> identifies, and the classes behind \<open>\b\<close>, \<open>\s\<close> and \<open>isalnum\<close>.\<close>

record unicode =
  uc_lower :: "pystr \<Rightarrow> pystr"
  uc_fold :: "nat \<Rightarrow> nat \<Rightarrow> bool"
  uc_word :: "nat \<Rightarrow> bool"
  uc_space :: "nat \<Rightarrow> bool"
  uc_alnum :: "nat \<Rightarrow> bool"

text \<open>It restricted to ASCII, for the witnesses.\<close>

definition ascii_unicode :: unicode where
  "ascii_unicode =
     (let low = (\<lambda>c. if 65 \<le> c \<and> c \<le> 90 then c + 32 else c);
          alnum = (\<lambda>c. 48 \<le> c \<and> c \<le> 57 \<or> 65 \<le> c \<and> c \<le> 90 \<or> 97 \<le> c \<and> c \<le> (122 :: nat))
      in \<lparr>uc_lower = map low, uc_fold = (\<lambda>a b. low a = low b), uc_word = (\<lambda>c. alnum c \<or> c = 95),
          uc_space = (\<lambda>c. 9 \<le> c \<and> c \<le> 13 \<or> 28 \<le> c \<and> c \<le> 32), uc_alnum = alnum\<rparr>)"

definition text_strip :: "unicode \<Rightarrow> pystr \<Rightarrow> pystr" where
  "text_strip U s = rev (dropWhile (uc_space U) (rev (dropWhile (uc_space U) s)))"

text \<open>\<open>s.find(t, start)\<close>: the first position from \<open>start\<close> on.\<close>

definition text_at :: "'a list \<Rightarrow> 'a list \<Rightarrow> nat \<Rightarrow> bool" where
  "text_at s t i \<longleftrightarrow> i + length t \<le> length s \<and> take (length t) (drop i s) = t"

definition text_find :: "'a list \<Rightarrow> 'a list \<Rightarrow> nat \<Rightarrow> nat option" where
  "text_find s t start = find (text_at s t) [start..<Suc (length s)]"

text \<open>\<open>t in s\<close>\<close>

definition text_in :: "'a list \<Rightarrow> 'a list \<Rightarrow> bool" where
  "text_in t s \<longleftrightarrow> text_find s t 0 \<noteq> None"

text \<open>\<open>str.splitlines\<close>: the line boundaries of \<open>str\<close>, CR LF being one.\<close>

definition line_break :: "nat \<Rightarrow> bool" where
  "line_break c \<longleftrightarrow> c \<in> {10, 11, 12, 13, 28, 29, 30, 133, 8232, 8233}"

function splitlines_from :: "pystr \<Rightarrow> pystr \<Rightarrow> pystr list" where
  "splitlines_from acc [] = (if acc = [] then [] else [rev acc])"
| "splitlines_from acc (c # s) =
     (if c = 13 then rev acc # splitlines_from [] (if s \<noteq> [] \<and> hd s = 10 then tl s else s)
      else if line_break c then rev acc # splitlines_from [] s
      else splitlines_from (c # acc) s)"
  by pat_completeness auto
termination
  by (relation "measure (length \<circ> snd)") auto

definition splitlines :: "pystr \<Rightarrow> pystr list" where
  "splitlines s = splitlines_from [] s"

text \<open>\<open>\b\<close> at a position.\<close>

definition word_boundary :: "unicode \<Rightarrow> pystr \<Rightarrow> nat \<Rightarrow> bool" where
  "word_boundary U s i \<longleftrightarrow>
     (0 < i \<and> i \<le> length s \<and> uc_word U (s ! (i - 1))) \<noteq> (i < length s \<and> uc_word U (s ! i))"

text \<open>A literal, under \<open>re.IGNORECASE\<close>, at a position.\<close>

definition folded_at :: "unicode \<Rightarrow> pystr \<Rightarrow> pystr \<Rightarrow> nat \<Rightarrow> bool" where
  "folded_at U s t i \<longleftrightarrow> i + length t \<le> length s \<and> list_all2 (uc_fold U) t (take (length t) (drop i s))"

lemma text_find_Some:
  assumes "text_find s t start = Some i"
  shows "start \<le> i" "text_at s t i" "\<And>j. start \<le> j \<Longrightarrow> j < i \<Longrightarrow> \<not> text_at s t j"
proof -
  obtain k where k: "k < length [start..<Suc (length s)]" "[start..<Suc (length s)] ! k = i" "text_at s t i"
    "\<And>j. j < k \<Longrightarrow> \<not> text_at s t ([start..<Suc (length s)] ! j)"
    using assms unfolding text_find_def find_Some_iff by blast
  have i: "i = start + k" using k(1,2) by (simp del: upt_Suc)
  show "start \<le> i" "text_at s t i" using i k(3) by simp_all
  show "\<not> text_at s t j" if "start \<le> j" "j < i" for j
    using k(4) [of "j - start"] that i k(1) by (simp del: upt_Suc)
qed

lemma text_find_None: "text_find s t start = None \<longleftrightarrow> (\<forall>i \<ge> start. \<not> text_at s t i)"
  by (auto simp: text_find_def find_None_iff text_at_def simp del: upt_Suc)

lemma text_in_iff: "text_in t s \<longleftrightarrow> (\<exists>i. text_at s t i)"
  by (auto simp: text_in_def text_find_None)

lemma text_at_iff: "text_at s t i \<longleftrightarrow> (\<exists>a b. s = a @ t @ b \<and> length a = i)"
proof
  assume a: "text_at s t i"
  have "s = take i s @ take (length t) (drop i s) @ drop (length t) (drop i s)" by (simp only: append_take_drop_id)
  then show "\<exists>a b. s = a @ t @ b \<and> length a = i"
    using a unfolding text_at_def by (intro exI [of _ "take i s"] exI [of _ "drop (length t) (drop i s)"]) auto
qed (auto simp: text_at_def)

section \<open>A scan of lines\<close>

text \<open>
  The report of a scan: the files it keeps, in order, their numbered lines, and what it says of a
  line. Its promise is that it says nothing else, and skips none of these lines.
\<close>

locale line_scan =
  fixes report :: "'t \<Rightarrow> 'h list"
    and scanned :: "'t \<Rightarrow> 'f list"
    and file_lines :: "'t \<Rightarrow> 'f \<Rightarrow> (nat \<times> pystr) list"
    and on_line :: "'t \<Rightarrow> 'f \<Rightarrow> nat \<times> pystr \<Rightarrow> 'h list"
  assumes report_lines: "report t = concat (map (\<lambda>f. concat (map (on_line t f) (file_lines t f))) (scanned t))"
begin

lemma clean_iff: "report t = [] \<longleftrightarrow> (\<forall>f \<in> set (scanned t). \<forall>l \<in> set (file_lines t f). on_line t f l = [])"
  by (auto simp: report_lines)

lemma in_report: "h \<in> set (report t) \<longleftrightarrow> (\<exists>f \<in> set (scanned t). \<exists>l \<in> set (file_lines t f). h \<in> set (on_line t f l))"
  by (auto simp: report_lines)

text \<open>A file that is not kept has no influence: two trees that agree on what is kept have one report.\<close>

lemma report_cong:
  assumes "scanned t = scanned t'"
    and "\<And>f. f \<in> set (scanned t) \<Longrightarrow> file_lines t f = file_lines t' f"
    and "\<And>f l. f \<in> set (scanned t) \<Longrightarrow> l \<in> set (file_lines t f) \<Longrightarrow> on_line t f l = on_line t' f l"
  shows "report t = report t'"
proof -
  have "concat (map (on_line t f) (file_lines t f)) = concat (map (on_line t' f) (file_lines t' f))"
    if "f \<in> set (scanned t)" for f
    by (rule arg_cong [where f = concat], rule map_cong [OF assms(2) [OF that]]) (simp add: assms(2) assms(3) that)
  then have "map (\<lambda>f. concat (map (on_line t f) (file_lines t f))) (scanned t)
      = map (\<lambda>f. concat (map (on_line t' f) (file_lines t' f))) (scanned t)"
    by (intro map_cong refl)
  then show ?thesis by (simp only: report_lines assms(1) [symmetric])
qed

end

text \<open>
  A check with an allowlist: a line is reported exactly if it breaks the check and its stripped text is
  not listed.
\<close>

locale allowlist_scan = line_scan report scanned file_lines on_line
  for report :: "'t \<Rightarrow> 'h list"
    and scanned :: "'t \<Rightarrow> 'f list"
    and file_lines :: "'t \<Rightarrow> 'f \<Rightarrow> (nat \<times> pystr) list"
    and on_line :: "'t \<Rightarrow> 'f \<Rightarrow> nat \<times> pystr \<Rightarrow> 'h list" +
  fixes breaks :: "'f \<Rightarrow> pystr \<Rightarrow> bool"
    and stripped :: "pystr \<Rightarrow> pystr"
    and allowed :: "'t \<Rightarrow> pystr list"
  assumes on_line_Nil: "on_line t f (i, l) = [] \<longleftrightarrow> \<not> breaks f l \<or> stripped l \<in> set (allowed t)"
begin

lemma clean_allowed:
  "report t = [] \<longleftrightarrow>
     (\<forall>f \<in> set (scanned t). \<forall>(i, l) \<in> set (file_lines t f). breaks f l \<longrightarrow> stripped l \<in> set (allowed t))"
  unfolding clean_iff by (fastforce simp: on_line_Nil)

text \<open>A longer allowlist keeps a clean tree clean.\<close>

lemma clean_mono:
  assumes "report t = []" "scanned t' = scanned t" "\<And>f. f \<in> set (scanned t) \<Longrightarrow> file_lines t' f = file_lines t f"
    and "set (allowed t) \<subseteq> set (allowed t')"
  shows "report t' = []"
  using assms unfolding clean_allowed by fastforce

end

section \<open>The committed tree\<close>

text \<open>
  What a check without git's \<open>-z\<close> sees: the output of \<open>git ls-files\<close> (\<open>None\<close> where git fails), the text
  of a path (\<open>None\<close> for an \<open>OSError\<close>), and the text of its allowlist if the file is there. A path is the
  list of its names below the root.
\<close>

record lint_tree =
  lt_ls_files :: "pystr option"
  lt_text :: "pystr list \<Rightarrow> pystr option"
  lt_allowlist :: "pystr option"

fun split_at :: "'a \<Rightarrow> 'a list \<Rightarrow> 'a list list" where
  "split_at sep [] = [[]]"
| "split_at sep (c # s) =
     (if c = sep then [] # split_at sep s
      else (case split_at sep s of [] \<Rightarrow> [[c]] | w # ws \<Rightarrow> (c # w) # ws))"

definition path_names :: "pystr \<Rightarrow> pystr list" where
  "path_names p = filter (\<lambda>n. n \<noteq> [] \<and> n \<noteq> ascii ''.'') (split_at 47 p)"

definition tracked_files :: "pystr \<Rightarrow> pystr list list" where
  "tracked_files out = map path_names (filter (\<lambda>p. p \<noteq> []) (splitlines out))"

text \<open>\<open>PurePath.suffix\<close>: from the last dot of the last name, unless the dot is at either end of it.\<close>

definition name_suffix :: "pystr \<Rightarrow> pystr" where
  "name_suffix name =
     (let rest = rev (takeWhile (\<lambda>c. c \<noteq> 46) (rev name))
      in if length rest = length name \<or> rest = [] \<or> Suc (length rest) = length name then [] else 46 # rest)"

definition path_suffix :: "pystr list \<Rightarrow> pystr" where
  "path_suffix p = (if p = [] then [] else name_suffix (last p))"

definition path_name :: "pystr list \<Rightarrow> pystr" where
  "path_name p = (if p = [] then [] else last p)"

text \<open>Without \<open>-z\<close>, git quotes every name that is not plain ASCII; the suffix of a quoted name ends in the quote.\<close>

lemma quoted_suffix:
  assumes "last (path_name f) = 34" "path_name f \<noteq> []"
  shows "path_suffix f = [] \<or> last (path_suffix f) = 34"
proof -
  have f: "f \<noteq> []" using assms by (auto simp: path_name_def)
  obtain xs where n: "last f = xs @ [34]" using assms f by (metis append_butlast_last_id path_name_def)
  then show ?thesis using f by (auto simp: path_suffix_def name_suffix_def Let_def)
qed

text \<open>\<open>enumerate(text.splitlines(), start=1)\<close>\<close>

definition numbered_lines :: "pystr \<Rightarrow> (nat \<times> pystr) list" where
  "numbered_lines s = enumerate 1 (splitlines s)"

end
