(* ===== verification/Fuzzer.thy ===== *)
theory Fuzzer
  imports Vector_Mint Lint_Text "HOL-Library.State_Monad"
begin

unbundle bit_operations_syntax

text \<open>
  The differential fuzzer, \<open>src/scripts/differential_fuzz.py\<close>: its seeds, its mutators, how a verifier's
  exit is read, and the loop with the verdict. \<open>random.Random\<close> is threaded in the state monad; the
  verifiers it runs as subprocesses are parameters.
\<close>

section \<open>Random draws\<close>

text \<open>
  Every method of \<open>random.Random\<close> the fuzzer calls draws through \<open>_randbelow(n)\<close>, which is the
  parameter: a number below \<open>n\<close>, and the next state. A range is never empty where the fuzzer draws.
\<close>

type_synonym 's below = "nat \<Rightarrow> ('s, nat) state"

definition draws_below :: "'s below \<Rightarrow> bool" where
  "draws_below R \<longleftrightarrow> (\<forall>n s. 0 < n \<longrightarrow> fst (run_state (R n) s) < n)"

definition randrange :: "'s below \<Rightarrow> nat \<Rightarrow> nat \<Rightarrow> ('s, nat) state" where
  "randrange R start stop = do { k \<leftarrow> R (stop - start); State_Monad.return (start + k) }"

definition randint :: "'s below \<Rightarrow> nat \<Rightarrow> nat \<Rightarrow> ('s, nat) state" where
  "randint R a b = randrange R a (b + 1)"

definition choice :: "'s below \<Rightarrow> 'a list \<Rightarrow> ('s, 'a) state" where
  "choice R xs = do { k \<leftarrow> R (length xs); State_Monad.return (xs ! k) }"

text \<open>\<open>bytes(rng.randrange(256) for _ in range(n))\<close>\<close>

fun draw_octets :: "'s below \<Rightarrow> nat \<Rightarrow> ('s, bytes) state" where
  "draw_octets R 0 = State_Monad.return []"
| "draw_octets R (Suc n) = do { x \<leftarrow> R 256; xs \<leftarrow> draw_octets R n; State_Monad.return (of_nat x # xs) }"

section \<open>Mutations of octets\<close>

fun bit_flips :: "'s below \<Rightarrow> nat \<Rightarrow> bytes \<Rightarrow> ('s, bytes) state" where
  "bit_flips R 0 b = State_Monad.return b"
| "bit_flips R (Suc n) b =
     do { i \<leftarrow> R (length b); k \<leftarrow> R 8; bit_flips R n (b[i := b ! i XOR push_bit k 1]) }"

definition bitflip :: "'s below \<Rightarrow> bytes \<Rightarrow> ('s, bytes) state" where
  "bitflip R data =
     (if data = [] then State_Monad.return [0]
      else do { n \<leftarrow> randint R 1 4; bit_flips R n data })"

definition truncate_octets :: "'s below \<Rightarrow> bytes \<Rightarrow> ('s, bytes) state" where
  "truncate_octets R data =
     (if length data < 2 then State_Monad.return data
      else do { n \<leftarrow> randrange R 1 (length data); State_Monad.return (take n data) })"

definition splice :: "'s below \<Rightarrow> bytes \<Rightarrow> ('s, bytes) state" where
  "splice R data =
     do { n \<leftarrow> randint R 1 8; chunk \<leftarrow> draw_octets R n; at \<leftarrow> R (length data + 1);
          State_Monad.return (take at data @ chunk @ drop at data) }"

section \<open>Mutations of the structure\<close>

text \<open>
  \<open>list(v)\<close>, \<open>dict(v)\<close> and \<open>bytes(v)\<close> of a decoded value, \<open>None\<close> where they raise. Objects of other
  types count as not iterable: the seeds have none.
\<close>

fun py_list :: "pyval \<Rightarrow> pyval list option" where
  "py_list (CList xs) = Some xs"
| "py_list (CTuple xs) = Some xs"
| "py_list (CText s) = Some (map CText (utf8_chars s))"
| "py_list (CBytes b) = Some (map (\<lambda>x. CInt (uint x)) b)"
| "py_list (CDict d) = Some (map fst d)"
| "py_list (CFrozen d) = Some (map fst d)"
| "py_list _ = None"

fun hashable :: "pyval \<Rightarrow> bool" where
  "hashable (CList xs) = False"
| "hashable (CDict d) = False"
| "hashable (CTuple xs) = (\<forall>x \<in> set xs. hashable x)"
| "hashable (CFrozen d) = (\<forall>(k, v) \<in> set d. hashable v)"
| "hashable (CTag t v) = hashable v"
| "hashable _ = True"

definition key_value :: "pyval \<Rightarrow> (pyval \<times> pyval) option" where
  "key_value v = (case py_list v of Some [k, x] \<Rightarrow> if hashable k then Some (k, x) else None | _ \<Rightarrow> None)"

definition py_dict :: "pyval \<Rightarrow> pydict option" where
  "py_dict v =
     (case as_mapping v of
        Some d \<Rightarrow> Some d
      | None \<Rightarrow> map_option (foldl (\<lambda>d (k, x). dict_set d k x) [])
                  (Option.bind (py_list v) (\<lambda>xs. those (map key_value xs))))"

definition octet_of :: "pyval \<Rightarrow> byte option" where
  "octet_of v =
     (case (case v of CInt i \<Rightarrow> Some i | CBool b \<Rightarrow> Some (of_bool b) | _ \<Rightarrow> None) of
        Some i \<Rightarrow> if 0 \<le> i \<and> i < 256 then Some (of_int i) else None
      | None \<Rightarrow> None)"

definition py_bytes :: "pyval \<Rightarrow> bytes option" where
  "py_bytes v =
     (case v of
        CBytes b \<Rightarrow> Some b
      | CText s \<Rightarrow> None
      | CInt i \<Rightarrow> if 0 \<le> i then Some (replicate (nat i) 0) else None
      | CBool b \<Rightarrow> Some (replicate (of_bool b) 0)
      | _ \<Rightarrow> Option.bind (py_list v) (\<lambda>xs. those (map octet_of xs)))"

text \<open>\<open>v[0]\<close> and \<open>list(v[1:])\<close>; a dict has no slices.\<close>

definition item_0 :: "pyval \<Rightarrow> pyval option" where
  "item_0 v =
     (case as_mapping v of
        Some d \<Rightarrow> dict_get d (CInt 0)
      | None \<Rightarrow> (case py_list v of Some (x # _) \<Rightarrow> Some x | _ \<Rightarrow> None))"

definition from_1 :: "pyval \<Rightarrow> pyval list option" where
  "from_1 v = (case as_mapping v of Some d \<Rightarrow> None | None \<Rightarrow> map_option tl (py_list v))"

definition nth_opt :: "'a list \<Rightarrow> nat \<Rightarrow> 'a option" where
  "nth_opt xs i = (if i < length xs then Some (xs ! i) else None)"

text \<open>\<open>dict(val[1]) if isinstance(val[1], dict) else {}\<close>; None where \<open>val\<close> has no second element.\<close>

definition unprotected_copy :: "pyval list \<Rightarrow> pydict option" where
  "unprotected_copy val = map_option (\<lambda>v. case as_dict v of Some d \<Rightarrow> d | None \<Rightarrow> []) (nth_opt val 1)"

definition as_tag_list :: "pyval \<Rightarrow> (int \<times> pyval list) option" where
  "as_tag_list v = (case as_tag v of Some (t, x) \<Rightarrow> map_option (Pair t) (py_list x) | None \<Rightarrow> None)"

text \<open>Whatever fails is mutated octet by octet instead.\<close>

definition or_bitflip :: "'s below \<Rightarrow> bytes \<Rightarrow> bytes option \<Rightarrow> ('s, bytes) state" where
  "or_bitflip R data r = (case r of Some b \<Rightarrow> State_Monad.return b | None \<Rightarrow> bitflip R data)"

text \<open>
  \<open>_struct_giant_length\<close>: the first attempt corrupts the first inclusion proof, the second replaces the
  proofs. The first may already have stored its new header in \<open>val\<close> when it fails. A tag whose value is
  not iterable raises, and nothing handles it: the result is \<open>None\<close>.
\<close>

definition giant_in_proof ::
    "cbor2_lib \<Rightarrow> 's below \<Rightarrow> int \<Rightarrow> int \<Rightarrow> pyval list \<Rightarrow> ('s, pyval list \<times> bytes option) state" where
  "giant_in_proof L R tag big val =
     (let failed = State_Monad.return (val, None) in
      case unprotected_copy val of None \<Rightarrow> failed | Some unprot \<Rightarrow>
      let vdp_value = get_or_none unprot (CInt 396) in
      case (if truthy vdp_value then py_dict vdp_value else Some []) of None \<Rightarrow> failed | Some vdp \<Rightarrow>
      let proofs = get_or_none vdp (CInt (- 1)) in
      if \<not> truthy proofs then failed
      else (case Option.bind (Option.bind (Option.bind (item_0 proofs) py_bytes) (\<lambda>b. returned (cbor_loads L b))) py_list of
              None \<Rightarrow> failed
            | Some arr \<Rightarrow>
                do { i \<leftarrow> choice R [0, 1];
                     case (if i < length arr
                           then Option.bind (returned (cbor_dumps L (CList (arr[i := CInt big])))) (\<lambda>blob.
                             map_option (\<lambda>rest. CList (CBytes blob # rest)) (from_1 proofs))
                           else None) of
                       None \<Rightarrow> failed
                     | Some proofs \<Rightarrow>
                         let val = val[1 := CDict (dict_set unprot (CInt 396) (CDict (dict_set vdp (CInt (- 1)) proofs)))]
                         in State_Monad.return (val, returned (cbor_dumps L (CTag tag (CList val)))) }))"

definition giant_proofs :: "cbor2_lib \<Rightarrow> int \<Rightarrow> int \<Rightarrow> pyval list \<Rightarrow> bytes option" where
  "giant_proofs L tag big val =
     Option.bind (unprotected_copy val) (\<lambda>unprot.
     returned (cbor_dumps L (CTag tag (CList (val[1 :=
       CDict (dict_set unprot (CInt 396) (CDict [(CInt (- 1), CList [CInt big])]))])))))"

definition giant_length :: "cbor2_lib \<Rightarrow> 's below \<Rightarrow> bytes \<Rightarrow> ('s, bytes option) state" where
  "giant_length L R data =
     (case Option.bind (returned (cbor_loads L data)) as_tag of
        None \<Rightarrow> map_state Some (bitflip R data)
      | Some (tag, v) \<Rightarrow>
          (case py_list v of None \<Rightarrow> State_Monad.return None | Some val \<Rightarrow>
             do { big \<leftarrow> choice R [2 ^ 40, 2 ^ 62, 2 ^ 63 - 1];
                  r \<leftarrow> giant_in_proof L R tag big val;
                  case r of
                    (val, Some b) \<Rightarrow> State_Monad.return (Some b)
                  | (val, None) \<Rightarrow> map_state Some (or_bitflip R data (giant_proofs L tag big val)) }))"

text \<open>\<open>_struct_dup_key\<close>: the protected header with its algorithm given twice.\<close>

definition dup_header :: "cbor2_lib \<Rightarrow> pyval \<Rightarrow> bytes option" where
  "dup_header L prot =
     Option.bind (if truthy prot then Option.bind (as_bytes prot) (\<lambda>b. returned (cbor_loads L b)) else Some (CDict []))
       (\<lambda>inner. case as_dict inner of None \<Rightarrow> None | Some d \<Rightarrow>
         Option.bind (dict_get d (CInt 1)) (\<lambda>alg.
         Option.bind (returned (cbor_dumps L (CDict [(CInt 1, alg)]))) (\<lambda>body.
         let head = 0xA0 OR (length d + 1) in
         if 256 \<le> head then None
         else Option.bind (returned (cbor_dumps L (CInt 1))) (\<lambda>one.
              Option.bind (returned (cbor_dumps L (CInt (- 7)))) (\<lambda>es256.
              Some (of_nat head # one @ es256 @ tl body))))))"

definition dup_key_message :: "cbor2_lib \<Rightarrow> bytes \<Rightarrow> bytes option" where
  "dup_key_message L data =
     Option.bind (Option.bind (returned (cbor_loads L data)) as_tag_list) (\<lambda>(tag, val).
     Option.bind (nth_opt val 0) (\<lambda>prot.
     Option.bind (dup_header L prot) (\<lambda>dup.
     returned (cbor_dumps L (CTag tag (CList (val[0 := CBytes dup])))))))"

definition dup_key :: "cbor2_lib \<Rightarrow> 's below \<Rightarrow> bytes \<Rightarrow> ('s, bytes) state" where
  "dup_key L R data = or_bitflip R data (dup_key_message L data)"

text \<open>\<open>_struct_indefinite_payload\<close>: the payload as an indefinite-length string of one chunk.\<close>

definition indefinite_message :: "cbor2_lib \<Rightarrow> bytes \<Rightarrow> bytes option" where
  "indefinite_message L data =
     Option.bind (Option.bind (returned (cbor_loads L data)) as_tag_list) (\<lambda>(tag, val).
     if tag \<noteq> 18 then None
     else Option.bind (Option.bind (nth_opt val 2) as_bytes) (\<lambda>payload.
       if payload = [] then None
       else Option.bind (returned (cbor_dumps L (CBytes payload))) (\<lambda>chunk.
            Option.bind (returned (cbor_dumps L (val ! 0))) (\<lambda>prot.
            Option.bind (returned (cbor_dumps L (val ! 1))) (\<lambda>unprot.
            Option.bind (Option.bind (nth_opt val 3) (\<lambda>v. returned (cbor_dumps L v))) (\<lambda>sig.
            Some ([0xD2, 0x84] @ prot @ unprot @ (0x5F # chunk @ [0xFF]) @ sig)))))))"

definition indefinite_payload :: "cbor2_lib \<Rightarrow> 's below \<Rightarrow> bytes \<Rightarrow> ('s, bytes) state" where
  "indefinite_payload L R data = or_bitflip R data (indefinite_message L data)"

text \<open>\<open>_struct_oversize_tree\<close>: one inclusion proof of 62 random nodes for a tree of more than \<open>2^62\<close>
  leaves.\<close>

fun draw_nodes :: "'s below \<Rightarrow> nat \<Rightarrow> ('s, bytes list) state" where
  "draw_nodes R 0 = State_Monad.return []"
| "draw_nodes R (Suc n) = do { x \<leftarrow> draw_octets R 32; xs \<leftarrow> draw_nodes R n; State_Monad.return (x # xs) }"

definition oversize_message :: "cbor2_lib \<Rightarrow> pyval list \<Rightarrow> pydict \<Rightarrow> nat \<Rightarrow> bytes list \<Rightarrow> bytes option" where
  "oversize_message L val unprot oversize path =
     Option.bind (returned (cbor_dumps L (CList [CInt (int oversize), CInt 0, CList (map CBytes path)]))) (\<lambda>proof_blob.
     returned (cbor_dumps L (CTag 18 (CList (val[1 :=
       CDict (dict_set unprot (CInt 396) (CDict [(CInt (- 1), CList [CBytes proof_blob])]))])))))"

definition oversize_tree :: "cbor2_lib \<Rightarrow> 's below \<Rightarrow> bytes \<Rightarrow> ('s, bytes) state" where
  "oversize_tree L R data =
     (case Option.bind (returned (cbor_loads L data)) as_tag_list of
        Some (tag, val) \<Rightarrow>
          if tag \<noteq> 18 then bitflip R data
          else (case unprotected_copy val of
                  None \<Rightarrow> bitflip R data
                | Some unprot \<Rightarrow>
                    if \<not> dict_has unprot (CInt 396) then bitflip R data
                    else do { k \<leftarrow> randint R 1 (push_bit 20 1); path \<leftarrow> draw_nodes R 62;
                              or_bitflip R data (oversize_message L val unprot (push_bit 62 1 + k) path) })
      | None \<Rightarrow> bitflip R data)"

datatype mutator =
  Bitflip | Truncate | Splice | Giant_Length | Dup_Key | Indefinite_Payload | Oversize_Tree

definition MUTATORS :: "mutator list" where
  "MUTATORS = [Bitflip, Bitflip, Bitflip, Truncate, Splice,
     Giant_Length, Dup_Key, Indefinite_Payload, Oversize_Tree]"

text \<open>\<open>None\<close> is an exception that ends the fuzzer.\<close>

fun mutate :: "cbor2_lib \<Rightarrow> 's below \<Rightarrow> mutator \<Rightarrow> bytes \<Rightarrow> ('s, bytes option) state" where
  "mutate L R Bitflip data = map_state Some (bitflip R data)"
| "mutate L R Truncate data = map_state Some (truncate_octets R data)"
| "mutate L R Splice data = map_state Some (splice R data)"
| "mutate L R Giant_Length data = giant_length L R data"
| "mutate L R Dup_Key data = map_state Some (dup_key L R data)"
| "mutate L R Indefinite_Payload data = map_state Some (indefinite_payload L R data)"
| "mutate L R Oversize_Tree data = map_state Some (oversize_tree L R data)"

section \<open>Seeds and verdicts\<close>

text \<open>A committed vector, as far as it is read, and the two seeds it gives.\<close>

record seed_vector =
  sv_id :: string
  sv_statement :: bytes
  sv_receipt :: bytes
  sv_issuer_key :: string
  sv_log_key :: string
  sv_alg :: string
  sv_leaf :: string

datatype seed_kind = Statement_Seed (seed_alg: string) | Receipt_Seed (seed_leaf: string)

record seed =
  sd_id :: string
  sd_kind :: seed_kind
  sd_bytes :: bytes
  sd_pubkey :: string

definition seeds_of :: "seed_vector \<Rightarrow> seed list" where
  "seeds_of d =
     [\<lparr>sd_id = sv_id d, sd_kind = Statement_Seed (sv_alg d), sd_bytes = sv_statement d, sd_pubkey = sv_issuer_key d\<rparr>,
      \<lparr>sd_id = sv_id d, sd_kind = Receipt_Seed (sv_leaf d), sd_bytes = sv_receipt d, sd_pubkey = sv_log_key d\<rparr>]"

definition load_seeds :: "seed_vector list \<Rightarrow> seed list" where
  "load_seeds ds = concat (map seeds_of ds)"

text \<open>A finished subprocess; one that exceeds its time is \<open>None\<close>.\<close>

record completed =
  returncode :: int
  stderr :: bytes

datatype outcome = TIMEOUT | CRASH | VALID | INVALID

definition CRASH_MARKERS :: "bytes list" where
  "CRASH_MARKERS = map utf8_encode [''Traceback'', ''panic:'', ''fatal error:'', ''runtime:'']"

definition classify :: "completed option \<Rightarrow> outcome" where
  "classify proc =
     (case proc of None \<Rightarrow> TIMEOUT
      | Some p \<Rightarrow>
          if returncode p < 0 then CRASH
          else if list_ex (\<lambda>m. text_in m (stderr p)) CRASH_MARKERS then CRASH
          else if returncode p = 0 then VALID
          else if returncode p = 1 then INVALID
          else CRASH)"

text \<open>The two command lines; \<open>mutant\<close> is the path of the file the mutated octets are in.\<close>

definition py_command :: "string \<Rightarrow> string \<Rightarrow> seed \<Rightarrow> string list" where
  "py_command executable mutant s =
     [executable, ''-m'', ''scitt_cose.cli''] @
     (case sd_kind s of
        Statement_Seed alg \<Rightarrow> [''--statement'', mutant, ''--statement-pubkey'', sd_pubkey s]
      | Receipt_Seed leaf \<Rightarrow> [''--receipt'', mutant, ''--receipt-log-pubkey'', sd_pubkey s, ''--leaf-entry-hex'', leaf])"

definition go_command :: "string \<Rightarrow> string \<Rightarrow> seed \<Rightarrow> string list" where
  "go_command go_binary mutant s =
     go_binary #
     (case sd_kind s of
        Statement_Seed alg \<Rightarrow> [''--statement'', mutant, ''--pubkey'', sd_pubkey s, ''--alg'', alg]
      | Receipt_Seed leaf \<Rightarrow> [''--receipt'', mutant, ''--log-pubkey'', sd_pubkey s, ''--leaf-entry-hex'', leaf])"

text \<open>A signature, \<open>robustness:kind:py=...:go=...\<close> or \<open>conformance:...\<close>.\<close>

datatype signature = Robustness bool outcome outcome | Conformance bool outcome outcome

definition is_receipt :: "seed \<Rightarrow> bool" where
  "is_receipt s = (case sd_kind s of Receipt_Seed _ \<Rightarrow> True | Statement_Seed _ \<Rightarrow> False)"

definition signature_of :: "bool \<Rightarrow> outcome \<Rightarrow> outcome \<Rightarrow> signature option" where
  "signature_of kind pv gv =
     (if pv = gv \<and> pv \<in> {VALID, INVALID} then None
      else if pv \<in> {CRASH, TIMEOUT} \<or> gv \<in> {CRASH, TIMEOUT} then Some (Robustness kind pv gv)
      else Some (Conformance kind pv gv))"

section \<open>The loop\<close>

record finding =
  fd_iteration :: nat
  fd_seed_id :: string
  fd_mutator :: mutator
  fd_py :: outcome
  fd_go :: outcome

type_synonym findings = "(signature \<times> finding) list"

text \<open>
  How a run reaches the verifiers: the path of the mutant's file, the commands' executables, and the
  subprocess on a command with the octets in that file.
\<close>

record runtime =
  rt_python :: string
  rt_go :: string
  rt_mutant :: string
  rt_run :: "string list \<Rightarrow> bytes \<Rightarrow> completed option"

definition py_verdict :: "runtime \<Rightarrow> seed \<Rightarrow> bytes \<Rightarrow> outcome" where
  "py_verdict T s data = classify (rt_run T (py_command (rt_python T) (rt_mutant T) s) data)"

definition go_verdict :: "runtime \<Rightarrow> seed \<Rightarrow> bytes \<Rightarrow> outcome" where
  "go_verdict T s data = classify (rt_run T (go_command (rt_go T) (rt_mutant T) s) data)"

definition record_finding :: "runtime \<Rightarrow> nat \<Rightarrow> seed \<Rightarrow> mutator \<Rightarrow> bytes \<Rightarrow> findings \<Rightarrow> findings" where
  "record_finding T i s m data found =
     (let pv = py_verdict T s data; gv = go_verdict T s data in
      case signature_of (is_receipt s) pv gv of
        Some sig \<Rightarrow>
          if sig \<in> set (map fst found) then found
          else found @ [(sig, \<lparr>fd_iteration = i, fd_seed_id = sd_id s, fd_mutator = m, fd_py = pv, fd_go = gv\<rparr>)]
      | None \<Rightarrow> found)"

fun fuzz :: "cbor2_lib \<Rightarrow> 's below \<Rightarrow> runtime \<Rightarrow> seed list \<Rightarrow> nat \<Rightarrow> nat \<Rightarrow> findings \<Rightarrow> ('s, findings option) state" where
  "fuzz L R T seeds i 0 found = State_Monad.return (Some found)"
| "fuzz L R T seeds i (Suc n) found =
     do { s \<leftarrow> choice R seeds; m \<leftarrow> choice R MUTATORS; r \<leftarrow> mutate L R m (sd_bytes s);
          case r of
            None \<Rightarrow> State_Monad.return None
          | Some data \<Rightarrow> fuzz L R T seeds (i + 1) n (record_finding T i s m data found) }"

text \<open>
  \<open>main\<close>: the exit status, the signatures in the baseline file afterwards, and what was found. The
  baseline is the signatures its file names, none without a file.
\<close>

definition fuzz_main ::
    "cbor2_lib \<Rightarrow> 's below \<Rightarrow> runtime \<Rightarrow> seed_vector list \<Rightarrow> signature list \<Rightarrow> bool \<Rightarrow> nat \<Rightarrow> 's \<Rightarrow>
     (int \<times> signature list \<times> findings) option" where
  "fuzz_main L R T vectors baseline update iterations rng =
     (let seeds = load_seeds vectors in
      if seeds = [] then Some (2, baseline, [])
      else (case fst (run_state (fuzz L R T seeds 0 iterations []) rng) of
              None \<Rightarrow> None
            | Some found \<Rightarrow>
                if update then Some (0, map fst found, found)
                else Some (if \<exists>sig \<in> set (map fst found). sig \<notin> set baseline then 1 else 0, baseline, found)))"

section \<open>A run is determined by its seed\<close>

text \<open>The mutants of a run, without the verifiers.\<close>

fun mutants :: "cbor2_lib \<Rightarrow> 's below \<Rightarrow> seed list \<Rightarrow> nat \<Rightarrow> ('s, (seed \<times> mutator \<times> bytes) list option) state" where
  "mutants L R seeds 0 = State_Monad.return (Some [])"
| "mutants L R seeds (Suc n) =
     do { s \<leftarrow> choice R seeds; m \<leftarrow> choice R MUTATORS; r \<leftarrow> mutate L R m (sd_bytes s);
          case r of
            None \<Rightarrow> State_Monad.return None
          | Some data \<Rightarrow> map_state (map_option (Cons (s, m, data))) (mutants L R seeds n) }"

fun record_all :: "runtime \<Rightarrow> nat \<Rightarrow> (seed \<times> mutator \<times> bytes) list \<Rightarrow> findings \<Rightarrow> findings" where
  "record_all T i [] found = found"
| "record_all T i ((s, m, data) # ms) found = record_all T (i + 1) ms (record_finding T i s m data found)"

lemma run_map_state [simp]: "run_state (map_state f m) s = (f (fst (run_state m s)), snd (run_state m s))"
  by (cases m) (simp add: map_prod_def case_prod_beta)

lemma fuzz_mutants:
  "fst (run_state (fuzz L R T seeds i n found) s) =
     map_option (\<lambda>ms. record_all T i ms found) (fst (run_state (mutants L R seeds n) s))"
proof (induction n arbitrary: i found s)
  case (Suc n)
  show ?case by (simp add: Suc split: prod.splits option.splits) (auto simp: option.map_comp comp_def)
qed simp

definition mutant_signature :: "runtime \<Rightarrow> seed \<times> mutator \<times> bytes \<Rightarrow> signature option" where
  "mutant_signature T x = (case x of (s, m, data) \<Rightarrow> signature_of (is_receipt s) (py_verdict T s data) (go_verdict T s data))"

lemma signature_of_None: "signature_of k p g = None \<longleftrightarrow> p = g \<and> p \<in> {VALID, INVALID}"
  by (auto simp: signature_of_def)

lemma record_finding_keys:
  "set (map fst (record_finding T i s m data found)) = set (map fst found) \<union> set_option (mutant_signature T (s, m, data))"
  by (auto simp: record_finding_def mutant_signature_def Let_def split: option.splits)

lemma record_all_keys:
  "set (map fst (record_all T i ms found)) = set (map fst found) \<union> {sig. \<exists>x \<in> set ms. mutant_signature T x = Some sig}"
proof (induction T i ms found rule: record_all.induct)
  case (2 T i s m data ms found)
  show ?case unfolding record_all.simps 2 record_finding_keys by (auto simp: eq_commute)
qed simp

text \<open>What is found is the first mutant with its signature.\<close>

definition first_findings :: "runtime \<Rightarrow> (seed \<times> mutator \<times> bytes) list \<Rightarrow> findings \<Rightarrow> bool" where
  "first_findings T ms found \<longleftrightarrow>
     (\<forall>(sig, f) \<in> set found. fd_iteration f < length ms \<and>
        fst (snd (ms ! fd_iteration f)) = fd_mutator f \<and> sd_id (fst (ms ! fd_iteration f)) = fd_seed_id f \<and>
        mutant_signature T (ms ! fd_iteration f) = Some sig \<and>
        (\<forall>j < fd_iteration f. mutant_signature T (ms ! j) \<noteq> Some sig))"

lemma record_all_first:
  assumes "first_findings T pre found" "set (map fst found) = {sig. \<exists>x \<in> set pre. mutant_signature T x = Some sig}"
  shows "first_findings T (pre @ ms) (record_all T (length pre) ms found)"
  using assms
proof (induction ms arbitrary: pre found)
  case (Cons x ms)
  obtain s m data where x: "x = (s, m, data)" by (metis prod_cases3)
  let ?found = "record_finding T (length pre) s m data found"
  have "first_findings T (pre @ [x]) ?found"
  proof -
    have old: "first_findings T (pre @ [x]) found"
      using Cons.prems(1) by (fastforce simp: first_findings_def nth_append)
    show ?thesis
    proof (cases "mutant_signature T x")
      case None
      then show ?thesis using old by (simp add: record_finding_def Let_def x mutant_signature_def)
    next
      case (Some sig)
      show ?thesis
      proof (cases "sig \<in> set (map fst found)")
        case True
        then show ?thesis using old Some by (simp add: record_finding_def Let_def x mutant_signature_def)
      next
        case False
        then have "\<forall>j < length pre. mutant_signature T (pre ! j) \<noteq> Some sig" using Cons.prems(2) by auto
        then show ?thesis using old Some False
          by (auto simp: first_findings_def record_finding_def Let_def x mutant_signature_def nth_append)
      qed
    qed
  qed
  moreover have "set (map fst ?found) = {sig. \<exists>y \<in> set (pre @ [x]). mutant_signature T y = Some sig}"
    unfolding record_finding_keys Cons.prems(2) x by (auto simp: eq_commute)
  ultimately show ?case using Cons.IH [of "pre @ [x]" ?found] by (simp add: x)
qed simp

lemma fuzz_run:
  assumes "fuzz_main L R T vectors baseline False n rng = Some (c, b, found)" "vectors \<noteq> []"
  shows "\<exists>ms. fst (run_state (mutants L R (load_seeds vectors) n) rng) = Some ms \<and> b = baseline \<and>
    (c = 0 \<longleftrightarrow> (\<forall>(s, m, data) \<in> set ms.
       py_verdict T s data = go_verdict T s data \<and> py_verdict T s data \<in> {VALID, INVALID} \<or>
       (\<exists>sig \<in> set baseline. signature_of (is_receipt s) (py_verdict T s data) (go_verdict T s data) = Some sig))) \<and>
    (c \<noteq> 0 \<longrightarrow> c = 1) \<and> first_findings T ms found"
proof -
  have "load_seeds vectors \<noteq> []" using assms(2) by (cases vectors) (simp_all add: load_seeds_def seeds_of_def)
  then obtain ms where ms: "fst (run_state (mutants L R (load_seeds vectors) n) rng) = Some ms"
    "found = record_all T 0 ms []" "b = baseline" "c = (if \<exists>sig \<in> set (map fst found). sig \<notin> set baseline then 1 else 0)"
    using assms(1) by (auto simp: fuzz_main_def Let_def fuzz_mutants split: option.splits)
  have "set (map fst found) = {sig. \<exists>x \<in> set ms. mutant_signature T x = Some sig}"
    unfolding ms(2) record_all_keys by simp
  then have "c = 0 \<longleftrightarrow> (\<forall>x \<in> set ms. mutant_signature T x = None \<or> (\<exists>sig \<in> set baseline. mutant_signature T x = Some sig))"
    unfolding ms(4) by (auto split: if_splits) (metis not_Some_eq)
  moreover have "first_findings T ms found"
    using record_all_first [of T "[]" "[]" ms] by (simp add: ms(2) first_findings_def)
  ultimately show ?thesis
    using ms by (auto simp: mutant_signature_def signature_of_None case_prod_beta)
qed

section \<open>The duplicated key\<close>

lemma list_of_message:
  assumes "cbor2_plain L" "admits 0 True (message_item pb u slot sig)"
  obtains x sl where "Option.bind (returned (cbor_loads L (enc (message_item pb u slot sig)))) as_tag_list =
      Some (18, [CBytes pb, x, sl, CBytes sig])" "item_of x = Some u" "item_of sl = Some (slot_item slot)"
proof -
  obtain x sl where l: "load_sign1 L (enc (message_item pb u slot sig)) = Some (18, CBytes pb, x, sl, CBytes sig)"
    "item_of x = Some u" "item_of sl = Some (slot_item slot)"
    by (rule load_sign1_message [OF assms])
  then obtain v where v: "cbor_loads L (enc (message_item pb u slot sig)) = Inr (CTag 18 v)"
    "four_of v = Some (CBytes pb, x, sl, CBytes sig)"
    by (auto simp: load_sign1_def split: sum.splits pyval.splits)
  have "py_list v = Some [CBytes pb, x, sl, CBytes sig]"
    using v(2) by (cases v) (auto simp: four_of_Some)
  then show thesis using that [OF _ l(2,3)] v(1) by (simp add: as_tag_list_def)
qed

text \<open>The octets that replace a header of \<open>n\<close> entries whose algorithm is \<open>a\<close>.\<close>

definition dup_octets :: "nat \<Rightarrow> item \<Rightarrow> bytes" where
  "dup_octets n a = enc_head 5 (n + 1) @ pair_enc (I_Uint 1, I_Nint 6) @ pair_enc (I_Uint 1, a)"

lemma or_A0: "n < 23 \<Longrightarrow> (0xA0 :: nat) OR (n + 1) = 161 + n"
proof -
  have "list_all (\<lambda>n. (0xA0 :: nat) OR (n + 1) = 161 + n) [0..<23]" by code_simp
  then show "n < 23 \<Longrightarrow> (0xA0 :: nat) OR (n + 1) = 161 + n" by (simp add: list_all_iff)
qed

lemma map_entries:
  assumes "item_of (CDict d) = Some (I_Map kvs)"
  shows "length d = length kvs" and "(k, v) \<in> set d \<Longrightarrow> \<exists>a b. item_of k = Some a \<and> item_of v = Some b \<and> (a, b) \<in> set kvs"
proof -
  have e: "map (\<lambda>(k, v). pair_opt (item_of k) (item_of v)) d = map Some kvs" using assms by (auto simp: those_Some)
  then show "length d = length kvs" by (metis length_map)
  assume "(k, v) \<in> set d"
  then have "pair_opt (item_of k) (item_of v) \<in> set (map Some kvs)" unfolding e [symmetric] by force
  then show "\<exists>a b. item_of k = Some a \<and> item_of v = Some b \<and> (a, b) \<in> set kvs" by auto
qed

lemma length_entry_value: "a \<in> snd ` set kvs \<Longrightarrow> length (enc a) \<le> length (enc (I_Map kvs))"
proof -
  assume "a \<in> snd ` set kvs"
  then obtain k where "(k, a) \<in> set kvs" by auto
  then obtain xs ys where "kvs = xs @ (k, a) # ys" by (meson split_list)
  then show ?thesis by (simp add: enc_Map del: enc.simps(6))
qed

lemma dup_header_octets:
  assumes L: "cbor2_plain L" and h: "admits 0 False (I_Map kvs)" "length kvs < 23"
    and d: "dup_header L (CBytes (enc (I_Map kvs))) = Some dup"
  shows "\<exists>a. fits a \<and> dup = dup_octets (length kvs) a \<and> a \<in> snd ` set kvs"
proof -
  obtain v where v: "cbor_loads L (enc (I_Map kvs)) = Inr v" "item_of v = Some (I_Map kvs)"
    using cbor2_plain_decode [OF L admits_outer [OF h(1)]] by blast
  obtain d alg body where alg: "v = CDict d" "dict_get d (CInt 1) = Some alg"
    "cbor_dumps L (CDict [(CInt 1, alg)]) = Inr body"
    "\<exists>one es256. cbor_dumps L (CInt 1) = Inr one \<and> cbor_dumps L (CInt (- 7)) = Inr es256 \<and>
       dup = of_nat (0xA0 OR (length d + 1)) # one @ es256 @ tl body"
    using d v(1) by (auto simp: dup_header_def Let_def returned_Some bind_eq_Some_conv split: option.splits if_splits)
  obtain k where "(k, alg) \<in> set d" using dict_get_in [OF alg(2)] by blast
  then obtain a b where ab: "item_of alg = Some a" "(b, a) \<in> set kvs" "length d = length kvs"
    using map_entries [of d kvs] v(2) alg(1) by blast
  then have a: "fits a" "a \<in> snd ` set kvs" using admits_fits [OF h(1)] by force+
  have "item_of (CDict [(CInt 1, alg)]) = Some (I_Map [(I_Uint 1, a)])"
    using ab(1) by (simp add: pair_opt_def)
  then have "cbor_dumps L (CDict [(CInt 1, alg)]) = Inr (enc (I_Map [(I_Uint 1, a)]))"
    using cbor2_plain_dumps [OF L] a(1) by simp
  then have "body = 161 # enc (I_Uint 1) @ enc a" using alg(3) by (simp add: enc_head_def)
  moreover have "cbor_dumps L (CInt 1) = Inr (enc (I_Uint 1))" "cbor_dumps L (CInt (- 7)) = Inr (enc (I_Nint 6))"
    using cbor2_plain_dumps [OF L, of "CInt 1" "I_Uint 1"] cbor2_plain_dumps [OF L, of "CInt (- 7)" "I_Nint 6"] by simp_all
  moreover have "enc_head 5 (length kvs + 1) = [of_nat (0xA0 OR (length d + 1))]"
    using h(2) or_A0 [OF h(2)] by (simp add: enc_head_def ab(3))
  ultimately have "dup = dup_octets (length kvs) a" using alg(4) by (auto simp: dup_octets_def)
  then show ?thesis using a by blast
qed

lemma dup_octets_rule:
  assumes "0 < n" "n < 23"
  shows "rule_check (dup_octets n a) what False = Inl (what, Repeated_Map_Key)"
proof -
  let ?d = "dup_octets n a"
  obtain m where n: "n = Suc m" using assms(1) by (cases n) auto
  have d: "?d = enc_head 5 (n + 1) @ [1, 38, 1] @ enc a" by (simp add: dup_octets_def enc_head_def)
  have l: "length (enc_head 5 (n + 1)) = 1" using assms(2) by (simp add: enc_head_def)
  have head: "rule_head ?d 0 = Inr (5, Suc (Suc m), 1)"
    unfolding d using rule_head_enc0 [of 5 "n + 1" "[1, 38, 1] @ enc a"] assms(2) l n by (simp add: head_ok_def)
  have at: "?d ! 1 = 1" "?d ! 2 = 38" "?d ! 3 = 1" "3 < length ?d"
    using l by (auto simp: d nth_append enc_head_def)
  have s: "slice ?d 1 2 = [1]" "slice ?d 3 4 = [1]"
    using l by (auto simp: d slice_def enc_head_def)
  have step: "rule_item ?d 1 1 False = Inr 2" "rule_item ?d 2 1 False = Inr 3" "rule_item ?d 3 1 False = Inr 4"
    using at by (simp_all add: rule_item.simps rule_head_def MAX_DEPTH_def Let_def)
  have "walk_map ?d (\<lambda>p. rule_item ?d p 1 False) (Suc (Suc m)) [] 1 = Inl Repeated_Map_Key"
    using at s step by (simp add: Let_def)
  then have "rule_item ?d 0 0 False = Inl Repeated_Map_Key"
    using head by (simp add: rule_item.simps [of ?d 0] MAX_DEPTH_def)
  then show ?thesis by (simp add: rule_check_def)
qed

lemma pair_enc_prefix_free:
  assumes "pair_enc x @ r = pair_enc y @ s" "fits (fst x)" "fits (snd x)" "fits (fst y)" "fits (snd y)"
  shows "x = y \<and> r = s"
proof -
  have "enc (fst x) @ (enc (snd x) @ r) = enc (fst y) @ (enc (snd y) @ s)" using assms(1) by (simp add: pair_enc_def)
  then have "fst x = fst y \<and> enc (snd x) @ r = enc (snd y) @ s" by (rule enc_prefix_free [OF _ assms(2,4)])
  then show ?thesis using enc_prefix_free [OF _ assms(3,5), of r s] by (simp add: prod_eq_iff)
qed

text \<open>They are an encoded item only if the header had one entry: the head announces one entry more
  than it had, and two follow.\<close>

lemma dup_octets_well_formed:
  assumes "0 < n" "n < 23" "fits a"
  shows "(\<exists>it r. fits it \<and> dup_octets n a = enc it @ r) \<longleftrightarrow> n = 1"
proof
  let ?p = "(I_Uint 1, I_Nint 6)" and ?q = "(I_Uint 1, a)"
  assume "\<exists>it r. fits it \<and> dup_octets n a = enc it @ r"
  then obtain it r where it: "fits it" "dup_octets n a = enc it @ r" by blast
  have "enc_head 5 (n + 1) @ (pair_enc ?p @ pair_enc ?q) = enc_head (major_of it) (arg_of it) @ (body_of it @ r)"
    using it(2) enc_split [of it] by (simp add: dup_octets_def)
  moreover have "head_ok 5 (n + 1)" using assms(2) by (simp add: head_ok_def)
  ultimately have h: "5 = major_of it" "n + 1 = arg_of it" "pair_enc ?p @ pair_enc ?q = body_of it @ r"
    using enc_head_prefix [OF _ _ fits_head_ok [OF it(1)]] by blast+
  then obtain kvs where kvs: "it = I_Map kvs" "length kvs = n + 1" by (cases it) auto
  then obtain x y zs where k: "kvs = x # y # zs" "length zs + 1 = n" using assms(1) by (cases kvs; cases "tl kvs") auto
  have f: "fits (fst x) \<and> fits (snd x)" "fits (fst y) \<and> fits (snd y)" using it(1) kvs(1) k(1) by (auto simp: case_prod_beta')
  have e: "pair_enc x @ (pair_enc y @ (concat (map pair_enc zs) @ r)) = pair_enc ?p @ pair_enc ?q"
    using h(3) kvs(1) k(1) by simp
  have "pair_enc y @ (concat (map pair_enc zs) @ r) = pair_enc ?q @ []"
    using pair_enc_prefix_free [OF e] f assms(3) by simp
  from pair_enc_prefix_free [OF this] have "concat (map pair_enc zs) @ r = []" using f assms(3) by simp
  then have "zs = []" by (cases zs) (auto simp: pair_enc_def)
  then show "n = 1" using k(2) by simp
next
  assume "n = 1"
  then have "dup_octets n a = enc (I_Map [(I_Uint 1, I_Nint 6), (I_Uint 1, a)])"
    by (simp add: dup_octets_def enc_Map del: enc.simps(6))
  then show "\<exists>it r. fits it \<and> dup_octets n a = enc it @ r"
    using assms(3) by (intro exI [of _ "I_Map [(I_Uint 1, I_Nint 6), (I_Uint 1, a)]"] exI [of _ "[]"]) simp
qed

lemma dup_key_octets:
  assumes L: "cbor2_plain L" and m: "admits 0 True (message_item (enc (I_Map kvs)) u slot sig)"
    and h: "admits 0 False (I_Map kvs)" "length kvs < 23"
    and len: "length (enc (message_item (enc (I_Map kvs)) u slot sig)) \<le> MAX_MESSAGE_BYTES"
    and b: "dup_key_message L (enc (message_item (enc (I_Map kvs)) u slot sig)) = Some b"
  shows "\<exists>dup. b = enc (message_item dup u slot sig) \<and>
    rule_check dup what False = Inl (what, Repeated_Map_Key) \<and>
    ((\<exists>it r. fits it \<and> dup = enc it @ r) \<longleftrightarrow> length kvs = 1)"
proof -
  obtain x sl where l: "Option.bind (returned (cbor_loads L (enc (message_item (enc (I_Map kvs)) u slot sig)))) as_tag_list =
      Some (18, [CBytes (enc (I_Map kvs)), x, sl, CBytes sig])" "item_of x = Some u" "item_of sl = Some (slot_item slot)"
    by (rule list_of_message [OF L m])
  obtain dup where dup: "dup_header L (CBytes (enc (I_Map kvs))) = Some dup"
    "cbor_dumps L (CTag 18 (CList [CBytes dup, x, sl, CBytes sig])) = Inr b"
    using b by (auto simp: dup_key_message_def l(1) nth_opt_def bind_eq_Some_conv returned_Some simp del: enc.simps)
  obtain a where a: "fits a" "dup = dup_octets (length kvs) a" "a \<in> snd ` set kvs" using dup_header_octets [OF L h dup(1)] by blast
  have i: "item_of (CTag 18 (CList [CBytes dup, x, sl, CBytes sig])) = Some (message_item dup u slot sig)"
    using l(2,3) by (simp add: message_item_def)
  have "length (enc a) \<le> length (enc (I_Map kvs))" using length_entry_value [OF a(3)] .
  also have "\<dots> \<le> length (enc (message_item (enc (I_Map kvs)) u slot sig))" by (simp add: message_item_def)
  also note len
  finally have "length dup < 2 ^ 64"
    using length_enc_head [of 5 "length kvs + 1"]
    by (simp add: a(2) dup_octets_def MAX_MESSAGE_BYTES_def enc_head_def)
  then have "fits (message_item dup u slot sig)" using admits_fits [OF m] by (simp add: message_item_def)
  then have "b = enc (message_item dup u slot sig)" using cbor2_plain_dumps [OF L i] dup(2) by simp
  moreover have "0 < length kvs" using a(3) by auto
  ultimately show ?thesis
    using dup_octets_rule [of "length kvs" a what] dup_octets_well_formed [of "length kvs" a] a(1,2) h(2) by auto
qed

section \<open>The oversize tree\<close>

lemma length_draw_octets: "length (fst (run_state (draw_octets R n) s)) = n"
  by (induction n arbitrary: s) (simp_all add: case_prod_beta)

lemma draw_nodes_shape:
  "length (fst (run_state (draw_nodes R n) s)) = n \<and> (\<forall>x \<in> set (fst (run_state (draw_nodes R n) s)). length x = 32)"
  by (induction n arbitrary: s) (simp_all add: case_prod_beta length_draw_octets)

lemma randint_range: "draws_below R \<Longrightarrow> a \<le> b \<Longrightarrow> fst (run_state (randint R a b) s) \<in> {a..b}"
  unfolding draws_below_def randint_def randrange_def
  by (auto simp: case_prod_beta) (metis Suc_diff_le less_Suc_eq_le zero_less_Suc le_diff_conv2 add.commute)

text \<open>The audit path of the first leaf of a tree just above the ceiling has 63 nodes, not 62.\<close>

lemma largest_pow2_below_eq: "2 ^ i < n \<Longrightarrow> n \<le> 2 * 2 ^ i \<Longrightarrow> largest_pow2_below n = 2 ^ i"
proof -
  assume n: "2 ^ i < n" "n \<le> 2 * 2 ^ i"
  then have "1 < n" by (meson le_less_trans one_le_numeral one_le_power)
  then obtain j where j: "largest_pow2_below n = 2 ^ j" "2 ^ j < n" "n \<le> 2 * 2 ^ j" by (rule largest_pow2_below_spec)
  then have "(2 :: nat) ^ i < 2 ^ Suc j" "(2 :: nat) ^ j < 2 ^ Suc i" using n by simp_all
  then have "i < Suc j" "j < Suc i" by (simp_all only: power_strict_increasing_iff)
  then show ?thesis using j(1) by simp
qed

lemma path_len_pow2: "expected_inclusion_path_len (2 ^ j) 0 = j"
proof (induction j)
  case (Suc j)
  have "largest_pow2_below (2 ^ Suc j) = 2 ^ j" by (rule largest_pow2_below_eq) simp_all
  moreover have "(1 :: nat) < 2 ^ Suc j" by (rule one_less_power) simp_all
  ultimately show ?case using Suc by (subst expected_inclusion_path_len.simps) (simp add: Let_def)
qed (simp add: expected_inclusion_path_len.simps)

lemma oversize_path_len:
  assumes "1 \<le> k" "k \<le> 2 ^ 62"
  shows "expected_inclusion_path_len (2 ^ 62 + k) 0 = 63"
proof -
  have "largest_pow2_below (2 ^ 62 + k) = 2 ^ 62" by (rule largest_pow2_below_eq) (use assms in simp_all)
  then show ?thesis using assms path_len_pow2 [of 62]
    by (subst expected_inclusion_path_len.simps) (simp add: Let_def)
qed

definition big_blob :: "nat \<Rightarrow> bytes list \<Rightarrow> item" where
  "big_blob n path = blob_item (int n) 0 path"

lemma big_blob_ok:
  assumes "n < 2 ^ 63" "length path = 62" "\<forall>x \<in> set path. length x = 32"
  shows "item_of (CList [CInt (int n), CInt 0, CList (map CBytes path)]) = Some (big_blob n path)"
    and "admits 0 False (big_blob n path)"
  using assms by (simp_all add: big_blob_def blob_item_def those_Some comp_def)

lemma big_blob_rejected:
  assumes L: "cbor2_plain L" and n: "2 ^ 62 < n" "n < 2 ^ 63" and p: "length path = 62" "\<forall>x \<in> set path. length x = 32"
  shows "decode_inclusion_proof L (enc (big_blob n path)) = Inl Bad_Size_Or_Index"
    and "verify_ccf_v1_proof L (enc (big_blob n path)) claim = Inl Ccf_Not_Map"
proof -
  note b = big_blob_ok(2) [OF n(2) p]
  obtain v where v: "cbor_decode L (enc (big_blob n path)) = Inr (v, [])" "cbor_loads L (enc (big_blob n path)) = Inr v"
    "item_of v = Some (big_blob n path)"
    using cbor2_plain_decode [OF L admits_outer [OF b]] by blast
  have pv: "plain v = CList [CInt (int n), CInt 0, CList (map CBytes path)]"
    using plain_val_of [OF v(3) b] by (simp add: big_blob_def blob_item_def comp_def)
  moreover have "path_nodes (map CBytes path) = Inr path" unfolding path_nodes_def by (simp add: rmapM_map)
  ultimately show "decode_inclusion_proof L (enc (big_blob n path)) = Inl Bad_Size_Or_Index"
    using v(1) n p by (simp add: decode_inclusion_proof_def three_of_def MAX_AUDIT_PATH_def MAX_TREE_SIZE_def)
  show "verify_ccf_v1_proof L (enc (big_blob n path)) claim = Inl Ccf_Not_Map"
    using v(2) pv by (simp add: verify_ccf_v1_proof_def)
qed

lemma map_item_Cons:
  "item_of (CDict ((k, v) # d)) = Some it \<longleftrightarrow>
     (\<exists>a b kvs. it = I_Map ((a, b) # kvs) \<and> item_of k = Some a \<and> item_of v = Some b \<and> item_of (CDict d) = Some (I_Map kvs))"
  by (auto simp: those_Some Cons_eq_map_conv pair_opt_def split: option.splits)

lemma dict_set_item:
  assumes "item_of (CDict d) = Some (I_Map kvs)" "dict_has d k" "item_of v = Some b"
  shows "\<exists>kvs'. item_of (CDict (dict_set d k v)) = Some (I_Map kvs') \<and> length kvs' = length kvs \<and>
     set kvs' \<subseteq> set kvs \<union> fst ` set kvs \<times> {b}"
  using assms(1,2)
proof (induction d arbitrary: kvs)
  case Nil
  then show ?case by (simp add: dict_has_def)
next
  case (Cons kv d)
  obtain k' v' where kv: "kv = (k', v')" by (cases kv)
  obtain a' b' kvs0 where e: "kvs = (a', b') # kvs0" "item_of k' = Some a'" "item_of v' = Some b'"
    "item_of (CDict d) = Some (I_Map kvs0)"
    using Cons.prems(1) unfolding kv map_item_Cons by auto
  show ?case
  proof (cases "py_eq k k'")
    case True
    have "item_of (CDict ((k', v) # d)) = Some (I_Map ((a', b) # kvs0))"
      unfolding map_item_Cons using e assms(3) by blast
    then show ?thesis using True e(1) by (intro exI [of _ "(a', b) # kvs0"]) (auto simp: kv simp del: item_of.simps)
  next
    case False
    then have "dict_has d k" using Cons.prems(2) by (simp add: kv dict_has_def)
    from Cons.IH [OF e(4) this] obtain kvs' where i: "item_of (CDict (dict_set d k v)) = Some (I_Map kvs')"
      "length kvs' = length kvs0" "set kvs' \<subseteq> set kvs0 \<union> fst ` set kvs0 \<times> {b}" by blast
    have "item_of (CDict ((k', v') # dict_set d k v)) = Some (I_Map ((a', b') # kvs'))"
      unfolding map_item_Cons using e i(1) by blast
    then show ?thesis using False e(1) i(2,3) by (intro exI [of _ "(a', b') # kvs'"]) (auto simp: kv simp del: item_of.simps)
  qed
qed

definition oversize_header :: "pydict \<Rightarrow> nat \<Rightarrow> bytes list \<Rightarrow> pydict" where
  "oversize_header d n path =
     dict_set d (CInt 396) (CDict [(CInt (- 1), CList [CBytes (enc (big_blob n path))])])"

lemma length_big_blob:
  assumes "n < 2 ^ 63" "length path = 62" "\<forall>x \<in> set path. length x = 32"
  shows "length (enc (big_blob n path)) < 2 ^ 64"
proof -
  have "length (concat (map enc (map I_Bytes path))) \<le> 41 * length path"
    using assms(3) by (induction path) (use length_enc_head [of 2 32] in auto)
  then show ?thesis
    using assms(2) length_enc_head [of 0 n] length_enc_head [of 0 0] length_enc_head [of 4 3] length_enc_head [of 4 62]
    by (simp add: big_blob_def blob_item_def numeral_3_eq_3)
qed

lemma oversize_octets:
  assumes L: "cbor2_plain L" and m: "admits 0 True (message_item pb u None sig)"
    and x: "item_of (CDict d) = Some u" "item_of sl = Some (slot_item None)" "dict_has d (CInt 396)"
    and n: "n < 2 ^ 63" and p: "length path = 62" "\<forall>y \<in> set path. length y = 32"
  obtains u' where "oversize_message L [CBytes pb, CDict d, sl, CBytes sig] d n path = Some (enc (message_item pb u' None sig))"
    "item_of (CDict (oversize_header d n path)) = Some u'" "fits (message_item pb u' None sig)"
proof -
  let ?v = "CDict [(CInt (- 1), CList [CBytes (enc (big_blob n path))])]"
  obtain kvs where kvs: "u = I_Map kvs" using x(1) by auto
  have fu: "fits u" using admits_fits [OF m] by (simp add: message_item_def)
  have "item_of ?v = Some (I_Map [(I_Nint 0, I_Array [I_Bytes (enc (big_blob n path))])])"
    by (simp add: pair_opt_def)
  from dict_set_item [OF x(1) [unfolded kvs] x(3) this] obtain kvs' where
    i: "item_of (CDict (oversize_header d n path)) = Some (I_Map kvs')" "length kvs' = length kvs"
    "set kvs' \<subseteq> set kvs \<union> fst ` set kvs \<times> {I_Map [(I_Nint 0, I_Array [I_Bytes (enc (big_blob n path))])]}"
    unfolding oversize_header_def by blast
  have "fits (I_Map kvs')" using fu i(2,3) length_big_blob [OF n p] unfolding kvs by fastforce
  then have f: "fits (message_item pb (I_Map kvs') None sig)" using admits_fits [OF m] by (simp add: message_item_def)
  have "item_of (CTag 18 (CList [CBytes pb, CDict (oversize_header d n path), sl, CBytes sig]))
      = Some (message_item pb (I_Map kvs') None sig)"
    using i(1) x(2) by (simp add: message_item_def del: item_of.simps(8))
  from cbor2_plain_dumps [OF L this f] cbor2_plain_dumps [OF L big_blob_ok(1) [OF n p] admits_fits [OF big_blob_ok(2) [OF n p]]]
  have "oversize_message L [CBytes pb, CDict d, sl, CBytes sig] d n path = Some (enc (message_item pb (I_Map kvs') None sig))"
    by (simp add: oversize_message_def oversize_header_def)
  then show thesis using that i(1) f by blast
qed

lemma oversize_rejected:
  assumes L: "cbor2_plain L" and K: "libs_total L K" and f: "fits (message_item (enc pit) u' None sig)"
    and pit: "admits 0 False pit" and u: "item_of (CDict (oversize_header d n path)) = Some u'"
    and n: "2 ^ 62 < n" "n < 2 ^ 63" and p: "length path = 62" "\<forall>y \<in> set path. length y = 32"
  shows "\<exists>r. verify_receipt L K (CBytes (enc (message_item (enc pit) u' None sig))) leaf pem = Inr r \<and> \<not> r_ok r"
proof -
  let ?m = "message_item (enc pit) u' None sig" and ?b = "enc (big_blob n path)"
  obtain r where r: "verify_receipt L K (CBytes (enc ?m)) leaf pem = Inr r" using verify_receipt_total [OF K] by blast
  have False if ok: "r_ok r"
  proof -
    obtain blobs payload s vds where s: "accepted L K (CBytes (enc ?m)) pem blobs payload s vds"
      "vds = 1 \<and> (\<exists>n i path blob. blob \<in> set blobs \<and> decode_inclusion_proof L blob = Inr (n, i, path))
       \<or> (\<exists>claim. verify_ccf_v1_proof L (hd blobs) claim = Inr payload)"
      using receipt_sound [OF r ok] by blast
    obtain prot w sg where a: "rule_check (enc ?m) ''the receipt'' True = Inr ()"
      "decode_envelope L (CBytes (enc ?m)) = Inr (prot, w, CNull, sg)" "header_blobs w blobs"
      using s(1) by (auto simp: accepted_def)
    obtain it where "admits 0 True it" "enc ?m = enc it" using a(1) by (auto simp: rule_check_iff)
    then have m: "admits 0 True ?m" using enc_inject [OF f admits_fits] by metis
    have len: "length (enc ?m) \<le> MAX_MESSAGE_BYTES"
      using a(2) by (auto simp: decode_envelope_def raise_simps strict_decode_iff)
    have "w = val_of u'" using message_envelope [OF L m pit len] a(2) by simp
    moreover have "admits 2 False u'" using m by (simp add: message_item_def numeral_2_eq_2)
    ultimately have w: "w = CDict (plain_dict (oversize_header d n path))"
      using header_item_val [of 2 "oversize_header d n path" u'] u by (simp add: header_item_def)
    have "blobs = [?b]"
      using a(3) by (auto simp: w header_blobs_def get_or_none_def dict_get_plain_dict oversize_header_def map_eq_Cons_conv)
    then show False using s(2) big_blob_rejected [OF L n p] by auto
  qed
  then show ?thesis using r by blast
qed

text \<open>What the mutator draws, and what it makes of a receipt.\<close>

lemma oversize_mutant:
  assumes L: "cbor2_plain L" and K: "libs_total L K" and R: "draws_below R"
    and m: "admits 0 True (message_item (enc pit) u None sig)" "admits 0 False pit"
    and u: "item_of (CDict d) = Some u" "dict_has d (CInt 396)"
    and c: "Option.bind (returned (cbor_loads L (enc (message_item (enc pit) u None sig)))) as_tag_list =
      Some (18, [CBytes (enc pit), CDict d, CNull, CBytes sig])"
    and b: "b = fst (run_state (oversize_tree L R (enc (message_item (enc pit) u None sig))) s)"
  shows "(\<exists>r. verify_receipt L K (CBytes b) leaf pem = Inr r \<and> \<not> r_ok r) \<and>
    (\<exists>n path u'. b = enc (message_item (enc pit) u' None sig) \<and> item_of (CDict (oversize_header d n path)) = Some u' \<and>
       MAX_TREE_SIZE < int n \<and> length path \<noteq> expected_inclusion_path_len n 0)"
proof -
  let ?k = "run_state (randint R 1 (push_bit 20 1)) s"
  let ?n = "2 ^ 62 + fst ?k" and ?path = "fst (run_state (draw_nodes R 62) (snd ?k))"
  have "fst ?k \<in> {1..push_bit 20 1}" by (rule randint_range [OF R]) simp
  then have k: "1 \<le> fst ?k" "fst ?k \<le> 2 ^ 20" by simp_all
  then have n: "2 ^ 62 < ?n" "?n < 2 ^ 63" by simp_all
  note p = draw_nodes_shape [of R 62 "snd ?k", THEN conjunct1] draw_nodes_shape [of R 62 "snd ?k", THEN conjunct2]
  have null: "item_of CNull = Some (slot_item None)" by simp
  obtain u' where u': "oversize_message L [CBytes (enc pit), CDict d, CNull, CBytes sig] d ?n ?path =
      Some (enc (message_item (enc pit) u' None sig))"
    "item_of (CDict (oversize_header d ?n ?path)) = Some u'" "fits (message_item (enc pit) u' None sig)"
    by (rule oversize_octets [OF L m(1) u(1) null u(2) n(2) p])
  have "b = enc (message_item (enc pit) u' None sig)"
    using u' u(2) c
    by (simp add: b oversize_tree_def unprotected_copy_def nth_opt_def or_bitflip_def case_prod_beta
        del: enc.simps push_bit_of_1)
  moreover have "expected_inclusion_path_len ?n 0 = 63" by (rule oversize_path_len) (use k in simp_all)
  moreover have "MAX_TREE_SIZE < int ?n" using n by (simp add: MAX_TREE_SIZE_def)
  ultimately show ?thesis
    using oversize_rejected [OF L K u'(3) m(2) u'(2) n p] u'(2) p(1) by fastforce
qed

section \<open>Properties\<close>

text \<open>
  C36. A run is determined by its seed, and its verdict by what the verifiers did. The mutants are a
  function of the seeds and of the generator's state alone. The run exits with 0 exactly when, on every
  one of them, the two verifiers gave the same clean verdict or differ in a way the baseline lists;
  otherwise with 1. Each finding names the first mutant of its signature, with the mutator that made it.
\<close>

theorem fuzz_verdict:
  assumes "fuzz_main L R T vectors baseline False n rng = Some (c, b, found)" "vectors \<noteq> []"
  shows "\<exists>ms. fst (run_state (mutants L R (load_seeds vectors) n) rng) = Some ms \<and> b = baseline \<and>
    (c = 0 \<longleftrightarrow> (\<forall>(s, m, data) \<in> set ms.
       py_verdict T s data = go_verdict T s data \<and> py_verdict T s data \<in> {VALID, INVALID} \<or>
       (\<exists>sig \<in> set baseline. signature_of (is_receipt s) (py_verdict T s data) (go_verdict T s data) = Some sig))) \<and>
    (c \<noteq> 0 \<longrightarrow> c = 1) \<and> first_findings T ms found"
  using assms by (rule fuzz_run)

text \<open>Draws that are always 0, verifiers that always reject, and one vector, for the witnesses.\<close>

definition zero_draws :: "unit below" where
  "zero_draws n = State (\<lambda>s. (0, s))"

definition rejecting :: runtime where
  "rejecting = \<lparr>rt_python = ''python'', rt_go = ''gv'', rt_mutant = ''mutant.bin'', rt_run = (\<lambda>_ _. Some \<lparr>returncode = 1, stderr = []\<rparr>)\<rparr>"

definition demo_vector :: seed_vector where
  "demo_vector = \<lparr>sv_id = ''valid-eddsa'', sv_statement = [1], sv_receipt = [2], sv_issuer_key = ''issuer-key.pub'',
     sv_log_key = ''log-key.pub'', sv_alg = ''EdDSA'', sv_leaf = ''00''\<rparr>"

lemma zero_draws_below: "draws_below zero_draws"
  by (simp add: draws_below_def zero_draws_def)

theorem fuzz_verdict_witness:
  "fuzz_main ref_cbor2 zero_draws rejecting [demo_vector] [] False 1 () = Some (0, [], []) \<and>
   (\<exists>ms. fst (run_state (mutants ref_cbor2 zero_draws (load_seeds [demo_vector]) 1) ()) = Some ms)"
proof -
  have "classify (Some \<lparr>returncode = 1, stderr = []\<rparr>) = INVALID" by code_simp
  then have r: "fuzz_main ref_cbor2 zero_draws rejecting [demo_vector] [] False 1 () = Some (0, [], [])"
    by (simp add: fuzz_main_def load_seeds_def seeds_of_def choice_def zero_draws_def MUTATORS_def bitflip_def randint_def
        randrange_def demo_vector_def record_finding_def py_verdict_def go_verdict_def rejecting_def signature_of_def)
  then show ?thesis using fuzz_verdict [OF r] by blast
qed

text \<open>
  What the mutation with the duplicated key really tests. Its protected header always breaks the
  encoding rule by the repeated key. It is well-formed CBOR, so that a lenient decoder could take
  the last of the two algorithms, only if the header had a single entry: the head announces one entry
  more than the header had, but only the two algorithms follow, and otherwise the item is truncated.
\<close>

theorem dup_key_mutants:
  assumes "cbor2_plain L" "admits 0 True (message_item (enc (I_Map kvs)) u slot sig)"
    and "admits 0 False (I_Map kvs)" "length kvs < 23"
    and "length (enc (message_item (enc (I_Map kvs)) u slot sig)) \<le> MAX_MESSAGE_BYTES"
    and "dup_key_message L (enc (message_item (enc (I_Map kvs)) u slot sig)) = Some b"
  shows "\<exists>dup. b = enc (message_item dup u slot sig) \<and>
    rule_check dup what False = Inl (what, Repeated_Map_Key) \<and>
    ((\<exists>it r. fits it \<and> dup = enc it @ r) \<longleftrightarrow> length kvs = 1)"
  using assms by (rule dup_key_octets)

lemma ref_loads: "admits 0 True it \<Longrightarrow> cbor_loads ref_cbor2 (enc it) = Inr (val_of it)"
  using dec_item_enc [of 0 True it "[]"] by (simp add: ref_cbor2_def ref_decode_def)

definition demo_header :: "(item \<times> item) list" where
  "demo_header = [(I_Uint 1, I_Nint 7), (I_Uint 395, I_Uint 1)]"

theorem dup_key_mutants_witness:
  "\<exists>b dup. dup_key_message ref_cbor2 (enc (message_item (enc (I_Map demo_header)) (I_Map []) None [])) = Some b \<and>
     b = enc (message_item dup (I_Map []) None []) \<and> (\<nexists>it r. fits it \<and> dup = enc it @ r)"
proof -
  have h: "admits 0 False (I_Map demo_header)" "length demo_header < 23" by (simp_all add: demo_header_def)
  have m: "admits 0 True (message_item (enc (I_Map demo_header)) (I_Map []) None [])"
    by (simp add: message_item_def demo_header_def enc_head_def)
  have len: "length (enc (message_item (enc (I_Map demo_header)) (I_Map []) None [])) \<le> MAX_MESSAGE_BYTES"
    by (simp add: message_item_def demo_header_def enc_head_def MAX_MESSAGE_BYTES_def)
  have d: "cbor_dumps ref_cbor2 = ref_encode" by (simp add: ref_cbor2_def)
  have o: "(160 :: nat) OR Suc (Suc (Suc 0)) = 163" by code_simp
  have "\<exists>b. dup_key_message ref_cbor2 (enc (message_item (enc (I_Map demo_header)) (I_Map []) None [])) = Some b"
    using ref_loads [OF m] ref_loads [OF admits_outer [OF h(1)]]
    by (simp add: dup_key_message_def as_tag_list_def message_item_def nth_opt_def dup_header_def demo_header_def d o
        Let_def ref_encode_def pair_opt_def py_eq_def del: enc.simps)
  then obtain b where b: "dup_key_message ref_cbor2 (enc (message_item (enc (I_Map demo_header)) (I_Map []) None [])) = Some b" ..
  have "length demo_header \<noteq> 1" by (simp add: demo_header_def)
  with dup_key_mutants [OF ref_cbor2_plain m h len b] b show ?thesis by (metis (no_types))
qed

text \<open>
  C46. What the mutation with the oversize tree really tests. Whatever is drawn, the mutant of a receipt
  is never accepted; but its audit path does not have the length of its tree, so it would be
  rejected without the ceiling on tree sizes too.
\<close>

theorem oversize_mutants:
  assumes "cbor2_plain L" "libs_total L K" "draws_below R"
    and "admits 0 True (message_item (enc pit) u None sig)" "admits 0 False pit"
    and "item_of (CDict d) = Some u" "dict_has d (CInt 396)"
    and "Option.bind (returned (cbor_loads L (enc (message_item (enc pit) u None sig)))) as_tag_list =
      Some (18, [CBytes (enc pit), CDict d, CNull, CBytes sig])"
    and "b = fst (run_state (oversize_tree L R (enc (message_item (enc pit) u None sig))) s)"
  shows "(\<exists>r. verify_receipt L K (CBytes b) leaf pem = Inr r \<and> \<not> r_ok r) \<and>
    (\<exists>n path u'. b = enc (message_item (enc pit) u' None sig) \<and> item_of (CDict (oversize_header d n path)) = Some u' \<and>
       MAX_TREE_SIZE < int n \<and> length path \<noteq> expected_inclusion_path_len n 0)"
  using assms by (rule oversize_mutant)

theorem oversize_mutants_witness:
  "\<exists>r. verify_receipt ref_cbor2 toy_crypto
     (CBytes (fst (run_state (oversize_tree ref_cbor2 zero_draws
        (enc (message_item (enc (I_Map [])) (I_Map [(I_Uint 396, I_Map [])]) None []))) ()))) ''00'' (Pem_Bytes [1]) = Inr r \<and> \<not> r_ok r"
proof -
  have t: "libs_total ref_cbor2 toy_crypto"
    by (simp add: libs_total_def ref_cbor2_def ref_encode_def toy_crypto_def sig_structure_def sig_structure_value_def)
  have m: "admits 0 True (message_item (enc (I_Map [])) (I_Map [(I_Uint 396, I_Map [])]) None [])"
    by (simp add: message_item_def enc_head_def)
  have p: "admits 0 False (I_Map [])" by simp
  have d: "item_of (CDict [(CInt 396, CDict [])]) = Some (I_Map [(I_Uint 396, I_Map [])])"
    "dict_has [(CInt 396, CDict [])] (CInt 396)" by (simp_all add: pair_opt_def dict_has_def)
  have "Option.bind (returned (cbor_loads ref_cbor2 (enc (message_item (enc (I_Map [])) (I_Map [(I_Uint 396, I_Map [])]) None []))))
      as_tag_list = Some (18, [CBytes (enc (I_Map [])), CDict [(CInt 396, CDict [])], CNull, CBytes []])"
    using ref_loads [OF m] by (simp add: as_tag_list_def message_item_def del: enc.simps)
  from oversize_mutants [OF ref_cbor2_plain t zero_draws_below m p d this refl] show ?thesis by blast
qed

end
