(* ===== verification/Neutrality.thy ===== *)
theory Neutrality
  imports Lint_Text
begin

text \<open>
  The neutrality gate, \<open>src/.github/neutrality_scan.py\<close>: the reserved terms it is given as a secret,
  the search for them in a line, the files it reads, and what a run prints. The file system, git and
  \<open>json.loads\<close> are parameters, and so is the Unicode database. An exception that nothing handles
  is its name; it ends the run with a traceback and status 1.
\<close>

section \<open>The terms\<close>

text \<open>
  A part of the compiled pattern: a literal, at word boundaries or anywhere. The pattern is their
  alternation, in the order of the secret, substrings first.
\<close>

type_synonym part = "bool \<times> pystr"

record gate_config =
  gc_parts :: "part list"
  gc_allow :: "pystr list"

text \<open>What ends a run with status 2, and the findings; a run prints one of these.\<close>

datatype offender = Revealed "pystr list" nat pystr | Redacted "pystr list" nat nat

datatype verdict_line =
    Terms_Unset | Terms_Not_Json | Terms_Not_Object | No_Terms
  | Withheld | Violations "offender list" | No_Vocabulary

definition config_text :: "json \<Rightarrow> string + pystr" where
  "config_text v = (case as_str v of None \<Rightarrow> Inl ''TypeError'' | Some s \<Rightarrow> Inr (points s))"

definition config_seq :: "jobj \<Rightarrow> string \<Rightarrow> string + json list" where
  "config_seq cfg key = (case json_iter (jget_or cfg key (JList [])) of Inl _ \<Rightarrow> Inl ''TypeError'' | Inr xs \<Rightarrow> Inr xs)"

definition allow_phrase :: "unicode \<Rightarrow> json \<Rightarrow> string + pystr" where
  "allow_phrase U v = (case as_str v of None \<Rightarrow> Inl ''AttributeError'' | Some s \<Rightarrow> Inr (uc_lower U (points s)))"

text \<open>\<open>_load_config\<close>: \<open>Inr (Inl v)\<close> is \<open>SystemExit(2)\<close> after printing \<open>v\<close>. The secret may be a JSON string
  that holds the object.\<close>

definition load_config ::
    "unicode \<Rightarrow> (pystr \<Rightarrow> json option) \<Rightarrow> pystr option \<Rightarrow> string + (verdict_line + gate_config)" where
  "load_config U loads terms =
     (let raw = text_strip U (case terms of None \<Rightarrow> [] | Some s \<Rightarrow> s) in
      if raw = [] then Inr (Inl Terms_Unset)
      else (case (case loads raw of Some (JStr s) \<Rightarrow> loads (points s) | r \<Rightarrow> r) of
              None \<Rightarrow> Inr (Inl Terms_Not_Json)
            | Some (JObj cfg) \<Rightarrow>
                rbind (config_seq cfg ''substring'') (\<lambda>substring.
                rbind (config_seq cfg ''word'') (\<lambda>word.
                rbind (config_seq cfg ''allow_phrases'') (\<lambda>phrases.
                rbind (rmapM (allow_phrase U) phrases) (\<lambda>allow.
                if substring = [] \<and> word = [] then Inr (Inl No_Terms)
                else rbind (rmapM config_text substring) (\<lambda>ss.
                  rmap (\<lambda>ws. Inr \<lparr>gc_parts = map (Pair False) ss @ map (Pair True) ws, gc_allow = allow\<rparr>)
                    (rmapM config_text word))))))
            | Some _ \<Rightarrow> Inr (Inl Terms_Not_Object)))"

section \<open>The search in a line\<close>

definition part_at :: "unicode \<Rightarrow> pystr \<Rightarrow> nat \<Rightarrow> part \<Rightarrow> bool" where
  "part_at U line i p \<longleftrightarrow>
     folded_at U line (snd p) i \<and>
     (fst p \<longrightarrow> word_boundary U line i \<and> word_boundary U line (i + length (snd p)))"

text \<open>
  \<open>pattern.finditer(line)\<close>: the matches from left to right, the first alternative that matches at the
  first position where one does. A search goes on at the end of the last match, and may not be empty
  where the last one was.
\<close>

definition first_part :: "unicode \<Rightarrow> part list \<Rightarrow> pystr \<Rightarrow> bool \<Rightarrow> nat \<Rightarrow> part option" where
  "first_part U parts line advance i = find (\<lambda>p. part_at U line i p \<and> (advance \<longrightarrow> snd p \<noteq> [])) parts"

lemma first_part_Some:
  assumes "first_part U parts line advance i = Some p"
  shows "p \<in> set parts" "part_at U line i p" "advance \<Longrightarrow> snd p \<noteq> []"
  using assms by (auto simp: first_part_def find_Some_iff)

function matches_from :: "unicode \<Rightarrow> part list \<Rightarrow> pystr \<Rightarrow> bool \<Rightarrow> nat \<Rightarrow> (nat \<times> nat) list" where
  "matches_from U parts line advance i =
     (if length line < i then []
      else (case first_part U parts line advance i of
              None \<Rightarrow> matches_from U parts line False (i + 1)
            | Some (w, t) \<Rightarrow> (i, i + length t) # matches_from U parts line (t = []) (i + length t)))"
  by pat_completeness auto
termination
proof (relation "measure (\<lambda>(U, parts, line, advance, i). 2 * (Suc (length line) - i) + (if advance then 0 else 1))")
  fix U parts line advance i p w t
  assume i: "\<not> length line < i" and p: "first_part U parts line advance i = Some p" "(w, t) = p"
  have "advance \<Longrightarrow> t \<noteq> []" using first_part_Some [OF p(1)] p(2) [symmetric] by auto
  then show "((U, parts, line, t = [], i + length t), (U, parts, line, advance, i))
      \<in> measure (\<lambda>(U, parts, line, advance, i). 2 * (Suc (length line) - i) + (if advance then 0 else 1))"
    using i by (cases t) auto
qed auto

declare matches_from.simps [simp del]

text \<open>The spans of a phrase in the lower-cased line; the search goes on one position further, so
  spans may overlap.\<close>

function phrase_spans :: "pystr \<Rightarrow> pystr \<Rightarrow> nat \<Rightarrow> (nat \<times> nat) list" where
  "phrase_spans line phrase start =
     (case text_find line phrase start of
        None \<Rightarrow> []
      | Some pos \<Rightarrow> (pos, pos + length phrase) # phrase_spans line phrase (pos + 1))"
  by pat_completeness auto
termination
proof (relation "measure (\<lambda>(line, phrase, start). Suc (length line) - start)")
  fix line phrase :: pystr and start pos
  assume "text_find line phrase start = Some pos"
  from text_find_Some(1,2) [OF this]
  show "((line, phrase, pos + 1), (line, phrase, start)) \<in> measure (\<lambda>(line, phrase, start). Suc (length line) - start)"
    by (auto simp: text_at_def)
qed simp

declare phrase_spans.simps [simp del]

definition allow_spans :: "unicode \<Rightarrow> pystr list \<Rightarrow> pystr \<Rightarrow> (nat \<times> nat) list" where
  "allow_spans U allow line = concat (map (\<lambda>phrase. phrase_spans (uc_lower U line) phrase 0) allow)"

definition exempt :: "(nat \<times> nat) list \<Rightarrow> nat \<times> nat \<Rightarrow> bool" where
  "exempt spans m \<longleftrightarrow> list_ex (\<lambda>(s, e). s \<le> fst m \<and> snd m \<le> e) spans"

definition line_offenders :: "unicode \<Rightarrow> gate_config \<Rightarrow> pystr \<Rightarrow> pystr list" where
  "line_offenders U cfg line =
     (let spans = allow_spans U (gc_allow cfg) line
      in map (\<lambda>(ms, me). take (me - ms) (drop ms line))
           (filter (\<lambda>m. \<not> exempt spans m) (matches_from U (gc_parts cfg) line False 0)))"

section \<open>Generated comments\<close>

text \<open>What follows a comment \<open><!-- ##markdown-source: ... -->\<close> at the start of a text.\<close>

definition after_comment :: "unicode \<Rightarrow> pystr \<Rightarrow> pystr option" where
  "after_comment U s =
     (if take 4 s \<noteq> ascii ''<!--'' then None
      else let r = dropWhile (uc_space U) (drop 4 s); mark = ascii ''##markdown-source:'' in
        if take (length mark) r \<noteq> mark then None
        else let r = drop (length mark) r
             in map_option (\<lambda>i. drop (i + 3) r) (text_find r (ascii ''-->'') 0))"

lemma after_comment_shorter: "after_comment U s = Some r \<Longrightarrow> length r < length s"
  using length_dropWhile_le [of "uc_space U" "drop 4 s"]
  by (cases s) (auto simp: after_comment_def Let_def ascii_def split: if_splits)

function strip_generated_comments :: "unicode \<Rightarrow> pystr \<Rightarrow> pystr" where
  "strip_generated_comments U [] = []"
| "strip_generated_comments U (c # s) =
     (case after_comment U (c # s) of
        Some r \<Rightarrow> strip_generated_comments U r
      | None \<Rightarrow> c # strip_generated_comments U s)"
  by pat_completeness auto
termination
  by (relation "measure (\<lambda>(U, s). length s)") (auto dest: after_comment_shorter)

section \<open>The files\<close>

text \<open>
  The scanned tree: what \<open>str\<close> of a path puts before the part below the root, the tracked paths
  (\<open>None\<close> where git fails), all paths in order, and the file system as \<open>_read_regular_file\<close> asks it,
  \<open>None\<close> being an \<open>OSError\<close>. A path is the list of its names below the root.
\<close>

record scan_tree =
  tr_prefix :: pystr
  tr_tracked :: "pystr list list option"
  tr_all :: "pystr list list"
  tr_link :: "pystr list \<Rightarrow> bool"
  tr_inside :: "pystr list \<Rightarrow> bool option"
  tr_regular :: "pystr list \<Rightarrow> bool option"
  tr_open_regular :: "pystr list \<Rightarrow> bool option"
  tr_text :: "pystr list \<Rightarrow> pystr option"

definition SCAN_SUFFIXES :: "string list" where
  "SCAN_SUFFIXES = [''.html'', ''.py'', ''.go'', ''.rs'', ''.md'', ''.rst'', ''.txt'', ''.xml'', ''.toml'',
     ''.cfg'', ''.yml'', ''.yaml'', ''.json'']"

definition path_str :: "scan_tree \<Rightarrow> pystr list \<Rightarrow> pystr" where
  "path_str t p = tr_prefix t @ (if p = [] then [] else concat (map (\<lambda>n. n @ [47]) (butlast p)) @ last p)"

text \<open>The components from the root down to the path.\<close>

definition path_components :: "pystr list \<Rightarrow> pystr list list" where
  "path_components p = map (\<lambda>n. take n p) [1..<Suc (length p)]"

definition read_regular_file :: "scan_tree \<Rightarrow> pystr list \<Rightarrow> pystr option" where
  "read_regular_file t p =
     (if list_ex (tr_link t) (path_components p) then None
      else if tr_inside t p \<noteq> Some True then None
      else if tr_regular t p \<noteq> Some True then None
      else if tr_open_regular t p \<noteq> Some True then None
      else tr_text t p)"

definition candidates :: "scan_tree \<Rightarrow> pystr list list" where
  "candidates t = (case tr_tracked t of Some ps \<Rightarrow> ps | None \<Rightarrow> tr_all t)"

definition kept :: "unicode \<Rightarrow> scan_tree \<Rightarrow> pystr list \<Rightarrow> bool" where
  "kept U t p \<longleftrightarrow>
     uc_lower U (path_suffix p) \<in> set (map ascii SCAN_SUFFIXES) \<and> \<not> text_in (ascii ''.git/'') (path_str t p)"

definition line_report :: "bool \<Rightarrow> pystr list \<Rightarrow> nat \<Rightarrow> pystr list \<Rightarrow> offender list" where
  "line_report reveal p i hits =
     (if hits = [] then []
      else if reveal then map (Revealed p i) hits
      else [Redacted p i (length hits)])"

fun scan_files :: "unicode \<Rightarrow> gate_config \<Rightarrow> bool \<Rightarrow> scan_tree \<Rightarrow> pystr list list \<Rightarrow> offender list" where
  "scan_files U cfg reveal t [] = []"
| "scan_files U cfg reveal t (p # ps) =
     (if \<not> kept U t p then scan_files U cfg reveal t ps
      else (case read_regular_file t p of
              None \<Rightarrow> scan_files U cfg reveal t ps
            | Some s \<Rightarrow>
                concat (map (\<lambda>(i, line). line_report reveal p i (line_offenders U cfg line))
                  (numbered_lines (strip_generated_comments U s))) @
                scan_files U cfg reveal t ps))"

definition scan :: "unicode \<Rightarrow> gate_config \<Rightarrow> bool \<Rightarrow> scan_tree \<Rightarrow> offender list" where
  "scan U cfg reveal t = scan_files U cfg reveal t (candidates t)"

section \<open>A run\<close>

definition reveal_matches :: "unicode \<Rightarrow> pystr option \<Rightarrow> bool" where
  "reveal_matches U v \<longleftrightarrow>
     uc_lower U (text_strip U (case v of None \<Rightarrow> [] | Some s \<Rightarrow> s)) \<in> set (map ascii [''1'', ''true'', ''yes'', ''on''])"

text \<open>\<open>main\<close>, with the two environment variables; its exit status and what it prints.\<close>

definition gate_main ::
    "unicode \<Rightarrow> (pystr \<Rightarrow> json option) \<Rightarrow> pystr option \<Rightarrow> pystr option \<Rightarrow> scan_tree \<Rightarrow> string + (int \<times> verdict_line)" where
  "gate_main U loads terms reveal t =
     rmap (\<lambda>c. case c of
             Inl v \<Rightarrow> (2, v)
           | Inr cfg \<Rightarrow>
               (let offenders = scan U cfg (reveal_matches U reveal) t
                in if offenders = [] then (0, No_Vocabulary)
                   else if \<not> reveal_matches U reveal then (1, Withheld)
                   else (1, Violations offenders)))
       (load_config U loads terms)"

section \<open>What the search finds\<close>

lemma set_phrase_spans:
  "set (phrase_spans line phrase start) = {(i, i + length phrase) | i. start \<le> i \<and> text_at line phrase i}"
proof (induction line phrase start rule: phrase_spans.induct)
  case (1 line phrase start)
  show ?case
  proof (cases "text_find line phrase start")
    case None
    then have "\<forall>i \<ge> start. \<not> text_at line phrase i" by (simp add: text_find_None)
    then show ?thesis using None by (subst phrase_spans.simps) auto
  next
    case (Some pos)
    note p = text_find_Some [OF Some]
    have "{(i, i + length phrase) | i. start \<le> i \<and> text_at line phrase i}
        = insert (pos, pos + length phrase) {(i, i + length phrase) | i. pos + 1 \<le> i \<and> text_at line phrase i}"
    proof -
      have "i = pos" if "start \<le> i" "text_at line phrase i" "\<not> Suc pos \<le> i" for i
        using p(3) [of i] that by force
      then show ?thesis using p(1,2) by auto
    qed
    then show ?thesis using Some 1 by (subst phrase_spans.simps) auto
  qed
qed

lemma set_allow_spans:
  "(s, e) \<in> set (allow_spans U allow line) \<longleftrightarrow>
     (\<exists>phrase \<in> set allow. text_at (uc_lower U line) phrase s \<and> e = s + length phrase)"
  by (auto simp: allow_spans_def set_phrase_spans)

text \<open>Every match is a part at its position, and every place of a term is inside a match.\<close>

lemma matches_are_parts:
  "(ms, me) \<in> set (matches_from U parts line advance i) \<Longrightarrow>
     \<exists>p \<in> set parts. part_at U line ms p \<and> me = ms + length (snd p) \<and> i \<le> ms"
proof (induction U parts line advance i rule: matches_from.induct)
  case (1 U parts line advance i)
  show ?case
  proof (cases "length line < i")
    case True
    then show ?thesis using 1(3) by (simp add: matches_from.simps)
  next
    case False
    show ?thesis
    proof (cases "first_part U parts line advance i")
      case None
      then have "(ms, me) \<in> set (matches_from U parts line False (i + 1))"
        using 1(3) False by (subst (asm) matches_from.simps) simp
      from 1(1) [OF False None this] show ?thesis by auto
    next
      case (Some p)
      obtain w t where p: "p = (w, t)" by (cases p)
      have "(ms, me) = (i, i + length t) \<or> (ms, me) \<in> set (matches_from U parts line (t = []) (i + length t))"
        using 1(3) False Some p by (subst (asm) matches_from.simps) simp
      then show ?thesis
      proof
        assume "(ms, me) = (i, i + length t)"
        then show ?thesis using first_part_Some [OF Some] p by (intro bexI [of _ p]) auto
      next
        assume "(ms, me) \<in> set (matches_from U parts line (t = []) (i + length t))"
        from 1(2) [OF False Some p [symmetric] this]
        obtain q where "q \<in> set parts" "part_at U line ms q" "me = ms + length (snd q)" "i + length t \<le> ms" by blast
        then show ?thesis by (intro bexI [of _ q]) auto
      qed
    qed
  qed
qed

lemma matches_cover:
  "p \<in> set parts \<Longrightarrow> snd p \<noteq> [] \<Longrightarrow> part_at U line k p \<Longrightarrow> i \<le> k \<Longrightarrow>
     \<exists>(ms, me) \<in> set (matches_from U parts line advance i). ms \<le> k \<and> k < me"
proof (induction U parts line advance i rule: matches_from.induct)
  case (1 U parts line advance i)
  have k: "k < length line" using 1(4,5) by (cases "snd p") (auto simp: part_at_def folded_at_def)
  then have l: "\<not> length line < i" using 1(6) by simp
  show ?case
  proof (cases "first_part U parts line advance i")
    case None
    then have "\<not> part_at U line i p" using 1(3,4) by (cases p) (auto simp: first_part_def find_None_iff)
    then have "i + 1 \<le> k" using 1(5,6) by (cases "i = k") auto
    from 1(1) [OF l None 1(3-5) this] show ?thesis
      using l None by (subst matches_from.simps) simp
  next
    case (Some q)
    obtain w t where q: "q = (w, t)" by (cases q)
    have e: "matches_from U parts line advance i = (i, i + length t) # matches_from U parts line (t = []) (i + length t)"
      using l Some q by (subst matches_from.simps) simp
    show ?thesis
    proof (cases "k < i + length t")
      case True
      then show ?thesis unfolding e using 1(6) by auto
    next
      case False
      then have "i + length t \<le> k" by simp
      from 1(2) [OF l Some q [symmetric] 1(3-5) this] show ?thesis unfolding e by auto
    qed
  qed
qed

lemma clean_line:
  assumes "line_offenders U cfg line = []" "p \<in> set (gc_parts cfg)" "snd p \<noteq> []" "part_at U line k p"
  shows "\<exists>ms me s. \<exists>phrase \<in> set (gc_allow cfg). (ms, me) \<in> set (matches_from U (gc_parts cfg) line False 0) \<and>
     ms \<le> k \<and> k < me \<and> text_at (uc_lower U line) phrase s \<and> s \<le> ms \<and> me \<le> s + length phrase"
proof -
  obtain ms me where m: "(ms, me) \<in> set (matches_from U (gc_parts cfg) line False 0)" "ms \<le> k" "k < me"
    using matches_cover [OF assms(2-4), of 0 False] by auto
  have "exempt (allow_spans U (gc_allow cfg) line) (ms, me)"
    using assms(1) m(1) by (auto simp: line_offenders_def Let_def filter_empty_conv)
  then obtain s phrase where "phrase \<in> set (gc_allow cfg)" "text_at (uc_lower U line) phrase s" "s \<le> ms" "me \<le> s + length phrase"
    by (auto simp: exempt_def list_ex_iff set_allow_spans)
  then show ?thesis using m by blast
qed

section \<open>What a run says\<close>

definition scanned_files :: "unicode \<Rightarrow> scan_tree \<Rightarrow> pystr list list" where
  "scanned_files U t = filter (\<lambda>p. kept U t p \<and> read_regular_file t p \<noteq> None) (candidates t)"

definition scanned_lines :: "unicode \<Rightarrow> scan_tree \<Rightarrow> pystr list \<Rightarrow> (nat \<times> pystr) list" where
  "scanned_lines U t p = numbered_lines (strip_generated_comments U (the (read_regular_file t p)))"

lemma scan_files_eq:
  "scan_files U cfg reveal t ps =
     concat (map (\<lambda>p. concat (map (\<lambda>(i, line). line_report reveal p i (line_offenders U cfg line)) (scanned_lines U t p)))
       (filter (\<lambda>p. kept U t p \<and> read_regular_file t p \<noteq> None) ps))"
  by (induction ps) (auto simp: scanned_lines_def)

interpretation gate: line_scan "scan U cfg reveal" "scanned_files U" "scanned_lines U"
    "\<lambda>t p (i, line). line_report reveal p i (line_offenders U cfg line)" for U cfg reveal
  by unfold_locales (simp add: scan_def scan_files_eq scanned_files_def)

lemma line_report_Nil [simp]: "line_report reveal p i hits = [] \<longleftrightarrow> hits = []"
  by (simp add: line_report_def)

lemma load_config_terms:
  "load_config U loads terms = Inr (Inr cfg) \<Longrightarrow> gc_parts cfg \<noteq> []"
  by (auto simp: load_config_def Let_def raise_simps split: if_splits option.splits json.splits dest!: rmapM_length)

lemma clean_run:
  assumes "gate_main U loads terms reveal t = Inr (0, v)"
  shows "\<exists>cfg. load_config U loads terms = Inr (Inr cfg) \<and> gc_parts cfg \<noteq> [] \<and>
    (\<forall>f \<in> set (scanned_files U t). \<forall>(i, line) \<in> set (scanned_lines U t f). line_offenders U cfg line = [])"
proof -
  obtain r where r: "load_config U loads terms = Inr r"
    using assms by (auto simp: gate_main_def raise_simps)
  with assms obtain cfg where c: "load_config U loads terms = Inr (Inr cfg)" "scan U cfg (reveal_matches U reveal) t = []"
    by (cases r) (auto simp: gate_main_def Let_def split: if_splits)
  then show ?thesis
    using load_config_terms [OF c(1)] gate.clean_iff [of U cfg "reveal_matches U reveal" t] by fastforce
qed

lemma untrusted_run:
  assumes "\<not> reveal_matches U reveal" "gate_main U loads terms reveal t = Inr (c, v)"
  shows "c = 0 \<and> v = No_Vocabulary \<or> c = 1 \<and> v = Withheld \<or> c = 2 \<and> load_config U loads terms = Inr (Inl v)"
proof -
  obtain r where r: "load_config U loads terms = Inr r"
    using assms by (auto simp: gate_main_def raise_simps)
  with assms show ?thesis by (cases r) (auto simp: gate_main_def Let_def split: if_splits)
qed

text \<open>A file below a directory whose name ends in \<open>.git\<close> is never read.\<close>

lemma in_git_directory:
  assumes "Suc k < length p" "p ! k = n @ ascii ''.git''"
  shows "\<not> kept U t p"
proof -
  have "p ! k @ [47] \<in> set (map (\<lambda>n. n @ [47]) (butlast p))"
    using assms(1) by (auto simp: nth_butlast in_set_conv_nth intro!: exI [of _ k] image_eqI [where x = "p ! k"])
  then obtain xs ys where "map (\<lambda>n. n @ [47]) (butlast p) = xs @ (p ! k @ [47]) # ys" by (meson split_list)
  then have "concat (map (\<lambda>n. n @ [47]) (butlast p)) = (concat xs @ n) @ ascii ''.git/'' @ concat ys"
    by (simp add: assms(2) ascii_def)
  then have "path_str t p = (tr_prefix t @ concat xs @ n) @ ascii ''.git/'' @ (concat ys @ last p)"
    using assms(1) by (auto simp: path_str_def)
  then have "text_in (ascii ''.git/'') (path_str t p)" unfolding text_in_iff text_at_iff by metis
  then show ?thesis by (simp add: kept_def)
qed

lemma unread_text:
  assumes "\<not> kept U t p"
  shows "scan U cfg reveal (t\<lparr>tr_text := (tr_text t)(p := s)\<rparr>) = scan U cfg reveal t"
proof -
  let ?t = "t\<lparr>tr_text := (tr_text t)(p := s)\<rparr>"
  have k: "kept U ?t f \<longleftrightarrow> kept U t f" for f by (simp add: kept_def path_str_def)
  have r: "read_regular_file ?t f = read_regular_file t f" if "f \<noteq> p" for f
    using that by (simp add: read_regular_file_def)
  have c: "candidates ?t = candidates t" by (simp add: candidates_def cong: option.case_cong)
  have f: "scanned_files U ?t = scanned_files U t"
    unfolding scanned_files_def c by (intro filter_cong refl) (metis k r assms)
  show ?thesis
  proof (rule gate.report_cong [OF f])
    fix f assume "f \<in> set (scanned_files U ?t)"
    then have "f \<noteq> p" using assms by (auto simp: scanned_files_def k)
    then show "scanned_lines U ?t f = scanned_lines U t f" by (simp add: scanned_lines_def r)
  qed auto
qed

section \<open>Properties\<close>

text \<open>A tree with one tracked file, for the witnesses.\<close>

definition one_file :: "pystr list \<Rightarrow> pystr \<Rightarrow> scan_tree" where
  "one_file p s =
     \<lparr>tr_prefix = [], tr_tracked = Some [p], tr_all = [], tr_link = (\<lambda>_. False), tr_inside = (\<lambda>_. Some True),
      tr_regular = (\<lambda>_. Some True), tr_open_regular = (\<lambda>_. Some True), tr_text = (\<lambda>_. Some s)\<rparr>"

definition demo_secret :: "pystr \<Rightarrow> json option" where
  "demo_secret _ = Some (JObj [(''substring'', JList [JStr ''term'']), (''allow_phrases'', JList [JStr ''A term''])])"

definition demo_config :: gate_config where
  "demo_config = \<lparr>gc_parts = [(False, ascii ''term'')], gc_allow = [ascii ''a term'']\<rparr>"

lemma demo_load: "load_config ascii_unicode demo_secret (Some (ascii ''{}'')) = Inr (Inr demo_config)"
  by (simp add: load_config_def demo_secret_def text_strip_def ascii_unicode_def ascii_def points_def Let_def config_seq_def
      jget_or_def config_text_def allow_phrase_def demo_config_def cont_char_def)

lemma demo_untrusted: "\<not> reveal_matches ascii_unicode None"
  by code_simp

lemma demo_run:
  "gate_main ascii_unicode demo_secret (Some (ascii ''{}'')) None t =
     Inr (if scan ascii_unicode demo_config False t = [] then (0, No_Vocabulary) else (1, Withheld))"
  using demo_untrusted by (simp add: gate_main_def demo_load)

lemma demo_scan:
  assumes "kept ascii_unicode (one_file p s) p" "numbered_lines (strip_generated_comments ascii_unicode s) = [(1, s)]"
    "line_offenders ascii_unicode demo_config s = hits"
  shows "scan ascii_unicode demo_config False (one_file p s) = line_report False p 1 hits"
proof -
  have "read_regular_file (one_file p s) p = Some s" "candidates (one_file p s) = [p]"
    by (simp_all add: read_regular_file_def candidates_def one_file_def list_ex_iff)
  then show ?thesis using assms by (simp add: scan_def)
qed

lemma demo_lines:
  "line_offenders ascii_unicode demo_config (ascii ''a TERM'') = []"
  "line_offenders ascii_unicode demo_config (ascii ''TERM'') = [ascii ''TERM'']"
  unfolding demo_config_def by code_simp+

lemma demo_numbered:
  "numbered_lines (strip_generated_comments ascii_unicode (ascii ''a TERM'')) = [(1, ascii ''a TERM'')]"
  "numbered_lines (strip_generated_comments ascii_unicode (ascii ''TERM'')) = [(1, ascii ''TERM'')]"
  by (simp_all add: ascii_def after_comment_def numbered_lines_def splitlines_def line_break_def)

lemma demo_kept:
  "kept ascii_unicode (one_file [ascii ''a.md''] (ascii ''a TERM'')) [ascii ''a.md'']"
  "kept ascii_unicode (one_file [ascii ''a.md''] (ascii ''TERM'')) [ascii ''a.md'']"
  "kept ascii_unicode (one_file [ascii ''b.md''] (ascii ''TERM'')) [ascii ''b.md'']"
  by code_simp+

lemma demo_runs:
  "gate_main ascii_unicode demo_secret (Some (ascii ''{}'')) None (one_file [ascii ''a.md''] (ascii ''a TERM'')) = Inr (0, No_Vocabulary)"
  "gate_main ascii_unicode demo_secret (Some (ascii ''{}'')) None (one_file [ascii ''a.md''] (ascii ''TERM'')) = Inr (1, Withheld)"
  "gate_main ascii_unicode demo_secret (Some (ascii ''{}'')) None (one_file [ascii ''b.md''] (ascii ''TERM'')) = Inr (1, Withheld)"
  by (simp_all add: demo_run demo_scan [OF demo_kept(1) demo_numbered(1) demo_lines(1)]
      demo_scan [OF demo_kept(2) demo_numbered(2) demo_lines(2)]
      demo_scan [OF demo_kept(3) demo_numbered(2) demo_lines(2)])

text \<open>
  C39. A passing run covers every line. When the gate passes, the secret named at least one term, and in
  every line of every file it read a term can only begin inside an allowed phrase: every place where
  a term matches lies, with its first character, in an occurrence of a phrase. A line without an
  allowed phrase has no term at all.
\<close>

theorem pass_covers_lines:
  assumes "gate_main U loads terms reveal t = Inr (0, v)"
    and "f \<in> set (candidates t)" "kept U t f" "read_regular_file t f = Some s"
    and "(i, line) \<in> set (numbered_lines (strip_generated_comments U s))"
  shows "\<exists>cfg. load_config U loads terms = Inr (Inr cfg) \<and> gc_parts cfg \<noteq> [] \<and>
    (\<forall>p \<in> set (gc_parts cfg). \<forall>k. snd p \<noteq> [] \<and> part_at U line k p \<longrightarrow>
      (\<exists>phrase \<in> set (gc_allow cfg). \<exists>s. text_at (uc_lower U line) phrase s \<and> s \<le> k \<and> k < s + length phrase))"
proof -
  obtain cfg where c: "load_config U loads terms = Inr (Inr cfg)" "gc_parts cfg \<noteq> []" "line_offenders U cfg line = []"
    using clean_run [OF assms(1)] assms(2-5) by (fastforce simp: scanned_files_def scanned_lines_def)
  then show ?thesis using clean_line [OF c(3)] by (meson le_trans less_le_trans)
qed

theorem pass_covers_lines_witness:
  "\<exists>cfg. load_config ascii_unicode demo_secret (Some (ascii ''{}'')) = Inr (Inr cfg) \<and> gc_parts cfg \<noteq> []"
proof -
  have r: "read_regular_file (one_file [ascii ''a.md''] (ascii ''a TERM'')) [ascii ''a.md''] = Some (ascii ''a TERM'')" by code_simp
  have f: "[ascii ''a.md''] \<in> set (candidates (one_file [ascii ''a.md''] (ascii ''a TERM'')))"
    by (simp add: candidates_def one_file_def)
  have l: "(1, ascii ''a TERM'') \<in> set (numbered_lines (strip_generated_comments ascii_unicode (ascii ''a TERM'')))"
    by (simp add: demo_numbered)
  show ?thesis using pass_covers_lines [OF demo_runs(1) f demo_kept(1) r l] by blast
qed

text \<open>
  C43. An untrusted run tells nothing but its verdict. Without the opt-in, two runs that end with the same
  status print the same line, whatever the trees they scanned and whatever the terms; only a
  configuration error (status 2) depends on the secret, and never on the tree.
\<close>

theorem untrusted_run_tells_verdict:
  assumes "\<not> reveal_matches U reveal" "gate_main U loads terms reveal t = Inr (c, v)"
    and "gate_main U loads terms' reveal t' = Inr (c, v')" "c \<noteq> 2 \<or> terms = terms'"
  shows "v = v'"
  using untrusted_run [OF assms(1,2)] untrusted_run [OF assms(1,3)] assms(4) by auto

theorem untrusted_run_tells_verdict_witness:
  "gate_main ascii_unicode demo_secret (Some (ascii ''{}'')) None (one_file [ascii ''a.md''] (ascii ''TERM'')) = Inr (1, Withheld) \<and>
   gate_main ascii_unicode demo_secret (Some (ascii ''{}'')) None (one_file [ascii ''b.md''] (ascii ''TERM'')) = Inr (1, Withheld)"
  using untrusted_run_tells_verdict [OF demo_untrusted demo_runs(2,3)] demo_runs by simp

text \<open>
  The search skips what overlaps an exempt match: a reserved term that is not inside any allowed
  phrase passes when it begins inside one. Here \<open>bc\<close> is reserved and \<open>abc\<close> passes, because \<open>ab\<close> is
  reserved too and allowed.
\<close>

theorem overlapping_term_passes:
  "\<exists>cfg line k p. p \<in> set (gc_parts cfg) \<and> part_at ascii_unicode line k p \<and>
     \<not> exempt (allow_spans ascii_unicode (gc_allow cfg) line) (k, k + length (snd p)) \<and>
     line_offenders ascii_unicode cfg line = []"
proof (intro exI conjI)
  let ?cfg = "\<lparr>gc_parts = [(False, ascii ''ab''), (False, ascii ''bc'')], gc_allow = [ascii ''ab'']\<rparr>"
  show "(False, ascii ''bc'') \<in> set (gc_parts ?cfg)" by simp
  show "part_at ascii_unicode (ascii ''abc'') 1 (False, ascii ''bc'')" by code_simp
  show "\<not> exempt (allow_spans ascii_unicode (gc_allow ?cfg) (ascii ''abc'')) (1, 1 + length (snd (False, ascii ''bc'')))"
    by code_simp
  show "line_offenders ascii_unicode ?cfg (ascii ''abc'') = []" by code_simp
qed

text \<open>
  The test for \<open>.git/\<close> in a path is a test for a substring: whatever a file below a directory
  named \<open>x.git\<close> says, the scan is the same.
\<close>

theorem git_suffix_unscanned:
  assumes "Suc k < length p" "p ! k = n @ ascii ''.git''"
  shows "scan U cfg reveal (t\<lparr>tr_text := (tr_text t)(p := s)\<rparr>) = scan U cfg reveal t"
  by (rule unread_text [OF in_git_directory [OF assms]])

end
