(* ===== verification/Hostname_Lint.thy ===== *)
theory Hostname_Lint
  imports Lint_Text
begin

text \<open>
  The hostname check, \<open>src/.github/hostname_lint.py\<close>: the search for a host that has moved, the
  allowlist of exact lines, and the exit status. The texts it prints around the hits are left out.
\<close>

section \<open>The check\<close>

text \<open>\<open>DISALLOWED.search(line)\<close>: at a word boundary, one of the two hosts and a letter, in any case.\<close>

definition DISALLOWED_HOSTS :: "pystr list" where
  "DISALLOWED_HOSTS = map ascii [''verify.actionstate.'', ''witness.actionstate.'']"

definition letter_folded :: "unicode \<Rightarrow> nat \<Rightarrow> bool" where
  "letter_folded U c = list_ex (\<lambda>x. uc_fold U x c) [97..<123]"

definition host_at :: "unicode \<Rightarrow> pystr \<Rightarrow> nat \<Rightarrow> bool" where
  "host_at U line i \<longleftrightarrow>
     word_boundary U line i \<and>
     list_ex (\<lambda>h. folded_at U line h i \<and> i + length h < length line \<and> letter_folded U (line ! (i + length h)))
       DISALLOWED_HOSTS"

definition disallowed :: "unicode \<Rightarrow> pystr \<Rightarrow> bool" where
  "disallowed U line = list_ex (host_at U line) [0..<Suc (length line)]"

definition SCAN_SUFFIXES :: "pystr list" where
  "SCAN_SUFFIXES = map ascii [''.html'', ''.py'', ''.go'', ''.md'', ''.rst'', ''.txt'', ''.xml'', ''.toml'', ''.cfg'',
     ''.yml'', ''.yaml'', ''.json'']"

definition OWN_FILES :: "pystr list" where
  "OWN_FILES = map ascii [''hostname_lint.py'', ''hostname_lint_allowlist.txt'', ''hostname-lint.yml'']"

definition text_lstrip :: "unicode \<Rightarrow> pystr \<Rightarrow> pystr" where
  "text_lstrip U s = dropWhile (uc_space U) s"

definition load_allowlist :: "unicode \<Rightarrow> lint_tree \<Rightarrow> pystr list" where
  "load_allowlist U t =
     (case lt_allowlist t of
        None \<Rightarrow> []
      | Some s \<Rightarrow>
          map (\<lambda>line. rev (dropWhile (\<lambda>c. c = 10) (rev line)))
            (filter (\<lambda>line. text_strip U line \<noteq> [] \<and> \<not> (text_lstrip U line \<noteq> [] \<and> hd (text_lstrip U line) = 35))
              (splitlines s)))"

text \<open>A hit: the path, the line's number and its stripped text.\<close>

type_synonym hit = "pystr list \<times> nat \<times> pystr"

definition kept_file :: "pystr list \<Rightarrow> bool" where
  "kept_file f \<longleftrightarrow> path_suffix f \<in> set SCAN_SUFFIXES \<and> path_name f \<notin> set OWN_FILES"

definition line_hit :: "unicode \<Rightarrow> pystr list \<Rightarrow> pystr list \<Rightarrow> nat \<times> pystr \<Rightarrow> hit list" where
  "line_hit U allow f l =
     (case l of (i, line) \<Rightarrow>
       if disallowed U line \<and> text_strip U line \<notin> set allow then [(f, i, text_strip U line)] else [])"

fun lint_files :: "unicode \<Rightarrow> lint_tree \<Rightarrow> pystr list \<Rightarrow> pystr list list \<Rightarrow> hit list" where
  "lint_files U t allow [] = []"
| "lint_files U t allow (f # fs) =
     (if \<not> kept_file f then lint_files U t allow fs
      else (case lt_text t f of
              None \<Rightarrow> lint_files U t allow fs
            | Some s \<Rightarrow> concat (map (line_hit U allow f) (numbered_lines s)) @ lint_files U t allow fs))"

text \<open>\<open>main\<close>: the exit status and the hits; \<open>None\<close> is the exception of a failing git.\<close>

definition lint_main :: "unicode \<Rightarrow> lint_tree \<Rightarrow> (int \<times> hit list) option" where
  "lint_main U t =
     map_option (\<lambda>out.
       let hits = lint_files U t (load_allowlist U t) (tracked_files out)
       in (if hits = [] then 0 else 1, hits)) (lt_ls_files t)"

section \<open>What a run says\<close>

definition listed :: "lint_tree \<Rightarrow> pystr list list" where
  "listed t = (case lt_ls_files t of None \<Rightarrow> [] | Some out \<Rightarrow> tracked_files out)"

definition linted_files :: "lint_tree \<Rightarrow> pystr list list" where
  "linted_files t = filter (\<lambda>f. kept_file f \<and> lt_text t f \<noteq> None) (listed t)"

definition linted_lines :: "lint_tree \<Rightarrow> pystr list \<Rightarrow> (nat \<times> pystr) list" where
  "linted_lines t f = numbered_lines (the (lt_text t f))"

lemma lint_files_eq:
  "lint_files U t allow fs =
     concat (map (\<lambda>f. concat (map (line_hit U allow f) (linted_lines t f))) (filter (\<lambda>f. kept_file f \<and> lt_text t f \<noteq> None) fs))"
  by (induction fs) (auto simp: linted_lines_def)

interpretation hosts: allowlist_scan
    "\<lambda>t. lint_files U t (load_allowlist U t) (listed t)" linted_files linted_lines
    "\<lambda>t. line_hit U (load_allowlist U t)" "\<lambda>f. disallowed U" "text_strip U" "load_allowlist U" for U
  by unfold_locales (simp_all add: lint_files_eq linted_files_def line_hit_def)

lemma lint_main_eq:
  "lint_main U t = Some (c, hits) \<longleftrightarrow>
     lt_ls_files t \<noteq> None \<and> hits = lint_files U t (load_allowlist U t) (listed t) \<and> c = (if hits = [] then 0 else 1)"
  by (auto simp: lint_main_def listed_def Let_def)

text \<open>A path that git quotes is not looked at.\<close>

lemma quoted_not_kept:
  assumes "last (path_name f) = 34" "path_name f \<noteq> []"
  shows "\<not> kept_file f"
proof
  assume "kept_file f"
  then have "path_suffix f \<in> set SCAN_SUFFIXES" by (simp add: kept_file_def)
  moreover have "\<forall>x \<in> set SCAN_SUFFIXES. x \<noteq> [] \<and> last x \<noteq> 34" by (simp add: SCAN_SUFFIXES_def ascii_def)
  ultimately show False using quoted_suffix [OF assms] by blast
qed

text \<open>Nothing that is listed starts with a hash, so a line that does, such as a heading, is never allowed.\<close>

lemma heading_not_allowed:
  assumes "\<not> uc_space U 35"
  shows "35 # s \<notin> set (load_allowlist U t)"
proof
  assume "35 # s \<in> set (load_allowlist U t)"
  then obtain line where l: "35 # s = rev (dropWhile (\<lambda>c. c = 10) (rev line))" "\<not> (text_lstrip U line \<noteq> [] \<and> hd (text_lstrip U line) = 35)"
    by (auto simp: load_allowlist_def split: option.splits)
  have "line = rev (dropWhile (\<lambda>c. c = 10) (rev line)) @ rev (takeWhile (\<lambda>c. c = 10) (rev line))"
    by (metis rev_append rev_rev_ident takeWhile_dropWhile_id)
  then have "line = 35 # s @ rev (takeWhile (\<lambda>c. c = 10) (rev line))" unfolding l(1) [symmetric] by simp
  then have "text_lstrip U line = line" "hd line = 35" "line \<noteq> []"
    using assms by (metis dropWhile.simps(2) text_lstrip_def, metis list.sel(1), blast)
  then show False using l(2) by simp
qed

theorem clean_hosts:
  assumes "lint_main U t = Some (c, hits)"
  shows "c = 0 \<longleftrightarrow> (\<forall>f \<in> set (linted_files t). \<forall>(i, line) \<in> set (linted_lines t f).
     disallowed U line \<longrightarrow> text_strip U line \<in> set (load_allowlist U t))"
  using assms hosts.clean_allowed [of U t] by (auto simp: lint_main_eq split: if_splits)

end
