(* ===== verification/Leak_Lint.thy ===== *)
theory Leak_Lint
  imports Lint_Text "HOL-Library.Sublist"
begin

text \<open>
  The leak check, \<open>src/.github/leak_lint.py\<close>: the four classes of a line, what of a lockfile's line is
  exempt from the terms, the allowlist, and the scan. \<open>urllib.parse.urlsplit\<close> is a parameter. The
  texts printed around the hits are left out. A line is one of \<open>splitlines\<close>, so it holds no newline,
  and \<open>.\<close> and \<open>$\<close> of the patterns mean any character and the end.
\<close>

section \<open>What is looked for\<close>

definition SELF_NAMES :: "pystr list" where
  "SELF_NAMES = map ascii [''leak_lint.py'', ''leak_lint_allowlist.txt'', ''leak-lint.yml'', ''test_leak_lint.py'']"

definition SCAN_SUFFIXES :: "pystr list" where
  "SCAN_SUFFIXES = map ascii [''.py'', ''.go'', ''.rs'', ''.ts'', ''.js'', ''.mjs'', ''.md'', ''.rst'', ''.txt'', ''.xml'',
     ''.toml'', ''.cfg'', ''.yml'', ''.yaml'', ''.json'', ''.html'', ''.sh'']"

definition SCAN_NAMES :: "pystr list" where
  "SCAN_NAMES = [ascii ''yarn.lock'']"

definition OPS_VOCAB :: "pystr list" where
  "OPS_VOCAB = map ascii [''QUEUE_PROTOCOL'', ''claim.sh'', ''close.sh'', ''decide.sh'', ''outbox'', ''inbox'', ''lane:'',
     ''worktree'', ''held for EM push'', ''coder-'', ''Needs decision'', ''Do line'', ''R4:'']"

definition INTERNAL_PATHS :: "pystr list" where
  "INTERNAL_PATHS = map ascii [''/dev/asg'', ''_work/'', ''_ops/'', ''action-state-ops'']"

definition NAMED_DECIDER :: "pystr list" where
  "NAMED_DECIDER = map ascii [''Steven rules'', ''Steven ratifies'', ''Steven decides'']"

datatype leak_class = Bracketed_Id | Ops_Vocab | Internal_Path | Named_Decider

section \<open>Bracketed identifiers\<close>

definition in_range :: "nat \<Rightarrow> nat \<Rightarrow> nat \<Rightarrow> bool" where
  "in_range a b c \<longleftrightarrow> a \<le> c \<and> c \<le> b"

definition digit :: "nat \<Rightarrow> bool" where
  "digit = in_range 48 57"

definition small :: "nat \<Rightarrow> bool" where
  "small = in_range 97 122"

definition capital :: "nat \<Rightarrow> bool" where
  "capital = in_range 65 90"

text \<open>\<open>BRACKET_ID\<close> at a position: the position after the match.\<close>

definition bracket_body :: "nat \<Rightarrow> bool" where
  "bracket_body c \<longleftrightarrow> small c \<or> digit c \<or> c = 45"

definition bracket_end :: "pystr \<Rightarrow> nat \<Rightarrow> nat option" where
  "bracket_end line i =
     (if length line \<le> i \<or> line ! i \<noteq> 91 then None
      else let body = takeWhile bracket_body (drop (Suc i) line); e = Suc (i + length body); segments = split_at 45 body in
        if e < length line \<and> line ! e = 93 \<and> 3 \<le> length segments \<and> list_all (\<lambda>s. 2 \<le> length s) segments
        then Some (Suc e) else None)"

text \<open>\<open>finditer\<close>: the matches hold no second opening bracket, so none overlap and all are found.\<close>

definition bracket_ids :: "pystr \<Rightarrow> (nat \<times> nat) list" where
  "bracket_ids line = concat (map (\<lambda>i. case bracket_end line i of None \<Rightarrow> [] | Some e \<Rightarrow> [(i, e)]) [0..<length line])"

definition starts :: "pystr \<Rightarrow> pystr \<Rightarrow> bool" where
  "starts t s \<longleftrightarrow> take (length t) s = t"

definition id_exempt :: "unicode \<Rightarrow> pystr \<Rightarrow> nat \<times> nat \<Rightarrow> bool" where
  "id_exempt U line m =
     (case m of (i, e) \<Rightarrow>
       let content = drop (Suc i) (take e line) in
       (starts (ascii ''data-'') content \<or> starts (ascii ''aria-'') content) \<or>
       (0 < i \<and> (uc_alnum U (line ! (i - 1)) \<or> line ! (i - 1) \<in> {95, 45})) \<or>
       (e < length line \<and> line ! e \<in> {40, 91}) \<or>
       (e < length line \<and> line ! e = 58 \<and> text_strip U (take i line) = []))"

definition has_bracket_id_leak :: "unicode \<Rightarrow> pystr \<Rightarrow> bool" where
  "has_bracket_id_leak U line = list_ex (\<lambda>m. \<not> id_exempt U line m) (bracket_ids line)"

section \<open>Exempt values of lockfiles\<close>

record url_split =
  us_scheme :: pystr
  us_hostname :: "pystr option"
  us_username :: "pystr option"
  us_port :: "py_exn + int option"

type_synonym urlsplit = "pystr \<Rightarrow> py_exn + url_split"

definition PUBLIC_REGISTRY_HOSTS :: "pystr list" where
  "PUBLIC_REGISTRY_HOSTS = map ascii [''registry.npmjs.org'', ''registry.yarnpkg.com'', ''crates.io'', ''static.crates.io'']"

definition public_registry_url :: "urlsplit \<Rightarrow> pystr \<Rightarrow> py_exn + bool" where
  "public_registry_url US value =
     rbind (US (takeWhile (\<lambda>c. c \<noteq> 35) value)) (\<lambda>url.
     if us_scheme url = ascii ''https'' \<and> us_hostname url \<in> Some ` set PUBLIC_REGISTRY_HOSTS \<and> us_username url = None
     then rmap (\<lambda>port. port = None) (us_port url) else Inr False)"

text \<open>An SRI value. In base64 with validation, \<open>n\<close> characters and \<open>k\<close> of padding fill groups of four, and
  decode to \<open>6 * n div 8\<close> octets.\<close>

definition b64_point :: "nat \<Rightarrow> bool" where
  "b64_point c \<longleftrightarrow> capital c \<or> small c \<or> digit c \<or> c = 43 \<or> c = 47"

definition SRI_DIGEST_BYTES :: "(pystr \<times> nat) list" where
  "SRI_DIGEST_BYTES = [(ascii ''sha1'', 20), (ascii ''sha256'', 32), (ascii ''sha384'', 48), (ascii ''sha512'', 64)]"

definition sri_digest :: "pystr \<Rightarrow> bool" where
  "sri_digest part =
     (case dropWhile (\<lambda>c. c \<noteq> 45) part of
        [] \<Rightarrow> False
      | _ # data \<Rightarrow>
          (case map_of SRI_DIGEST_BYTES (takeWhile (\<lambda>c. c \<noteq> 45) part) of
             None \<Rightarrow> False
           | Some octets \<Rightarrow>
               let n = length (takeWhile b64_point data); pads = dropWhile b64_point data; k = length pads in
               0 < n \<and> list_all (\<lambda>c. c = 61) pads \<and> k \<le> 2 \<and> (n + k) mod 4 = 0 \<and> 6 * n div 8 = octets))"

definition yarn_checksum :: "pystr \<Rightarrow> bool" where
  "yarn_checksum value =
     (let hex = (\<lambda>h. 32 \<le> length h \<and> list_all (\<lambda>c. digit c \<or> in_range 97 102 c) h);
          key = (\<lambda>p. takeWhile digit p \<noteq> [] \<and>
            (case dropWhile digit p of c # r \<Rightarrow> small c \<and> list_all digit r | [] \<Rightarrow> False))
      in case split_at 47 value of [h] \<Rightarrow> hex h | [p, h] \<Rightarrow> key p \<and> hex h | _ \<Rightarrow> False)"

text \<open>\<open>[a-z0-9][\w.-]*\<close> at the start, and what follows.\<close>

definition package_name :: "unicode \<Rightarrow> pystr \<Rightarrow> pystr option" where
  "package_name U s =
     (case s of c # r \<Rightarrow> if small c \<or> digit c then Some (dropWhile (\<lambda>c. uc_word U c \<or> c = 46 \<or> c = 45) r) else None
      | [] \<Rightarrow> None)"

definition literal :: "pystr \<Rightarrow> pystr \<Rightarrow> pystr option" where
  "literal t s = (if starts t s then Some (drop (length t) s) else None)"

definition npm_resolution :: "unicode \<Rightarrow> pystr \<Rightarrow> bool" where
  "npm_resolution U value =
     (let scoped = (case literal (ascii ''@'') value of
            None \<Rightarrow> Some value
          | Some r \<Rightarrow> Option.bind (package_name U r) (literal (ascii ''/'')))
      in case Option.bind (Option.bind scoped (package_name U)) (literal (ascii ''@npm:'')) of
           None \<Rightarrow> False
         | Some v \<Rightarrow> v \<noteq> [] \<and> list_all (\<lambda>c. digit c \<or> capital c \<or> small c \<or> c \<in> {46, 43, 45}) v)"

text \<open>\<open>str.split()\<close>\<close>

function words :: "unicode \<Rightarrow> pystr \<Rightarrow> pystr list" where
  "words U s =
     (let r = dropWhile (uc_space U) s in
      if r = [] then [] else takeWhile (\<lambda>c. \<not> uc_space U c) r # words U (dropWhile (\<lambda>c. \<not> uc_space U c) r))"
  by pat_completeness auto
termination
proof (relation "measure (\<lambda>(U, s). length s)", goal_cases)
  case (2 U s r)
  then have "\<not> uc_space U (hd r)" by (simp add: hd_dropWhile)
  then have "length (dropWhile (\<lambda>c. \<not> uc_space U c) r) < length r"
    using 2(2) by (cases r) (simp_all add: le_imp_less_Suc length_dropWhile_le)
  moreover have "length r \<le> length s" using 2(1) by (simp add: length_dropWhile_le)
  ultimately show ?case by simp
qed simp

declare words.simps [simp del]

definition strip_quotes :: "pystr \<Rightarrow> pystr" where
  "strip_quotes s = (let q = (\<lambda>c. c = 34 \<or> c = 39) in rev (dropWhile q (rev (dropWhile q s))))"

definition exempt_remainder :: "unicode \<Rightarrow> urlsplit \<Rightarrow> pystr \<Rightarrow> pystr \<Rightarrow> py_exn + pystr option" where
  "exempt_remainder U US field value =
     (let value = strip_quotes (text_strip U value); fragment = dropWhile (\<lambda>c. c \<noteq> 35) value in
      if field \<in> {ascii ''resolved'', ascii ''tarball''}
      then rmap (\<lambda>p. if p then Some fragment else None) (public_registry_url US value)
      else if field = ascii ''integrity''
      then Inr (if words U value \<noteq> [] \<and> list_all sri_digest (words U value) then Some [] else None)
      else if field = ascii ''checksum'' then Inr (if yarn_checksum value then Some [] else None)
      else if field = ascii ''resolution''
      then (if npm_resolution U value then Inr (Some [])
            else if 64 \<notin> set value then Inr None
            else rmap (\<lambda>p. if p then Some fragment else None)
                   (public_registry_url US (rev (takeWhile (\<lambda>c. c \<noteq> 64) (rev value)))))
      else Inr None)"

section \<open>The fields of a lockfile\<close>

text \<open>A match of one of the field patterns: the text is lead, value and rest.\<close>

record field_match =
  fm_lead :: pystr
  fm_field :: pystr
  fm_value :: pystr
  fm_rest :: pystr

definition one_of :: "pystr list \<Rightarrow> pystr \<Rightarrow> (pystr \<times> pystr) option" where
  "one_of names s = map_option (\<lambda>f. (f, drop (length f) s)) (find (\<lambda>f. starts f s) names)"

definition up_to :: "pystr \<Rightarrow> pystr \<Rightarrow> pystr" where
  "up_to s r = take (length s - length r) s"

definition after_space :: "unicode \<Rightarrow> pystr \<Rightarrow> pystr" where
  "after_space U s = dropWhile (uc_space U) s"

text \<open>What follows the string body that a text starts with, \<open>(?:[^"\\]|\\.)*"\<close>.\<close>

fun after_quote :: "pystr \<Rightarrow> pystr option" where
  "after_quote [] = None"
| "after_quote (c # s) =
     (if c = 34 then Some s
      else if c = 92 then (case s of [] \<Rightarrow> None | d # s' \<Rightarrow> if d = 10 then None else after_quote s')
      else after_quote s)"

definition npm_field :: "unicode \<Rightarrow> pystr \<Rightarrow> field_match option" where
  "npm_field U line =
     Option.bind (literal [34] (after_space U line)) (\<lambda>r.
     Option.bind (one_of [ascii ''resolved'', ascii ''integrity''] r) (\<lambda>(field, r).
     Option.bind (literal [34] r) (\<lambda>r.
     Option.bind (literal [58] (after_space U r)) (\<lambda>r.
     let v = after_space U r in
     Option.bind (literal [34] v) (\<lambda>r.
     map_option (\<lambda>rest. \<lparr>fm_lead = up_to line v, fm_field = field, fm_value = up_to v rest, fm_rest = rest\<rparr>)
       (after_quote r))))))"

definition yarn1_field :: "unicode \<Rightarrow> pystr \<Rightarrow> field_match option" where
  "yarn1_field U line =
     Option.bind (one_of [ascii ''resolved'', ascii ''integrity''] (after_space U line)) (\<lambda>(field, r).
     let v = after_space U r in
     if after_space U line = line \<or> v = r \<or> v = [] then None
     else Some \<lparr>fm_lead = up_to line v, fm_field = field, fm_value = v, fm_rest = []\<rparr>)"

definition yarn2_field :: "unicode \<Rightarrow> pystr \<Rightarrow> field_match option" where
  "yarn2_field U line =
     Option.bind (one_of [ascii ''resolution'', ascii ''checksum''] (after_space U line)) (\<lambda>(field, r).
     Option.bind (literal [58] r) (\<lambda>r.
     let v = after_space U r in
     if after_space U line = line \<or> v = [] then None
     else Some \<lparr>fm_lead = up_to line v, fm_field = field, fm_value = v, fm_rest = []\<rparr>))"

text \<open>The field of pnpm at the start of \<open>s\<close>, after \<open>r\<close>'s white space; its value ends at a comma or a
  brace, which must not open a map, without the white space before that.\<close>

definition pnpm_from :: "unicode \<Rightarrow> pystr \<Rightarrow> pystr \<Rightarrow> field_match option" where
  "pnpm_from U s r =
     Option.bind (one_of [ascii ''integrity'', ascii ''tarball''] (after_space U r)) (\<lambda>(field, r).
     Option.bind (literal [58] r) (\<lambda>r.
     let v = after_space U r;
         run = takeWhile (\<lambda>c. c \<notin> {44, 123, 125}) v; follow = dropWhile (\<lambda>c. c \<notin> {44, 123, 125}) v;
         value = rev (dropWhile (uc_space U) (rev run)) in
     if run = [] \<or> (follow \<noteq> [] \<and> hd follow = 123) then None
     else Some \<lparr>fm_lead = up_to s v, fm_field = field, fm_value = value, fm_rest = drop (length value) v\<rparr>))"

definition pnpm_field :: "unicode \<Rightarrow> bool \<Rightarrow> pystr \<Rightarrow> field_match option" where
  "pnpm_field U line_start s =
     (case (if line_start then pnpm_from U s s else None) of
        Some m \<Rightarrow> Some m
      | None \<Rightarrow> (case s of c # r \<Rightarrow> if c = 123 \<or> c = 44 then pnpm_from U s r else None | [] \<Rightarrow> None))"

text \<open>\<open>drop\<close>, and \<open>pattern.sub(drop, line)\<close> for the anchored patterns and for that of pnpm.\<close>

definition drop_value :: "unicode \<Rightarrow> urlsplit \<Rightarrow> field_match \<Rightarrow> py_exn + pystr" where
  "drop_value U US m =
     rmap (\<lambda>rest. case rest of None \<Rightarrow> fm_lead m @ fm_value m | Some rest \<Rightarrow> fm_lead m @ rest)
       (exempt_remainder U US (fm_field m) (fm_value m))"

definition anchored_sub :: "unicode \<Rightarrow> urlsplit \<Rightarrow> (pystr \<Rightarrow> field_match option) \<Rightarrow> pystr \<Rightarrow> py_exn + pystr" where
  "anchored_sub U US pattern line =
     (case pattern line of None \<Rightarrow> Inr line | Some m \<Rightarrow> rmap (\<lambda>s. s @ fm_rest m) (drop_value U US m))"

text \<open>The parts of a match make up the text.\<close>

definition parts_of :: "pystr \<Rightarrow> field_match \<Rightarrow> bool" where
  "parts_of s m \<longleftrightarrow> s = fm_lead m @ fm_value m @ fm_rest m \<and> fm_value m \<noteq> []"

lemma literal_Some: "literal t s = Some r \<longleftrightarrow> s = t @ r"
proof
  assume "literal t s = Some r"
  then show "s = t @ r" by (metis append_take_drop_id literal_def option.distinct(1) option.inject starts_def)
qed (simp add: literal_def starts_def)

lemma one_of_Some: "one_of names s = Some (name, r) \<Longrightarrow> s = name @ r"
  unfolding one_of_def find_Some_iff map_option_eq_Some starts_def
  by (metis append_take_drop_id find_Some_iff prod.inject)

lemma up_to_suffix: "suffix r s \<Longrightarrow> up_to s r @ r = s"
  by (auto simp: up_to_def suffix_def)

lemma suffix_literal: "literal t s = Some r \<Longrightarrow> suffix r s"
  by (auto simp: literal_Some suffix_def)

lemma suffix_one_of: "one_of names s = Some (name, r) \<Longrightarrow> suffix r s"
  by (auto simp: suffix_def dest: one_of_Some)

lemma suffix_after_space: "suffix (after_space U s) s"
  unfolding after_space_def by (rule suffix_dropWhile)

lemma suffix_after_quote: "after_quote s = Some r \<Longrightarrow> suffix r s"
  by (induction s rule: after_quote.induct) (auto split: if_splits list.splits simp: suffix_Cons)

lemma after_quote_shorter: "after_quote s = Some r \<Longrightarrow> length r < length s"
  by (induction s rule: after_quote.induct) (fastforce split: if_splits list.splits)+

lemmas suffix_rules = suffix_literal suffix_one_of suffix_after_space suffix_after_quote

lemma npm_parts:
  assumes "npm_field U s = Some m"
  shows "parts_of s m"
proof -
  obtain r1 f r2 r3 r4 r5 rest where m: "literal [34] (after_space U s) = Some r1" "one_of [ascii ''resolved'', ascii ''integrity''] r1 = Some (f, r2)"
    "literal [34] r2 = Some r3" "literal [58] (after_space U r3) = Some r4" "literal [34] (after_space U r4) = Some r5"
    "after_quote r5 = Some rest"
    "m = \<lparr>fm_lead = up_to s (after_space U r4), fm_field = f, fm_value = up_to (after_space U r4) rest, fm_rest = rest\<rparr>"
    using assms by (auto simp: npm_field_def Let_def bind_eq_Some_conv)
  have "suffix (after_space U r4) s" using m(1-4) suffix_rules suffix_order.trans by meson
  moreover have "suffix rest (after_space U r4)" using m(5,6) suffix_rules suffix_order.trans by meson
  moreover have "length rest < length (after_space U r4)"
    using after_quote_shorter [OF m(6)] m(5) by (simp add: literal_Some)
  ultimately show ?thesis unfolding m(7) parts_of_def by (auto simp: up_to_suffix) (auto simp: up_to_def)
qed

lemma yarn1_parts:
  assumes "yarn1_field U s = Some m"
  shows "parts_of s m"
proof -
  obtain f r where m: "one_of [ascii ''resolved'', ascii ''integrity''] (after_space U s) = Some (f, r)"
    "after_space U r \<noteq> []" "m = \<lparr>fm_lead = up_to s (after_space U r), fm_field = f, fm_value = after_space U r, fm_rest = []\<rparr>"
    using assms by (auto simp: yarn1_field_def Let_def bind_eq_Some_conv split: if_splits)
  have "suffix (after_space U r) s" using m(1) suffix_rules suffix_order.trans by meson
  then show ?thesis using m(2,3) by (simp add: parts_of_def up_to_suffix)
qed

lemma yarn2_parts:
  assumes "yarn2_field U s = Some m"
  shows "parts_of s m"
proof -
  obtain f r r' where m: "one_of [ascii ''resolution'', ascii ''checksum''] (after_space U s) = Some (f, r)"
    "literal [58] r = Some r'"
    "after_space U r' \<noteq> []" "m = \<lparr>fm_lead = up_to s (after_space U r'), fm_field = f, fm_value = after_space U r', fm_rest = []\<rparr>"
    using assms by (auto simp: yarn2_field_def Let_def bind_eq_Some_conv split: if_splits)
  have "suffix (after_space U r') s" using m(1,2) suffix_rules suffix_order.trans by meson
  then show ?thesis using m(3,4) by (simp add: parts_of_def up_to_suffix)
qed

lemma trimmed_end: "\<exists>b. run = rev (dropWhile p (rev run)) @ b \<and> list_all p b"
proof -
  have "run = rev (takeWhile p (rev run) @ dropWhile p (rev run))" by simp
  then have "run = rev (dropWhile p (rev run)) @ rev (takeWhile p (rev run))" by (simp only: rev_append)
  moreover have "list_all p (rev (takeWhile p (rev run)))" by (auto simp: list_all_iff dest: set_takeWhileD)
  ultimately show ?thesis by blast
qed

lemma pnpm_from_parts:
  assumes "pnpm_from U s r = Some m" "suffix r s"
  shows "parts_of s m"
proof -
  obtain f r1 r2 where m: "one_of [ascii ''integrity'', ascii ''tarball''] (after_space U r) = Some (f, r1)"
    "literal [58] r1 = Some r2"
    using assms(1) by (auto simp: pnpm_from_def bind_eq_Some_conv)
  let ?v = "after_space U r2"
  let ?run = "takeWhile (\<lambda>c. c \<notin> {44, 123, 125}) ?v"
  let ?trimmed = "rev (dropWhile (uc_space U) (rev ?run))"
  have v: "?run \<noteq> []" "m = \<lparr>fm_lead = up_to s ?v, fm_field = f, fm_value = ?trimmed, fm_rest = drop (length ?trimmed) ?v\<rparr>"
    using assms(1) m by (auto simp: pnpm_from_def Let_def split: if_splits)
  have "suffix ?v s" using m assms(2) suffix_rules suffix_order.trans by meson
  moreover obtain b where b: "?run = ?trimmed @ b" "list_all (uc_space U) b" using trimmed_end by blast
  have "?v = ?trimmed @ (b @ dropWhile (\<lambda>c. c \<notin> {44, 123, 125}) ?v)"
    using b(1) by (metis append.assoc takeWhile_dropWhile_id)
  then have "?trimmed @ drop (length ?trimmed) ?v = ?v" by (metis append_eq_conv_conj)
  moreover have "?trimmed \<noteq> []"
  proof
    assume n: "?trimmed = []"
    have h: "hd ?run = hd ?v" using v(1) by (cases ?v) (auto split: if_splits)
    have "?v \<noteq> []" using v(1) by auto
    then have "\<not> uc_space U (hd ?v)" unfolding after_space_def by (rule hd_dropWhile)
    moreover have "?run = b" using b(1) unfolding n by simp
    then have "uc_space U (hd ?run)" using v(1) b(2) by (metis list_all_iff hd_in_set)
    ultimately show False unfolding h by (rule notE)
  qed
  ultimately show ?thesis unfolding v(2) parts_of_def by (simp add: up_to_suffix)
qed

lemma pnpm_parts: "pnpm_field U b s = Some m \<Longrightarrow> parts_of s m"
  by (auto simp: pnpm_field_def suffix_Cons intro: pnpm_from_parts split: option.splits if_splits list.splits)

lemma parts_shorter: "parts_of s m \<Longrightarrow> length (fm_rest m) < length s"
  by (auto simp: parts_of_def)

text \<open>For pnpm, every match of the line, from left to right; the line start is only before the first.\<close>

function pnpm_sub :: "unicode \<Rightarrow> urlsplit \<Rightarrow> bool \<Rightarrow> pystr \<Rightarrow> py_exn + pystr" where
  "pnpm_sub U US line_start [] = Inr []"
| "pnpm_sub U US line_start (c # s) =
     (case pnpm_field U line_start (c # s) of
        Some m \<Rightarrow> rbind (drop_value U US m) (\<lambda>kept. rmap (append kept) (pnpm_sub U US False (fm_rest m)))
      | None \<Rightarrow> rmap (Cons c) (pnpm_sub U US False s))"
  by pat_completeness auto
termination
  by (relation "measure (\<lambda>(U, US, b, s). length s)") (use parts_shorter [OF pnpm_parts] in fastforce)+

definition term_text :: "unicode \<Rightarrow> urlsplit \<Rightarrow> pystr \<Rightarrow> pystr \<Rightarrow> py_exn + pystr" where
  "term_text U US name line =
     (if name = ascii ''package-lock.json'' then anchored_sub U US (npm_field U) line
      else if name = ascii ''yarn.lock''
      then rbind (anchored_sub U US (yarn1_field U) line) (anchored_sub U US (yarn2_field U))
      else if name = ascii ''pnpm-lock.yaml'' then pnpm_sub U US True line
      else Inr line)"

section \<open>The scan\<close>

definition any_term :: "pystr list \<Rightarrow> pystr \<Rightarrow> bool" where
  "any_term terms s = list_ex (\<lambda>t. text_in t s) terms"

definition term_classes :: "pystr \<Rightarrow> leak_class list" where
  "term_classes s =
     (if any_term OPS_VOCAB s then [Ops_Vocab] else []) @
     (if any_term INTERNAL_PATHS s then [Internal_Path] else []) @
     (if any_term NAMED_DECIDER s then [Named_Decider] else [])"

definition classify :: "unicode \<Rightarrow> urlsplit \<Rightarrow> pystr \<Rightarrow> pystr \<Rightarrow> py_exn + leak_class list" where
  "classify U US line name =
     rmap (\<lambda>matched. (if has_bracket_id_leak U line then [Bracketed_Id] else []) @ term_classes matched)
       (term_text U US name line)"

text \<open>\<open>_COMMENT_LINE\<close>: a hash, and white space or the end.\<close>

definition comment_line :: "unicode \<Rightarrow> pystr \<Rightarrow> bool" where
  "comment_line U s = (case s of c # r \<Rightarrow> c = 35 \<and> (r = [] \<or> uc_space U (hd r)) | [] \<Rightarrow> False)"

definition load_allowlist :: "unicode \<Rightarrow> lint_tree \<Rightarrow> pystr list" where
  "load_allowlist U t =
     (case lt_allowlist t of
        None \<Rightarrow> []
      | Some s \<Rightarrow> filter (\<lambda>line. text_strip U line \<noteq> [] \<and> \<not> comment_line U (after_space U line)) (splitlines s))"

text \<open>A hit: the path, the line's number, its classes and its stripped text.\<close>

type_synonym leak_hit = "pystr list \<times> nat \<times> leak_class list \<times> pystr"

definition kept_file :: "pystr list \<Rightarrow> bool" where
  "kept_file f \<longleftrightarrow> path_name f \<notin> set SELF_NAMES \<and> (path_suffix f \<in> set SCAN_SUFFIXES \<or> path_name f \<in> set SCAN_NAMES)"

definition line_hits :: "unicode \<Rightarrow> urlsplit \<Rightarrow> pystr list \<Rightarrow> pystr list \<Rightarrow> nat \<times> pystr \<Rightarrow> py_exn + leak_hit list" where
  "line_hits U US allow f l =
     (case l of (i, line) \<Rightarrow>
       if text_strip U line \<in> set allow then Inr []
       else rmap (\<lambda>classes. if classes = [] then [] else [(f, i, classes, text_strip U line)])
              (classify U US line (path_name f)))"

fun scan_files :: "unicode \<Rightarrow> urlsplit \<Rightarrow> lint_tree \<Rightarrow> pystr list \<Rightarrow> pystr list list \<Rightarrow> py_exn + leak_hit list" where
  "scan_files U US t allow [] = Inr []"
| "scan_files U US t allow (f # fs) =
     (if \<not> kept_file f then scan_files U US t allow fs
      else (case lt_text t f of
              None \<Rightarrow> scan_files U US t allow fs
            | Some s \<Rightarrow>
                rbind (rmapM (line_hits U US allow f) (numbered_lines s)) (\<lambda>hits.
                rmap (append (concat hits)) (scan_files U US t allow fs))))"

text \<open>\<open>scan\<close> and \<open>main\<close>: \<open>None\<close> is the exception of a failing git.\<close>

definition scan :: "unicode \<Rightarrow> urlsplit \<Rightarrow> lint_tree \<Rightarrow> (py_exn + leak_hit list) option" where
  "scan U US t = map_option (\<lambda>out. scan_files U US t (load_allowlist U t) (tracked_files out)) (lt_ls_files t)"

definition leak_main :: "unicode \<Rightarrow> urlsplit \<Rightarrow> lint_tree \<Rightarrow> (py_exn + int \<times> leak_hit list) option" where
  "leak_main U US t = map_option (rmap (\<lambda>hits. (if hits = [] then 0 else 1, hits))) (scan U US t)"

section \<open>What a line hides\<close>

text \<open>\<open>finditer\<close> loses nothing: two matches do not overlap.\<close>

lemma bracket_end_Some:
  assumes "bracket_end line i = Some e"
  shows "line ! i = 91" "i < e" "e \<le> length line" "\<And>j. i < j \<Longrightarrow> j < e \<Longrightarrow> line ! j \<noteq> 91"
proof -
  let ?b = "takeWhile bracket_body (drop (Suc i) line)"
  have e: "line ! i = 91" "e = Suc (Suc (i + length ?b))" "Suc (i + length ?b) < length line" "line ! Suc (i + length ?b) = 93"
    using assms by (auto simp: bracket_end_def Let_def split: if_splits)
  show "line ! i = 91" "i < e" "e \<le> length line" using e by simp_all
  show "line ! j \<noteq> 91" if j: "i < j" "j < e" for j
  proof (cases "j = Suc (i + length ?b)")
    case False
    then have k: "j - Suc i < length ?b" using j e(2) by linarith
    have "drop (Suc i) line ! (j - Suc i) = line ! j" using j(1) e(3) k by (subst nth_drop) simp_all
    then have "?b ! (j - Suc i) = line ! j" using k by (simp only: takeWhile_nth)
    then have "bracket_body (line ! j)" using nth_mem [OF k] by (metis set_takeWhileD)
    then show ?thesis by (auto simp: bracket_body_def small_def digit_def in_range_def)
  qed (use e(4) in simp)
qed

lemma bracket_ids_iff: "(i, e) \<in> set (bracket_ids line) \<longleftrightarrow> i < length line \<and> bracket_end line i = Some e"
  by (auto simp: bracket_ids_def split: option.splits)

lemma bracket_ids_disjoint:
  assumes "(i, e) \<in> set (bracket_ids line)" "(j, f) \<in> set (bracket_ids line)" "i < j"
  shows "e \<le> j"
proof (rule leI, rule notI)
  assume "j < e"
  then have "line ! j \<noteq> 91" using assms(1,3) bracket_end_Some(4) unfolding bracket_ids_iff by blast
  then show False using assms(2) bracket_end_Some(1) unfolding bracket_ids_iff by blast
qed

text \<open>What term matching may be given for a line: values that are exempt replaced by what is left of them.\<close>

inductive exempted :: "unicode \<Rightarrow> urlsplit \<Rightarrow> pystr \<Rightarrow> pystr \<Rightarrow> bool" for U US where
  exempted_Nil: "exempted U US [] []"
| exempted_keep: "exempted U US s t \<Longrightarrow> exempted U US (c # s) (c # t)"
| exempted_drop: "exempt_remainder U US field value = Inr (Some r) \<Longrightarrow> exempted U US s t \<Longrightarrow> exempted U US (value @ s) (r @ t)"

lemma exempted_same: "exempted U US s s"
  by (induction s) (auto intro: exempted.intros)

lemma exempted_append: "exempted U US s t \<Longrightarrow> exempted U US (a @ s) (a @ t)"
  by (induction a) (auto intro: exempted.intros)

lemma drop_value_exempted:
  assumes "drop_value U US m = Inr kept" "exempted U US s t"
  shows "exempted U US (fm_lead m @ fm_value m @ s) (kept @ t)"
proof -
  obtain r where r: "exempt_remainder U US (fm_field m) (fm_value m) = Inr r"
    "kept = fm_lead m @ (case r of None \<Rightarrow> fm_value m | Some x \<Rightarrow> x)"
    using assms(1) by (auto simp: drop_value_def raise_simps split: option.splits)
  have "exempted U US (fm_value m @ s) ((case r of None \<Rightarrow> fm_value m | Some x \<Rightarrow> x) @ t)"
    using r(1) assms(2) exempted_append exempted_drop by (cases r) auto
  then show ?thesis unfolding r(2) append.assoc by (rule exempted_append)
qed

lemma anchored_exempted:
  assumes "anchored_sub U US pattern s = Inr t" "\<And>m. pattern s = Some m \<Longrightarrow> parts_of s m"
  shows "exempted U US s t"
proof (cases "pattern s")
  case None
  then show ?thesis using assms(1) exempted_same by (simp add: anchored_sub_def)
next
  case (Some m)
  then obtain kept where k: "drop_value U US m = Inr kept" "t = kept @ fm_rest m"
    using assms(1) by (auto simp: anchored_sub_def raise_simps)
  have "s = fm_lead m @ fm_value m @ fm_rest m" using assms(2) Some by (simp add: parts_of_def)
  then show ?thesis using drop_value_exempted [OF k(1) exempted_same] k(2) by metis
qed

lemma pnpm_exempted: "pnpm_sub U US b s = Inr t \<Longrightarrow> exempted U US s t"
proof (induction U US b s arbitrary: t rule: pnpm_sub.induct)
  case (2 U US b c s)
  show ?case
  proof (cases "pnpm_field U b (c # s)")
    case None
    then show ?thesis using 2 by (auto simp: raise_simps intro: exempted_keep)
  next
    case (Some m)
    then obtain kept t' where k: "drop_value U US m = Inr kept" "pnpm_sub U US False (fm_rest m) = Inr t'" "t = kept @ t'"
      using 2(3) by (auto simp: raise_simps)
    have "c # s = fm_lead m @ fm_value m @ fm_rest m" using pnpm_parts [OF Some] by (simp add: parts_of_def)
    then show ?thesis using drop_value_exempted [OF k(1) 2(2) [OF Some k(2)]] k(3) by metis
  qed
qed (auto intro: exempted_Nil)

definition LOCKFILES :: "pystr list" where
  "LOCKFILES = map ascii [''package-lock.json'', ''yarn.lock'', ''pnpm-lock.yaml'']"

lemma term_text_exempted:
  assumes "term_text U US name line = Inr s"
  shows "(exempted U US)\<^sup>*\<^sup>* line s" "name \<notin> set LOCKFILES \<Longrightarrow> s = line"
proof -
  show "s = line" if "name \<notin> set LOCKFILES" using that assms by (simp add: term_text_def LOCKFILES_def)
  show "(exempted U US)\<^sup>*\<^sup>* line s"
  proof (cases "name = ascii ''yarn.lock''")
    case True
    then obtain t where "anchored_sub U US (yarn1_field U) line = Inr t" "anchored_sub U US (yarn2_field U) t = Inr s"
      using assms by (auto simp: term_text_def ascii_def raise_simps)
    then have "exempted U US line t" "exempted U US t s"
      using anchored_exempted yarn1_parts yarn2_parts by blast+
    then show ?thesis by (meson converse_rtranclp_into_rtranclp rtranclp.rtrancl_refl)
  next
    case False
    then have "exempted U US line s"
      using assms anchored_exempted [of U US "npm_field U"] npm_parts pnpm_exempted exempted_same
      by (fastforce simp: term_text_def split: if_splits)
    then show ?thesis by blast
  qed
qed

lemma term_classes_Nil: "term_classes s = [] \<longleftrightarrow> (\<forall>w \<in> set (OPS_VOCAB @ INTERNAL_PATHS @ NAMED_DECIDER). \<not> text_in w s)"
  by (auto simp: term_classes_def any_term_def list_ex_iff)

lemma has_bracket_id_leak_iff: "\<not> has_bracket_id_leak U line \<longleftrightarrow> (\<forall>m \<in> set (bracket_ids line). id_exempt U line m)"
  by (auto simp: has_bracket_id_leak_def list_ex_iff)

text \<open>A line without a class.\<close>

lemma classify_Nil:
  assumes "classify U US line name = Inr []"
  shows "\<forall>m \<in> set (bracket_ids line). id_exempt U line m"
    and "\<exists>s. (exempted U US)\<^sup>*\<^sup>* line s \<and> (name \<notin> set LOCKFILES \<longrightarrow> s = line) \<and>
      (\<forall>w \<in> set (OPS_VOCAB @ INTERNAL_PATHS @ NAMED_DECIDER). \<not> text_in w s)"
proof -
  obtain s where s: "term_text U US name line = Inr s" "term_classes s = []" "\<not> has_bracket_id_leak U line"
    using assms by (auto simp: classify_def raise_simps split: if_splits)
  show "\<forall>m \<in> set (bracket_ids line). id_exempt U line m" using s(3) unfolding has_bracket_id_leak_iff .
  show "\<exists>s. (exempted U US)\<^sup>*\<^sup>* line s \<and> (name \<notin> set LOCKFILES \<longrightarrow> s = line) \<and>
      (\<forall>w \<in> set (OPS_VOCAB @ INTERNAL_PATHS @ NAMED_DECIDER). \<not> text_in w s)"
    using term_text_exempted [OF s(1)] s(2) unfolding term_classes_Nil by blast
qed

section \<open>What a run says\<close>

definition listed :: "lint_tree \<Rightarrow> pystr list list" where
  "listed t = (case lt_ls_files t of None \<Rightarrow> [] | Some out \<Rightarrow> tracked_files out)"

definition scanned_files :: "lint_tree \<Rightarrow> pystr list list" where
  "scanned_files t = filter (\<lambda>f. kept_file f \<and> lt_text t f \<noteq> None) (listed t)"

definition scanned_lines :: "lint_tree \<Rightarrow> pystr list \<Rightarrow> (nat \<times> pystr) list" where
  "scanned_lines t f = numbered_lines (the (lt_text t f))"

text \<open>The hits of a line, and of a tree, when nothing raises.\<close>

definition line_classes :: "unicode \<Rightarrow> urlsplit \<Rightarrow> pystr list \<Rightarrow> pystr \<Rightarrow> leak_class list" where
  "line_classes U US f line = (case classify U US line (path_name f) of Inl _ \<Rightarrow> [] | Inr cs \<Rightarrow> cs)"

definition hits_on :: "unicode \<Rightarrow> urlsplit \<Rightarrow> pystr list \<Rightarrow> pystr list \<Rightarrow> nat \<times> pystr \<Rightarrow> leak_hit list" where
  "hits_on U US allow f l =
     (case l of (i, line) \<Rightarrow>
       if text_strip U line \<in> set allow \<or> line_classes U US f line = [] then []
       else [(f, i, line_classes U US f line, text_strip U line)])"

definition tree_hits :: "unicode \<Rightarrow> urlsplit \<Rightarrow> lint_tree \<Rightarrow> leak_hit list" where
  "tree_hits U US t =
     concat (map (\<lambda>f. concat (map (hits_on U US (load_allowlist U t) f) (scanned_lines t f))) (scanned_files t))"

lemma line_hits_Inr:
  assumes "line_hits U US allow f l = Inr h"
  shows "h = hits_on U US allow f l" "text_strip U (snd l) \<in> set allow \<or> (\<exists>cs. classify U US (snd l) (path_name f) = Inr cs)"
  using assms by (auto simp: line_hits_def hits_on_def line_classes_def raise_simps split: prod.splits if_splits)

lemma rmapM_line_hits:
  assumes "rmapM (line_hits U US allow f) ls = Inr hs"
  shows "hs = map (hits_on U US allow f) ls"
    "\<forall>l \<in> set ls. text_strip U (snd l) \<in> set allow \<or> (\<exists>cs. classify U US (snd l) (path_name f) = Inr cs)"
  using assms by (induction ls arbitrary: hs) (auto simp: raise_simps dest: line_hits_Inr)

lemma scan_files_Inr:
  assumes "scan_files U US t allow fs = Inr hits"
  shows "hits = concat (map (\<lambda>f. concat (map (hits_on U US allow f) (scanned_lines t f)))
      (filter (\<lambda>f. kept_file f \<and> lt_text t f \<noteq> None) fs))"
    and "\<forall>f \<in> set (filter (\<lambda>f. kept_file f \<and> lt_text t f \<noteq> None) fs). \<forall>l \<in> set (scanned_lines t f).
      text_strip U (snd l) \<in> set allow \<or> (\<exists>cs. classify U US (snd l) (path_name f) = Inr cs)"
  using assms
  by (induction fs arbitrary: hits)
    (auto simp: scanned_lines_def raise_simps dest: rmapM_line_hits split: if_splits option.splits)

lemma scan_Inr:
  assumes "scan U US t = Some (Inr hits)"
  shows "hits = tree_hits U US t"
    and "\<forall>f \<in> set (scanned_files t). \<forall>l \<in> set (scanned_lines t f).
      text_strip U (snd l) \<in> set (load_allowlist U t) \<or> (\<exists>cs. classify U US (snd l) (path_name f) = Inr cs)"
proof -
  obtain out where o: "lt_ls_files t = Some out" "scan_files U US t (load_allowlist U t) (tracked_files out) = Inr hits"
    using assms by (auto simp: scan_def)
  have "listed t = tracked_files out" using o(1) by (simp add: listed_def)
  then show "hits = tree_hits U US t" unfolding tree_hits_def scanned_files_def using scan_files_Inr(1) [OF o(2)] by simp
  show "\<forall>f \<in> set (scanned_files t). \<forall>l \<in> set (scanned_lines t f).
      text_strip U (snd l) \<in> set (load_allowlist U t) \<or> (\<exists>cs. classify U US (snd l) (path_name f) = Inr cs)"
    unfolding scanned_files_def \<open>listed t = tracked_files out\<close> using scan_files_Inr(2) [OF o(2)] .
qed

interpretation leaks: allowlist_scan
    "tree_hits U US" scanned_files scanned_lines "\<lambda>t. hits_on U US (load_allowlist U t)"
    "\<lambda>f line. line_classes U US f line \<noteq> []" "text_strip U" "load_allowlist U" for U US
  by unfold_locales (auto simp: tree_hits_def hits_on_def)

lemma leak_main_Inr:
  assumes "leak_main U US t = Some (Inr (c, hits))"
  shows "scan U US t = Some (Inr hits)" "c = (if hits = [] then 0 else 1)"
  using assms by (auto simp: leak_main_def raise_simps)

lemma leak_main_clean:
  assumes "leak_main U US t = Some (Inr (0, hits))" "f \<in> set (scanned_files t)" "(i, line) \<in> set (scanned_lines t f)"
    "text_strip U line \<notin> set (load_allowlist U t)"
  shows "classify U US line (path_name f) = Inr []"
proof -
  note s = leak_main_Inr [OF assms(1)]
  have "tree_hits U US t = []" using s(2) scan_Inr(1) [OF s(1)] by (simp split: if_splits)
  then have "line_classes U US f line = []" using assms(2-4) leaks.clean_allowed by blast
  moreover obtain cs where "classify U US line (path_name f) = Inr cs" using scan_Inr(2) [OF s(1)] assms(2-4) by fastforce
  ultimately show ?thesis by (simp add: line_classes_def)
qed

text \<open>
  C38. A passing run of the leak check. Of every line it scanned that is not listed in the allowlist, each
  bracketed identifier has one of the exempt shapes, and none of the terms occurs in the line; in the
  three lockfiles, none occurs once values that are exempt are taken away.
\<close>

theorem passing_leak_lint:
  assumes "leak_main U US t = Some (Inr (0, hits))" "f \<in> set (scanned_files t)" "(i, line) \<in> set (scanned_lines t f)"
    "text_strip U line \<notin> set (load_allowlist U t)"
  shows "(\<forall>m \<in> set (bracket_ids line). id_exempt U line m) \<and>
    (\<exists>s. (exempted U US)\<^sup>*\<^sup>* line s \<and> (path_name f \<notin> set LOCKFILES \<longrightarrow> s = line) \<and>
      (\<forall>w \<in> set (OPS_VOCAB @ INTERNAL_PATHS @ NAMED_DECIDER). \<not> text_in w s))"
  using classify_Nil [OF leak_main_clean [OF assms]] by blast

text \<open>The witness: a lockfile whose URL has a term.\<close>

definition demo_line :: pystr where
  "demo_line = ascii ('' '' @ [CHR 34] @ ''resolved'' @ [CHR 34] @ '': '' @ [CHR 34] @ ''https://crates.io/inbox'' @ [CHR 34])"

definition demo_urlsplit :: urlsplit where
  "demo_urlsplit url = Inr \<lparr>us_scheme = ascii ''https'', us_hostname = Some (ascii ''crates.io''), us_username = None, us_port = Inr None\<rparr>"

definition demo_tree :: lint_tree where
  "demo_tree = \<lparr>lt_ls_files = Some (ascii ''package-lock.json''), lt_text = (\<lambda>_. Some demo_line), lt_allowlist = None\<rparr>"

theorem passing_leak_lint_witness:
  "leak_main ascii_unicode demo_urlsplit demo_tree = Some (Inr (0, [])) \<and> text_in (ascii ''inbox'') demo_line \<and>
   (\<exists>s. (exempted ascii_unicode demo_urlsplit)\<^sup>*\<^sup>* demo_line s \<and> \<not> text_in (ascii ''inbox'') s)"
proof -
  let ?f = "[ascii ''package-lock.json'']"
  have files: "tracked_files (ascii ''package-lock.json'') = [?f]"
    by (simp add: tracked_files_def path_names_def splitlines_def line_break_def ascii_def)
  have lines: "numbered_lines demo_line = [(1, demo_line)]"
    by (simp add: demo_line_def numbered_lines_def splitlines_def line_break_def ascii_def)
  have kept: "kept_file ?f" by code_simp
  have classes: "classify ascii_unicode demo_urlsplit demo_line (ascii ''package-lock.json'') = Inr []"
    unfolding demo_line_def by code_simp
  have allow: "load_allowlist ascii_unicode demo_tree = []" by (simp add: load_allowlist_def demo_tree_def)
  have listed: "listed demo_tree = [?f]" by (simp add: listed_def demo_tree_def files)
  have content: "lt_text demo_tree ?f = Some demo_line" by (simp add: demo_tree_def)
  have run: "leak_main ascii_unicode demo_urlsplit demo_tree = Some (Inr (0, []))"
    by (simp add: leak_main_def scan_def allow files kept lines classes line_hits_def path_name_def raise_simps demo_tree_def
        load_allowlist_def)
  have "?f \<in> set (scanned_files demo_tree)" "(1, demo_line) \<in> set (scanned_lines demo_tree ?f)"
    using content by (simp_all add: scanned_files_def listed kept scanned_lines_def lines)
  then have "\<exists>s. (exempted ascii_unicode demo_urlsplit)\<^sup>*\<^sup>* demo_line s \<and> \<not> text_in (ascii ''inbox'') s"
    using passing_leak_lint [OF run] allow by (force simp: OPS_VOCAB_def)
  moreover have "text_in (ascii ''inbox'') demo_line" unfolding demo_line_def by code_simp
  ultimately show ?thesis using run by simp
qed

text \<open>A path that git quotes is not looked at either.\<close>

lemma quoted_not_scanned:
  assumes "last (path_name f) = 34" "path_name f \<noteq> []"
  shows "\<not> kept_file f"
proof
  assume "kept_file f"
  moreover have "\<forall>x \<in> set SCAN_SUFFIXES. x \<noteq> [] \<and> last x \<noteq> 34" by (simp add: SCAN_SUFFIXES_def ascii_def)
  moreover have "\<forall>x \<in> set SCAN_NAMES. last x \<noteq> 34" by (simp add: SCAN_NAMES_def ascii_def)
  ultimately show False using quoted_suffix [OF assms] assms(1) unfolding kept_file_def by blast
qed

text \<open>A heading of the first level is taken for a comment of the allowlist, and cannot be listed.\<close>

lemma title_not_allowed:
  assumes "\<not> uc_space U 35" "uc_space U c"
  shows "35 # c # s \<notin> set (load_allowlist U t)"
  using assms by (auto simp: load_allowlist_def comment_line_def after_space_def split: option.splits)

end
