(* ===== verification/Release_Version.thy ===== *)
theory Release_Version
  imports Json_Text
begin

text \<open>
  Release versions, of \<open>src/.github/release.py\<close>: the three patterns a version has to match, the order of
  versions, and the next version. A version is bumped to the least one above it of the asked level.
\<close>

section \<open>Versions and their order\<close>

datatype version = Version (major: nat) (minor: nat) (patch: nat)

instantiation version :: linorder
begin

definition less_version :: "version \<Rightarrow> version \<Rightarrow> bool" where
  "less_version v w \<longleftrightarrow>
     major v < major w \<or> major v = major w \<and>
       (minor v < minor w \<or> minor v = minor w \<and> patch v < patch w)"

definition less_eq_version :: "version \<Rightarrow> version \<Rightarrow> bool" where
  "less_eq_version v w \<longleftrightarrow> v = w \<or> v < w"

instance
proof
  fix v w x :: version
  show "v < w \<longleftrightarrow> v \<le> w \<and> \<not> w \<le> v" by (auto simp: less_version_def less_eq_version_def)
  show "v \<le> v" by (simp add: less_eq_version_def)
  show "v \<le> w \<Longrightarrow> w \<le> x \<Longrightarrow> v \<le> x" by (auto simp: less_version_def less_eq_version_def)
  show "v \<le> w \<Longrightarrow> w \<le> v \<Longrightarrow> v = w" by (auto simp: less_version_def less_eq_version_def)
  show "v \<le> w \<or> w \<le> v" by (cases v; cases w) (auto simp: less_version_def less_eq_version_def)
qed

end

section \<open>The patterns\<close>

datatype package_kind = Python | Npm | Cargo

datatype release_fault =
    Unknown_Package string | Version_Not_Text package_kind | Not_Release_Version string | Unknown_Bump string
  | No_Table string | No_Literal_Version string | Lock_Without_Entry string string string
  | Unknown_Commit string | Git_Show_Failed | Not_Release_Tag string string | Tag_Differs string string
  | Not_Ancestor string string | Merge_Base_Failed
  | Os_Error string | Py py_exn

definition is_digit :: "char \<Rightarrow> bool" where
  "is_digit c \<longleftrightarrow> digit_value c \<noteq> None"

text \<open>\<open>(0|[1-9][0-9]*)\<close> at the start of a text, before a character that is not a digit.\<close>

definition number_part :: "string \<Rightarrow> (string \<times> string) option" where
  "number_part s =
     (let ds = takeWhile is_digit s in
      if ds = [] \<or> hd ds = CHR ''0'' \<and> ds \<noteq> ''0'' then None else Some (ds, dropWhile is_digit s))"

definition dot :: "string \<Rightarrow> string option" where
  "dot s = (case s of c # r \<Rightarrow> if c = CHR ''.'' then Some r else None | [] \<Rightarrow> None)"

text \<open>\<open>CORE\<close>: its three groups, and what follows.\<close>

definition core_match :: "string \<Rightarrow> ((string \<times> string \<times> string) \<times> string) option" where
  "core_match s =
     Option.bind (number_part s) (\<lambda>(a, r).
     Option.bind (Option.bind (dot r) number_part) (\<lambda>(b, r).
     Option.bind (Option.bind (dot r) number_part) (\<lambda>(c, r). Some ((a, b, c), r))))"

definition npm_char :: "char \<Rightarrow> bool" where
  "npm_char c \<longleftrightarrow>
     is_digit c \<or> c = CHR ''.'' \<or> c = CHR ''-'' \<or>
     65 \<le> (of_char c :: nat) \<and> (of_char c :: nat) \<le> 90 \<or> 97 \<le> (of_char c :: nat) \<and> (of_char c :: nat) \<le> 122"

definition pre_release :: "string \<Rightarrow> bool" where
  "pre_release s =
     list_ex (\<lambda>tag. take (length tag) s = tag \<and> map_option snd (number_part (drop (length tag) s)) = Some [])
       [''a'', ''b'', ''rc'']"

text \<open>What each kind of package lets follow.\<close>

fun version_tail :: "package_kind \<Rightarrow> string \<Rightarrow> bool" where
  "version_tail Python s = (s = [] \<or> pre_release s)"
| "version_tail Npm s = (case s of [] \<Rightarrow> True | c # r \<Rightarrow> c = CHR ''-'' \<and> r \<noteq> [] \<and> list_all npm_char r)"
| "version_tail Cargo s = (s = [])"

text \<open>\<open>VERSION[kind].fullmatch(s)\<close>, with its groups.\<close>

definition version_match :: "package_kind \<Rightarrow> string \<Rightarrow> (string \<times> string \<times> string) option" where
  "version_match kind s =
     (case core_match s of Some (g, r) \<Rightarrow> if version_tail kind r then Some g else None | None \<Rightarrow> None)"

section \<open>The next version\<close>

text \<open>\<open>int(part)\<close> and \<open>str(n)\<close>; both refuse more than 4300 digits.\<close>

definition part_int :: "string \<Rightarrow> release_fault + nat" where
  "part_int s = (case digits_nat s of None \<Rightarrow> Inl (Py ValueError) | Some n \<Rightarrow> Inr n)"

definition str_nat :: "nat \<Rightarrow> release_fault + string" where
  "str_nat n = (if 4300 < length (nat_text n) then Inl (Py ValueError) else Inr (nat_text n))"

definition version_text :: "version \<Rightarrow> string" where
  "version_text v = nat_text (major v) @ ''.'' @ nat_text (minor v) @ ''.'' @ nat_text (patch v)"

definition version_str :: "version \<Rightarrow> release_fault + string" where
  "version_str v =
     rbind (str_nat (major v)) (\<lambda>_. rbind (str_nat (minor v)) (\<lambda>_. rmap (\<lambda>_. version_text v) (str_nat (patch v))))"

definition bumped :: "version \<Rightarrow> string \<Rightarrow> release_fault + version" where
  "bumped v level =
     (if level = ''major'' then Inr (Version (major v + 1) 0 0)
      else if level = ''minor'' then Inr (Version (major v) (minor v + 1) 0)
      else if level = ''patch'' then Inr (Version (major v) (minor v) (patch v + 1))
      else Inl (Unknown_Bump level))"

definition next_version :: "package_kind \<Rightarrow> string \<Rightarrow> string \<Rightarrow> release_fault + string" where
  "next_version kind current level =
     (case version_match kind current of
        None \<Rightarrow> Inl (Not_Release_Version current)
      | Some (a, b, c) \<Rightarrow>
          rbind (part_int a) (\<lambda>ma. rbind (part_int b) (\<lambda>mi. rbind (part_int c) (\<lambda>pa.
          rbind (bumped (Version ma mi pa) level) version_str))))"

section \<open>The next version is the least of its level\<close>

text \<open>The three numbers a version text begins with. What may follow them, the mark of a pre-release, does
  not count: a bump goes on from the numbers, so the patch after \<open>0.8.0rc1\<close> is \<open>0.8.1\<close>, as the
  repository's own test has it.\<close>

definition numbers_of :: "package_kind \<Rightarrow> string \<Rightarrow> version option" where
  "numbers_of kind s =
     Option.bind (version_match kind s) (\<lambda>(a, b, c).
     Option.bind (digits_nat a) (\<lambda>ma. Option.bind (digits_nat b) (\<lambda>mi. map_option (Version ma mi) (digits_nat c))))"

text \<open>The versions a level steps through.\<close>

definition at_level :: "string \<Rightarrow> version \<Rightarrow> bool" where
  "at_level level v \<longleftrightarrow> (level = ''major'' \<longrightarrow> minor v = 0 \<and> patch v = 0) \<and> (level = ''minor'' \<longrightarrow> patch v = 0)"

lemma bumped_least:
  assumes "bumped v level = Inr w"
  shows "v < w" "at_level level w" "v < x \<Longrightarrow> at_level level x \<Longrightarrow> w \<le> x"
  using assms by (cases v; cases x; auto simp: bumped_def less_version_def less_eq_version_def at_level_def split: if_splits)+

lemma digits_nat_text: "length (nat_text n) \<le> 4300 \<Longrightarrow> digits_nat (nat_text n) = Some n"
proof -
  assume l: "length (nat_text n) \<le> 4300"
  have d: "list_all (\<lambda>c. digit_value c \<noteq> None) (nat_text n)" by (rule nat_text_digits)
  have "nat_text n \<noteq> []" by (subst nat_text.simps) simp
  then obtain c s where "nat_text n = c # s" by (cases "nat_text n") auto
  moreover have "length (filter (\<lambda>d. digit_value d \<noteq> None) (nat_text n)) \<le> 4300"
    using l by (meson le_trans length_filter_le)
  ultimately show ?thesis using d digits_value_nat_text [of n] by (simp add: digits_nat_def)
qed

lemma nat_text_no_zero: "hd (nat_text n) = CHR ''0'' \<Longrightarrow> nat_text n = ''0''"
proof (induction n rule: nat_text.induct)
  case (1 n)
  show ?case
  proof (cases "n < 10")
    case True
    then have "nat_text n = [digit_char n]" by (simp add: nat_text.simps)
    then show ?thesis using 1(2) by simp
  next
    case False
    have ne: "nat_text (n div 10) \<noteq> []" by (subst nat_text.simps) simp
    have e: "nat_text n = nat_text (n div 10) @ [digit_char (n mod 10)]"
      using False by (subst nat_text.simps) simp
    then have "hd (nat_text (n div 10)) = CHR ''0''" using 1(2) ne by simp
    then have "nat_text (n div 10) = nat_text 0" using 1(1) False by (simp add: nat_text.simps [of 0] digit_char_def)
    then have "n div 10 = 0" by simp
    then show ?thesis using False by simp
  qed
qed

lemma number_part_text:
  assumes "s = [] \<or> \<not> is_digit (hd s)"
  shows "number_part (nat_text n @ s) = Some (nat_text n, s)"
proof -
  have d: "\<forall>c \<in> set (nat_text n). is_digit c" using nat_text_digits [of n] by (simp add: list_all_iff is_digit_def)
  then have "takeWhile is_digit (nat_text n @ s) = nat_text n" "dropWhile is_digit (nat_text n @ s) = s"
    using assms by (cases s; simp add: takeWhile_append2 dropWhile_append2)+
  moreover have "nat_text n \<noteq> []" by (subst nat_text.simps) simp
  ultimately show ?thesis using nat_text_no_zero [of n] by (auto simp: number_part_def Let_def)
qed

lemma core_match_text: "core_match (version_text v) = Some ((nat_text (major v), nat_text (minor v), nat_text (patch v)), [])"
  using number_part_text [of "[]" "patch v"]
  by (simp add: core_match_def version_text_def number_part_text dot_def is_digit_def digit_value_def)

lemma version_str_Inr:
  assumes "version_str v = Inr s"
  shows "s = version_text v" "numbers_of kind s = Some v"
proof -
  have l: "length (nat_text (major v)) \<le> 4300" "length (nat_text (minor v)) \<le> 4300" "length (nat_text (patch v)) \<le> 4300"
    and s: "s = version_text v"
    using assms by (auto simp: version_str_def str_nat_def raise_simps split: if_splits)
  have "version_tail kind []" by (cases kind) simp_all
  then show "s = version_text v" "numbers_of kind s = Some v"
    using s l by (simp_all add: numbers_of_def version_match_def core_match_text digits_nat_text)
qed

lemma next_version_least:
  assumes "next_version kind current level = Inr new"
  shows "level \<in> {''major'', ''minor'', ''patch''} \<and>
    (\<exists>v w. numbers_of kind current = Some v \<and> numbers_of kind new = Some w \<and> new = version_text w \<and>
    v < w \<and> at_level level w \<and> (\<forall>x. v < x \<and> at_level level x \<longrightarrow> w \<le> x))"
proof -
  obtain a b c ma mi pa w where p: "version_match kind current = Some (a, b, c)" "part_int a = Inr ma" "part_int b = Inr mi"
    "part_int c = Inr pa" "bumped (Version ma mi pa) level = Inr w" "version_str w = Inr new"
    using assms by (auto simp: next_version_def raise_simps split: option.splits)
  have "numbers_of kind current = Some (Version ma mi pa)"
    using p(1-4) by (auto simp: numbers_of_def part_int_def split: option.splits)
  moreover have "level \<in> {''major'', ''minor'', ''patch''}" using p(5) by (auto simp: bumped_def split: if_splits)
  ultimately show ?thesis using version_str_Inr [OF p(6)] bumped_least [OF p(5)] by blast
qed

lemma prerelease_patch: "next_version Python ''0.8.0rc1'' ''patch'' = Inr ''0.8.1''"
  by code_simp

end
