(* ===== verification/Release.thy ===== *)
theory Release
  imports Release_Version Lint_Text "HOL-Library.State_Monad"
begin

text \<open>
  The release helper, \<open>src/.github/release.py\<close>: raising the version in a manifest and its lockfiles, the
  packages to release between two commits, and the check of a release tag. The state is the files of
  the repository; git, \<open>json.loads\<close> and \<open>tomllib.loads\<close> are parameters.
\<close>

section \<open>Configuration, files and git\<close>

text \<open>An entry of \<open>releases.json\<close>, by the keys its documentation lists.\<close>

record package_entry =
  en_kind :: package_kind
  en_manifest :: string
  en_tag_prefix :: string
  en_workflow :: string
  en_lockfile :: "string option"

type_synonym releases = "(string \<times> package_entry) list"

text \<open>What the helper reads with: \<open>json.loads\<close> and \<open>tomllib.loads\<close> (\<open>None\<close> is a \<open>ValueError\<close>), and the
  entries of a configuration.\<close>

record parsers =
  pr_releases :: "string \<Rightarrow> releases option"
  pr_json :: "string \<Rightarrow> json option"
  pr_toml :: "string \<Rightarrow> json option"

text \<open>The answers of git: whether a commit, and a path at a commit, exist; the text of that path; and
  the exit status of \<open>merge-base --is-ancestor\<close>.\<close>

record git_repo =
  git_commit :: "string \<Rightarrow> bool"
  git_has :: "string \<Rightarrow> string \<Rightarrow> bool"
  git_show :: "string \<Rightarrow> string \<Rightarrow> string option"
  git_ancestor :: "string \<Rightarrow> string \<Rightarrow> int"

text \<open>The files by their paths: the text that \<open>read_text\<close> returns, with newlines translated.\<close>

type_synonym files = "string \<Rightarrow> string option"

text \<open>An action on the files that may raise; what it has written stays written.\<close>

type_synonym 'a action = "(files, release_fault + 'a) state"

definition done_with :: "'a \<Rightarrow> 'a action" where
  "done_with x = State_Monad.return (Inr x)"

definition raising :: "release_fault + 'a \<Rightarrow> 'a action" where
  "raising r = State_Monad.return r"

definition andthen :: "'a action \<Rightarrow> ('a \<Rightarrow> 'b action) \<Rightarrow> 'b action" where
  "andthen m f = do { r \<leftarrow> m; case r of Inl e \<Rightarrow> State_Monad.return (Inl e) | Inr x \<Rightarrow> f x }"

definition read_text :: "string \<Rightarrow> string action" where
  "read_text p = State (\<lambda>fs. (case fs p of None \<Rightarrow> Inl (Os_Error p) | Some s \<Rightarrow> Inr s, fs))"

definition write_text :: "string \<Rightarrow> string \<Rightarrow> unit action" where
  "write_text p s = State (\<lambda>fs. (Inr (), fs(p \<mapsto> s)))"

definition file_exists :: "string \<Rightarrow> bool action" where
  "file_exists p = State (\<lambda>fs. (Inr (fs p \<noteq> None), fs))"

definition package :: "releases \<Rightarrow> string \<Rightarrow> release_fault + package_entry" where
  "package config name = (case map_of config name of None \<Rightarrow> Inl (Unknown_Package name) | Some e \<Rightarrow> Inr e)"

definition raised :: "py_exn + 'a \<Rightarrow> release_fault + 'a" where
  "raised r = (case r of Inl e \<Rightarrow> Inl (Py e) | Inr x \<Rightarrow> Inr x)"

definition parsed :: "'a option \<Rightarrow> release_fault + 'a" where
  "parsed r = (case r of None \<Rightarrow> Inl (Py ValueError) | Some x \<Rightarrow> Inr x)"

text \<open>For npm it is only the word of a message.\<close>

fun TABLE :: "package_kind \<Rightarrow> string" where
  "TABLE Python = ''project''"
| "TABLE Cargo = ''package''"
| "TABLE Npm = ''package''"

definition read_version :: "parsers \<Rightarrow> package_kind \<Rightarrow> string \<Rightarrow> release_fault + string" where
  "read_version P kind s =
     rbind (if kind = Npm then rbind (parsed (pr_json P s)) (\<lambda>v. raised (jindex v ''version''))
            else rbind (parsed (pr_toml P s)) (\<lambda>v. rbind (raised (jindex v (TABLE kind))) (\<lambda>t. raised (jindex t ''version''))))
       (\<lambda>version. case as_str version of None \<Rightarrow> Inl (Version_Not_Text kind) | Some s \<Rightarrow> Inr s)"

section \<open>Replacing a version\<close>

definition newline :: char where
  "newline = CHR 0x0A"

definition blank :: "char \<Rightarrow> bool" where
  "blank c \<longleftrightarrow> c = CHR '' '' \<or> c = CHR 0x09"

text \<open>The patterns are anchored at lines. \<open>^\[table\][ \t]*$\<close>:\<close>

definition table_header :: "string \<Rightarrow> string \<Rightarrow> bool" where
  "table_header table line \<longleftrightarrow>
     (let h = ''['' @ table @ '']'' in take (length h) line = h \<and> list_all blank (drop (length h) line))"

text \<open>\<open>^(version[ \t]*=[ \t]*")old(")\<close>, replaced:\<close>

definition replace_in_line :: "string \<Rightarrow> string \<Rightarrow> string \<Rightarrow> string option" where
  "replace_in_line old new line =
     (if take 7 line \<noteq> ''version'' then None
      else let rest = drop 7 line; a = takeWhile blank rest in
        (case dropWhile blank rest of
           c # rest \<Rightarrow>
             if c \<noteq> CHR ''='' then None
             else let b = takeWhile blank rest; tail = dropWhile blank rest; q = [CHR 34] @ old @ [CHR 34] in
               if take (length q) tail \<noteq> q then None
               else Some (''version'' @ a @ ''='' @ b @ [CHR 34] @ new @ [CHR 34] @ drop (length q) tail)
         | [] \<Rightarrow> None))"

fun replace_first :: "('a \<Rightarrow> 'a option) \<Rightarrow> 'a list \<Rightarrow> 'a list option" where
  "replace_first f [] = None"
| "replace_first f (x # xs) =
     (case f x of Some y \<Rightarrow> Some (y # xs) | None \<Rightarrow> map_option (Cons x) (replace_first f xs))"

definition replace_toml_version :: "string \<Rightarrow> string \<Rightarrow> string \<Rightarrow> string \<Rightarrow> release_fault + string" where
  "replace_toml_version s table old new =
     (let ls = split_at newline s; before = takeWhile (\<lambda>l. \<not> table_header table l) ls in
      case dropWhile (\<lambda>l. \<not> table_header table l) ls of
        [] \<Rightarrow> Inl (No_Table table)
      | header # after \<Rightarrow>
          (let opens = (\<lambda>l. l \<noteq> [] \<and> hd l = CHR ''['') in
           case replace_first (replace_in_line old new) (takeWhile (\<lambda>l. \<not> opens l) after) of
             None \<Rightarrow> Inl (No_Literal_Version table)
           | Some body \<Rightarrow>
               Inr (joined [newline] (before @ header # body @ dropWhile (\<lambda>l. \<not> opens l) after))))"

text \<open>\<open>re.subn\<close> of a literal: from left to right, without overlaps.\<close>

function substitute :: "string \<Rightarrow> string \<Rightarrow> string \<Rightarrow> string" where
  "substitute pat rep [] = []"
| "substitute pat rep (c # s) =
     (if pat \<noteq> [] \<and> take (length pat) (c # s) = pat then rep @ substitute pat rep (drop (length pat) (c # s))
      else c # substitute pat rep s)"
  by pat_completeness auto
termination
  by (relation "measure (\<lambda>(pat, rep, s). length s)") (auto simp: Suc_le_eq)

definition lock_entry :: "string \<Rightarrow> string \<Rightarrow> string" where
  "lock_entry name version =
     ''[[package]]'' @ [newline] @ ''name = '' @ [CHR 34] @ name @ [CHR 34] @ [newline] @ ''version = '' @ [CHR 34] @ version @ [CHR 34]"

definition replace_lock_version :: "string \<Rightarrow> json \<Rightarrow> string \<Rightarrow> string \<Rightarrow> bool action" where
  "replace_lock_version lock_path name old new =
     (case as_str name of
        None \<Rightarrow> raising (Inl (Py TypeError))
      | Some name \<Rightarrow>
          andthen (read_text lock_path) (\<lambda>s.
          if text_in (lock_entry name old) s
          then andthen (write_text lock_path (substitute (lock_entry name old) (lock_entry name new) s)) (\<lambda>_. done_with True)
          else done_with False))"

section \<open>Writing JSON\<close>

text \<open>\<open>json.dumps(data, indent=2, ensure_ascii=False)\<close>; octets of characters outside ASCII stand for
  themselves.\<close>

definition raw_char :: "char \<Rightarrow> string" where
  "raw_char c = (if (of_char c :: nat) < 128 \<and> (of_char c :: nat) \<noteq> 127 then point_text (of_char c) else [c])"

definition raw_quoted :: "string \<Rightarrow> string" where
  "raw_quoted s = CHR 34 # concat (map raw_char s) @ [CHR 34]"

definition line_start :: "nat \<Rightarrow> string" where
  "line_start n = newline # replicate (2 * n) (CHR '' '')"

fun dumps_pretty :: "nat \<Rightarrow> json \<Rightarrow> string" where
  "dumps_pretty n (JList xs) =
     (if xs = [] then ''[]''
      else ''['' @ line_start (n + 1) @ joined ('','' @ line_start (n + 1)) (map (dumps_pretty (n + 1)) xs) @ line_start n @ '']'')"
| "dumps_pretty n (JObj d) =
     (if d = [] then ''{}''
      else ''{'' @ line_start (n + 1) @
        joined ('','' @ line_start (n + 1)) (map (\<lambda>(k, v). raw_quoted k @ '': '' @ dumps_pretty (n + 1) v) d) @ line_start n @ ''}'')"
| "dumps_pretty n (JStr s) = raw_quoted s"
| "dumps_pretty n v = dumps_sorted v"

definition write_json :: "string \<Rightarrow> json \<Rightarrow> unit action" where
  "write_json p data = write_text p (dumps_pretty 0 data @ [newline])"

fun member_set :: "jobj \<Rightarrow> string \<Rightarrow> json \<Rightarrow> jobj" where
  "member_set [] k v = [(k, v)]"
| "member_set ((k', v') # d) k v = (if k' = k then (k, v) # d else (k', v') # member_set d k v)"

definition set_member :: "json \<Rightarrow> string \<Rightarrow> json \<Rightarrow> release_fault + json" where
  "set_member data k v = (case as_obj data of None \<Rightarrow> Inl (Py TypeError) | Some d \<Rightarrow> Inr (JObj (member_set d k v)))"

section \<open>Raising a version\<close>

definition with_name :: "string \<Rightarrow> string \<Rightarrow> string" where
  "with_name p name = joined ''/'' (butlast (split_at (CHR ''/'') p) @ [name])"

definition bump_npm :: "parsers \<Rightarrow> string \<Rightarrow> string \<Rightarrow> string action" where
  "bump_npm P manifest new =
     andthen (read_text manifest) (\<lambda>s.
     andthen (raising (rbind (parsed (pr_json P s)) (\<lambda>data. set_member data ''version'' (JStr new)))) (\<lambda>data.
     andthen (write_json manifest data) (\<lambda>_.
     let lock_path = with_name manifest ''package-lock.json'' in
     andthen (file_exists lock_path) (\<lambda>locked.
     if \<not> locked then done_with new
     else andthen (read_text lock_path) (\<lambda>s.
       andthen (raising
         (rbind (rbind (parsed (pr_json P s)) (\<lambda>lock. set_member lock ''version'' (JStr new))) (\<lambda>lock.
          rbind (raised (jindex lock ''packages'')) (\<lambda>packages.
          rbind (raised (jindex packages [])) (\<lambda>root.
          rbind (set_member root ''version'' (JStr new)) (\<lambda>root.
          rbind (set_member packages [] root) (set_member lock ''packages''))))))) (\<lambda>lock.
       andthen (write_json lock_path lock) (\<lambda>_. done_with new)))))))"

definition other_lockfiles :: "releases \<Rightarrow> string \<Rightarrow> string list" where
  "other_lockfiles config name =
     concat (map (\<lambda>(n, e). case en_lockfile e of
         Some l \<Rightarrow> if n \<noteq> name \<and> en_kind e = Cargo \<and> l \<noteq> [] then [l] else [] | None \<Rightarrow> []) config)"

fun replace_locks :: "string list \<Rightarrow> json \<Rightarrow> string \<Rightarrow> string \<Rightarrow> unit action" where
  "replace_locks [] name old new = done_with ()"
| "replace_locks (l # ls) name old new = andthen (replace_lock_version l name old new) (\<lambda>_. replace_locks ls name old new)"

definition own_lockfile :: "package_entry \<Rightarrow> string option" where
  "own_lockfile e = (case en_lockfile e of Some l \<Rightarrow> if l = [] then None else Some l | None \<Rightarrow> None)"

definition bump_locks :: "releases \<Rightarrow> string \<Rightarrow> package_entry \<Rightarrow> json \<Rightarrow> string \<Rightarrow> string \<Rightarrow> unit action" where
  "bump_locks config name e crate current new =
     (let others = other_lockfiles config name in
      andthen (case own_lockfile e of
                 None \<Rightarrow> done_with others
               | Some l \<Rightarrow> andthen (replace_lock_version l crate current new) (\<lambda>found.
                   if \<not> found then raising (Inl (Lock_Without_Entry l (case crate of JStr s \<Rightarrow> s | _ \<Rightarrow> []) current))
                   else done_with (filter (\<lambda>x. x \<noteq> l) others)))
        (\<lambda>others. replace_locks (sort (remdups others)) crate current new))"

text \<open>\<open>bump\<close>, for the entry \<open>e\<close> that the configuration has under \<open>name\<close>.\<close>

definition bump :: "parsers \<Rightarrow> releases \<Rightarrow> string \<Rightarrow> package_entry \<Rightarrow> string \<Rightarrow> string action" where
  "bump P config name e level =
     (let kind = en_kind e; manifest = en_manifest e in
      andthen (read_text manifest) (\<lambda>s.
      andthen (raising (read_version P kind s)) (\<lambda>current.
      andthen (raising (next_version kind current level)) (\<lambda>new.
      if kind = Npm then bump_npm P manifest new
      else andthen (read_text manifest) (\<lambda>s.
        andthen (raising (replace_toml_version s (TABLE kind) current new)) (\<lambda>s.
        andthen (write_text manifest s) (\<lambda>_.
        if kind \<noteq> Cargo then done_with new
        else andthen (read_text manifest) (\<lambda>s.
          andthen (raising (rbind (parsed (pr_toml P s)) (\<lambda>v. rbind (raised (jindex v ''package'')) (\<lambda>t. raised (jindex t ''name'')))))
            (\<lambda>crate. andthen (bump_locks config name e crate current new) (\<lambda>_. done_with new))))))))))"

section \<open>Releases between two commits\<close>

definition CONFIG :: string where
  "CONFIG = ''.github/releases.json''"

definition require_commit :: "git_repo \<Rightarrow> string \<Rightarrow> release_fault + unit" where
  "require_commit G commit = (if git_commit G commit then Inr () else Inl (Unknown_Commit commit))"

definition version_at :: "parsers \<Rightarrow> git_repo \<Rightarrow> package_entry \<Rightarrow> string \<Rightarrow> release_fault + string option" where
  "version_at P G e commit =
     (if \<not> git_has G commit (en_manifest e) then Inr None
      else (case git_show G commit (en_manifest e) of
              None \<Rightarrow> Inl Git_Show_Failed
            | Some s \<Rightarrow> rmap Some (read_version P (en_kind e) s)))"

definition config_at :: "parsers \<Rightarrow> git_repo \<Rightarrow> string \<Rightarrow> release_fault + releases" where
  "config_at P G commit =
     (if \<not> git_has G commit CONFIG then Inr []
      else (case git_show G commit CONFIG of
              None \<Rightarrow> Inl Git_Show_Failed
            | Some s \<Rightarrow> parsed (pr_releases P s)))"

type_synonym release_row = "string \<times> string \<times> string \<times> string"

definition release_row :: "parsers \<Rightarrow> git_repo \<Rightarrow> releases \<Rightarrow> string \<Rightarrow> string \<Rightarrow> string \<times> package_entry \<Rightarrow> release_fault + release_row list" where
  "release_row P G previous before after ne =
     (case ne of (name, e) \<Rightarrow>
       rbind (version_at P G e after) (\<lambda>new.
       case new of
         None \<Rightarrow> Inr []
       | Some new \<Rightarrow>
           rmap (\<lambda>old. if old = Some new then [] else [(name, new, en_tag_prefix e @ new, en_workflow e)])
             (version_at P G (case map_of previous name of Some p \<Rightarrow> p | None \<Rightarrow> e) before)))"

definition changed :: "parsers \<Rightarrow> git_repo \<Rightarrow> releases \<Rightarrow> string \<Rightarrow> string \<Rightarrow> release_fault + release_row list" where
  "changed P G config before after =
     rbind (require_commit G before) (\<lambda>_.
     rbind (require_commit G after) (\<lambda>_.
     rbind (config_at P G before) (\<lambda>previous.
     rmap concat (rmapM (release_row P G previous before after) config))))"

section \<open>The check of a tag\<close>

definition check :: "parsers \<Rightarrow> git_repo \<Rightarrow> package_entry \<Rightarrow> string \<Rightarrow> string \<Rightarrow> string \<Rightarrow> unit action" where
  "check P G e tag commit main =
     (let prefix = en_tag_prefix e in
      if take (length prefix) tag \<noteq> prefix \<or> version_match (en_kind e) (drop (length prefix) tag) = None
      then raising (Inl (Not_Release_Tag tag prefix))
      else andthen (read_text (en_manifest e)) (\<lambda>s.
        andthen (raising (read_version P (en_kind e) s)) (\<lambda>version.
        if tag \<noteq> prefix @ version then raising (Inl (Tag_Differs tag version))
        else let rc = git_ancestor G commit main in
          if rc = 1 then raising (Inl (Not_Ancestor commit main))
          else if rc \<noteq> 0 then raising (Inl Merge_Base_Failed)
          else done_with ())))"

text \<open>\<open>main\<close>: the lines printed, or the message with which the argument parser exits (status 2). Any
  other exception is not handled.\<close>

datatype release_command = Bump string string | Changed string string | Check string string string string

datatype release_outcome = Printed "string list" | Parser_Error release_fault | Unhandled py_exn

definition outcome_of :: "release_fault + string list \<Rightarrow> release_outcome" where
  "outcome_of r =
     (case r of
        Inr ls \<Rightarrow> Printed ls
      | Inl (Py e) \<Rightarrow> if e \<in> {ValueError, KeyError} then Parser_Error (Py e) else Unhandled e
      | Inl e \<Rightarrow> Parser_Error e)"

fun run_command :: "parsers \<Rightarrow> git_repo \<Rightarrow> releases \<Rightarrow> release_command \<Rightarrow> string list action" where
  "run_command P G config (Bump name level) =
     andthen (raising (package config name)) (\<lambda>e. andthen (bump P config name e level) (\<lambda>new. done_with [new]))"
| "run_command P G config (Changed before after) =
     andthen (raising (changed P G config before after)) (\<lambda>rows.
     done_with (map (\<lambda>(a, b, c, d). joined '' '' [a, b, c, d]) rows))"
| "run_command P G config (Check name tag commit main) =
     andthen (raising (package config name)) (\<lambda>e. andthen (check P G e tag commit main) (\<lambda>_. done_with []))"

definition release_main :: "parsers \<Rightarrow> git_repo \<Rightarrow> release_command \<Rightarrow> (files, release_outcome) state" where
  "release_main P G cmd =
     map_state outcome_of
       (andthen (read_text CONFIG) (\<lambda>s. andthen (raising (parsed (pr_releases P s))) (\<lambda>config. run_command P G config cmd)))"

section \<open>Runs of actions\<close>

lemma run_done_with [simp]: "run_state (done_with x) fs = (Inr x, fs)"
  by (simp add: done_with_def)

lemma run_raising [simp]: "run_state (raising r) fs = (r, fs)"
  by (simp add: raising_def)

lemma run_andthen [simp]:
  "run_state (andthen m f) fs =
     (case run_state m fs of (Inl e, fs') \<Rightarrow> (Inl e, fs') | (Inr x, fs') \<Rightarrow> run_state (f x) fs')"
  by (auto simp: andthen_def split: prod.splits sum.splits)

lemma run_files [simp]:
  "run_state (read_text p) fs = (case fs p of None \<Rightarrow> Inl (Os_Error p) | Some s \<Rightarrow> Inr s, fs)"
  "run_state (write_text p s) fs = (Inr (), fs(p \<mapsto> s))"
  "run_state (file_exists p) fs = (Inr (fs p \<noteq> None), fs)"
  by (simp_all add: read_text_def write_text_def file_exists_def)

text \<open>The files an action leaves alone.\<close>

definition writes_only :: "'a action \<Rightarrow> string set \<Rightarrow> bool" where
  "writes_only m S \<longleftrightarrow> (\<forall>fs p. p \<notin> S \<longrightarrow> snd (run_state m fs) p = fs p)"

lemma writes_only_basic:
  "writes_only (done_with x) S" "writes_only (raising r) S" "writes_only (read_text p) S" "writes_only (file_exists p) S"
  "p \<in> S \<Longrightarrow> writes_only (write_text p s) S" "p \<in> S \<Longrightarrow> writes_only (write_json p data) S"
  by (auto simp: writes_only_def write_json_def)

lemma writes_only_andthen_result:
  assumes "writes_only m S" "\<And>fs x. fst (run_state m fs) = Inr x \<Longrightarrow> writes_only (f x) S"
  shows "writes_only (andthen m f) S"
  unfolding writes_only_def
proof (intro allI impI)
  fix fs p assume p: "p \<notin> S"
  obtain r fs' where m: "run_state m fs = (r, fs')" by (cases "run_state m fs")
  then have "fs' p = fs p" using assms(1) p by (metis snd_conv writes_only_def)
  moreover have "snd (run_state (f x) fs') p = fs' p" if "r = Inr x" for x
    using assms(2) [of fs x] m that p by (simp add: writes_only_def)
  ultimately show "snd (run_state (andthen m f) fs) p = fs p" using m by (cases r) simp_all
qed

lemma writes_only_andthen: "writes_only m S \<Longrightarrow> (\<And>x. writes_only (f x) S) \<Longrightarrow> writes_only (andthen m f) S"
  by (rule writes_only_andthen_result)

lemma writes_only_if: "(c \<Longrightarrow> writes_only a S) \<Longrightarrow> (\<not> c \<Longrightarrow> writes_only b S) \<Longrightarrow> writes_only (if c then a else b) S"
  by simp

lemma writes_only_option: "writes_only a S \<Longrightarrow> (\<And>y. writes_only (g y) S) \<Longrightarrow> writes_only (case x of None \<Rightarrow> a | Some y \<Rightarrow> g y) S"
  by (cases x) auto

lemmas writes_only_rules = writes_only_basic writes_only_andthen writes_only_if writes_only_option

lemma replace_lock_writes: "l \<in> S \<Longrightarrow> writes_only (replace_lock_version l name old new) S"
  unfolding replace_lock_version_def by (auto intro!: writes_only_rules)

lemma replace_locks_writes: "set ls \<subseteq> S \<Longrightarrow> writes_only (replace_locks ls name old new) S"
  by (induction ls) (auto intro!: writes_only_rules replace_lock_writes)

lemma bump_locks_writes:
  assumes "set (other_lockfiles config name) \<subseteq> S" "set_option (own_lockfile e) \<subseteq> S"
  shows "writes_only (bump_locks config name e crate current new) S"
proof -
  let ?own = "case own_lockfile e of None \<Rightarrow> done_with (other_lockfiles config name)
     | Some l \<Rightarrow> andthen (replace_lock_version l crate current new) (\<lambda>found.
         if \<not> found then raising (Inl (Lock_Without_Entry l (case crate of JStr s \<Rightarrow> s | _ \<Rightarrow> []) current))
         else done_with (filter (\<lambda>x. x \<noteq> l) (other_lockfiles config name)))"
  have o: "writes_only ?own S"
    using assms(2) by (cases "own_lockfile e") (auto intro!: writes_only_rules replace_lock_writes)
  have sub: "set others \<subseteq> set (other_lockfiles config name)" if "fst (run_state ?own fs) = Inr others" for fs others
    using that by (auto split: option.splits prod.splits sum.splits if_splits)
  have "writes_only (andthen ?own (\<lambda>others. replace_locks (sort (remdups others)) crate current new)) S"
  proof (rule writes_only_andthen_result [OF o])
    fix fs others assume "fst (run_state ?own fs) = Inr others"
    then have "set (sort (remdups others)) \<subseteq> S" using sub assms(1) by auto
    then show "writes_only (replace_locks (sort (remdups others)) crate current new) S" by (rule replace_locks_writes)
  qed
  then show ?thesis by (simp add: bump_locks_def Let_def)
qed

text \<open>What a bump may write: the manifest, npm's lockfile beside it, and the lockfiles of the configuration.\<close>

definition bump_files :: "releases \<Rightarrow> package_entry \<Rightarrow> string set" where
  "bump_files config e =
     {en_manifest e} \<union> (if en_kind e = Npm then {with_name (en_manifest e) ''package-lock.json''} else {}) \<union>
     (if en_kind e = Cargo then set_option (en_lockfile e) \<union> (\<Union>x \<in> snd ` set config. set_option (en_lockfile x)) else {})"

lemma bump_writes: "writes_only (bump P config name e level) (bump_files config e)"
proof -
  have "set (other_lockfiles config name) \<subseteq> bump_files config e" "set_option (own_lockfile e) \<subseteq> bump_files config e"
    if "en_kind e = Cargo"
    using that by (force simp: other_lockfiles_def bump_files_def split: option.splits if_splits,
        auto simp: own_lockfile_def bump_files_def split: option.splits if_splits)
  then have "writes_only (bump_locks config name e crate current new) (bump_files config e)" if "en_kind e = Cargo" for crate current new
    using that by (intro bump_locks_writes) auto
  moreover have "en_manifest e \<in> bump_files config e"
    "en_kind e = Npm \<Longrightarrow> with_name (en_manifest e) ''package-lock.json'' \<in> bump_files config e"
    by (simp_all add: bump_files_def)
  ultimately show ?thesis
    by (auto simp: bump_def bump_npm_def Let_def intro!: writes_only_rules)
qed

section \<open>The rest of a manifest is kept\<close>

lemma split_at_nonempty [simp]: "split_at sep s \<noteq> []"
  by (induction s) (auto split: list.splits)

lemma joined_split: "joined [sep] (split_at sep s) = s"
proof (induction s)
  case (Cons c s)
  obtain w ws where w: "split_at sep s = w # ws" by (cases "split_at sep s") simp_all
  then have "joined [sep] (w # ws) = s" using Cons by simp
  then show ?case using w by (cases ws) auto
qed simp

lemma split_no_sep: "sep \<notin> set s \<Longrightarrow> split_at sep s = [s]"
  by (induction s) auto

lemma split_append: "sep \<notin> set w \<Longrightarrow> split_at sep (w @ sep # s) = w # split_at sep s"
  by (induction w) auto

lemma split_joined: "ls \<noteq> [] \<Longrightarrow> \<forall>l \<in> set ls. sep \<notin> set l \<Longrightarrow> split_at sep (joined [sep] ls) = ls"
proof (induction ls)
  case (Cons l ls)
  then show ?case by (cases ls) (auto simp: split_no_sep split_append)
qed simp

lemma split_parts: "l \<in> set (split_at sep s) \<Longrightarrow> sep \<notin> set l"
proof (induction s arbitrary: l)
  case (Cons c s)
  then show ?case by (cases "split_at sep s") (auto split: if_splits)
qed simp

lemma replace_first_nth:
  assumes "replace_first f xs = Some ys"
  shows "\<exists>i < length xs. \<exists>y. f (xs ! i) = Some y \<and> ys = xs[i := y] \<and> (\<forall>j < i. f (xs ! j) = None)"
  using assms
proof (induction xs arbitrary: ys)
  case (Cons x xs)
  show ?case
  proof (cases "f x")
    case None
    then obtain zs where z: "replace_first f xs = Some zs" "ys = x # zs" using Cons.prems by auto
    from Cons.IH [OF z(1)] obtain i y where "i < length xs" "f (xs ! i) = Some y" "zs = xs[i := y]" "\<forall>j < i. f (xs ! j) = None" by blast
    then show ?thesis using None z(2)
      by (intro exI [of _ "Suc i"]) (auto simp: nth_Cons split: nat.splits)
  next
    case (Some y)
    then show ?thesis using Cons.prems by (intro exI [of _ 0]) auto
  qed
qed simp

lemma replace_in_line_Some:
  assumes "replace_in_line old new line = Some line'"
  shows "\<exists>a rest. line = a @ [CHR 34] @ old @ [CHR 34] @ rest \<and> line' = a @ [CHR 34] @ new @ [CHR 34] @ rest \<and> take 7 a = ''version''"
proof -
  let ?r = "drop 7 line"
  let ?a = "takeWhile blank ?r"
  obtain rest where r: "take 7 line = ''version''" "dropWhile blank ?r = CHR ''='' # rest"
    using assms by (auto simp: replace_in_line_def Let_def split: if_splits list.splits)
  let ?b = "takeWhile blank rest" and ?t = "dropWhile blank rest" and ?q = "[CHR 34] @ old @ [CHR 34]"
  have q: "take (length ?q) ?t = ?q" "line' = ''version'' @ ?a @ ''='' @ ?b @ [CHR 34] @ new @ [CHR 34] @ drop (length ?q) ?t"
    using assms r by (auto simp: replace_in_line_def Let_def split: if_splits)
  have "line = ''version'' @ ?a @ CHR ''='' # rest"
    using r by (metis append_take_drop_id takeWhile_dropWhile_id)
  moreover have "rest = ?b @ ?q @ drop (length ?q) ?t"
    using q(1) by (metis append_take_drop_id takeWhile_dropWhile_id)
  ultimately show ?thesis using q(2)
    by (intro exI [of _ "''version'' @ ?a @ ''='' @ ?b"] exI [of _ "drop (length ?q) ?t"]) simp
qed

text \<open>One line changes, in the table: the first there that gives the old version.\<close>

lemma replace_toml_version_line:
  assumes "replace_toml_version s table old new = Inr s'" "newline \<notin> set new"
  shows "\<exists>h i l. h < i \<and> i < length (split_at newline s) \<and> table_header table (split_at newline s ! h) \<and>
    (\<forall>j. h < j \<and> j \<le> i \<longrightarrow> split_at newline s ! j = [] \<or> hd (split_at newline s ! j) \<noteq> CHR ''['') \<and>
    replace_in_line old new (split_at newline s ! i) = Some l \<and> split_at newline s' = (split_at newline s)[i := l]"
proof -
  let ?ls = "split_at newline s" and ?P = "\<lambda>l. \<not> table_header table l"
  let ?opens = "\<lambda>l. l \<noteq> [] \<and> hd l = CHR ''[''"
  obtain header after body where d: "dropWhile ?P ?ls = header # after"
    "replace_first (replace_in_line old new) (takeWhile (\<lambda>l. \<not> ?opens l) after) = Some body"
    "s' = joined [newline] (takeWhile ?P ?ls @ header # body @ dropWhile (\<lambda>l. \<not> ?opens l) after)"
    using assms(1) by (auto simp: replace_toml_version_def Let_def split: list.splits option.splits)
  let ?t = "takeWhile (\<lambda>l. \<not> ?opens l) after" and ?n = "length (takeWhile ?P ?ls)"
  obtain k l where k: "k < length ?t" "replace_in_line old new (?t ! k) = Some l" "body = ?t[k := l]"
    using replace_first_nth [OF d(2)] by blast
  have ls: "?ls = takeWhile ?P ?ls @ header # ?t @ dropWhile (\<lambda>l. \<not> ?opens l) after"
    using d(1) by (metis takeWhile_dropWhile_id)
  have i: "Suc ?n + k < length ?ls"
    using arg_cong [OF ls, of length] k(1) by (simp del: takeWhile_dropWhile_id)
  have at: "?ls ! (Suc ?n + j) = ?t ! j" if "j < length ?t" for j
    using that by (subst ls) (simp add: nth_append takeWhile_nth)
  have h: "?ls ! ?n = header" by (subst ls) (simp add: nth_append)
  have new: "takeWhile ?P ?ls @ header # body @ dropWhile (\<lambda>l. \<not> ?opens l) after = ?ls[Suc ?n + k := l]"
    using arg_cong [OF ls, of "\<lambda>x. x[Suc ?n + k := l]"] k(1,3)
    by (simp add: list_update_append del: takeWhile_dropWhile_id)
  have "newline \<notin> set l"
  proof -
    have "newline \<notin> set (?ls ! (Suc ?n + k))" by (rule split_parts [OF nth_mem [OF i]])
    then show ?thesis using replace_in_line_Some [OF k(2)] at [OF k(1)] assms(2) by auto
  qed
  then have "\<forall>x \<in> set (?ls[Suc ?n + k := l]). newline \<notin> set x"
    using split_parts set_update_subset_insert by fastforce
  then have s': "split_at newline s' = ?ls[Suc ?n + k := l]"
    unfolding d(3) new by (intro split_joined) simp_all
  have "\<not> ?opens (?ls ! j)" if j: "?n < j" "j \<le> Suc ?n + k" for j
  proof -
    obtain m where m: "j = Suc ?n + m" using less_imp_Suc_add [OF j(1)] by auto
    then have mk: "m < length ?t" using j(2) k(1) by linarith
    have "?t ! m \<in> set ?t" using mk by (rule nth_mem)
    then have "\<not> ?opens (?t ! m)" by (blast dest: set_takeWhileD)
    then show ?thesis unfolding m at [OF mk] .
  qed
  moreover have "table_header table header" using d(1) by (metis hd_dropWhile list.discI list.sel(1))
  ultimately show ?thesis using i h k(2) at [OF k(1)] s'
    by (intro exI [of _ ?n] exI [of _ "Suc ?n + k"] exI [of _ l]) auto
qed

text \<open>A line of a table: its header stands above, and no line from there to it opens another table.\<close>

definition in_table :: "string \<Rightarrow> string list \<Rightarrow> nat \<Rightarrow> bool" where
  "in_table table ls i \<longleftrightarrow> i < length ls \<and>
     (\<exists>h < i. table_header table (ls ! h) \<and> (\<forall>j. h < j \<and> j \<le> i \<longrightarrow> ls ! j = [] \<or> hd (ls ! j) \<noteq> CHR ''[''))"

section \<open>What the commands do\<close>

lemma newline_version: "newline \<notin> set (version_text v)"
proof -
  have "newline \<notin> set (nat_text n)" for n
    using nat_text_digits [of n] by (auto simp: list_all_iff newline_def digit_value_def)
  then show ?thesis by (simp add: version_text_def newline_def)
qed

text \<open>A Python package: the manifest is written if everything succeeds, and nothing otherwise.\<close>

lemma bump_python:
  assumes "en_kind e = Python"
  shows "run_state (bump P config name e level) fs =
    (case fs (en_manifest e) of None \<Rightarrow> (Inl (Os_Error (en_manifest e)), fs) | Some s \<Rightarrow>
     (case rbind (read_version P Python s) (\<lambda>current. rbind (next_version Python current level) (\<lambda>new.
        rmap (Pair new) (replace_toml_version s ''project'' current new))) of
        Inl f \<Rightarrow> (Inl f, fs) | Inr (new, s') \<Rightarrow> (Inr new, fs(en_manifest e \<mapsto> s'))))"
  using assms by (auto simp: bump_def Let_def split: option.splits sum.splits prod.splits)

lemma bump_npm_returns: "run_state (bump_npm P manifest new) fs = (Inr x, fs') \<Longrightarrow> x = new"
  by (auto simp: bump_npm_def Let_def split: option.splits sum.splits prod.splits if_splits)

text \<open>Of any kind, what is returned is the version after the one the manifest had.\<close>

lemma bump_returns:
  assumes "run_state (bump P config name e level) fs = (Inr new, fs')"
  shows "\<exists>s current. fs (en_manifest e) = Some s \<and> read_version P (en_kind e) s = Inr current \<and>
    next_version (en_kind e) current level = Inr new"
proof -
  obtain s where s: "fs (en_manifest e) = Some s"
    using assms by (auto simp: bump_def Let_def split: option.splits)
  obtain current where c: "read_version P (en_kind e) s = Inr current"
    using assms s by (auto simp: bump_def Let_def split: sum.splits)
  obtain x where x: "next_version (en_kind e) current level = Inr x"
    using assms s c by (auto simp: bump_def Let_def split: sum.splits)
  have "x = new"
  proof (cases "en_kind e = Npm")
    case True
    then show ?thesis using assms s c x by (auto simp: bump_def Let_def dest: bump_npm_returns)
  next
    case False
    then show ?thesis using assms s c x
      by (auto simp: bump_def Let_def split: option.splits sum.splits prod.splits if_splits)
  qed
  then show ?thesis using s c x by blast
qed

lemma bump_raises:
  assumes "run_state (bump P config name e level) fs = (Inr new, fs')"
  shows "level \<in> {''major'', ''minor'', ''patch''} \<and>
   (\<exists>s current v w. fs (en_manifest e) = Some s \<and> read_version P (en_kind e) s = Inr current \<and>
    numbers_of (en_kind e) current = Some v \<and> numbers_of (en_kind e) new = Some w \<and> new = version_text w \<and>
    v < w \<and> at_level level w \<and> (\<forall>x. v < x \<and> at_level level x \<longrightarrow> w \<le> x))"
  using bump_returns [OF assms] next_version_least by blast

lemma bump_python_line:
  assumes "en_kind e = Python" "run_state (bump P config name e level) fs = (r, fs')"
  shows "case r of Inl _ \<Rightarrow> fs' = fs | Inr new \<Rightarrow>
    (\<exists>s s' current i l. fs (en_manifest e) = Some s \<and> fs' = fs(en_manifest e \<mapsto> s') \<and>
       read_version P Python s = Inr current \<and> in_table ''project'' (split_at newline s) i \<and>
       replace_in_line current new (split_at newline s ! i) = Some l \<and> split_at newline s' = (split_at newline s)[i := l])"
proof (cases r)
  case (Inl f)
  then show ?thesis using assms(2) unfolding bump_python [OF assms(1)] by (auto split: option.splits sum.splits)
next
  case (Inr new)
  then obtain s where s: "fs (en_manifest e) = Some s"
    using assms(2) unfolding bump_python [OF assms(1)] by (auto split: option.splits)
  obtain current s' where c: "read_version P Python s = Inr current" "next_version Python current level = Inr new"
    "replace_toml_version s ''project'' current new = Inr s'" "fs' = fs(en_manifest e \<mapsto> s')"
    using assms(2) Inr unfolding bump_python [OF assms(1)] s
    by (auto simp: raise_simps split: sum.splits)
  have "newline \<notin> set new" using next_version_least [OF c(2)] newline_version by blast
  then have "\<exists>i l. in_table ''project'' (split_at newline s) i \<and> replace_in_line current new (split_at newline s ! i) = Some l \<and>
       split_at newline s' = (split_at newline s)[i := l]"
    using replace_toml_version_line [OF c(3)] unfolding in_table_def by blast
  then show ?thesis using s c(1,4) Inr by auto
qed

lemma check_iff:
  "run_state (check P G e tag commit main) fs = (Inr (), fs') \<longleftrightarrow>
     fs' = fs \<and> (\<exists>s v. fs (en_manifest e) = Some s \<and> read_version P (en_kind e) s = Inr v \<and> tag = en_tag_prefix e @ v \<and>
       version_match (en_kind e) v \<noteq> None \<and> git_ancestor G commit main = 0)"
  by (auto simp: check_def Let_def split: option.splits sum.splits)

lemma version_at_Some:
  "version_at P G e commit = Inr (Some v) \<longleftrightarrow>
     git_has G commit (en_manifest e) \<and>
     (\<exists>s. git_show G commit (en_manifest e) = Some s \<and> read_version P (en_kind e) s = Inr v)"
  by (auto simp: version_at_def raise_simps split: option.splits)

lemma changed_rows:
  assumes "changed P G config before after = Inr rows" "distinct (map fst config)" "map_of config name = Some e"
  shows "(name, v, tag, workflow) \<in> set rows \<longleftrightarrow> tag = en_tag_prefix e @ v \<and> workflow = en_workflow e \<and>
    version_at P G e after = Inr (Some v) \<and>
    (\<exists>previous. config_at P G before = Inr previous \<and>
       version_at P G (case map_of previous name of Some p \<Rightarrow> p | None \<Rightarrow> e) before \<noteq> Inr (Some v))"
proof -
  obtain previous rs where c: "config_at P G before = Inr previous"
    "rmapM (release_row P G previous before after) config = Inr rs" "rows = concat rs"
    using assms(1) by (auto simp: changed_def raise_simps)
  have m: "(name, e) \<in> set config" using assms(3) by (rule map_of_SomeD)
  have u: "e' = e" if "(name, e') \<in> set config" for e' using that assms(2,3) by (metis map_of_is_SomeI option.inject)
  have row: "\<exists>r \<in> set rs. release_row P G previous before after x = Inr r" if "x \<in> set config" for x
    using c(2) that by (metis in_set_conv_nth rmapM_length rmapM_nth)
  have from_config: "\<exists>x \<in> set config. release_row P G previous before after x = Inr r" if "r \<in> set rs" for r
    using c(2) that by (metis in_set_conv_nth rmapM_length rmapM_nth)
  have name: "fst q = fst x" if "release_row P G previous before after x = Inr r" "q \<in> set r" for x r q
    using that by (cases x) (auto simp: release_row_def raise_simps split: option.splits if_splits)
  obtain r where r: "r \<in> set rs" "release_row P G previous before after (name, e) = Inr r" using row [OF m] by blast
  have "(name, v, tag, workflow) \<in> set rows \<longleftrightarrow> (name, v, tag, workflow) \<in> set r"
  proof
    assume "(name, v, tag, workflow) \<in> set rows"
    then obtain r' where r': "r' \<in> set rs" "(name, v, tag, workflow) \<in> set r'" using c(3) by auto
    then obtain x where x: "x \<in> set config" "release_row P G previous before after x = Inr r'" using from_config by blast
    then have "fst x = name" using name [OF x(2) r'(2)] by simp
    then have "x = (name, e)" using u [of "snd x"] x(1) by (metis prod.collapse)
    then show "(name, v, tag, workflow) \<in> set r" using x(2) r(2) r'(2) by simp
  qed (use c(3) r(1) in auto)
  then show ?thesis using r(2) c(1) by (auto simp: release_row_def raise_simps split: option.splits if_splits)
qed

lemma changed_tag_checks:
  assumes "changed P G config before after = Inr rows" "distinct (map fst config)" "map_of config name = Some e"
    and "(name, v, tag, workflow) \<in> set rows" "fs (en_manifest e) = git_show G after (en_manifest e)"
  shows "run_state (check P G e tag after main) fs = (Inr (), fs) \<longleftrightarrow>
    version_match (en_kind e) v \<noteq> None \<and> git_ancestor G after main = 0"
proof -
  have "tag = en_tag_prefix e @ v" "version_at P G e after = Inr (Some v)"
    using assms(4) changed_rows [OF assms(1-3)] by blast+
  then show ?thesis using assms(5) by (auto simp: check_iff version_at_Some)
qed

section \<open>Properties\<close>

text \<open>
  C37. A bump that returns was asked for a level there is, and the new version is three plain numbers: the
  least triple of that level above the three numbers of the old version. A mark of a pre-release in
  the old version is dropped and does not count in the comparison. Whatever its outcome a bump writes
  nothing but the manifest and the lockfiles. For a Python package a failure writes nothing, and a
  success rewrites one line of the manifest, a line of the \<open>[project]\<close> table that gave the old version.
\<close>

theorem bump_effect:
  assumes "run_state (bump P config name e level) fs = (r, fs')"
  shows "(\<forall>new. r = Inr new \<longrightarrow> level \<in> {''major'', ''minor'', ''patch''} \<and> (\<exists>s current v w. fs (en_manifest e) = Some s \<and>
      read_version P (en_kind e) s = Inr current \<and>
      numbers_of (en_kind e) current = Some v \<and> numbers_of (en_kind e) new = Some w \<and> new = version_text w \<and>
      v < w \<and> at_level level w \<and> (\<forall>x. v < x \<and> at_level level x \<longrightarrow> w \<le> x))) \<and>
    (\<forall>p. p \<notin> bump_files config e \<longrightarrow> fs' p = fs p) \<and>
    (en_kind e = Python \<longrightarrow> (case r of Inl _ \<Rightarrow> fs' = fs | Inr new \<Rightarrow>
      (\<exists>s s' current i l. fs (en_manifest e) = Some s \<and> fs' = fs(en_manifest e \<mapsto> s') \<and>
         read_version P Python s = Inr current \<and> in_table ''project'' (split_at newline s) i \<and>
         replace_in_line current new (split_at newline s ! i) = Some l \<and>
         split_at newline s' = (split_at newline s)[i := l])))"
proof (intro conjI)
  show "\<forall>p. p \<notin> bump_files config e \<longrightarrow> fs' p = fs p"
    using bump_writes [of P config name e level] assms by (metis snd_conv writes_only_def)
qed (use assms bump_raises bump_python_line in blast)+

definition demo_manifest_text :: string where
  "demo_manifest_text = ''[project]'' @ [newline] @ ''version = '' @ [CHR 34] @ ''0.7.3'' @ [CHR 34] @ [newline]"

definition demo_package :: package_entry where
  "demo_package = \<lparr>en_kind = Python, en_manifest = ''p'', en_tag_prefix = ''v'', en_workflow = ''w'', en_lockfile = None\<rparr>"

definition demo_parsers :: parsers where
  "demo_parsers = \<lparr>pr_releases = (\<lambda>_. Some [(''p'', demo_package)]), pr_json = (\<lambda>_. None),
     pr_toml = (\<lambda>s. Some (JObj [(''project'', JObj [(''version'', JStr (if s = demo_manifest_text then ''0.7.3'' else ''0.7.4''))])]))\<rparr>"

theorem bump_effect_witness:
  "let fs' = [''p'' \<mapsto> ''[project]'' @ [newline] @ ''version = '' @ [CHR 34] @ ''0.8.0'' @ [CHR 34] @ [newline]] in
   run_state (bump demo_parsers [] ''p'' demo_package ''minor'') [''p'' \<mapsto> demo_manifest_text] = (Inr ''0.8.0'', fs') \<and>
     (\<exists>v w. numbers_of Python ''0.7.3'' = Some v \<and> numbers_of Python ''0.8.0'' = Some w \<and> v < w)"
proof -
  let ?fs = "[''p'' \<mapsto> demo_manifest_text]"
  let ?s' = "''[project]'' @ [newline] @ ''version = '' @ [CHR 34] @ ''0.8.0'' @ [CHR 34] @ [newline]"
  have p: "en_kind demo_package = Python" "en_manifest demo_package = ''p''" by (simp_all add: demo_package_def)
  have v: "read_version demo_parsers Python demo_manifest_text = Inr ''0.7.3''"
    by (simp add: read_version_def demo_parsers_def parsed_def raised_def jindex_def raise_simps)
  have n: "next_version Python ''0.7.3'' ''minor'' = Inr ''0.8.0''" by code_simp
  have r: "replace_toml_version demo_manifest_text ''project'' ''0.7.3'' ''0.8.0'' = Inr ?s'"
    unfolding demo_manifest_text_def by code_simp
  have run: "run_state (bump demo_parsers [] ''p'' demo_package ''minor'') ?fs = (Inr ''0.8.0'', ?fs(''p'' \<mapsto> ?s'))"
    unfolding bump_python [OF p(1)] using p(2) v n r by (simp add: raise_simps)
  have "\<exists>v w. numbers_of Python ''0.7.3'' = Some v \<and> numbers_of Python ''0.8.0'' = Some w \<and> v < w"
    using bump_effect [OF run] p v by auto
  then show ?thesis using run by simp
qed

text \<open>
  C40. What is announced for release. A package is announced exactly if its manifest's version after is
  one, and not the one it had before, where the configuration of before had it; and where the files of
  the later commit are checked out, the announced tag passes the check exactly if the version has
  the form of a release and the commit is on the main branch.
\<close>

theorem announced_releases:
  assumes "changed P G config before after = Inr rows" "distinct (map fst config)" "map_of config name = Some e"
  shows "((name, v, tag, workflow) \<in> set rows \<longleftrightarrow> tag = en_tag_prefix e @ v \<and> workflow = en_workflow e \<and>
      version_at P G e after = Inr (Some v) \<and>
      (\<exists>previous. config_at P G before = Inr previous \<and>
         version_at P G (case map_of previous name of Some p \<Rightarrow> p | None \<Rightarrow> e) before \<noteq> Inr (Some v))) \<and>
    ((name, v, tag, workflow) \<in> set rows \<and> fs (en_manifest e) = git_show G after (en_manifest e) \<longrightarrow>
      (run_state (check P G e tag after main) fs = (Inr (), fs) \<longleftrightarrow>
         version_match (en_kind e) v \<noteq> None \<and> git_ancestor G after main = 0))"
  by (rule conjI [OF changed_rows [OF assms]]) (use changed_tag_checks [OF assms] in blast)

definition demo_git :: git_repo where
  "demo_git = \<lparr>git_commit = (\<lambda>_. True), git_has = (\<lambda>_ _. True),
     git_show = (\<lambda>c p. if c = ''a'' \<and> p = ''p'' then Some demo_manifest_text else Some []), git_ancestor = (\<lambda>_ _. 0)\<rparr>"

theorem announced_releases_witness:
  "changed demo_parsers demo_git [(''p'', demo_package)] ''a'' ''b'' = Inr [(''p'', ''0.7.4'', ''v0.7.4'', ''w'')] \<and>
   run_state (check demo_parsers demo_git demo_package ''v0.7.4'' ''b'' ''m'') [''p'' \<mapsto> []] = (Inr (), [''p'' \<mapsto> []])"
proof -
  have read: "read_version demo_parsers Python s = Inr (if s = demo_manifest_text then ''0.7.3'' else ''0.7.4'')" for s
    by (simp add: read_version_def demo_parsers_def parsed_def raised_def jindex_def raise_simps)
  have nil: "[] \<noteq> demo_manifest_text" by (simp add: demo_manifest_text_def)
  have rel: "pr_releases demo_parsers s = Some [(''p'', demo_package)]" for s by (simp add: demo_parsers_def)
  have c: "changed demo_parsers demo_git [(''p'', demo_package)] ''a'' ''b'' = Inr [(''p'', ''0.7.4'', ''v0.7.4'', ''w'')]"
    using nil by (simp add: changed_def require_commit_def config_at_def release_row_def version_at_def read rel parsed_def
      demo_git_def demo_package_def raise_simps)
  have m: "version_match Python ''0.7.4'' \<noteq> None" by code_simp
  show ?thesis
    using c m announced_releases [OF c, of "''p''" demo_package "''0.7.4''" "''v0.7.4''" "''w''" "[''p'' \<mapsto> []]" "''m''"]
    by (simp add: demo_git_def demo_package_def)
qed

text \<open>
  A bump that fails may have been done: a crate's manifest is written before its lockfile is found not
  to have the crate.
\<close>

definition demo_crate :: package_entry where
  "demo_crate = \<lparr>en_kind = Cargo, en_manifest = ''c'', en_tag_prefix = ''v'', en_workflow = ''w'', en_lockfile = Some ''l''\<rparr>"

definition crate_text :: "string \<Rightarrow> string" where
  "crate_text v = ''[package]'' @ [newline] @ ''version = '' @ [CHR 34] @ v @ [CHR 34] @ [newline]"

definition crate_parsers :: parsers where
  "crate_parsers = \<lparr>pr_releases = (\<lambda>_. Some [(''c'', demo_crate)]), pr_json = (\<lambda>_. None),
     pr_toml = (\<lambda>s. Some (JObj [(''package'', JObj [(''name'', JStr ''c''),
       (''version'', JStr (if s = crate_text ''0.7.3'' then ''0.7.3'' else ''0.8.0''))])]))\<rparr>"

theorem failed_bump_kept:
  "run_state (bump crate_parsers [(''c'', demo_crate)] ''c'' demo_crate ''minor'') [''c'' \<mapsto> crate_text ''0.7.3'', ''l'' \<mapsto> []] =
     (Inl (Lock_Without_Entry ''l'' ''c'' ''0.7.3''), [''l'' \<mapsto> [], ''c'' \<mapsto> crate_text ''0.8.0''])"
proof -
  have p: "en_kind demo_crate = Cargo" "en_manifest demo_crate = ''c''" "own_lockfile demo_crate = Some ''l''"
    by (simp_all add: demo_crate_def own_lockfile_def)
  have toml: "pr_toml crate_parsers s = Some (JObj [(''package'', JObj [(''name'', JStr ''c''),
       (''version'', JStr (if s = crate_text ''0.7.3'' then ''0.7.3'' else ''0.8.0''))])])" for s
    by (simp add: crate_parsers_def)
  have v: "read_version crate_parsers Cargo (crate_text ''0.7.3'') = Inr ''0.7.3''"
    by (simp add: read_version_def toml parsed_def raised_def jindex_def raise_simps)
  have n: "next_version Cargo ''0.7.3'' ''minor'' = Inr ''0.8.0''" by code_simp
  have r: "replace_toml_version (crate_text ''0.7.3'') ''package'' ''0.7.3'' ''0.8.0'' = Inr (crate_text ''0.8.0'')"
    unfolding crate_text_def by code_simp
  have t: "text_in (lock_entry ''c'' ''0.7.3'') [] = False" unfolding lock_entry_def newline_def by code_simp
  show ?thesis
    by (simp add: bump_def Let_def p v n r toml bump_locks_def replace_lock_version_def t parsed_def raised_def jindex_def raise_simps)
qed

end
