(* ===== verification/Spec2Isabelle.thy ===== *)
theory Spec2Isabelle
  imports Merkle_Consistency Checkpoint Hosted_Routes Fuzzer Neutrality Hostname_Lint Leak_Lint Release
begin

text \<open>
  A verification library for \<open>scitt-cose\<close>: the Python package \<open>src/scitt_cose/\<close> (Signed Statements
  and COSE Receipts of a transparency service) and the hosted verifier \<open>src/hosted_profiles/\<close> on
  top of it.

  \<^bold>\<open>The program and how its parts interact.\<close> A \<^emph>\<open>Signed Statement\<close> is a COSE_Sign1 message
  (\<open>statement.py\<close>, \<open>cose_sign1.py\<close>). A log hashes statements into a Merkle tree (\<open>merkle.py\<close>) and
  issues a \<^emph>\<open>receipt\<close>: a COSE_Sign1 message with a detached payload, the root, and an inclusion proof
  in its unprotected header (\<open>receipt.py\<close>). A verifier first holds the receipt's octets to an
  encoding rule (\<open>_encoding_rule.py\<close>), rebuilds the root from the proof and the caller's leaf, and
  verifies the signature over that root. \<open>cll.py\<close> does the same for logs kept as a Merkle mountain
  range whose root is published in signed checkpoints. \<open>cli.py\<close> and \<open>vectors.py\<close> are the two
  command-line programs. \<open>hosted.py\<close> serves the verification over HTTP (\<open>POST /verify\<close>, the pages of
  capsules and bundles, the look-up of an anchor), and \<open>aac.py\<close> and \<open>machine_mandate.py\<close> turn JSON
  records into what the pages show.

  \<^bold>\<open>Theories, in the order of the imports.\<close>
  \<^item> \<open>Prelude\<close>: octets, exceptions as values (\<open>e + 'a\<close>, \<open>Inl\<close> a raise), \<open>rbind\<close>/\<open>rmap\<close>/\<open>rmapM\<close>, the
    hexadecimal and integer conversions of the standard library, the collections \<open>raise_simps\<close> and
    \<open>hash_lengths\<close>. \<open>Sha256\<close>: FIPS 180-4. \<open>Hash_Path\<close>: walking from a leaf to a root; its locale
    \<open>step_preimage\<close> says what the hashed octets of one step determine, and gives binding up to an
    exhibited collision; it is interpreted on the RFC 9162 node (\<open>Merkle\<close>), on the mountain range's
    position-bound node (\<open>Mmr_Proofs\<close>) and on the CCF node (\<open>Receipt\<close>).
  \<^item> \<open>Merkle\<close>, \<open>Merkle_Consistency\<close> (\<open>merkle.py\<close>): the tree hash, inclusion and consistency proofs;
    completeness, soundness, binding, and what the consistency verifier accepts beyond its contract.
  \<^item> \<open>Encoding_Rule\<close> (\<open>_encoding_rule.py\<close>): the walk over raw octets, equal to a grammar of
    shortest-form items. \<open>Py_Values\<close>: the Python objects \<open>cbor2\<close> exchanges, with Python's equality.
    \<open>Libraries\<close>: \<open>cbor2\<close> and \<open>cryptography\<close> as records of functions, and their documented behaviour
    as named predicates.
  \<^item> \<open>Cose_Sign1\<close> (\<open>cose_sign1.py\<close>): signing and verification; a verified message was checked under
    its algorithm's key type and curve, over its own octets; critical headers. \<open>Receipt\<close>
    (\<open>receipt.py\<close>): minting, decoding the proofs, the verifier with both tree formats; soundness,
    binding to a log, round trip, the shape of every result, totality. \<open>Statement\<close>
    (\<open>statement.py\<close>): building, parsing, attaching and extracting receipts.
  \<^item> \<open>Json\<close>, \<open>Json_Text\<close>: JSON values, \<open>json.dumps\<close> and reading it back. \<open>Mmr\<close> (\<open>cll.py\<close>): positions,
    hashes and the three proof verifiers. \<open>Mmr_Layout\<close>: the arithmetic of positions agrees with the
    mountains it numbers. \<open>Mmr_Proofs\<close>, \<open>Mmr_History\<close>: the range over a list of leaves as a
    specification; every honest proof is accepted, every accepted one speaks of the log.
    \<open>Checkpoint\<close> (\<open>cll.py\<close>): checkpoints, and a leaf, a later checkpoint and a range against one.
  \<^item> \<open>Verify_Cli\<close> (\<open>cli.py\<close>, \<open>vectors.py\<close>): the exit status means what it says.
  \<^item> \<open>Machine_Mandate\<close> (\<open>machine_mandate.py\<close>), \<open>Aac\<close>, \<open>Aac_Ritual\<close> (\<open>aac.py\<close>): the graph of a capsule and
    its invariant, the four stages of the check over a bundle, and the walk up the parents (a
    \<open>partial_function\<close>, with the theorem that it ends on every bundle).
  \<^item> \<open>Base64\<close>, \<open>Hosted_Verify\<close> (\<open>_b64\<close>, \<open>verify_payload\<close>, \<open>verify_request_bytes\<close> of \<open>hosted.py\<close>): the
    verdict fails closed. \<open>Rate_Gate\<close> (\<open>_RateGate\<close>): refinement of an abstract partition of time
    into windows, the bound in any minute, and that a refusal ends. \<open>Hosted\<close>, \<open>Hosted_Routes\<close>: the
    counters, the anchor look-up, \<open>make_handler\<close> and \<open>make_asgi_app\<close> with their responses; where the
    two wrappers route a request alike and where not, and which octets of a request each verifies.
  \<^item> \<open>Vector_Mint\<close> (\<open>scripts/generate_test_vectors.py\<close>): the published vectors pass the runner of
    \<open>Verify_Cli\<close>, honest and spoilt, and each spoilt one fails in its one place. \<open>Fuzzer\<close> (\<open>scripts/differential_fuzz.py\<close>): the mutators, in the
    state monad over the random draws, and the loop; a run is determined by its seed, and what two of
    the mutations really test in the verifiers of \<open>Encoding_Rule\<close> and \<open>Receipt\<close>.
  \<^item> \<open>Lint_Text\<close>: texts as code points, and the locales \<open>line_scan\<close> (a scan of lines reports what it says
    of each line it keeps, and nothing else) and \<open>allowlist_scan\<close>. \<open>Neutrality\<close>
    (\<open>.github/neutrality_scan.py\<close>), \<open>Hostname_Lint\<close> (\<open>.github/hostname_lint.py\<close>) and \<open>Leak_Lint\<close>
    (\<open>.github/leak_lint.py\<close>) interpret them: what a passing run covers, and what it misses; for the last,
    the relation \<open>exempted\<close> says what may be taken out of a lockfile's line before the terms are searched. \<open>Release_Version\<close>, \<open>Release\<close> (\<open>.github/release.py\<close>):
    versions, as a \<open>linorder\<close>, and the next version; the three commands as actions on the files of the
    repository, in the state monad; which files a bump may write, and what it leaves when it fails;
    when a package is announced for release.

  \<^bold>\<open>Conventions.\<close> A Python \<open>str\<close> is a \<open>string\<close> of its UTF-8 octets (a list of code points in the checks
  of texts), \<open>bytes\<close> is \<open>8 word list\<close>, \<open>int\<close> is
  \<open>int\<close>, a dict an association list in insertion order. Exceptions are values. Messages are
  constructors that keep their arguments, not their English. A theorem that rests on SHA-256 having no
  collisions says instead that two different octet strings of equal digest are exhibited. The
  witnesses instantiate the libraries with small concrete functions and leave the digests symbolic.

  \<^bold>\<open>Bounds.\<close> The code's own limits are in the model (tree size \<open>2^62\<close>, \<open>2^50\<close> nodes of a range, 64
  proof nodes, 64 proofs, depth of items, 1,000,000 octets of a request), and no other bound is added:
  every recursion but the walk up the parents is a terminating function, and no fuel is used. The
  fuzzer's number of iterations is its own argument.

  \<^bold>\<open>Not modelled.\<close> \<open>_status.py\<close> and the two \<open>__init__.py\<close> are constants and re-exports. The HTML, CSS
  and JavaScript that \<open>hosted.py\<close> and \<open>machine_mandate.py\<close> hold as Python strings are text the server
  sends: the model says which page is sent and not what it looks like. Of Python's \<open>str\<close>, surrogates
  and Unicode case tables are out of reach of octet strings; of \<open>json\<close>, the shortest decimal of a
  float. The verifiers in Go and Rust and the tests are other programs. The other vector generators write
  fixed files once, from checkouts of other repositories, and the demonstrations run packages that are
  not here. Where the checks print fixed advice around their findings, the advice is left out.
\<close>

end
